(* ===== verification/Butl_Prelude.thy ===== *)
theory Butl_Prelude
  imports Main "HOL-Library.Char_ord" "HOL-Library.List_Lexorder"
begin

text \<open>
  Shared vocabulary of the development: the C++ failures as values, byte strings read through
  iterators, the character classes of \<open>libbutl/utility.ixx\<close> (in the "C" locale), the decimal
  conversions \<open>to_string\<close> and \<open>strtoull\<close> of the standard library, 64-bit wrap-around, and the
  string searches of \<open>std::string\<close>. A position \<open>p\<close> of the sources into a string \<open>s\<close> is here the
  remaining suffix, so \<open>s[p]\<close> (which is NUL at the end of the string) is \<open>cur\<close> of the suffix.
\<close>

named_theorems char_defs \<open>definitions of the character classes\<close>
named_theorems str_simps \<open>rewriting of string scanning on concrete shapes\<close>

section \<open>Failures\<close>

datatype cxx_error =
    Invalid_argument string  \<comment> \<open>\<open>std::invalid_argument\<close> and its description\<close>
  | Logic_error string
  | Assertion_failure        \<comment> \<open>an \<open>assert\<close> that does not hold\<close>

type_synonym 'a result = "cxx_error + 'a"

section \<open>Characters\<close>

abbreviation ord :: "char \<Rightarrow> nat" where "ord c \<equiv> of_char c"

abbreviation NUL :: char where "NUL \<equiv> CHR 0x00"

definition digit :: "char \<Rightarrow> bool" where
  [char_defs]: "digit c \<longleftrightarrow> 48 \<le> ord c \<and> ord c \<le> 57"

definition alpha :: "char \<Rightarrow> bool" where
  [char_defs]: "alpha c \<longleftrightarrow> (65 \<le> ord c \<and> ord c \<le> 90) \<or> (97 \<le> ord c \<and> ord c \<le> 122)"

definition alnum :: "char \<Rightarrow> bool" where
  [char_defs]: "alnum c \<longleftrightarrow> alpha c \<or> digit c"

definition xdigit :: "char \<Rightarrow> bool" where
  [char_defs]: "xdigit c \<longleftrightarrow> digit c \<or> (65 \<le> ord c \<and> ord c \<le> 70) \<or> (97 \<le> ord c \<and> ord c \<le> 102)"

text \<open>\<open>isspace\<close>: space, \<open>\t\<close>, \<open>\n\<close>, \<open>\v\<close>, \<open>\f\<close> and \<open>\r\<close>.\<close>

definition isspace :: "char \<Rightarrow> bool" where
  [char_defs]: "isspace c \<longleftrightarrow> ord c = 32 \<or> (9 \<le> ord c \<and> ord c \<le> 13)"

definition lcase_char :: "char \<Rightarrow> char" where
  "lcase_char c = (if 65 \<le> ord c \<and> ord c \<le> 90 then char_of (ord c + 32) else c)"

definition lcase :: "string \<Rightarrow> string" where
  "lcase s = map lcase_char s"

lemma digit_not_alpha [simp]: "digit c \<Longrightarrow> \<not> alpha c"
  by (auto simp: char_defs)

lemma digit_alnum [simp]: "digit c \<Longrightarrow> alnum c"
  by (simp add: alnum_def)

lemma digit_not_isspace [simp]: "digit c \<Longrightarrow> \<not> isspace c"
  by (auto simp: char_defs)

lemma ord_inject [simp]: "ord c = ord d \<longleftrightarrow> c = d"
  by simp

section \<open>Reading a string at a position\<close>

text \<open>\<open>s[p]\<close> for \<open>p \<le> s.size ()\<close>: the character, or NUL at the end.\<close>

definition cur :: "string \<Rightarrow> char" where
  "cur s = (case s of [] \<Rightarrow> NUL | c # _ \<Rightarrow> c)"

lemma cur_simps [simp]: "cur [] = NUL" "cur (c # s) = c"
  by (simp_all add: cur_def)

lemma cur_append: "cur (s @ t) = (if s = [] then cur t else cur s)"
  by (cases s) simp_all

text \<open>
  \<open>find_first_of\<close> and \<open>find_first_not_of\<close> from the current position: the suffix that starts at
  the character found, the empty suffix standing for \<open>npos\<close>.
\<close>

definition find_first_of :: "string \<Rightarrow> string \<Rightarrow> string" where
  "find_first_of cs s = dropWhile (\<lambda>c. c \<notin> set cs) s"

definition find_first_not_of :: "string \<Rightarrow> string \<Rightarrow> string" where
  "find_first_not_of cs s = dropWhile (\<lambda>c. c \<in> set cs) s"

text \<open>The characters from the current position up to the one \<open>find_first_of\<close> finds.\<close>

definition until_first_of :: "string \<Rightarrow> string \<Rightarrow> string" where
  "until_first_of cs s = takeWhile (\<lambda>c. c \<notin> set cs) s"

lemma until_find [simp]: "until_first_of cs s @ find_first_of cs s = s"
  by (simp add: until_first_of_def find_first_of_def)

lemma until_first_of_append [str_simps]:
  "set s \<inter> set cs = {} \<Longrightarrow> until_first_of cs (s @ t) = s @ until_first_of cs t"
  by (induction s) (auto simp: until_first_of_def)

lemma find_first_of_append [str_simps]:
  "set s \<inter> set cs = {} \<Longrightarrow> find_first_of cs (s @ t) = find_first_of cs t"
  by (induction s) (auto simp: find_first_of_def)

lemma find_first_of_self [str_simps]: "set s \<inter> set cs = {} \<Longrightarrow> find_first_of cs s = []"
  by (induction s) (auto simp: find_first_of_def)

lemma until_first_of_self [str_simps]: "set s \<inter> set cs = {} \<Longrightarrow> until_first_of cs s = s"
  by (induction s) (auto simp: until_first_of_def)

lemma find_first_of_Cons [simp]:
  "find_first_of cs (c # s) = (if c \<in> set cs then c # s else find_first_of cs s)"
  by (simp add: find_first_of_def)

lemma until_first_of_Cons [simp]:
  "until_first_of cs (c # s) = (if c \<in> set cs then [] else c # until_first_of cs s)"
  by (simp add: until_first_of_def)

lemma find_first_not_of_Cons [simp]:
  "find_first_not_of cs (c # s) = (if c \<in> set cs then find_first_not_of cs s else c # s)"
  by (simp add: find_first_not_of_def)

lemma find_first_Nil [simp]:
  "find_first_of cs [] = []" "until_first_of cs [] = []" "find_first_not_of cs [] = []"
  by (simp_all add: find_first_of_def until_first_of_def find_first_not_of_def)

lemma find_first_not_of_id [str_simps]:
  "s = [] \<or> hd s \<notin> set cs \<Longrightarrow> find_first_not_of cs s = s"
  by (cases s) auto

section \<open>Unsigned 64-bit arithmetic\<close>

abbreviation uint16_max :: nat where "uint16_max \<equiv> 65535"
abbreviation uint64_max :: nat where "uint64_max \<equiv> 18446744073709551615"
abbreviation uint64_mod :: nat where "uint64_mod \<equiv> 18446744073709551616"

definition u64 :: "nat \<Rightarrow> nat" where
  "u64 n = n mod uint64_mod"

text \<open>\<open>a - b\<close> on \<open>uint64_t\<close>, for \<open>b\<close> within range.\<close>

definition u64_sub :: "nat \<Rightarrow> nat \<Rightarrow> nat" where
  "u64_sub a b = (a + uint64_mod - b) mod uint64_mod"

lemma u64_id [simp]: "n < uint64_mod \<Longrightarrow> u64 n = n"
  by (simp add: u64_def)

lemma u64_sub_le [simp]: "b \<le> a \<Longrightarrow> a < uint64_mod \<Longrightarrow> u64_sub a b = a - b"
  unfolding u64_sub_def by (metis Nat.add_diff_assoc2 less_imp_diff_less mod_add_self2 mod_less)

section \<open>Decimal numbers\<close>

definition digit_char :: "nat \<Rightarrow> char" where
  "digit_char d = char_of (48 + d)"

definition digit_val :: "char \<Rightarrow> nat" where
  "digit_val c = ord c - 48"

text \<open>\<open>std::to_string\<close> of an unsigned integer.\<close>

fun to_string :: "nat \<Rightarrow> string" where
  "to_string n = (if n < 10 then [digit_char n] else to_string (n div 10) @ [digit_char (n mod 10)])"

declare to_string.simps [simp del]

definition dec_val :: "string \<Rightarrow> nat" where
  "dec_val s = foldl (\<lambda>n c. 10 * n + digit_val c) 0 s"

text \<open>
  \<open>strtoull (s, \<dots>, 10)\<close>: leading white space and one sign are skipped; the value saturates (and
  \<open>errno\<close> becomes \<open>ERANGE\<close>, the third component) when it does not fit; a minus sign negates modulo
  \<open>2\<^sup>6\<^sup>4\<close>. Without a digit nothing is consumed.
\<close>

definition strtoull :: "string \<Rightarrow> nat \<times> string \<times> bool" where
  "strtoull s =
     (let t = dropWhile isspace s;
          neg = (cur t = CHR ''-'');
          d = (if cur t = CHR ''-'' \<or> cur t = CHR ''+'' then tl t else t);
          ds = takeWhile digit d;
          v = dec_val ds
      in if ds = [] then (0, s, False)
         else if v > uint64_max then (uint64_max, dropWhile digit d, True)
         else (if neg \<and> v \<noteq> 0 then uint64_mod - v else v, dropWhile digit d, False))"

lemma digit_char_simps [simp]:
  "digit_char 0 = CHR ''0''" "digit_char 1 = CHR ''1''" "digit_char (Suc 0) = CHR ''1''"
  "digit_char 2 = CHR ''2''" "digit_char 3 = CHR ''3''" "digit_char 4 = CHR ''4''"
  "digit_char 5 = CHR ''5''" "digit_char 6 = CHR ''6''" "digit_char 7 = CHR ''7''"
  "digit_char 8 = CHR ''8''" "digit_char 9 = CHR ''9''"
  by code_simp+

lemma ord_digit_char: "d < 10 \<Longrightarrow> ord (digit_char d) = 48 + d"
  by (simp add: digit_char_def)

lemma digit_digit_char [simp]: "d < 10 \<Longrightarrow> digit (digit_char d)"
  by (simp add: digit_def ord_digit_char)

lemma digit_val_digit_char [simp]: "d < 10 \<Longrightarrow> digit_val (digit_char d) = d"
  by (simp add: digit_val_def ord_digit_char)

lemma to_string_not_Nil [simp]: "to_string n \<noteq> []"
  by (subst to_string.simps) simp

lemma to_string_digits: "c \<in> set (to_string n) \<Longrightarrow> digit c"
proof (induction n rule: to_string.induct)
  case (1 n)
  then show ?case
    by (cases "n < 10") (auto simp: to_string.simps [of n])
qed

lemma dec_val_snoc [simp]: "dec_val (s @ [c]) = 10 * dec_val s + digit_val c"
  by (simp add: dec_val_def)

lemma dec_val_to_string [simp]: "dec_val (to_string n) = n"
proof (induction n rule: to_string.induct)
  case (1 n)
  then show ?case
    by (cases "n < 10") (simp_all add: to_string.simps [of n] dec_val_def [of "[_]"])
qed

lemma cur_to_string_digit [simp]: "digit (cur (to_string n @ s))"
  using to_string_digits [of "hd (to_string n)" n] by (cases "to_string n") auto

lemma not_digit_NUL [simp]: "\<not> digit NUL"
  by (simp add: digit_def)

lemma takeWhile_digits [simp]: "\<not> digit (cur s) \<Longrightarrow> takeWhile digit (to_string n @ s) = to_string n"
  by (cases s) (auto simp: takeWhile_append to_string_digits)

lemma dropWhile_digits [simp]: "\<not> digit (cur s) \<Longrightarrow> dropWhile digit (to_string n @ s) = s"
  by (cases s) (auto simp: dropWhile_append to_string_digits)

lemma dropWhile_cur: "\<not> P (cur s) \<Longrightarrow> dropWhile P s = s"
  by (cases s) auto

lemma to_string_cur_not_sign:
  "cur (to_string n @ s) \<noteq> CHR ''-''" "cur (to_string n @ s) \<noteq> CHR ''+''"
  using cur_to_string_digit [of n s] by (auto simp: digit_def)

lemma strtoull_to_string:
  assumes "n \<le> uint64_max" and "\<not> digit (cur s)"
  shows "strtoull (to_string n @ s) = (n, s, False)"
proof -
  have "dropWhile isspace (to_string n @ s) = to_string n @ s"
    by (rule dropWhile_cur) simp
  with assms show ?thesis
    by (simp add: strtoull_def Let_def to_string_cur_not_sign)
qed

lemma to_string_ne_append: "s \<noteq> to_string n @ s"
  by simp

text \<open>Reading back a printed number is injective.\<close>

lemma to_string_inj [simp]: "to_string m = to_string n \<longleftrightarrow> m = n"
  by (metis dec_val_to_string)

section \<open>Three-way comparison\<close>

text \<open>The result of a C++ \<open>compare ()\<close>: negative, zero or positive.\<close>

definition cmp :: "'a::linorder \<Rightarrow> 'a \<Rightarrow> int" where
  "cmp x y = (if x < y then -1 else if x = y then 0 else 1)"

lemma cmp_simps [simp]:
  "cmp x y = 0 \<longleftrightarrow> x = y" "cmp x y < 0 \<longleftrightarrow> x < y" "0 < cmp x y \<longleftrightarrow> y < x"
  by (auto simp: cmp_def)

lemma cmp_le_ge [simp]: "cmp x y \<le> 0 \<longleftrightarrow> x \<le> y" "0 \<le> cmp x y \<longleftrightarrow> y \<le> x"
  by (auto simp: cmp_def)

lemma cmp_refl [simp]: "cmp x x = 0"
  by simp

text \<open>
  The contract of a \<open>compare ()\<close> member: the sign of its result is a total preorder. The laws and the
  properties of ranges built on them are proved once for all the version types.
\<close>

locale three_way =
  fixes compare :: "'a \<Rightarrow> 'a \<Rightarrow> int"
  assumes compare_self: "compare x x = 0"
    and compare_sign: "sgn (compare y x) = - sgn (compare x y)"
    and compare_trans: "compare x y \<le> 0 \<Longrightarrow> compare y z \<le> 0 \<Longrightarrow> compare x z \<le> 0"
begin

lemma less_iff: "compare x y < 0 \<longleftrightarrow> 0 < compare y x"
  using compare_sign [of x y] by (auto simp: sgn_if split: if_splits)

lemma le_iff: "compare x y \<le> 0 \<longleftrightarrow> 0 \<le> compare y x"
  using less_iff [of y x] by linarith

lemma eq_sym: "compare x y = 0 \<longleftrightarrow> compare y x = 0"
  using compare_sign [of x y] by (auto simp: sgn_if split: if_splits)

lemma less_le_trans:
  assumes "compare x y < 0" "compare y z \<le> 0"
  shows "compare x z < 0"
proof (rule ccontr)
  assume "\<not> compare x z < 0"
  then have "compare z x \<le> 0" by (simp add: le_iff)
  with assms(2) have "compare y x \<le> 0" by (rule compare_trans)
  with assms(1) show False by (simp add: less_iff)
qed

lemma le_less_trans:
  assumes "compare x y \<le> 0" "compare y z < 0"
  shows "compare x z < 0"
proof (rule ccontr)
  assume "\<not> compare x z < 0"
  then have "compare z x \<le> 0" by (simp add: le_iff)
  then have "compare z y \<le> 0" using assms(1) by (rule compare_trans)
  with assms(2) show False by (simp add: less_iff)
qed

text \<open>A range with optional, open or closed endpoints, the way every \<open>satisfies ()\<close> tests one.\<close>

definition within :: "'a option \<Rightarrow> bool \<Rightarrow> 'a option \<Rightarrow> bool \<Rightarrow> 'a \<Rightarrow> bool" where
  "within mn mno mx mxo v \<longleftrightarrow>
     (\<forall>m. mn = Some m \<longrightarrow> (if mno then 0 < compare v m else 0 \<le> compare v m)) \<and>
     (\<forall>m. mx = Some m \<longrightarrow> (if mxo then compare v m < 0 else compare v m \<le> 0))"

lemma within_convex:
  assumes "within mn mno mx mxo x" "within mn mno mx mxo z" "compare x y \<le> 0" "compare y z \<le> 0"
  shows "within mn mno mx mxo y"
proof -
  have "if mno then 0 < compare y m else 0 \<le> compare y m"
    if "if mno then 0 < compare x m else 0 \<le> compare x m" for m
    using that less_le_trans [OF _ assms(3), of m] compare_trans [OF _ assms(3), of m]
    by (simp add: less_iff [of m] le_iff [of m] split: if_splits)
  moreover have "if mxo then compare y m < 0 else compare y m \<le> 0"
    if "if mxo then compare z m < 0 else compare z m \<le> 0" for m
    using that le_less_trans [OF assms(4), of m] compare_trans [OF assms(4), of m]
    by (simp split: if_splits)
  ultimately show ?thesis
    using assms(1,2) unfolding within_def by blast
qed

text \<open>When one range is part of another, endpoint by endpoint.\<close>

lemma within_subset:
  assumes "within mn mno mx mxo v"
    and min: "mn' = None \<or> (\<exists>m m'. mn = Some m \<and> mn' = Some m' \<and>
      (if \<not> mno \<and> mno' then 0 < compare m m' else 0 \<le> compare m m'))"
    and max: "mx' = None \<or> (\<exists>m m'. mx = Some m \<and> mx' = Some m' \<and>
      (if \<not> mxo \<and> mxo' then compare m m' < 0 else compare m m' \<le> 0))"
  shows "within mn' mno' mx' mxo' v"
  unfolding within_def
proof (intro conjI allI impI)
  fix m' assume m': "mn' = Some m'"
  with min obtain m where m: "mn = Some m" "if \<not> mno \<and> mno' then 0 < compare m m' else 0 \<le> compare m m'" by auto
  with assms(1) have v: "if mno then 0 < compare v m else 0 \<le> compare v m" by (simp add: within_def)
  show "if mno' then 0 < compare v m' else 0 \<le> compare v m'"
    using m v le_less_trans [of m' m v] less_le_trans [of m' m v] compare_trans [of m' m v]
    by (auto simp: less_iff [symmetric] le_iff [symmetric] split: if_splits)
next
  fix m' assume m': "mx' = Some m'"
  with max obtain m where m: "mx = Some m" "if \<not> mxo \<and> mxo' then compare m m' < 0 else compare m m' \<le> 0" by auto
  with assms(1) have v: "if mxo then compare v m < 0 else compare v m \<le> 0" by (simp add: within_def)
  show "if mxo' then compare v m' < 0 else compare v m' \<le> 0"
    using m v le_less_trans [of v m m'] less_le_trans [of v m m'] compare_trans [of v m m']
    by (auto split: if_splits)
qed

lemma within_equal:
  assumes "compare x y = 0" "within mn mno mx mxo x"
  shows "within mn mno mx mxo y"
proof -
  have "compare y x = 0" using assms(1) by (rule eq_sym [THEN iffD1])
  with assms show ?thesis by (simp add: within_convex [of mn mno mx mxo x x])
qed

end

text \<open>A \<open>compare ()\<close> that orders a key lexicographically meets the contract.\<close>

locale key_compare =
  fixes compare :: "'a \<Rightarrow> 'a \<Rightarrow> int" and key :: "'a \<Rightarrow> 'k::linorder"
  assumes compare_key: "compare x y = cmp (key x) (key y)"

sublocale key_compare \<subseteq> three_way compare
proof unfold_locales
  show "sgn (compare y x) = - sgn (compare x y)" for x y
    by (auto simp: compare_key cmp_def)
qed (auto simp: compare_key)

end
