(* ===== verification/Standard_Version.thy ===== *)
theory Standard_Version
  imports Butl_Prelude "HOL-Library.Product_Lexorder"
begin

text \<open>
  The build2 standard version (\<open>libbutl/standard-version.cxx\<close>, \<open>.ixx\<close>, \<open>.mxx\<close>): its numeric form
  \<open>AAAAABBBBBCCCCCDDDE\<close>, the parser of its string form with every failure reason, the printers, the
  constructors from components with their checks, and the comparison. The parsers read \<open>errno\<close>
  without clearing it, so they take \<open>er\<close> (\<open>errno == ERANGE\<close> on entry) and a failure carries the
  value on exit; after a success \<open>errno\<close> is unchanged and not \<open>ERANGE\<close>.
\<close>

section \<open>Numbers inside versions\<close>

definition parse_uint64 :: "bool \<Rightarrow> string \<Rightarrow> nat \<Rightarrow> nat \<Rightarrow> bool + (nat \<times> string)" where
  "parse_uint64 er s mn mx =
     (if cur s = CHR ''-'' \<or> cur s = CHR ''+'' then Inl er
      else case strtoull s of (v, e, ov) \<Rightarrow>
        let er' = (er \<or> ov)
        in if er' \<or> e = s \<or> v < mn \<or> v > mx then Inl er' else Inr (v, e))"

definition parse_uint16 :: "bool \<Rightarrow> string \<Rightarrow> nat \<Rightarrow> nat \<Rightarrow> bool + (nat \<times> string)" where
  "parse_uint16 er s mn mx = parse_uint64 er s mn mx"

definition parse_uint32 :: "bool \<Rightarrow> string \<Rightarrow> bool + (nat \<times> string)" where
  "parse_uint32 er s = parse_uint64 er s 0 99999"

section \<open>The version and its observers\<close>

abbreviation latest_sn :: nat where "latest_sn \<equiv> uint64_max"

record standard_version =
  sv_epoch :: nat
  sv_version :: nat
  sv_snapshot_sn :: nat
  sv_snapshot_id :: string
  sv_revision :: nat

record flags =
  allow_earliest :: bool
  allow_stub :: bool

definition no_flags :: flags where
  "no_flags = \<lparr>allow_earliest = False, allow_stub = False\<rparr>"

definition earliest_flag :: flags where
  "earliest_flag = \<lparr>allow_earliest = True, allow_stub = False\<rparr>"

definition empty_standard_version :: standard_version where
  "empty_standard_version =
     \<lparr>sv_epoch = 1, sv_version = 0, sv_snapshot_sn = 0, sv_snapshot_id = '''', sv_revision = 0\<rparr>"

definition sv_empty :: "standard_version \<Rightarrow> bool" where
  "sv_empty v \<longleftrightarrow> sv_version v = 0"

definition sv_stub :: "standard_version \<Rightarrow> bool" where
  "sv_stub v \<longleftrightarrow> sv_version v = uint64_max"

definition sv_snapshot :: "standard_version \<Rightarrow> bool" where
  "sv_snapshot v \<longleftrightarrow> sv_snapshot_sn v \<noteq> 0"

text \<open>
  \<open>AAAAABBBBBCCCCCDDD\<close> with the one that a pre-release borrows from \<open>AAAAABBBBBCCCCC\<close> given back:
  the common prologue of \<open>major ()\<close>, \<open>minor ()\<close> and \<open>patch ()\<close>.
\<close>

definition sv_restored :: "nat \<Rightarrow> nat" where
  "sv_restored ver =
     (let e = ver mod 10; v = ver div 10; ab = v mod 1000
      in if ab \<noteq> 0 \<or> e = 1 then v + (1000 - ab) else v)"

definition sv_major :: "standard_version \<Rightarrow> nat" where
  "sv_major v = sv_restored (sv_version v) div 10000000000000 mod 100000"

definition sv_minor :: "standard_version \<Rightarrow> nat" where
  "sv_minor v = sv_restored (sv_version v) div 100000000 mod 100000"

definition sv_patch :: "standard_version \<Rightarrow> nat" where
  "sv_patch v = sv_restored (sv_version v) div 1000 mod 100000"

definition sv_release :: "standard_version \<Rightarrow> bool" where
  "sv_release v \<longleftrightarrow> sv_version v mod 10000 = 0"

definition sv_pre_release :: "standard_version \<Rightarrow> nat option" where
  "sv_pre_release v =
     (if sv_release v \<or> sv_stub v then None else Some (sv_version v div 10 mod 1000))"

definition sv_alpha :: "standard_version \<Rightarrow> nat option" where
  "sv_alpha v = (case sv_pre_release v of Some pr \<Rightarrow> if pr < 500 then Some pr else None | None \<Rightarrow> None)"

definition sv_beta :: "standard_version \<Rightarrow> nat option" where
  "sv_beta v =
     (case sv_pre_release v of Some pr \<Rightarrow> if 500 \<le> pr then Some (pr - 500) else None | None \<Rightarrow> None)"

definition sv_final :: "standard_version \<Rightarrow> bool" where
  "sv_final v \<longleftrightarrow> sv_release v \<or> \<not> (sv_snapshot v \<or> sv_stub v)"

definition sv_earliest :: "standard_version \<Rightarrow> bool" where
  "sv_earliest v \<longleftrightarrow> sv_version v mod 10000 = 1 \<and> \<not> sv_snapshot v \<and> \<not> sv_stub v"

definition sv_latest_snapshot :: "standard_version \<Rightarrow> bool" where
  "sv_latest_snapshot v \<longleftrightarrow> sv_snapshot v \<and> sv_snapshot_sn v = latest_sn"

definition sv_compare :: "standard_version \<Rightarrow> standard_version \<Rightarrow> bool \<Rightarrow> int" where
  "sv_compare x y ignore_revision =
     (if sv_epoch x \<noteq> sv_epoch y then (if sv_epoch x < sv_epoch y then -1 else 1)
      else if sv_version x \<noteq> sv_version y then (if sv_version x < sv_version y then -1 else 1)
      else if sv_snapshot_sn x \<noteq> sv_snapshot_sn y
           then (if sv_snapshot_sn x < sv_snapshot_sn y then -1 else 1)
      else if \<not> ignore_revision \<and> sv_revision x \<noteq> sv_revision y
           then (if sv_revision x < sv_revision y then -1 else 1)
      else 0)"

section \<open>Parsing\<close>

type_synonym parse_failure = "string \<times> bool" \<comment> \<open>the failure reason and \<open>errno == ERANGE\<close>\<close>

definition parse_snapshot ::
  "bool \<Rightarrow> string \<Rightarrow> standard_version \<Rightarrow> parse_failure + (standard_version \<times> string)" where
  "parse_snapshot er s r =
     (if cur s = CHR ''z''
      then Inr (r\<lparr>sv_snapshot_sn := latest_sn, sv_snapshot_id := ''''\<rparr>, tl s)
      else case parse_uint64 er s 1 (latest_sn - 1) of
        Inl er' \<Rightarrow> Inl (''invalid snapshot number'', er')
      | Inr (sn, s1) \<Rightarrow>
          if cur s1 = CHR ''.''
          then let id = takeWhile alnum (tl s1); s2 = dropWhile alnum (tl s1)
               in if id = '''' \<or> length id > 16 then Inl (''invalid snapshot id'', er)
                  else Inr (r\<lparr>sv_snapshot_sn := sn, sv_snapshot_id := id\<rparr>, s2)
          else Inr (r\<lparr>sv_snapshot_sn := sn, sv_snapshot_id := ''''\<rparr>, s1))"

text \<open>
  The pre-release component after \<open>maj.min.patch\<close>: the version with the snapshot set, the \<open>ab\<close>
  number, whether this is the earliest pre-release, and the remaining input.
\<close>

definition parse_pre_release ::
  "bool \<Rightarrow> string \<Rightarrow> standard_version \<Rightarrow> flags \<Rightarrow>
     parse_failure + (standard_version \<times> nat \<times> bool \<times> string)" where
  "parse_pre_release er s r f =
     (if cur s \<noteq> CHR ''-'' then Inr (r, 0, False, s)
      else let s1 = tl s; k = cur s1 in
        if k = NUL \<and> allow_earliest f then Inr (r, 0, True, s1)
        else if k \<noteq> CHR ''a'' \<and> k \<noteq> CHR ''b'' then Inl ('''a' or 'b' expected in pre-release'', er)
        else let s2 = tl s1 in
          if cur s2 \<noteq> CHR ''.'' then Inl ('''.' expected after pre-release letter'', er)
          else case parse_uint16 er (tl s2) 0 499 of
            Inl er' \<Rightarrow> Inl (''invalid pre-release'', er')
          | Inr (n, s3) \<Rightarrow>
              let ab = (if k = CHR ''b'' then n + 500 else n) in
              if cur s3 = CHR ''.''
              then (case parse_snapshot er (tl s3) r of
                      Inl e \<Rightarrow> Inl e
                    | Inr (r', s4) \<Rightarrow> Inr (r', ab, False, s4))
              else if ab = 0 \<or> ab = 500 then Inl (''invalid final pre-release'', er)
              else Inr (r, ab, False, s3))"

text \<open>The revision, the end of the input and the final adjustment of the numeric version.\<close>

definition parse_version_end ::
  "bool \<Rightarrow> string \<Rightarrow> standard_version \<Rightarrow> nat \<Rightarrow> bool \<Rightarrow> parse_failure + standard_version" where
  "parse_version_end er s r ab earliest =
     (case (if cur s = CHR ''+''
            then (case parse_uint16 er (tl s) 1 uint16_max of
                    Inl er' \<Rightarrow> Inl (''invalid revision'', er')
                  | Inr (rv, s1) \<Rightarrow> Inr (r\<lparr>sv_revision := rv\<rparr>, s1))
            else Inr (r, s)) of
        Inl e \<Rightarrow> Inl e
      | Inr (r1, s1) \<Rightarrow>
          if s1 \<noteq> '''' then Inl (''junk after version'', er)
          else let r2 = (if ab \<noteq> 0 \<or> sv_snapshot_sn r1 \<noteq> 0 \<or> earliest
                         then r1\<lparr>sv_version := u64_sub (sv_version r1) (10000 - ab * 10)\<rparr> else r1);
                   r3 = (if sv_snapshot_sn r1 \<noteq> 0 \<or> earliest
                         then r2\<lparr>sv_version := u64 (sv_version r2 + 1)\<rparr> else r2)
               in Inr r3)"

definition parse_version_epoch ::
  "bool \<Rightarrow> string \<Rightarrow> parse_failure + (standard_version \<times> string)" where
  "parse_version_epoch er s =
     (if cur s = CHR ''+''
      then (case parse_uint16 er (tl s) 1 uint16_max of
              Inl er' \<Rightarrow> Inl (''invalid epoch'', er')
            | Inr (ep, s1) \<Rightarrow>
                if cur s1 \<noteq> CHR ''-'' then Inl ('''-' expected after epoch'', er)
                else Inr (empty_standard_version\<lparr>sv_epoch := ep\<rparr>, tl s1))
      else Inr (empty_standard_version, s))"

definition parse_version_minor_patch ::
  "bool \<Rightarrow> string \<Rightarrow> nat \<Rightarrow> standard_version \<Rightarrow> parse_failure + (standard_version \<times> string)" where
  "parse_version_minor_patch er s ma r =
     (if cur s \<noteq> CHR ''.'' then Inl ('''.' expected after major version'', er)
      else case parse_uint32 er (tl s) of
        Inl er' \<Rightarrow> Inl (''invalid minor version'', er')
      | Inr (mi, s1) \<Rightarrow>
          if cur s1 \<noteq> CHR ''.'' then Inl ('''.' expected after minor version'', er)
          else case parse_uint32 er (tl s1) of
            Inl er' \<Rightarrow> Inl (''invalid patch version'', er')
          | Inr (bf, s2) \<Rightarrow>
              let ver = u64 (ma * 100000000000000 + mi * 1000000000 + bf * 10000)
              in if ver = 0 then Inl (''0.0.0 version'', er)
                 else Inr (r\<lparr>sv_version := ver\<rparr>, s2))"

definition parse_version :: "bool \<Rightarrow> string \<Rightarrow> flags \<Rightarrow> parse_failure + standard_version" where
  "parse_version er s f =
     (case parse_version_epoch er s of
        Inl e \<Rightarrow> Inl e
      | Inr (r0, s0) \<Rightarrow>
          (case parse_uint32 er s0 of
             Inl er' \<Rightarrow> Inl (''invalid major version'', er')
           | Inr (ma, s1) \<Rightarrow>
               if allow_stub f \<and> cur s \<noteq> CHR ''+'' \<and> ma = 0 \<and> (s1 = '''' \<or> cur s1 = CHR ''+'')
               then parse_version_end er s1 (r0\<lparr>sv_epoch := 0, sv_version := uint64_max\<rparr>) 0 False
               else (case parse_version_minor_patch er s1 ma r0 of
                       Inl e \<Rightarrow> Inl e
                     | Inr (r1, s2) \<Rightarrow>
                         (case parse_pre_release er s2 r1 f of
                            Inl e \<Rightarrow> Inl e
                          | Inr (r2, ab, earliest, s3) \<Rightarrow>
                              parse_version_end er s3 r2 ab earliest))))"

definition parse_standard_version :: "bool \<Rightarrow> string \<Rightarrow> flags \<Rightarrow> standard_version option" where
  "parse_standard_version er s f = (case parse_version er s f of Inl _ \<Rightarrow> None | Inr v \<Rightarrow> Some v)"

definition standard_version_of_string :: "bool \<Rightarrow> string \<Rightarrow> flags \<Rightarrow> standard_version result" where
  "standard_version_of_string er s f =
     (case parse_version er s f of Inl (reason, _) \<Rightarrow> Inl (Invalid_argument reason) | Inr v \<Rightarrow> Inr v)"

section \<open>Construction from components\<close>

definition check_version :: "nat \<Rightarrow> bool \<Rightarrow> flags \<Rightarrow> bool" where
  "check_version vr sn fl =
     (if vr = uint64_max \<and> allow_stub fl then \<not> sn
      else vr < 10000000000000000000
         \<and> (if \<not> allow_earliest fl then vr mod 10 = (if sn then 1 else 0)
             else vr mod 10 = 1 \<or> (vr mod 10 = 0 \<and> \<not> sn))
         \<and> (vr div 10 mod 1000 \<noteq> 0 \<longrightarrow> vr div 10 mod 1000 \<noteq> 500 \<or> sn)
         \<and> vr div 10000 \<noteq> 0)"

definition standard_version_of_number :: "nat \<Rightarrow> flags \<Rightarrow> standard_version result" where
  "standard_version_of_number v f =
     (if check_version v False f then Inr (empty_standard_version\<lparr>sv_version := v\<rparr>)
      else Inl (Invalid_argument ''invalid standard version''))"

definition standard_version_of_number_snapshot ::
  "bool \<Rightarrow> nat \<Rightarrow> string \<Rightarrow> flags \<Rightarrow> standard_version result" where
  "standard_version_of_number_snapshot er v s f =
     (let r = empty_standard_version\<lparr>sv_version := v\<rparr>; snapshot = (s \<noteq> '''') in
      if \<not> check_version v snapshot f then Inl (Invalid_argument ''invalid standard version'')
      else if \<not> snapshot then Inr r
      else case parse_snapshot er s r of
        Inl (e, _) \<Rightarrow> Inl (Invalid_argument e)
      | Inr (r', s') \<Rightarrow> if s' \<noteq> '''' then Inl (Invalid_argument ''junk after snapshot'') else Inr r')"

definition standard_version_of_parts ::
  "bool \<Rightarrow> nat \<Rightarrow> nat \<Rightarrow> string \<Rightarrow> nat \<Rightarrow> flags \<Rightarrow> standard_version result" where
  "standard_version_of_parts er e v s rv f =
     (case standard_version_of_number_snapshot er v s f of
        Inl x \<Rightarrow> Inl x
      | Inr r \<Rightarrow>
          if sv_stub r \<and> e \<noteq> 0 then Inl (Invalid_argument ''epoch for stub'')
          else Inr (r\<lparr>sv_epoch := e, sv_revision := rv\<rparr>))"

definition standard_version_of_snapshot_parts ::
  "nat \<Rightarrow> nat \<Rightarrow> nat \<Rightarrow> string \<Rightarrow> nat \<Rightarrow> flags \<Rightarrow> standard_version result" where
  "standard_version_of_snapshot_parts ep vr sn si rv fl =
     (let r = \<lparr>sv_epoch = ep, sv_version = vr, sv_snapshot_sn = sn, sv_snapshot_id = si,
               sv_revision = rv\<rparr> in
      if \<not> check_version vr True fl then Inl (Invalid_argument ''invalid standard version'')
      else if sv_stub r \<and> ep \<noteq> 0 then Inl (Invalid_argument ''epoch for stub'')
      else if sv_stub r \<and> sn \<noteq> 0 then Inl (Invalid_argument ''snapshot for stub'')
      else if si \<noteq> '''' \<and> (length si > 16 \<or> sn = 0 \<or> sn = latest_sn)
           then Inl (Invalid_argument ''invalid snapshot'')
      else Inr r)"

definition standard_version_of_components ::
  "bool \<Rightarrow> nat \<Rightarrow> nat \<Rightarrow> nat \<Rightarrow> nat \<Rightarrow> nat \<Rightarrow> nat \<Rightarrow> standard_version result" where
  "standard_version_of_components er ep mj mi pa pr rv =
     standard_version_of_parts er ep
       (u64_sub (u64 (mj * 100000000000000 + mi * 1000000000 + pa * 10000 + pr * 10))
                (if pr \<noteq> 0 then 10000 else 0))
       '''' rv no_flags"

definition standard_version_of_snapshot_components ::
  "nat \<Rightarrow> nat \<Rightarrow> nat \<Rightarrow> nat \<Rightarrow> nat \<Rightarrow> nat \<Rightarrow> string \<Rightarrow> nat \<Rightarrow> standard_version result" where
  "standard_version_of_snapshot_components ep mj mi pa pr sn si rv =
     standard_version_of_snapshot_parts ep
       (u64_sub (u64 (mj * 100000000000000 + mi * 1000000000 + pa * 10000 + pr * 10 + 1)) 10000)
       sn si rv no_flags"

section \<open>Printing\<close>

definition string_pre_release :: "standard_version \<Rightarrow> string" where
  "string_pre_release v =
     (if (sv_alpha v \<noteq> None \<and> \<not> sv_earliest v) \<or> sv_beta v \<noteq> None
      then let ab = sv_version v div 10 mod 1000
           in if ab < 500 then ''a.'' @ to_string ab else ''b.'' @ to_string (ab - 500)
      else '''')"

definition string_version :: "standard_version \<Rightarrow> string" where
  "string_version v =
     (if sv_empty v then ''''
      else if sv_stub v then ''0''
      else to_string (sv_major v) @ ''.'' @ to_string (sv_minor v) @ ''.'' @ to_string (sv_patch v) @
           (if sv_alpha v \<noteq> None \<or> sv_beta v \<noteq> None
            then ''-'' @ string_pre_release v @ (if sv_snapshot v then ''.'' else '''')
            else ''''))"

definition string_snapshot :: "standard_version \<Rightarrow> string" where
  "string_snapshot v =
     (if sv_snapshot v
      then (if sv_snapshot_sn v = latest_sn then ''z'' else to_string (sv_snapshot_sn v)) @
           (if sv_snapshot_id v \<noteq> '''' then ''.'' @ sv_snapshot_id v else '''')
      else '''')"

definition string_project :: "bool \<Rightarrow> standard_version \<Rightarrow> string" where
  "string_project with_revision v =
     string_version v @ (if sv_snapshot v then string_snapshot v else '''') @
     (if with_revision \<and> sv_revision v \<noteq> 0 then ''+'' @ to_string (sv_revision v) else '''')"

definition string_project_id :: "standard_version \<Rightarrow> string" where
  "string_project_id v =
     string_version v @
     (if sv_snapshot v
      then (if sv_snapshot_sn v = latest_sn then ''z''
            else if sv_snapshot_id v = '''' then to_string (sv_snapshot_sn v)
            else sv_snapshot_id v)
      else '''')"

definition sv_string :: "standard_version \<Rightarrow> string" where
  "sv_string v =
     (if sv_epoch v \<noteq> 1 \<and> \<not> sv_stub v then ''+'' @ to_string (sv_epoch v) @ ''-'' else '''') @
     string_project True v"

section \<open>Well-formed versions\<close>

text \<open>
  The invariants that the comment on the class states, with the ranges of the components:
  \<open>sv_triple\<close> is \<open>AAAAABBBBBCCCCC\<close> before a pre-release borrows one from it. A well-formed version
  is what the parser produces under the flags \<open>f\<close>.
\<close>

definition sv_triple :: "nat \<Rightarrow> nat" where
  "sv_triple ver = (if ver mod 10000 = 0 then ver div 10000 else ver div 10000 + 1)"

definition snapshot_id_ok :: "nat \<Rightarrow> string \<Rightarrow> bool" where
  "snapshot_id_ok sn si \<longleftrightarrow>
     si = '''' \<or> (sn \<noteq> latest_sn \<and> length si \<le> 16 \<and> list_all alnum si)"

definition sv_wf :: "flags \<Rightarrow> standard_version \<Rightarrow> bool" where
  "sv_wf f v \<longleftrightarrow>
     sv_revision v \<le> uint16_max \<and> sv_snapshot_sn v \<le> uint64_max \<and>
     (if sv_stub v
      then allow_stub f \<and> sv_epoch v = 0 \<and> sv_snapshot_sn v = 0 \<and> sv_snapshot_id v = ''''
      else 1 \<le> sv_epoch v \<and> sv_epoch v \<le> uint16_max \<and>
           1 \<le> sv_triple (sv_version v) \<and> sv_triple (sv_version v) < 1000000000000000 \<and>
           (if sv_snapshot_sn v \<noteq> 0
            then sv_version v mod 10 = 1 \<and> snapshot_id_ok (sv_snapshot_sn v) (sv_snapshot_id v)
            else sv_snapshot_id v = '''' \<and>
                 (if sv_version v mod 10000 = 1 then allow_earliest f \<and> sv_revision v = 0
                  else sv_version v mod 10 = 0 \<and> sv_version v div 10 mod 1000 \<noteq> 500)))"

section \<open>Printing and parsing back\<close>

lemma mod_10000_split: "(n::nat) mod 10000 = 10 * (n div 10 mod 1000) + n mod 10"
  using mod_mult2_eq [of n 10 1000] by simp

lemma sv_restored_triple:
  assumes "ver mod 10 \<le> 1"
  shows "sv_restored ver = 1000 * sv_triple ver"
proof -
  define q where "q = ver div 10000"
  define ab where "ab = ver div 10 mod 1000"
  have d: "ver div 10 = 1000 * q + ab"
    unfolding q_def ab_def using div_mult2_eq [of ver 10 1000] by simp
  have m: "ver mod 10000 = 10 * ab + ver mod 10"
    unfolding ab_def by (rule mod_10000_split)
  have ab: "ab < 1000" by (simp add: ab_def)
  show ?thesis
    using assms m ab unfolding sv_restored_def sv_triple_def Let_def d ab_def [symmetric] q_def [symmetric]
    by auto
qed

lemma triple_digits:
  assumes "(T::nat) < 1000000000000000"
  shows "(1000 * T) div 10000000000000 mod 100000 * 100000000000000 +
     (1000 * T) div 100000000 mod 100000 * 1000000000 + (1000 * T) div 1000 mod 100000 * 10000 = T * 10000"
proof -
  have a: "(1000 * T) div 10000000000000 = T div 10000000000"
    using div_mult_mult1 [of 1000 T 10000000000] by simp
  have b: "(1000 * T) div 100000000 = T div 100000"
    using div_mult_mult1 [of 1000 T 100000] by simp
  have c: "T div 10000000000 = T div 100000 div 100000"
    using div_mult2_eq [of T 100000 100000] by simp
  have d: "T div 100000 div 100000 < 100000"
    using assms by (simp add: less_mult_imp_div_less)
  have e: "(1000 * T) div 1000 = T" by simp
  have m: "T div 100000 div 100000 mod 100000 = T div 100000 div 100000"
    using d by simp
  have "T = T div 100000 * 100000 + T mod 100000"
    and "T div 100000 = T div 100000 div 100000 * 100000 + T div 100000 mod 100000"
    by (simp_all only: div_mult_mod_eq)
  then show ?thesis unfolding a b c e m by linarith
qed

lemma parse_uint64_to_string [simp]:
  assumes "mn \<le> n" "n \<le> mx" "n \<le> uint64_max" "\<not> digit (cur s)"
  shows "parse_uint64 False (to_string n @ s) mn mx = Inr (n, s)"
  using assms by (simp add: parse_uint64_def strtoull_to_string to_string_cur_not_sign)

lemma parse_uint64_to_string_end [simp]:
  assumes "mn \<le> n" "n \<le> mx" "n \<le> uint64_max"
  shows "parse_uint64 False (to_string n) mn mx = Inr (n, [])"
  using parse_uint64_to_string [of mn n mx "[]"] assms by simp

lemma to_string_0: "to_string 0 = ''0''"
  by code_simp

lemma parse_uint32_to_string [simp]:
  assumes "n \<le> 99999" "\<not> digit (cur s)"
  shows "parse_uint32 False (to_string n @ s) = Inr (n, s)"
  using assms by (simp add: parse_uint32_def)

lemma mod_10000_1: "(n::nat) mod 10000 = 1 \<Longrightarrow> n mod 10 = 1 \<and> n div 10 mod 1000 = 0"
proof -
  assume "n mod 10000 = 1"
  then have "10 * (n div 10 mod 1000) + n mod 10 = 1"
    using mod_10000_split [of n] by simp
  moreover have "10 * a + e = 1 \<Longrightarrow> e = 1 \<and> a = 0" for a e :: nat
    by arith
  ultimately show ?thesis by blast
qed

lemma mod_10000_0: "(n::nat) mod 10000 = 0 \<longleftrightarrow> n mod 10 = 0 \<and> n div 10 mod 1000 = 0"
  using mod_10000_split [of n] by (simp only:) auto

lemma sv_wf_lt: "sv_wf f v \<Longrightarrow> \<not> sv_stub v \<Longrightarrow> sv_version v < 10000000000000000000"
  by (auto simp: sv_wf_def sv_triple_def split: if_splits)

lemma sv_wf_e: "sv_wf f v \<Longrightarrow> \<not> sv_stub v \<Longrightarrow> sv_version v mod 10 \<le> 1"
  using mod_10000_split [of "sv_version v"] by (auto simp: sv_wf_def split: if_splits)

lemma sv_wf_not_empty: "sv_wf f v \<Longrightarrow> \<not> sv_stub v \<Longrightarrow> \<not> sv_empty v"
proof
  assume "sv_wf f v" "\<not> sv_stub v" "sv_empty v"
  then have "1 \<le> sv_triple (sv_version v)" "sv_triple (sv_version v) = 0"
    by (simp_all add: sv_wf_def sv_empty_def sv_triple_def)
  then show False by simp
qed

lemma sv_components:
  assumes "sv_wf f v" "\<not> sv_stub v"
  shows "sv_major v * 100000000000000 + sv_minor v * 1000000000 + sv_patch v * 10000 =
     sv_triple (sv_version v) * 10000"
proof -
  have "sv_triple (sv_version v) < 1000000000000000"
    using assms by (simp add: sv_wf_def)
  then show ?thesis
    unfolding sv_major_def sv_minor_def sv_patch_def sv_restored_triple [OF sv_wf_e [OF assms]]
    by (rule triple_digits)
qed

lemma mod_100000_le: "(n::nat) mod 100000 \<le> 99999"
  using mod_less_divisor [of 100000 n] by linarith

lemma sv_component_bounds [simp]: "sv_major v \<le> 99999" "sv_minor v \<le> 99999" "sv_patch v \<le> 99999"
  unfolding sv_major_def sv_minor_def sv_patch_def by (rule mod_100000_le)+

lemma parse_snapshot_string:
  assumes "sv_snapshot_sn v \<noteq> 0" "sv_snapshot_sn v \<le> uint64_max"
    and "snapshot_id_ok (sv_snapshot_sn v) (sv_snapshot_id v)"
    and "\<not> alnum (cur s)" "cur s \<noteq> CHR ''.''"
  shows "parse_snapshot False (string_snapshot v @ s) r =
     Inr (r\<lparr>sv_snapshot_sn := sv_snapshot_sn v, sv_snapshot_id := sv_snapshot_id v\<rparr>, s)"
proof (cases "sv_snapshot_sn v = latest_sn")
  case True
  with assms show ?thesis
    by (simp add: parse_snapshot_def string_snapshot_def sv_snapshot_def snapshot_id_ok_def)
next
  case False
  have z: "cur (to_string (sv_snapshot_sn v) @ t) \<noteq> CHR ''z''" for t
    using cur_to_string_digit [of "sv_snapshot_sn v" t] by (auto simp: digit_def)
  have nd: "\<not> digit (cur s)" using assms(4) by (auto simp: alnum_def)
  show ?thesis
  proof (cases "sv_snapshot_id v = ''''")
    case True
    with False assms nd z [of s] show ?thesis
      by (simp add: parse_snapshot_def string_snapshot_def sv_snapshot_def)
  next
    case id: False
    with assms False have id_ok: "length (sv_snapshot_id v) \<le> 16" "list_all alnum (sv_snapshot_id v)"
      by (auto simp: snapshot_id_ok_def)
    have tw: "takeWhile alnum (sv_snapshot_id v @ s) = sv_snapshot_id v"
      "dropWhile alnum (sv_snapshot_id v @ s) = s"
      using id_ok(2) assms(4)
      by (auto simp: takeWhile_append dropWhile_append list_all_iff dropWhile_cur takeWhile_eq_Nil_iff cur_def split: list.splits)
    from id False assms id_ok tw z [of "CHR ''.'' # sv_snapshot_id v @ s"] show ?thesis
      by (simp add: parse_snapshot_def string_snapshot_def sv_snapshot_def digit_def)
  qed
qed

definition pre_part :: "standard_version \<Rightarrow> string" where
  "pre_part v =
     (if sv_alpha v \<noteq> None \<or> sv_beta v \<noteq> None
      then ''-'' @ string_pre_release v @ (if sv_snapshot v then ''.'' else '''') else '''') @
     (if sv_snapshot v then string_snapshot v else '''')"

definition rev_part :: "standard_version \<Rightarrow> string" where
  "rev_part v = (if sv_revision v \<noteq> 0 then ''+'' @ to_string (sv_revision v) else '''')"

definition epoch_part :: "standard_version \<Rightarrow> string" where
  "epoch_part v = (if sv_epoch v \<noteq> 1 then ''+'' @ to_string (sv_epoch v) @ ''-'' else '''')"

lemma sv_string_parts:
  assumes "\<not> sv_stub v" "\<not> sv_empty v"
  shows "sv_string v = epoch_part v @ to_string (sv_major v) @ ''.'' @ to_string (sv_minor v) @
     ''.'' @ to_string (sv_patch v) @ pre_part v @ rev_part v"
  using assms by (simp add: sv_string_def string_project_def string_version_def epoch_part_def
      pre_part_def rev_part_def)

lemma cur_rev_part: "cur (rev_part v) = (if sv_revision v = 0 then NUL else CHR ''+'')"
  by (simp add: rev_part_def)

lemma not_alnum_simps [simp]: "\<not> alnum NUL" "\<not> alnum CHR ''+''" "\<not> alnum CHR ''-''" "\<not> alnum CHR ''.''"
  by (simp_all add: char_defs)

lemma not_digit_simps [simp]: "\<not> digit CHR ''+''" "\<not> digit CHR ''-''" "\<not> digit CHR ''.''"
  by (simp_all add: char_defs)

lemma parse_epoch_part:
  assumes "sv_wf f v" "\<not> sv_stub v"
  shows "parse_version_epoch False (epoch_part v @ to_string n @ s) =
     Inr (empty_standard_version\<lparr>sv_epoch := sv_epoch v\<rparr>, to_string n @ s)"
  using assms to_string_cur_not_sign [of n s]
  by (simp add: parse_version_epoch_def epoch_part_def sv_wf_def parse_uint16_def empty_standard_version_def)

lemma cur_epoch_part:
  assumes "sv_wf f v" "\<not> sv_stub v"
  shows "cur (epoch_part v @ to_string n @ s) = CHR ''+'' \<longleftrightarrow> sv_epoch v \<noteq> 1"
  using to_string_cur_not_sign [of n s] by (simp add: epoch_part_def)

lemma parse_minor_patch_part:
  assumes "sv_wf f v" "\<not> sv_stub v" "\<not> digit (cur s)"
  shows "parse_version_minor_patch False
      (CHR ''.'' # to_string (sv_minor v) @ CHR ''.'' # to_string (sv_patch v) @ s) (sv_major v) r =
     Inr (r\<lparr>sv_version := sv_triple (sv_version v) * 10000\<rparr>, s)"
proof -
  have T: "sv_triple (sv_version v) < 1000000000000000" "sv_triple (sv_version v) \<noteq> 0"
    using assms by (auto simp: sv_wf_def)
  then have u: "u64 (sv_triple (sv_version v) * 10000) = sv_triple (sv_version v) * 10000"
    by (intro u64_id) linarith
  from T(2) show ?thesis
    using assms sv_components [OF assms(1,2)] sv_component_bounds [of v]
    by (simp add: parse_version_minor_patch_def Let_def u)
qed

lemma sv_ab_cases:
  assumes "sv_wf f v" "\<not> sv_stub v"
  shows "sv_version v = (if sv_version v mod 10000 = 0 then sv_triple (sv_version v) * 10000
     else sv_triple (sv_version v) * 10000 - 10000 + 10 * (sv_version v div 10 mod 1000) + sv_version v mod 10)"
proof -
  have "sv_version v = 10000 * (sv_version v div 10000) + sv_version v mod 10000"
    by simp
  with mod_10000_split [of "sv_version v"] show ?thesis
    by (simp add: sv_triple_def split: if_splits)
qed

lemma parse_pre_part:
  assumes wf: "sv_wf f v" "\<not> sv_stub v" and r: "sv_snapshot_sn r = 0" "sv_snapshot_id r = ''''"
  shows "parse_pre_release False (pre_part v @ rev_part v) r f =
     Inr (r\<lparr>sv_snapshot_sn := sv_snapshot_sn v, sv_snapshot_id := sv_snapshot_id v\<rparr>,
          sv_version v div 10 mod 1000, sv_earliest v, rev_part v)"
proof -
  let ?ab = "sv_version v div 10 mod 1000"
  note m = mod_10000_split [of "sv_version v"]
  have ab: "?ab < 1000" by simp
  have rid: "r\<lparr>sv_snapshot_sn := 0, sv_snapshot_id := ''''\<rparr> = r"
    using r by simp
  consider (rel) "sv_version v mod 10000 = 0" | (earl) "sv_earliest v"
    | (fin) "\<not> sv_snapshot v" "sv_version v mod 10 = 0" "?ab \<noteq> 0" "?ab \<noteq> 500"
    | (snap) "sv_snapshot v" "sv_version v mod 10 = 1"
    using wf mod_10000_0 [of "sv_version v"]
    by (auto simp: sv_wf_def sv_earliest_def sv_snapshot_def split: if_splits)
  then show ?thesis
  proof cases
    case rel
    then have "sv_snapshot_sn v = 0" "sv_snapshot_id v = ''''"
      using wf m by (auto simp: sv_wf_def split: if_splits)
    with rel m rid show ?thesis
      by (simp add: parse_pre_release_def pre_part_def cur_rev_part sv_alpha_def sv_beta_def
          sv_pre_release_def sv_release_def sv_snapshot_def sv_earliest_def)
  next
    case earl
    then have e: "sv_version v mod 10000 = 1" "sv_snapshot_sn v = 0"
      by (auto simp: sv_earliest_def sv_snapshot_def)
    then have "sv_snapshot_id v = ''''" "allow_earliest f" "sv_revision v = 0"
      using wf by (auto simp: sv_wf_def)
    with earl e m rid wf show ?thesis
      by (simp add: parse_pre_release_def pre_part_def sv_alpha_def sv_beta_def rev_part_def
          sv_pre_release_def sv_release_def sv_snapshot_def string_pre_release_def)
  next
    case fin
    then have s: "sv_snapshot_sn v = 0" "sv_snapshot_id v = ''''" "\<not> sv_release v" "\<not> sv_earliest v"
      using wf m by (auto simp: sv_wf_def sv_snapshot_def sv_release_def sv_earliest_def split: if_splits)
    then have "pre_part v @ rev_part v = (if ?ab < 500 then ''-a.'' @ to_string ?ab @ rev_part v
        else ''-b.'' @ to_string (?ab - 500) @ rev_part v)"
      using fin wf by (simp add: pre_part_def string_pre_release_def sv_alpha_def sv_beta_def
          sv_pre_release_def Let_def)
    with fin s rid ab show ?thesis
      by (auto simp: parse_pre_release_def parse_uint16_def cur_rev_part Let_def)
  next
    case snap
    then have s: "\<not> sv_release v" "\<not> sv_earliest v"
      using m by (auto simp: sv_release_def sv_earliest_def)
    then have "pre_part v @ rev_part v =
       (if ?ab < 500 then ''-a.'' @ to_string ?ab @ ''.'' @ string_snapshot v @ rev_part v
        else ''-b.'' @ to_string (?ab - 500) @ ''.'' @ string_snapshot v @ rev_part v)"
      using snap wf by (simp add: pre_part_def string_pre_release_def sv_alpha_def sv_beta_def
          sv_pre_release_def Let_def)
    moreover have "parse_snapshot False (string_snapshot v @ rev_part v) r =
       Inr (r\<lparr>sv_snapshot_sn := sv_snapshot_sn v, sv_snapshot_id := sv_snapshot_id v\<rparr>, rev_part v)"
      by (rule parse_snapshot_string) (use wf snap in \<open>auto simp: sv_wf_def sv_snapshot_def cur_rev_part\<close>)
    ultimately show ?thesis using s ab
      by (auto simp: parse_pre_release_def parse_uint16_def Let_def)
  qed
qed

lemma parse_end_part:
  assumes wf: "sv_wf f v" "\<not> sv_stub v"
  shows "parse_version_end False (rev_part v)
      \<lparr>sv_epoch = sv_epoch v, sv_version = sv_triple (sv_version v) * 10000,
       sv_snapshot_sn = sv_snapshot_sn v, sv_snapshot_id = sv_snapshot_id v, sv_revision = 0\<rparr>
      (sv_version v div 10 mod 1000) (sv_earliest v) = Inr v"
proof -
  have T: "1 \<le> sv_triple (sv_version v)" "sv_triple (sv_version v) < 1000000000000000"
    and rv: "sv_revision v \<le> uint16_max"
    using wf by (auto simp: sv_wf_def)
  note m = mod_10000_split [of "sv_version v"]
  have e: "sv_version v mod 10 = (if sv_snapshot_sn v \<noteq> 0 \<or> sv_earliest v then 1 else 0)"
    using wf mod_10000_1 [of "sv_version v"]
    by (auto simp: sv_wf_def sv_earliest_def sv_snapshot_def split: if_splits)
  have v0: "sv_version v mod 10000 = 0 \<longleftrightarrow> \<not> (sv_version v div 10 mod 1000 \<noteq> 0 \<or> sv_snapshot_sn v \<noteq> 0 \<or> sv_earliest v)"
    using m e by auto
  have ab: "sv_version v div 10 mod 1000 < 1000" by simp
  have "parse_version_end False (rev_part v)
      \<lparr>sv_epoch = sv_epoch v, sv_version = sv_triple (sv_version v) * 10000,
       sv_snapshot_sn = sv_snapshot_sn v, sv_snapshot_id = sv_snapshot_id v, sv_revision = 0\<rparr>
      (sv_version v div 10 mod 1000) (sv_earliest v) =
     Inr \<lparr>sv_epoch = sv_epoch v, sv_version = sv_version v,
       sv_snapshot_sn = sv_snapshot_sn v, sv_snapshot_id = sv_snapshot_id v, sv_revision = sv_revision v\<rparr>"
  proof (cases "sv_version v mod 10000 = 0")
    case True
    then have "sv_version v = sv_triple (sv_version v) * 10000"
      using sv_ab_cases [OF wf] by presburger
    with True v0 rv show ?thesis
      by (simp add: parse_version_end_def rev_part_def parse_uint16_def Let_def)
  next
    case False
    define X where "X = sv_triple (sv_version v) * 10000"
    define ab where "ab = sv_version v div 10 mod 1000"
    define e1 where "e1 = sv_version v mod 10"
    have X: "10000 \<le> X" "X < 10000000000000000000" "ab < 1000" "e1 \<le> 1"
      using T e unfolding X_def ab_def e1_def by (linarith, linarith, simp, simp)
    have ver: "sv_version v = X - 10000 + 10 * ab + e1"
      using sv_ab_cases [OF wf] False unfolding X_def ab_def e1_def by presburger
    have sub: "u64_sub X (10000 - ab * 10) = X - (10000 - ab * 10)"
      using X by (intro u64_sub_le) linarith+
    have add: "u64 (X - (10000 - ab * 10) + 1) = X - (10000 - ab * 10) + 1"
      using X by (intro u64_id) linarith
    show ?thesis
      using False v0 rv e sub add ver X
      unfolding X_def [symmetric] ab_def [symmetric] e1_def [symmetric]
      by (auto simp: parse_version_end_def rev_part_def parse_uint16_def Let_def split: if_splits)
  qed
  then show ?thesis by simp
qed

lemma sv_snapshot_pre:
  assumes "sv_wf f v" "\<not> sv_stub v"
  shows "sv_snapshot v \<Longrightarrow> sv_alpha v \<noteq> None \<or> sv_beta v \<noteq> None"
  using assms mod_10000_0 [of "sv_version v"]
  by (auto simp: sv_wf_def sv_snapshot_def sv_alpha_def sv_beta_def sv_pre_release_def sv_release_def
      split: if_splits)

lemma parse_version_string:
  assumes wf: "sv_wf f v"
  shows "parse_version False (sv_string v) f = Inr v"
proof (cases "sv_stub v")
  case True
  then have s: "sv_string v = to_string 0 @ rev_part v"
    using wf by (simp add: sv_string_def string_project_def string_version_def sv_wf_def
        rev_part_def sv_empty_def sv_stub_def sv_snapshot_def to_string_0)
  have nd: "\<not> digit (cur (rev_part v))"
    by (simp add: cur_rev_part)
  from True wf have "v = \<lparr>sv_epoch = 0, sv_version = uint64_max, sv_snapshot_sn = 0,
      sv_snapshot_id = [], sv_revision = sv_revision v\<rparr>"
    by (cases v) (simp add: sv_wf_def sv_stub_def)
  with True wf nd to_string_cur_not_sign [of 0 "rev_part v"] show ?thesis
    unfolding s
    by (cases "sv_revision v = 0")
      (simp_all add: parse_version_def parse_version_epoch_def sv_wf_def parse_version_end_def
        rev_part_def parse_uint16_def parse_uint32_def empty_standard_version_def Let_def)
next
  case False
  have ne: "\<not> sv_empty v"
    using wf False by (rule sv_wf_not_empty)
  have nd: "\<not> digit (cur (pre_part v @ rev_part v))"
    using sv_snapshot_pre [OF wf False] by (auto simp: pre_part_def cur_append cur_rev_part)
  show ?thesis
    using wf False ne nd sv_component_bounds [of v] parse_end_part [OF wf False]
    unfolding sv_string_parts [OF False ne]
    by (simp add: parse_version_def parse_epoch_part parse_minor_patch_part parse_pre_part
       empty_standard_version_def)
qed

section \<open>What a successful parse returns\<close>

lemma parse_uint64_InrD:
  "parse_uint64 er s mn mx = Inr (v, e) \<Longrightarrow> \<not> er \<and> mn \<le> v \<and> v \<le> mx"
  by (auto simp: parse_uint64_def Let_def split: if_splits prod.splits)

lemma parse_epoch_InrD:
  "parse_version_epoch er s = Inr (r, s') \<Longrightarrow>
     \<exists>ep. 1 \<le> ep \<and> ep \<le> uint16_max \<and> r = empty_standard_version\<lparr>sv_epoch := ep\<rparr>"
  by (auto simp: parse_version_epoch_def parse_uint16_def empty_standard_version_def
      dest!: parse_uint64_InrD split: if_splits sum.splits)

lemma parse_minor_patch_InrD:
  assumes "parse_version_minor_patch er s ma r = Inr (r', s')" "ma \<le> 99999"
  shows "\<exists>T. 1 \<le> T \<and> T < 1000000000000000 \<and> r' = r\<lparr>sv_version := T * 10000\<rparr>"
proof -
  obtain mi bf where mb: "mi \<le> 99999" "bf \<le> 99999"
    and r': "u64 (ma * 100000000000000 + mi * 1000000000 + bf * 10000) \<noteq> 0"
      "r' = r\<lparr>sv_version := u64 (ma * 100000000000000 + mi * 1000000000 + bf * 10000)\<rparr>"
    using assms(1) by (auto simp: parse_version_minor_patch_def parse_uint32_def Let_def
        dest!: parse_uint64_InrD split: if_splits sum.splits)
  define T where "T = ma * 10000000000 + mi * 100000 + bf"
  have T: "T < 1000000000000000" "ma * 100000000000000 + mi * 1000000000 + bf * 10000 = T * 10000"
    using mb assms(2) unfolding T_def by (linarith, simp)
  then have "u64 (T * 10000) = T * 10000" by (intro u64_id) linarith
  with r' T show ?thesis by (intro exI [of _ T]) auto
qed

lemma parse_snapshot_InrD:
  assumes "parse_snapshot er s r = Inr (r', s')"
  shows "r' = r\<lparr>sv_snapshot_sn := sv_snapshot_sn r', sv_snapshot_id := sv_snapshot_id r'\<rparr> \<and>
     sv_snapshot_sn r' \<noteq> 0 \<and> sv_snapshot_sn r' \<le> uint64_max \<and>
     snapshot_id_ok (sv_snapshot_sn r') (sv_snapshot_id r')"
proof -
  have "list_all alnum (takeWhile alnum t)" for t
    by (auto simp: list_all_iff dest: set_takeWhileD)
  with assms show ?thesis
    by (auto simp: parse_snapshot_def snapshot_id_ok_def Let_def dest!: parse_uint64_InrD
        split: if_splits sum.splits)
qed

lemma parse_pre_InrD:
  assumes "parse_pre_release er s r f = Inr (r', ab, earliest, s')"
    and "sv_snapshot_sn r = 0" "sv_snapshot_id r = []"
  shows "r' = r\<lparr>sv_snapshot_sn := sv_snapshot_sn r', sv_snapshot_id := sv_snapshot_id r'\<rparr> \<and>
     ab < 1000 \<and> sv_snapshot_sn r' \<le> uint64_max \<and>
     (if earliest then ab = 0 \<and> sv_snapshot_sn r' = 0 \<and> sv_snapshot_id r' = [] \<and> allow_earliest f \<and>
        cur s' = NUL
      else if sv_snapshot_sn r' \<noteq> 0 then snapshot_id_ok (sv_snapshot_sn r') (sv_snapshot_id r')
      else sv_snapshot_id r' = [] \<and> ab \<noteq> 500)"
proof -
  consider (none) "cur s \<noteq> CHR ''-''" | (earl) "cur s = CHR ''-''" "cur (tl s) = NUL" "allow_earliest f"
    | (pre) n s3 where "parse_uint16 er (tl (tl (tl s))) 0 499 = Inr (n, s3)"
        "ab = (if cur (tl s) = CHR ''b'' then n + 500 else n)" "\<not> earliest"
        "if cur s3 = CHR ''.'' then parse_snapshot er (tl s3) r = Inr (r', s') else ab \<noteq> 0 \<and> ab \<noteq> 500 \<and> r' = r"
    using assms(1)
    by (auto simp: parse_pre_release_def Let_def split: if_splits sum.splits prod.splits)
  then show ?thesis
  proof cases
    case none
    with assms show ?thesis by (auto simp: parse_pre_release_def)
  next
    case earl
    with assms show ?thesis by (auto simp: parse_pre_release_def)
  next
    case pre
    then have "n \<le> 499" by (auto simp: parse_uint16_def dest: parse_uint64_InrD)
    with pre have "ab < 1000" by simp
    with pre assms(2,3) show ?thesis
      by (auto split: if_splits dest!: parse_snapshot_InrD)
  qed
qed

lemma sv_triple_borrow:
  assumes "1 \<le> T" "ab < 1000" "e \<le> 1" "ab \<noteq> 0 \<or> e \<noteq> 0"
  shows "sv_triple (T * 10000 - 10000 + ab * 10 + e) = T"
    and "(T * 10000 - 10000 + ab * 10 + e) mod 10 = e"
    and "(T * 10000 - 10000 + ab * 10 + e) div 10 mod 1000 = ab"
    and "(T * 10000 - 10000 + ab * 10 + e) mod 10000 = ab * 10 + e"
proof -
  obtain q where T: "T = Suc q" using assms(1) by (cases T) auto
  have x: "T * 10000 - 10000 + ab * 10 + e = (ab * 10 + e) + q * 10000" by (simp add: T)
  have lt: "ab * 10 + e < 10000" using assms by linarith
  then have d: "(T * 10000 - 10000 + ab * 10 + e) div 10000 = q" unfolding x by simp
  show m: "(T * 10000 - 10000 + ab * 10 + e) mod 10000 = ab * 10 + e" unfolding x using lt by simp
  show "sv_triple (T * 10000 - 10000 + ab * 10 + e) = T"
    unfolding sv_triple_def m d using assms(4) T by auto
  have y: "(ab * 10 + e) + q * 10000 = e + 10 * (ab + 1000 * q)" by simp
  show "(T * 10000 - 10000 + ab * 10 + e) mod 10 = e"
    unfolding x y mod_mult_self2 using assms(3) by simp
  have "(e + 10 * (ab + 1000 * q)) div 10 = ab + 1000 * q"
    using assms(3) by simp
  then show "(T * 10000 - 10000 + ab * 10 + e) div 10 mod 1000 = ab"
    unfolding x y using assms(2) by simp
qed

lemma sv_triple_mult [simp]: "sv_triple (T * 10000) = T"
  by (simp add: sv_triple_def)

text \<open>The fields of the version that the last part of the parser returns.\<close>

lemma parse_end_fields:
  assumes "parse_version_end er s r ab earliest = Inr v"
  shows "sv_epoch v = sv_epoch r" "sv_snapshot_sn v = sv_snapshot_sn r" "sv_snapshot_id v = sv_snapshot_id r"
    "sv_revision v = sv_revision r \<or> cur s = CHR ''+'' \<and> sv_revision v \<le> uint16_max"
    "sv_version v =
      (let n = (if ab \<noteq> 0 \<or> sv_snapshot_sn r \<noteq> 0 \<or> earliest
                then u64_sub (sv_version r) (10000 - ab * 10) else sv_version r)
       in if sv_snapshot_sn r \<noteq> 0 \<or> earliest then u64 (n + 1) else n)"
proof -
  obtain r1 where r1: "r1 = r \<or> cur s = CHR ''+'' \<and> (\<exists>rv \<le> uint16_max. r1 = r\<lparr>sv_revision := rv\<rparr>)"
    and v: "v = (let r2 = (if ab \<noteq> 0 \<or> sv_snapshot_sn r1 \<noteq> 0 \<or> earliest
                         then r1\<lparr>sv_version := u64_sub (sv_version r1) (10000 - ab * 10)\<rparr> else r1)
       in if sv_snapshot_sn r1 \<noteq> 0 \<or> earliest then r2\<lparr>sv_version := u64 (sv_version r2 + 1)\<rparr> else r2)"
  proof (cases "cur s = CHR ''+''")
    case True
    with assms obtain rv s1 where u: "parse_uint16 er (tl s) 1 uint16_max = Inr (rv, s1)"
      by (auto simp: parse_version_end_def split: sum.splits)
    then have "rv \<le> uint16_max"
      by (auto simp: parse_uint16_def dest: parse_uint64_InrD split: if_splits sum.splits)
    with u True assms show thesis
      by (intro that [of "r\<lparr>sv_revision := rv\<rparr>"]) (auto simp: parse_version_end_def Let_def split: if_split_asm)
  next
    case False
    with assms show thesis
      by (intro that [of r]) (auto simp: parse_version_end_def Let_def split: if_split_asm)
  qed
  show "sv_epoch v = sv_epoch r" using r1 by (auto simp: v Let_def)
  show "sv_snapshot_sn v = sv_snapshot_sn r" using r1 by (auto simp: v Let_def)
  show "sv_snapshot_id v = sv_snapshot_id r" using r1 by (auto simp: v Let_def)
  show "sv_revision v = sv_revision r \<or> cur s = CHR ''+'' \<and> sv_revision v \<le> uint16_max"
    using r1 by (auto simp: v Let_def)
  show "sv_version v =
      (let n = (if ab \<noteq> 0 \<or> sv_snapshot_sn r \<noteq> 0 \<or> earliest
                then u64_sub (sv_version r) (10000 - ab * 10) else sv_version r)
       in if sv_snapshot_sn r \<noteq> 0 \<or> earliest then u64 (n + 1) else n)"
    using r1 by (auto simp: v Let_def)
qed

lemma parse_end_wf:
  assumes p: "parse_version_end er s r ab earliest = Inr v"
    and r: "sv_version r = T * 10000" "1 \<le> T" "T < 1000000000000000" "1 \<le> sv_epoch r"
      "sv_epoch r \<le> uint16_max" "sv_revision r = 0" "sv_snapshot_sn r \<le> uint64_max" "ab < 1000"
    and e: "if earliest then ab = 0 \<and> sv_snapshot_sn r = 0 \<and> sv_snapshot_id r = [] \<and> allow_earliest f \<and> cur s = NUL
      else if sv_snapshot_sn r \<noteq> 0 then snapshot_id_ok (sv_snapshot_sn r) (sv_snapshot_id r)
      else sv_snapshot_id r = [] \<and> ab \<noteq> 500"
  shows "sv_wf f v"
proof -
  define pre where "pre \<longleftrightarrow> ab \<noteq> 0 \<or> sv_snapshot_sn r \<noteq> 0 \<or> earliest"
  define e1 where "e1 = (if sv_snapshot_sn r \<noteq> 0 \<or> earliest then 1 else 0 :: nat)"
  have sub: "u64_sub (T * 10000) (10000 - ab * 10) = T * 10000 - 10000 + ab * 10"
    using r by (subst u64_sub_le) linarith+
  have add: "u64 (T * 10000 - 10000 + ab * 10 + 1) = T * 10000 - 10000 + ab * 10 + 1"
    using r by (intro u64_id) linarith
  from parse_end_fields [OF p] have rv: "sv_revision v \<le> uint16_max" "earliest \<Longrightarrow> sv_revision v = 0"
    and v: "sv_version v = (if pre then T * 10000 - 10000 + ab * 10 + e1 else T * 10000)"
      "sv_epoch v = sv_epoch r" "sv_snapshot_sn v = sv_snapshot_sn r" "sv_snapshot_id v = sv_snapshot_id r"
    using r(1,6) e sub add unfolding pre_def e1_def by (auto split: if_splits)
  have e1: "e1 \<le> 1" by (simp add: e1_def)
  show ?thesis
  proof (cases pre)
    case True
    have nz: "ab \<noteq> 0 \<or> e1 \<noteq> 0" using True by (auto simp: pre_def e1_def)
    have vx: "sv_version v = T * 10000 - 10000 + ab * 10 + e1" using v(1) True by simp
    note b = sv_triple_borrow [OF r(2) r(8) e1 nz, folded vx]
    have "sv_version v \<noteq> uint64_max" unfolding vx using r e1 by linarith
    with b r rv e True show ?thesis
      by (auto simp: v(2-4) sv_wf_def sv_stub_def e1_def split: if_splits)
  next
    case False
    have "T * 10000 \<noteq> uint64_max" using r by linarith
    moreover have "(T * 10000) mod 10 = 0" "(T * 10000) div 10 mod 1000 = 0"
      using mod_10000_0 [of "T * 10000"] by simp_all
    ultimately show ?thesis
      using r rv e False by (auto simp: v sv_wf_def sv_stub_def pre_def split: if_splits)
  qed
qed

lemma parse_version_wf:
  assumes p: "parse_version er s f = Inr v"
  shows "\<not> er \<and> sv_wf f v"
proof -
  from p obtain r0 s0 ma s1 where ep: "parse_version_epoch er s = Inr (r0, s0)"
    and ma: "parse_uint64 er s0 0 99999 = Inr (ma, s1)"
    by (auto simp: parse_version_def parse_uint32_def split: sum.splits)
  from ma have ner: "\<not> er" "ma \<le> 99999" by (auto dest: parse_uint64_InrD)
  from parse_epoch_InrD [OF ep] obtain n where n: "1 \<le> n" "n \<le> uint16_max"
    "r0 = empty_standard_version\<lparr>sv_epoch := n\<rparr>" by blast
  show ?thesis
  proof (cases "allow_stub f \<and> cur s \<noteq> CHR ''+'' \<and> ma = 0 \<and> (s1 = [] \<or> cur s1 = CHR ''+'')")
    case True
    define r1 where "r1 = r0\<lparr>sv_epoch := 0, sv_version := uint64_max\<rparr>"
    from True p ep ma have "parse_version_end er s1 r1 0 False = Inr v"
      by (simp add: parse_version_def parse_uint32_def r1_def)
    note e = parse_end_fields [OF this]
    have "sv_revision v \<le> uint16_max"
      using e(4) by (auto simp: r1_def n(3) empty_standard_version_def)
    with e(1-3,5) True ner show ?thesis
      by (simp add: r1_def n(3) sv_wf_def sv_stub_def empty_standard_version_def)
  next
    case False
    with p ep ma obtain r1 s2 r2 ab earliest s3 where
      mp: "parse_version_minor_patch er s1 ma r0 = Inr (r1, s2)" and
      pr: "parse_pre_release er s2 r1 f = Inr (r2, ab, earliest, s3)" and
      en: "parse_version_end er s3 r2 ab earliest = Inr v"
      by (auto simp: parse_version_def parse_uint32_def split: sum.splits)
    from parse_minor_patch_InrD [OF mp ner(2)] obtain T where T: "1 \<le> T" "T < 1000000000000000"
      "r1 = r0\<lparr>sv_version := T * 10000\<rparr>" by blast
    then have "sv_snapshot_sn r1 = 0" "sv_snapshot_id r1 = []"
      using n by (simp_all add: empty_standard_version_def)
    note pre = parse_pre_InrD [OF pr this]
    then obtain a b where r2: "r2 = r1\<lparr>sv_snapshot_sn := a, sv_snapshot_id := b\<rparr>"
      by blast
    have "sv_wf f v"
    proof (rule parse_end_wf [OF en, of T])
      show "sv_version r2 = T * 10000" "1 \<le> sv_epoch r2" "sv_epoch r2 \<le> uint16_max" "sv_revision r2 = 0"
        using T n by (simp_all add: r2 empty_standard_version_def)
    qed (use T pre in auto)
    with ner show ?thesis by simp
  qed
qed

section \<open>Comparison\<close>

definition sv_key :: "standard_version \<Rightarrow> nat \<times> nat \<times> nat \<times> nat" where
  "sv_key v = (sv_epoch v, sv_version v, sv_snapshot_sn v, sv_revision v)"

lemma sv_compare_key: "sv_compare x y False = cmp (sv_key x) (sv_key y)"
  by (auto simp: sv_compare_def cmp_def sv_key_def less_prod_def)

lemma sv_compare_key_no_revision:
  "sv_compare x y True = cmp (sv_epoch x, sv_version x, sv_snapshot_sn x) (sv_epoch y, sv_version y, sv_snapshot_sn y)"
  by (auto simp: sv_compare_def cmp_def less_prod_def)

interpretation sv: key_compare "\<lambda>x y. sv_compare x y False" sv_key
  by unfold_locales (rule sv_compare_key)

interpretation svr: key_compare "\<lambda>x y. sv_compare x y True"
    "\<lambda>v. (sv_epoch v, sv_version v, sv_snapshot_sn v)"
  by unfold_locales (rule sv_compare_key_no_revision)

section \<open>Agreement of the constructors with the parser\<close>

text \<open>
  The constructor from the numeric version accepts what the parser produces: rebuilding a
  well-formed version from its epoch, numeric version, snapshot string and revision gives the
  version back, provided \<open>AAAAABBBBBCCCCC\<close> is not zero after the pre-release borrow.
\<close>

lemma of_parts_roundtrip:
  assumes wf: "sv_wf f v" and nz: "sv_version v div 10000 \<noteq> 0"
  shows "standard_version_of_parts False (sv_epoch v) (sv_version v) (string_snapshot v) (sv_revision v) f = Inr v"
proof -
  have m0: "sv_version v mod 10000 = 1 \<Longrightarrow> sv_version v mod 10 = 1 \<and> sv_version v div 10 mod 1000 = 0"
    by (rule mod_10000_1)
  have ss: "string_snapshot v = [] \<longleftrightarrow> sv_snapshot_sn v = 0"
    by (auto simp: string_snapshot_def sv_snapshot_def)
  have chk: "check_version (sv_version v) (sv_snapshot_sn v \<noteq> 0) f"
  proof (cases "sv_stub v")
    case True
    with wf show ?thesis by (simp add: check_version_def sv_wf_def sv_stub_def)
  next
    case False
    with wf nz m0 sv_wf_lt [OF wf False] show ?thesis
      by (auto simp: check_version_def sv_wf_def sv_stub_def split: if_splits)
  qed
  show ?thesis
  proof (cases "sv_snapshot_sn v = 0")
    case True
    with wf have "sv_snapshot_id v = []" by (auto simp: sv_wf_def split: if_splits)
    with True chk ss wf show ?thesis
      by (auto simp: standard_version_of_parts_def standard_version_of_number_snapshot_def
          empty_standard_version_def Let_def sv_wf_def sv_stub_def)
  next
    case False
    with wf have "\<not> sv_stub v" by (auto simp: sv_wf_def)
    with False wf have "parse_snapshot False (string_snapshot v @ []) r =
       Inr (r\<lparr>sv_snapshot_sn := sv_snapshot_sn v, sv_snapshot_id := sv_snapshot_id v\<rparr>, [])" for r
      by (intro parse_snapshot_string) (auto simp: sv_wf_def)
    with False chk ss \<open>\<not> sv_stub v\<close> show ?thesis
      by (simp add: standard_version_of_parts_def standard_version_of_number_snapshot_def
          empty_standard_version_def Let_def sv_stub_def)
  qed
qed

lemmas parse_eval = parse_version_def parse_version_epoch_def parse_uint16_def parse_uint32_def
  parse_uint64_def parse_version_minor_patch_def parse_pre_release_def parse_version_end_def
  parse_snapshot_def strtoull_def dec_val_def digit_val_def char_defs Let_def
  empty_standard_version_def no_flags_def earliest_flag_def u64_def u64_sub_def

lemmas print_eval = sv_string_def string_project_def string_version_def string_snapshot_def
  string_pre_release_def sv_alpha_def sv_beta_def sv_pre_release_def sv_release_def sv_stub_def
  sv_empty_def sv_snapshot_def sv_earliest_def sv_major_def sv_minor_def sv_patch_def sv_restored_def
  to_string.simps Let_def

text \<open>C27: printing a well-formed version and parsing the string back returns the same version.\<close>

theorem parse_string_roundtrip:
  assumes "sv_wf f v"
  shows "parse_version False (sv_string v) f = Inr v"
  using assms by (rule parse_version_string)

theorem parse_string_roundtrip_witness:
  "parse_version False (sv_string \<lparr>sv_epoch = 2, sv_version = 100022000025041, sv_snapshot_sn = 20190101,
     sv_snapshot_id = ''abc'', sv_revision = 7\<rparr>) no_flags =
   Inr \<lparr>sv_epoch = 2, sv_version = 100022000025041, sv_snapshot_sn = 20190101,
     sv_snapshot_id = ''abc'', sv_revision = 7\<rparr>"
  by (rule parse_string_roundtrip) (simp add: sv_wf_def sv_stub_def sv_triple_def snapshot_id_ok_def char_defs)

lemma of_parts_roundtrip_witness:
  "standard_version_of_parts False 1 200001999990011 ''z'' 0 no_flags =
     Inr \<lparr>sv_epoch = 1, sv_version = 200001999990011, sv_snapshot_sn = latest_sn,
       sv_snapshot_id = '''', sv_revision = 0\<rparr>"
  using of_parts_roundtrip [of no_flags "\<lparr>sv_epoch = 1, sv_version = 200001999990011,
     sv_snapshot_sn = latest_sn, sv_snapshot_id = '''', sv_revision = 0\<rparr>"]
  by (simp add: sv_wf_def sv_stub_def sv_triple_def snapshot_id_ok_def string_snapshot_def sv_snapshot_def)

text \<open>
  C29: a string the parser accepts denotes a well-formed version: the stated invariants of the class
  hold (snapshot number, identifier and the digit \<open>E\<close> agree, a stub has no epoch and no snapshot,
  the components are within their digits), and \<open>errno\<close> was not \<open>ERANGE\<close>.
\<close>

theorem parse_version_sound:
  assumes "parse_version er s f = Inr v"
  shows "\<not> er \<and> sv_wf f v"
  using assms by (rule parse_version_wf)

theorem parse_version_sound_witness:
  "\<not> False \<and> sv_wf no_flags \<lparr>sv_epoch = 1, sv_version = 100002000030000, sv_snapshot_sn = 0,
     sv_snapshot_id = '''', sv_revision = 4\<rparr>"
  by (rule parse_version_sound [of False "''1.2.3+4''" no_flags]) (simp add: parse_eval)

text \<open>
  C41: \<open>parse_uint64 ()\<close> tests \<open>errno\<close> without clearing it before \<open>strtoull ()\<close>. Once a number that
  does not fit 64 bits has been parsed, every later version string is refused, the valid ones too,
  until some other code resets \<open>errno\<close>.
\<close>

lemma errno_sticky:
  "(\<exists>reason. parse_version False ''99999999999999999999.0.0'' f = Inl (reason, True)) \<and>
   (\<forall>s g. \<exists>reason. parse_version True s g = Inl (reason, True))"
proof
  show "\<exists>reason. parse_version False ''99999999999999999999.0.0'' f = Inl (reason, True)"
    by (simp add: parse_eval)
  have "parse_uint64 True s mn mx = Inl True" for s mn mx
    by (auto simp: parse_uint64_def Let_def split: prod.splits)
  then show "\<forall>s g. \<exists>reason. parse_version True s g = Inl (reason, True)"
    by (auto simp: parse_version_def parse_version_epoch_def parse_uint16_def parse_uint32_def
        split: sum.splits prod.splits)
qed

text \<open>
  \<open>strtoull ()\<close> skips white space and, after it, takes a sign, so the parser accepts strings
  outside the documented grammar: \<open>1. 2. +3\<close> is read as \<open>1.2.3\<close>.
\<close>

lemma parse_accepts_spaces_and_signs:
  "parse_version False ''1. 2. +3'' no_flags = parse_version False ''1.2.3'' no_flags \<and>
   parse_standard_version False ''1. 2. +3'' no_flags \<noteq> None"
  by (simp add: parse_eval parse_standard_version_def)

text \<open>
  \<open>check_version ()\<close> means to refuse a version whose major, minor and patch are all zero, but
  looks at them after the pre-release borrow: it refuses the numeric form of \<open>0.0.1-a.1\<close>, which the
  parser accepts.
\<close>

lemma check_version_borrow:
  "\<exists>v. parse_version False ''0.0.1-a.1'' no_flags = Inr v \<and> sv_patch v = 1 \<and>
     standard_version_of_number (sv_version v) no_flags = Inl (Invalid_argument ''invalid standard version'')"
  by (simp add: parse_eval standard_version_of_number_def check_version_def sv_patch_def sv_restored_def)

text \<open>
  the constructor from a snapshot number checks the version as a snapshot even when the number is
  zero, so it builds a version that breaks the first invariant of the class: \<open>E\<close> is one, there is no
  snapshot, and \<open>allow_earliest\<close> was not given.
\<close>

lemma snapshot_parts_zero:
  "\<exists>v. standard_version_of_snapshot_parts 1 10001 0 '''' 0 no_flags = Inr v \<and>
     sv_earliest v \<and> \<not> sv_wf no_flags v"
  by (simp add: standard_version_of_snapshot_parts_def check_version_def no_flags_def sv_stub_def
      sv_earliest_def sv_snapshot_def sv_wf_def)

end
