(* ===== verification/Standard_Constraint.thy ===== *)
theory Standard_Constraint
  imports Standard_Version
begin

text \<open>
  Version constraints over standard versions (\<open>standard_version_constraint\<close> of
  \<open>libbutl/standard-version.cxx\<close>): a range with optional, open or closed endpoints, parsed from
  ranges, shortcut operators and comparisons, printed back in the shortest notation, and tested
  with \<open>satisfies ()\<close>. An \<open>assert\<close> that fails is the value \<^const>\<open>Assertion_failure\<close>.
\<close>

section \<open>Constraints\<close>

record std_constraint =
  sc_min :: "standard_version option"
  sc_max :: "standard_version option"
  sc_min_open :: bool
  sc_max_open :: bool

definition constraint_of_endpoints ::
  "standard_version option \<Rightarrow> bool \<Rightarrow> standard_version option \<Rightarrow> bool \<Rightarrow> std_constraint result" where
  "constraint_of_endpoints mnv mno mxv mxo =
     (if \<not> ((mnv \<noteq> None \<or> mxv \<noteq> None) \<and>
            (case mnv of None \<Rightarrow> True | Some v \<Rightarrow> \<not> sv_empty v \<and> \<not> sv_stub v) \<and>
            (case mxv of None \<Rightarrow> True | Some v \<Rightarrow> \<not> sv_empty v \<and> \<not> sv_stub v) \<and>
            (mnv \<noteq> None \<or> mno) \<and> (mxv \<noteq> None \<or> mxo))
      then Inl Assertion_failure
      else let c = \<lparr>sc_min = mnv, sc_max = mxv, sc_min_open = mno, sc_max_open = mxo\<rparr> in
        (case (mnv, mxv) of
           (Some mn, Some mx) \<Rightarrow>
             if sv_compare mn mx False > 0
             then Inl (Invalid_argument ''min version is greater than max version'')
             else if sv_compare mn mx False = 0 \<and> (mno \<or> mxo)
             then Inl (Invalid_argument ''equal version endpoints not closed'')
             else if sv_compare mn mx False = 0 \<and> sv_earliest mn
             then Inl (Invalid_argument ''equal version endpoints are earliest'')
             else Inr c
         | _ \<Rightarrow> Inr c))"

definition constraint_of_version :: "standard_version \<Rightarrow> std_constraint result" where
  "constraint_of_version v = constraint_of_endpoints (Some v) False (Some v) False"

definition satisfies :: "std_constraint \<Rightarrow> standard_version \<Rightarrow> bool" where
  "satisfies c v =
     (let s = (case sc_min c of None \<Rightarrow> True
               | Some mn \<Rightarrow> let i = sv_compare v mn False in if sc_min_open c then i > 0 else i \<ge> 0)
      in if \<not> s then False
         else (case sc_max c of None \<Rightarrow> True
               | Some mx \<Rightarrow> let i = sv_compare v mx False in if sc_max_open c then i < 0 else i \<le> 0))"

section \<open>Shortcut operators\<close>

definition shortcut_max_version :: "char \<Rightarrow> standard_version \<Rightarrow> bool \<Rightarrow> standard_version result" where
  "shortcut_max_version c v ignore_overflow =
     (if c \<noteq> CHR ''~'' \<and> c \<noteq> CHR ''^'' then Inl Assertion_failure
      else if c = CHR ''~'' \<or> (c = CHR ''^'' \<and> sv_major v = 0)
      then (if sv_minor v = 99999
            then (if ignore_overflow then Inr empty_standard_version
                  else Inl (Invalid_argument ''invalid minor version''))
            else standard_version_of_parts False (sv_epoch v)
                   (u64 (u64_sub (u64 (sv_major v * 100000000000000 + (sv_minor v + 1) * 1000000000)) 10000 + 1))
                   '''' 0 earliest_flag)
      else (if sv_major v = 99999
            then (if ignore_overflow then Inr empty_standard_version
                  else Inl (Invalid_argument ''invalid major version''))
            else standard_version_of_parts False (sv_epoch v)
                   (u64 (u64_sub (u64 ((sv_major v + 1) * 100000000000000)) 10000 + 1))
                   '''' 0 earliest_flag))"

definition dependent_version :: "standard_version \<Rightarrow> standard_version result" where
  "dependent_version v =
     (if sv_latest_snapshot v then Inl (Invalid_argument ''dependent version is latest snapshot'')
      else if sv_stub v then Inl (Invalid_argument ''dependent version is stub'')
      else Inr (v\<lparr>sv_revision := 0\<rparr>))"

text \<open>The endpoints that \<open>~$\<close> and \<open>^$\<close> denote: the maximum is absent unless the range is a lockstep.\<close>

definition dependent_shortcut ::
  "bool \<Rightarrow> char \<Rightarrow> standard_version \<Rightarrow> (standard_version \<times> standard_version option) result" where
  "dependent_shortcut er c dv =
     (let caret = (c = CHR ''^'' \<and> sv_major dv \<noteq> 0);
          release_min = (\<lambda>pr. standard_version_of_components er (sv_epoch dv) (sv_major dv)
                                (if caret then 0 else sv_minor dv) 0 pr 0)
      in if sv_release dv
         then (case release_min 0 of Inl e \<Rightarrow> Inl e | Inr mn \<Rightarrow> Inr (mn, None))
         else if sv_final dv \<or> (sv_snapshot dv \<and> sv_patch dv \<noteq> 0)
         then (case release_min (if sv_patch dv \<noteq> 0 \<or> (c = CHR ''^'' \<and> sv_minor dv \<noteq> 0) then 0 else 1) of
                 Inl e \<Rightarrow> Inl e | Inr mn \<Rightarrow> Inr (mn, None))
         else if \<not> (sv_snapshot dv \<and> sv_patch dv = 0) then Inl Assertion_failure
         else (case sv_pre_release dv of
                 None \<Rightarrow> Inl Assertion_failure
               | Some pr \<Rightarrow>
                   (case standard_version_of_snapshot_components (sv_epoch dv) (sv_major dv) (sv_minor dv) 0
                           pr 1 '''' 0 of
                      Inl e \<Rightarrow> Inl e
                    | Inr mn \<Rightarrow>
                        (case standard_version_of_components er (sv_epoch dv) (sv_major dv) (sv_minor dv) 0
                                (pr + 1) 0 of
                           Inl e \<Rightarrow> Inl e
                         | Inr mx \<Rightarrow> Inr (mn, Some mx)))))"

section \<open>Parsing\<close>

abbreviation blanks :: string where "blanks \<equiv> [CHR '' '', CHR 0x09]"

text \<open>An \<open>invalid_argument\<close> is caught and thrown again with a prefix; an \<open>assert\<close> is not caught.\<close>

definition rethrow :: "string \<Rightarrow> 'a result \<Rightarrow> 'a result" where
  "rethrow prefix r = (case r of Inl (Invalid_argument m) \<Rightarrow> Inl (Invalid_argument (prefix @ m)) | _ \<Rightarrow> r)"

definition endpoint_version ::
  "bool \<Rightarrow> string \<Rightarrow> standard_version option \<Rightarrow> flags \<Rightarrow> standard_version result" where
  "endpoint_version er s v f =
     (case v of Some d \<Rightarrow> if s = ''$'' then dependent_version d else standard_version_of_string er s f
      | None \<Rightarrow> standard_version_of_string er s f)"

definition parse_range :: "bool \<Rightarrow> string \<Rightarrow> standard_version option \<Rightarrow> std_constraint result" where
  "parse_range er s v =
     (let min_open = (cur s = CHR ''(''); p = find_first_not_of blanks (tl s) in
      if p = '''' then Inl (Invalid_argument ''no min version'')
      else case rethrow ''invalid min version: ''
                  (endpoint_version er (until_first_of blanks p) v earliest_flag) of
        Inl x \<Rightarrow> Inl x
      | Inr min_version \<Rightarrow>
          let p2 = find_first_not_of blanks (find_first_of blanks p) in
          if p2 = '''' then Inl (Invalid_argument ''no max version'')
          else case rethrow ''invalid max version: ''
                      (endpoint_version er (until_first_of (blanks @ '')]'') p2) v earliest_flag) of
            Inl x \<Rightarrow> Inl x
          | Inr max_version \<Rightarrow>
              let p3 = find_first_of '')]'' (find_first_of (blanks @ '')]'') p2) in
              if p3 = '''' then Inl (Invalid_argument ''no closing bracket'')
              else if tl p3 \<noteq> '''' then Inl (Invalid_argument ''junk after constraint'')
              else constraint_of_endpoints (Some min_version) min_open
                     (Some max_version) (cur p3 = CHR '')''))"

definition parse_shortcut :: "bool \<Rightarrow> string \<Rightarrow> standard_version option \<Rightarrow> std_constraint result" where
  "parse_shortcut er s v =
     (let c = cur s; p = find_first_not_of blanks (tl s) in
      if p = '''' then Inl (Invalid_argument ''no version'')
      else case rethrow ''invalid version: ''
        (case (case v of
                 Some d \<Rightarrow> if p = ''$''
                   then (case dependent_version d of Inl x \<Rightarrow> Inl x | Inr dv \<Rightarrow> dependent_shortcut er c dv)
                   else (case standard_version_of_string er p earliest_flag of
                           Inl x \<Rightarrow> Inl x | Inr mn \<Rightarrow> Inr (mn, None))
               | None \<Rightarrow> (case standard_version_of_string er p earliest_flag of
                           Inl x \<Rightarrow> Inl x | Inr mn \<Rightarrow> Inr (mn, None))) of
           Inl x \<Rightarrow> Inl x
         | Inr (mn, Some mx) \<Rightarrow> Inr (mn, mx)
         | Inr (mn, None) \<Rightarrow>
             (case shortcut_max_version c mn False of Inl x \<Rightarrow> Inl x | Inr mx \<Rightarrow> Inr (mn, mx))) of
        Inl x \<Rightarrow> Inl x
      | Inr (mn, mx) \<Rightarrow>
          (case constraint_of_endpoints (Some mn) False (Some mx) True of
             Inl _ \<Rightarrow> Inl Assertion_failure
           | Inr r \<Rightarrow> Inr r))"

datatype comparison = Eq | Lt | Gt | Le | Ge

definition parse_operation :: "string \<Rightarrow> (comparison \<times> string) option" where
  "parse_operation s =
     (if take 2 s = ''=='' then Some (Eq, drop 2 s)
      else if take 2 s = ''>='' then Some (Ge, drop 2 s)
      else if take 2 s = ''<='' then Some (Le, drop 2 s)
      else if take 1 s = ''>'' then Some (Gt, drop 1 s)
      else if take 1 s = ''<'' then Some (Lt, drop 1 s)
      else None)"

definition parse_comparison :: "bool \<Rightarrow> string \<Rightarrow> standard_version option \<Rightarrow> std_constraint result" where
  "parse_comparison er s v =
     (case parse_operation s of
        None \<Rightarrow> Inl (Invalid_argument ''invalid constraint'')
      | Some (op, s1) \<Rightarrow>
          let p = find_first_not_of blanks s1 in
          if p = '''' then Inl (Invalid_argument ''no version'')
          else case rethrow ''invalid version: ''
                      (endpoint_version er p v (if op \<noteq> Eq then earliest_flag else no_flags)) of
            Inl x \<Rightarrow> Inl x
          | Inr cv \<Rightarrow>
              (case op of
                 Eq \<Rightarrow> constraint_of_version cv
               | Lt \<Rightarrow> constraint_of_endpoints None True (Some cv) True
               | Le \<Rightarrow> constraint_of_endpoints None True (Some cv) False
               | Gt \<Rightarrow> constraint_of_endpoints (Some cv) True None True
               | Ge \<Rightarrow> constraint_of_endpoints (Some cv) False None True))"

definition parse_constraint :: "bool \<Rightarrow> string \<Rightarrow> standard_version option \<Rightarrow> std_constraint result" where
  "parse_constraint er s v =
     (if (case v of Some d \<Rightarrow> sv_empty d | None \<Rightarrow> False)
      then Inl (Invalid_argument ''dependent version is empty'')
      else if (case v of Some d \<Rightarrow> sv_earliest d | None \<Rightarrow> False)
      then Inl (Invalid_argument ''dependent version is earliest'')
      else if cur s = CHR ''('' \<or> cur s = CHR ''['' then parse_range er s v
      else if cur s = CHR ''~'' \<or> cur s = CHR ''^'' then parse_shortcut er s v
      else parse_comparison er s v)"

section \<open>Printing\<close>

definition range_string :: "std_constraint \<Rightarrow> standard_version \<Rightarrow> standard_version \<Rightarrow> string" where
  "range_string c mn mx =
     (if sc_min_open c then ''('' else ''['') @ sv_string mn @ '' '' @ sv_string mx @
     (if sc_max_open c then '')'' else '']'')"

definition constraint_string :: "std_constraint \<Rightarrow> string result" where
  "constraint_string c =
     (case (sc_min c, sc_max c) of
        (None, None) \<Rightarrow> Inl Assertion_failure
      | (None, Some mx) \<Rightarrow> Inr ((if sc_max_open c then ''< '' else ''<= '') @ sv_string mx)
      | (Some mn, None) \<Rightarrow> Inr ((if sc_min_open c then ''> '' else ''>= '') @ sv_string mn)
      | (Some mn, Some mx) \<Rightarrow>
          if sv_compare mn mx False = 0 then Inr (''== '' @ sv_string mn)
          else if \<not> sc_min_open c \<and> sc_max_open c
          then (case shortcut_max_version CHR ''^'' mn True of
                  Inl x \<Rightarrow> Inl x
                | Inr cv \<Rightarrow>
                    if sv_compare cv mx False = 0 then Inr (''^'' @ sv_string mn)
                    else (case shortcut_max_version CHR ''~'' mn True of
                            Inl x \<Rightarrow> Inl x
                          | Inr tv \<Rightarrow>
                              if sv_compare tv mx False = 0 then Inr (''~'' @ sv_string mn)
                              else Inr (range_string c mn mx)))
          else Inr (range_string c mn mx))"

section \<open>The shortcut operators\<close>

lemma triple_parts:
  assumes "(T::nat) < 1000000000000000"
  shows "(1000 * T) div 10000000000000 mod 100000 = T div 10000000000"
    "(1000 * T) div 100000000 mod 100000 = T div 100000 mod 100000"
proof -
  have a: "(1000 * T) div 10000000000000 = T div 10000000000"
    using div_mult_mult1 [of 1000 T 10000000000] by simp
  have b: "(1000 * T) div 100000000 = T div 100000"
    using div_mult_mult1 [of 1000 T 100000] by simp
  have "T div 10000000000 < 100000"
    using assms by (simp add: less_mult_imp_div_less)
  then show "(1000 * T) div 10000000000000 mod 100000 = T div 10000000000"
    unfolding a by (rule mod_less)
  show "(1000 * T) div 100000000 mod 100000 = T div 100000 mod 100000"
    unfolding b ..
qed

text \<open>The major and minor numbers as one number.\<close>

definition sv_series :: "standard_version \<Rightarrow> nat" where
  "sv_series v = sv_major v * 100000 + sv_minor v"

lemma sv_series_triple:
  assumes "sv_wf f v" "\<not> sv_stub v"
  shows "sv_series v = sv_triple (sv_version v) div 100000"
proof -
  define T where "T = sv_triple (sv_version v)"
  have T: "T < 1000000000000000" using assms by (simp add: sv_wf_def T_def)
  have "sv_major v = T div 10000000000" "sv_minor v = T div 100000 mod 100000"
    unfolding sv_major_def sv_minor_def sv_restored_triple [OF sv_wf_e [OF assms]] T_def [symmetric]
    by (simp_all only: triple_parts [OF T])
  moreover have "T div 10000000000 = T div 100000 div 100000"
    using div_mult2_eq [of T 100000 100000] by simp
  ultimately show ?thesis
    unfolding sv_series_def T_def [symmetric] by (simp only: div_mult_mod_eq)
qed

lemma sv_series_eq:
  "sv_series v = sv_series w \<longleftrightarrow> sv_major v = sv_major w \<and> sv_minor v = sv_minor w"
proof
  assume e: "sv_series v = sv_series w"
  have "sv_minor x < 100000" for x using sv_component_bounds(2) [of x] by linarith
  then have "sv_series x div 100000 = sv_major x" "sv_series x mod 100000 = sv_minor x" for x
    unfolding sv_series_def by simp_all
  with e show "sv_major v = sv_major w \<and> sv_minor v = sv_minor w" by metis
qed (simp add: sv_series_def)

lemma sv_triple_bounds: "n \<le> sv_triple n * 10000" "sv_triple n * 10000 < n + 10000"
proof -
  obtain q r where qr: "q = n div 10000" "r = n mod 10000" by simp
  then have n: "n = q * 10000 + r" and r: "r < 10000" by simp_all
  have t: "sv_triple n = (if r = 0 then q else q + 1)"
    unfolding sv_triple_def qr ..
  show "n \<le> sv_triple n * 10000" "sv_triple n * 10000 < n + 10000"
    unfolding t using n r by (auto split: if_splits)
qed

lemma sv_triple_mono: "m \<le> n \<Longrightarrow> sv_triple m \<le> sv_triple n"
  using sv_triple_bounds [of m] sv_triple_bounds [of n] by linarith

text \<open>The version \<open>X.Y.0-\<close> of the next series: the exclusive upper end that \<open>~\<close> and \<open>^\<close> give.\<close>

definition earliest_of_series :: "nat \<Rightarrow> nat \<Rightarrow> standard_version" where
  "earliest_of_series ep n =
     \<lparr>sv_epoch = ep, sv_version = n * 1000000000 - 9999, sv_snapshot_sn = 0, sv_snapshot_id = '''',
      sv_revision = 0\<rparr>"

lemma version_below_series:
  assumes "1 \<le> n"
  shows "ver < n * 1000000000 - 9999 \<longleftrightarrow> sv_triple ver div 100000 < n"
proof -
  have "sv_triple ver div 100000 < n \<longleftrightarrow> sv_triple ver < n * 100000"
    by (simp add: div_less_iff_less_mult)
  also have "\<dots> \<longleftrightarrow> ver < n * 1000000000 - 9999"
    using sv_triple_bounds [of ver] assms by linarith
  finally show ?thesis by simp
qed

lemma satisfies_below_series:
  assumes v: "sv_wf f v" "\<not> sv_stub v" and w: "sv_wf g w" "\<not> sv_stub w" and n: "1 \<le> n"
  shows "satisfies \<lparr>sc_min = Some v, sc_max = Some (earliest_of_series (sv_epoch v) n),
      sc_min_open = False, sc_max_open = True\<rparr> w \<longleftrightarrow>
    sv_epoch w = sv_epoch v \<and> sv_key v \<le> sv_key w \<and> sv_series w < n"
proof -
  have "sv_key w < sv_key (earliest_of_series (sv_epoch v) n) \<longleftrightarrow>
      sv_epoch w < sv_epoch v \<or> (sv_epoch w = sv_epoch v \<and> sv_version w < n * 1000000000 - 9999)"
    by (auto simp: sv_key_def earliest_of_series_def less_prod_def)
  moreover have "sv_version w < n * 1000000000 - 9999 \<longleftrightarrow> sv_series w < n"
    unfolding version_below_series [OF n] sv_series_triple [OF w] ..
  moreover have "sv_key v \<le> sv_key w \<Longrightarrow> \<not> sv_epoch w < sv_epoch v"
    by (auto simp: sv_key_def less_eq_prod_def)
  ultimately show ?thesis
    by (auto simp: satisfies_def sv_compare_key)
qed

lemma sv_key_series_mono:
  assumes v: "sv_wf f v" "\<not> sv_stub v" and w: "sv_wf g w" "\<not> sv_stub w"
    and "sv_epoch w = sv_epoch v" "sv_key v \<le> sv_key w"
  shows "sv_series v \<le> sv_series w"
proof -
  have "sv_version v \<le> sv_version w"
    using assms(5,6) by (auto simp: sv_key_def less_eq_prod_def)
  then show ?thesis
    unfolding sv_series_triple [OF v] sv_series_triple [OF w]
    by (intro div_le_mono sv_triple_mono)
qed

lemma of_parts_earliest:
  assumes "1 \<le> n" "n \<le> 9999999999" "1 \<le> ep"
  shows "standard_version_of_parts False ep (u64 (u64_sub (u64 (n * 1000000000)) 10000 + 1)) [] 0 earliest_flag =
    Inr (earliest_of_series ep n)"
proof -
  have a: "u64 (n * 1000000000) = n * 1000000000" using assms by (intro u64_id) linarith
  have b: "u64_sub (n * 1000000000) 10000 = n * 1000000000 - 10000" using assms by (intro u64_sub_le) linarith+
  have c: "u64 (n * 1000000000 - 10000 + 1) = n * 1000000000 - 9999"
    using assms by (subst u64_id) linarith+
  have x: "n * 1000000000 - 9999 = (n * 100000) * 10000 - 10000 + 0 * 10 + 1" using assms by linarith
  have T: "1 \<le> n * 100000" using assms by linarith
  note t = sv_triple_borrow [OF T, of 0 1, folded x, simplified]
  have lt: "n * 1000000000 - 9999 < 10000000000000000000" using assms by linarith
  have nz: "(n * 1000000000 - 9999) div 10000 \<noteq> 0" using assms by (simp add: div_eq_0_iff)
  show ?thesis
    unfolding a b c using lt nz t(2,3)
    by (simp add: standard_version_of_parts_def standard_version_of_number_snapshot_def check_version_def
        earliest_flag_def empty_standard_version_def earliest_of_series_def sv_stub_def Let_def)
qed

lemma standard_version_of_string_string [simp]:
  "sv_wf f v \<Longrightarrow> standard_version_of_string False (sv_string v) f = Inr v"
  by (simp add: standard_version_of_string_def parse_version_string)

definition version_char :: "char \<Rightarrow> bool" where
  [char_defs]: "version_char c \<longleftrightarrow> alnum c \<or> c = CHR ''+'' \<or> c = CHR ''-'' \<or> c = CHR ''.''"

lemma list_all_to_string [simp]: "list_all version_char (to_string n)"
  by (auto simp: list_all_iff version_char_def dest: to_string_digits)

lemma sv_string_chars:
  assumes "sv_wf f v"
  shows "list_all version_char (sv_string v)"
proof -
  have "list_all version_char (sv_snapshot_id v)"
    using assms by (auto simp: sv_wf_def snapshot_id_ok_def list_all_iff version_char_def split: if_splits)
  moreover have "version_char CHR ''z''" "version_char CHR ''a''" "version_char CHR ''b''" "version_char CHR ''0''"
     "version_char CHR ''.''" "version_char CHR ''-''" "version_char CHR ''+''"
    by (simp_all add: char_defs)
  ultimately show ?thesis
    by (simp add: sv_string_def string_project_def string_version_def string_snapshot_def
        string_pre_release_def Let_def)
qed

lemma sv_string_disjoint:
  assumes "sv_wf f v" "list_all (\<lambda>c. \<not> version_char c) cs"
  shows "set (sv_string v) \<inter> set cs = {}"
  using sv_string_chars [OF assms(1)] assms(2) by (auto simp: list_all_iff)

lemma sv_string_not_Nil: "sv_wf f v \<Longrightarrow> sv_string v \<noteq> []"
proof
  assume wf: "sv_wf f v" and "sv_string v = []"
  then have "parse_version False [] f = Inr v"
    using parse_version_string by metis
  then show False by (simp add: parse_eval)
qed

lemma skip_blanks_sv_string:
  assumes "sv_wf f v"
  shows "find_first_not_of blanks (sv_string v @ s) = sv_string v @ s"
proof -
  obtain c t where s: "sv_string v = c # t" using sv_string_not_Nil [OF assms] by (cases "sv_string v") auto
  then have "version_char c" using sv_string_chars [OF assms] by simp
  then show ?thesis unfolding s by (auto simp: char_defs)
qed

lemmas skip_blanks_sv_string' [simp] = skip_blanks_sv_string [where s = "[]", simplified]

lemma wf_earliest_flag_not_stub: "sv_wf earliest_flag v \<Longrightarrow> \<not> sv_stub v"
  by (auto simp: sv_wf_def earliest_flag_def)

lemma earliest_of_series_ok:
  assumes "1 \<le> n" "n \<le> 9999999999"
  shows "\<not> sv_empty (earliest_of_series ep n)" "\<not> sv_stub (earliest_of_series ep n)"
  using assms by (auto simp: sv_empty_def sv_stub_def earliest_of_series_def)

lemma endpoints_below_series:
  assumes v: "sv_wf f v" "\<not> sv_stub v" and n: "sv_series v < n" "n \<le> 9999999999"
  shows "constraint_of_endpoints (Some v) False (Some (earliest_of_series (sv_epoch v) n)) True =
    Inr \<lparr>sc_min = Some v, sc_max = Some (earliest_of_series (sv_epoch v) n),
         sc_min_open = False, sc_max_open = True\<rparr>"
proof -
  have n1: "1 \<le> n" using n by simp
  have "sv_version v < n * 1000000000 - 9999"
    unfolding version_below_series [OF n1] using n(1) by (simp add: sv_series_triple [OF v])
  then have "sv_key v < sv_key (earliest_of_series (sv_epoch v) n)"
    by (simp add: sv_key_def earliest_of_series_def less_prod_def)
  then have "sv_compare v (earliest_of_series (sv_epoch v) n) False < 0"
    unfolding sv_compare_key by simp
  then show ?thesis
    using sv_wf_not_empty [OF v] v earliest_of_series_ok [OF n1 n(2)]
    by (simp add: constraint_of_endpoints_def)
qed

text \<open>The series that \<open>~\<close> and \<open>^\<close> stop before, unless it overflows its digits.\<close>

definition shortcut_series :: "char \<Rightarrow> standard_version \<Rightarrow> nat option" where
  "shortcut_series c v =
     (if c = CHR ''~'' \<or> sv_major v = 0
      then (if sv_minor v = 99999 then None else Some (sv_series v + 1))
      else (if sv_major v = 99999 then None else Some ((sv_major v + 1) * 100000)))"

lemma shortcut_series_bounds:
  assumes "shortcut_series c v = Some n"
  shows "sv_series v < n" "1 \<le> n" "n \<le> 9999999999"
proof -
  obtain M N where MN: "M = sv_major v" "N = sv_minor v" "M \<le> 99999" "N \<le> 99999" by simp
  from assms have "sv_series v < n \<and> 1 \<le> n \<and> n \<le> 9999999999"
    using MN(3,4) unfolding shortcut_series_def sv_series_def MN(1,2) [symmetric]
    by (auto split: if_splits)
  then show "sv_series v < n" "1 \<le> n" "n \<le> 9999999999" by simp_all
qed

lemma shortcut_max_version_series:
  assumes "1 \<le> sv_epoch v" "c = CHR ''~'' \<or> c = CHR ''^''"
  shows "shortcut_max_version c v ign =
     (case shortcut_series c v of
        Some n \<Rightarrow> Inr (earliest_of_series (sv_epoch v) n)
      | None \<Rightarrow> if ign then Inr empty_standard_version
                else Inl (Invalid_argument (if c = CHR ''~'' \<or> sv_major v = 0 then ''invalid minor version''
                                            else ''invalid major version'')))"
proof -
  have a: "sv_major v * 100000000000000 + (sv_minor v + 1) * 1000000000 = (sv_series v + 1) * 1000000000"
    by (simp add: sv_series_def)
  have b: "(sv_major v + 1) * 100000000000000 = ((sv_major v + 1) * 100000) * 1000000000"
    by simp
  define A where "A = u64 (u64_sub (u64 ((sv_series v + 1) * 1000000000)) 10000 + 1)"
  define B where "B = u64 (u64_sub (u64 (((sv_major v + 1) * 100000) * 1000000000)) 10000 + 1)"
  have A: "standard_version_of_parts False (sv_epoch v) A [] 0 earliest_flag = Inr (earliest_of_series (sv_epoch v) n)"
    if "shortcut_series c v = Some n" "n = sv_series v + 1" for n
    unfolding A_def that(2) [symmetric] using shortcut_series_bounds [OF that(1)] assms(1)
    by (intro of_parts_earliest)
  have B: "standard_version_of_parts False (sv_epoch v) B [] 0 earliest_flag = Inr (earliest_of_series (sv_epoch v) n)"
    if "shortcut_series c v = Some n" "n = (sv_major v + 1) * 100000" for n
    unfolding B_def that(2) [symmetric] using shortcut_series_bounds [OF that(1)] assms(1)
    by (intro of_parts_earliest)
  consider (tilde) "c = CHR ''~'' \<or> sv_major v = 0" | (caret) "c = CHR ''^''" "c \<noteq> CHR ''~''" "sv_major v \<noteq> 0"
    using assms(2) by blast
  then show ?thesis
  proof cases
    case tilde
    then show ?thesis
      using assms(2) A [of "sv_series v + 1"]
      unfolding shortcut_max_version_def a A_def [symmetric]
      by (auto simp: shortcut_series_def)
  next
    case caret
    then show ?thesis
      using B [of "(sv_major v + 1) * 100000"]
      unfolding shortcut_max_version_def b B_def [symmetric]
      by (auto simp: shortcut_series_def)
  qed
qed

lemma parse_shortcut_string:
  assumes v: "sv_wf earliest_flag v" and c: "c = CHR ''~'' \<or> c = CHR ''^''"
  shows "parse_constraint False (c # sv_string v) None =
     (case shortcut_series c v of
        Some n \<Rightarrow> Inr \<lparr>sc_min = Some v, sc_max = Some (earliest_of_series (sv_epoch v) n),
                     sc_min_open = False, sc_max_open = True\<rparr>
      | None \<Rightarrow> Inl (Invalid_argument (''invalid version: '' @
                  (if c = CHR ''~'' \<or> sv_major v = 0 then ''invalid minor version'' else ''invalid major version''))))"
proof -
  have ns: "\<not> sv_stub v" using v by (rule wf_earliest_flag_not_stub)
  have ep: "1 \<le> sv_epoch v" using v ns by (simp add: sv_wf_def)
  have pc: "parse_constraint False (c # sv_string v) None = parse_shortcut False (c # sv_string v) None"
    using c by (auto simp: parse_constraint_def)
  note defs = pc parse_shortcut_def Let_def cur_simps list.sel skip_blanks_sv_string' [OF v]
      option.case standard_version_of_string_string [OF v]
  have mx: "shortcut_max_version c v False =
     (case shortcut_series c v of Some n \<Rightarrow> Inr (earliest_of_series (sv_epoch v) n)
      | None \<Rightarrow> Inl (Invalid_argument (if c = CHR ''~'' \<or> sv_major v = 0 then ''invalid minor version''
                                            else ''invalid major version'')))"
    using shortcut_max_version_series [OF ep c, of False] by simp
  show ?thesis
  proof (cases "shortcut_series c v")
    case None
    with mx sv_string_not_Nil [OF v] show ?thesis
      unfolding defs by (simp add: rethrow_def)
  next
    case (Some n)
    with mx sv_string_not_Nil [OF v] endpoints_below_series [OF v ns, of n] shortcut_series_bounds [OF Some]
    show ?thesis
      unfolding defs by (simp add: rethrow_def)
  qed
qed

end
