(* ===== verification/Bpkg_Version.thy ===== *)
theory Bpkg_Version
  imports Butl_Prelude "HOL-Library.Product_Lexorder"
begin

text \<open>
  The package version of \<open>libbpkg\<close> (\<open>class version\<close> of \<open>manifest.hxx\<close> and \<open>manifest.cxx\<close>): the
  single-pass parser with its pointers as positions in the string, the canonical forms that make
  versions comparable as strings, the constructor from the separate parts, comparison and printing.
  An \<open>assert\<close> that fails is the value \<^const>\<open>Assertion_failure\<close>.
\<close>

section \<open>Data\<close>

record version =
  bv_epoch :: nat
  bv_upstream :: string
  bv_release :: "string option"
  bv_revision :: "nat option"
  bv_iteration :: nat
  bv_canonical_upstream :: string
  bv_canonical_release :: string

text \<open>\<open>version::data_type\<close>; the members that a partial parse leaves unset are zero or empty.\<close>

record data_type =
  dt_epoch :: nat
  dt_upstream :: string
  dt_release :: "string option"
  dt_revision :: "nat option"
  dt_canonical_upstream :: string
  dt_canonical_release :: string

datatype parse_kind = Full | Upstream_part | Release_part

datatype parse_mode = M_epoch | M_upstream | M_release | M_revision

section \<open>The canonical form of a part\<close>

record canonical_part =
  cp_string :: string
  cp_len :: nat

definition empty_part :: canonical_part where
  "empty_part = \<lparr>cp_string = [], cp_len = 0\<rparr>"

definition canonical_final :: "canonical_part \<Rightarrow> string" where
  "canonical_final cp = take (cp_len cp) (cp_string cp)"

definition canonical_add :: "canonical_part \<Rightarrow> string \<Rightarrow> bool \<Rightarrow> canonical_part result" where
  "canonical_add cp c numeric =
     (let s = (if cp_string cp \<noteq> [] then cp_string cp @ ''.'' else []) in
      if numeric
      then (if length c > 16 then Inl (Invalid_argument ''16 digits maximum allowed in a component'')
            else let s' = s @ replicate (16 - length c) CHR ''0'' @ c;
                     zo = list_all (\<lambda>d. d = CHR ''0'') c
                 in Inr \<lparr>cp_string = s', cp_len = (if zo then cp_len cp else length s')\<rparr>)
      else let s' = s @ lcase c in Inr \<lparr>cp_string = s', cp_len = length s'\<rparr>)"

section \<open>Parsing\<close>

text \<open>\<open>std::stoull ()\<close>: None stands for the exceptions it throws.\<close>

definition stoull :: "string \<Rightarrow> nat option" where
  "stoull s = (case strtoull s of (n, e, overflow) \<Rightarrow> if e = s \<or> overflow then None else Some n)"

definition parse_epoch_number :: "string \<Rightarrow> string \<Rightarrow> nat result" where
  "parse_epoch_number s what =
     (case stoull s of
        Some n \<Rightarrow> if n \<le> uint16_max then Inr n
                  else Inl (Invalid_argument (what @ '' should be 2-byte unsigned integer''))
      | None \<Rightarrow> Inl (Invalid_argument (what @ '' should be 2-byte unsigned integer'')))"

text \<open>
  The local variables of the parser. The pointers are positions; \<open>ps_on_release\<close> tells which of the
  two parts \<open>canon_part\<close> points to.
\<close>

record parser =
  ps_mode :: parse_mode
  ps_ep :: "nat option"
  ps_canon_upstream :: canonical_part
  ps_canon_release :: canonical_part
  ps_on_release :: bool
  ps_cb :: nat
  ps_ub :: nat
  ps_ue :: nat
  ps_rb :: nat
  ps_re :: nat
  ps_lnn :: int

definition range_of :: "string \<Rightarrow> nat \<Rightarrow> nat \<Rightarrow> string" where
  "range_of v a b = take (b - a) (drop a v)"

definition add_component :: "string \<Rightarrow> nat \<Rightarrow> parser \<Rightarrow> parser result" where
  "add_component v p st =
     (case canonical_add (if ps_on_release st then ps_canon_release st else ps_canon_upstream st)
             (range_of v (ps_cb st) p) (ps_lnn st < int (ps_cb st)) of
        Inl e \<Rightarrow> Inl e
      | Inr cp \<Rightarrow> Inr (if ps_on_release st then st\<lparr>ps_canon_release := cp\<rparr>
                       else st\<lparr>ps_canon_upstream := cp\<rparr>))"

definition separator :: "parse_kind \<Rightarrow> string \<Rightarrow> char \<Rightarrow> nat \<Rightarrow> parser \<Rightarrow> parser result" where
  "separator pr v c p st =
     (let m = ps_mode st in
      if c \<noteq> CHR ''.'' \<and> pr \<noteq> Full
      then Inl (Invalid_argument (''unexpected '' @ [CHR 0x27, c, CHR 0x27] @ '' character''))
      else if m = M_revision \<or> (c = CHR ''-'' \<and> m = M_release) \<or> (c \<noteq> CHR ''-'' \<and> m = M_epoch) \<or>
         p = ps_cb st
      then Inl (Invalid_argument (''unexpected '' @ [CHR 0x27, c, CHR 0x27] @ '' character position''))
      else case
        (if m = M_epoch
         then (if ps_lnn st \<ge> int (ps_cb st)
               then Inl (Invalid_argument ''epoch should be 2-byte unsigned integer'')
               else (case parse_epoch_number (range_of v (ps_cb st) p) ''epoch'' of
                       Inl e \<Rightarrow> Inl e
                     | Inr n \<Rightarrow> Inr (st\<lparr>ps_ep := Some n\<rparr>)))
         else add_component v p st) of
        Inl e \<Rightarrow> Inl e
      | Inr st1 \<Rightarrow>
          let st2 = st1\<lparr>ps_cb := p + 1\<rparr>;
              st3 = (if m = M_upstream then st2\<lparr>ps_ue := p\<rparr>
                     else if m = M_release then st2\<lparr>ps_re := p\<rparr> else st2)
          in if m \<noteq> M_upstream \<and> m \<noteq> M_release \<and> m \<noteq> M_epoch then Inl Assertion_failure
             else Inr (if c = CHR ''+'' then st3\<lparr>ps_mode := M_revision\<rparr>
                       else if c = CHR ''-''
                       then (if m = M_epoch
                             then st3\<lparr>ps_mode := M_upstream, ps_ub := p + 1, ps_ue := p + 1\<rparr>
                             else st3\<lparr>ps_mode := M_release, ps_rb := p + 1, ps_re := p + 1,
                                      ps_on_release := True\<rparr>)
                       else st3))"

text \<open>The loop over the characters, up to the terminating NUL.\<close>

fun scan :: "parse_kind \<Rightarrow> string \<Rightarrow> string \<Rightarrow> nat \<Rightarrow> parser \<Rightarrow> (nat \<times> parser) result" where
  "scan pr v [] p st = Inr (p, st)"
| "scan pr v (c # cs) p st =
     (if c = NUL then Inr (p, st)
      else case (if c = CHR ''+'' \<or> c = CHR ''-'' \<or> c = CHR ''.'' then separator pr v c p st
                 else if \<not> alnum c
                 then Inl (Invalid_argument ''alpha-numeric characters expected in a component'')
                 else Inr st) of
             Inl e \<Rightarrow> Inl e
           | Inr st' \<Rightarrow> scan pr v cs (p + 1) (if \<not> digit c then st'\<lparr>ps_lnn := int p\<rparr> else st'))"

definition initial_parser :: "parse_kind \<Rightarrow> string \<Rightarrow> parser" where
  "initial_parser pr v =
     (let m = (if pr = Full then (if cur v = CHR ''+'' then M_epoch else M_upstream)
               else if pr = Upstream_part then M_upstream else M_release);
          cb = (if m \<noteq> M_epoch then 0 else 1)
      in \<lparr>ps_mode = m, ps_ep = None, ps_canon_upstream = empty_part, ps_canon_release = empty_part,
          ps_on_release = (pr = Release_part), ps_cb = cb, ps_ub = cb, ps_ue = cb, ps_rb = cb, ps_re = cb,
          ps_lnn = int cb - 1\<rparr>)"

text \<open>The last component: the revision, or one more component of the current part.\<close>

definition last_component ::
  "parse_kind \<Rightarrow> bool \<Rightarrow> string \<Rightarrow> nat \<Rightarrow> parser \<Rightarrow> (parser \<times> nat option) result" where
  "last_component pr fold_zero_rev v p st =
     (let m = ps_mode st in
      if \<not> ps_cb st \<le> p then Inl Assertion_failure
      else if m = M_epoch \<or> (p = ps_cb st \<and> m \<noteq> M_release \<and> pr \<noteq> Upstream_part)
      then Inl (Invalid_argument ''unexpected end'')
      else if m = M_revision
      then (if ps_lnn st \<ge> int (ps_cb st)
            then Inl (Invalid_argument ''revision should be 2-byte unsigned integer'')
            else (case parse_epoch_number (range_of v (ps_cb st) p) ''revision'' of
                    Inl e \<Rightarrow> Inl e
                  | Inr rv \<Rightarrow> Inr (st, if rv \<noteq> 0 \<or> \<not> fold_zero_rev then Some rv else None)))
      else if ps_cb st \<noteq> p
      then (case add_component v p st of
              Inl e \<Rightarrow> Inl e
            | Inr st1 \<Rightarrow> Inr (if m = M_upstream then st1\<lparr>ps_ue := p\<rparr>
                              else if m = M_release then st1\<lparr>ps_re := p\<rparr> else st1, None))
      else Inr (st, None))"

definition default_epoch :: "string \<Rightarrow> string option \<Rightarrow> nat" where
  "default_epoch canonical_upstream release = (if canonical_upstream = [] \<and> release = None then 0 else 1)"

text \<open>Filling the members from the parser's variables.\<close>

definition fill_data :: "parse_kind \<Rightarrow> string \<Rightarrow> parser \<Rightarrow> nat option \<Rightarrow> data_type result" where
  "fill_data pr v st rv =
     (let up = cp_string (ps_canon_upstream st) \<noteq> []; rel = cp_string (ps_canon_release st) \<noteq> [] in
      if \<not> (ps_ub st \<le> ps_ue st \<and> ps_rb st \<le> ps_re st) then Inl Assertion_failure
      else if pr \<noteq> Release_part \<and> up \<and> ps_ub st = ps_ue st then Inl Assertion_failure
      else if pr \<noteq> Upstream_part \<and> rel \<and> ps_rb st = ps_re st then Inl Assertion_failure
      else
        let cu = (if pr \<noteq> Release_part \<and> up then canonical_final (ps_canon_upstream st) else []);
            u = (if pr = Full \<and> up then range_of v (ps_ub st) (ps_ue st) else []);
            cr = (if pr = Upstream_part then []
                  else if rel then canonical_final (ps_canon_release st)
                  else if ps_mode st = M_release then [] else ''~'');
            r = (if pr \<noteq> Full then None
                 else if rel then Some (range_of v (ps_rb st) (ps_re st))
                 else if ps_mode st = M_release then Some [] else None);
            e = (if pr = Full then (case ps_ep st of Some n \<Rightarrow> n | None \<Rightarrow> default_epoch cu r) else 0)
        in if pr = Full \<and> e = 0 \<and> cu = [] \<and> cr = []
           then (if rv \<noteq> None then Inl Assertion_failure else Inl (Invalid_argument ''empty version''))
           else Inr \<lparr>dt_epoch = e, dt_upstream = u, dt_release = r, dt_revision = rv,
                     dt_canonical_upstream = cu, dt_canonical_release = cr\<rparr>)"

definition parse_data :: "string option \<Rightarrow> parse_kind \<Rightarrow> bool \<Rightarrow> data_type result" where
  "parse_data s pr fold_zero_rev =
     (if fold_zero_rev \<and> pr \<noteq> Full then Inl Assertion_failure
      else case s of
        None \<Rightarrow> if pr = Release_part
                then Inr \<lparr>dt_epoch = 0, dt_upstream = [], dt_release = None, dt_revision = None,
                          dt_canonical_upstream = [], dt_canonical_release = ''~''\<rparr>
                else Inl Assertion_failure
      | Some v \<Rightarrow>
          let st0 = initial_parser pr v in
          (case scan pr v (drop (ps_cb st0) v) (ps_cb st0) st0 of
             Inl e \<Rightarrow> Inl e
           | Inr (p, st) \<Rightarrow>
               (case last_component pr fold_zero_rev v p st of
                  Inl e \<Rightarrow> Inl e
                | Inr (st1, rv) \<Rightarrow> fill_data pr v st1 rv)))"

definition version_of_string :: "string \<Rightarrow> bool \<Rightarrow> version result" where
  "version_of_string s fold_zero_rev =
     (case parse_data (Some s) Full fold_zero_rev of
        Inl e \<Rightarrow> Inl e
      | Inr d \<Rightarrow> Inr \<lparr>bv_epoch = dt_epoch d, bv_upstream = dt_upstream d, bv_release = dt_release d,
                    bv_revision = dt_revision d, bv_iteration = 0,
                    bv_canonical_upstream = dt_canonical_upstream d,
                    bv_canonical_release = dt_canonical_release d\<rparr>)"

section \<open>Construction from parts, comparison and printing\<close>

definition empty_version :: version where
  "empty_version = \<lparr>bv_epoch = 0, bv_upstream = [], bv_release = Some [], bv_revision = None,
     bv_iteration = 0, bv_canonical_upstream = [], bv_canonical_release = []\<rparr>"

definition version_of_parts ::
  "nat \<Rightarrow> string \<Rightarrow> string option \<Rightarrow> nat option \<Rightarrow> nat \<Rightarrow> version result" where
  "version_of_parts e u l r i =
     (case parse_data (Some u) Upstream_part False of
        Inl x \<Rightarrow> Inl x
      | Inr du \<Rightarrow>
          (case parse_data l Release_part False of
             Inl x \<Rightarrow> Inl x
           | Inr dr \<Rightarrow>
               if u = []
               then (if e \<noteq> 0 then Inl (Invalid_argument ''epoch for empty version'')
                     else if l \<noteq> Some [] then Inl (Invalid_argument ''not-empty release for empty version'')
                     else if r \<noteq> None then Inl (Invalid_argument ''revision for empty version'')
                     else if i \<noteq> 0 then Inl (Invalid_argument ''iteration for empty version'')
                     else Inr empty_version)
               else if l = Some [] \<and> (r \<noteq> None \<or> i \<noteq> 0)
               then Inl (Invalid_argument ''revision for earliest possible release'')
               else Inr \<lparr>bv_epoch = e, bv_upstream = u, bv_release = l, bv_revision = r, bv_iteration = i,
                         bv_canonical_upstream = dt_canonical_upstream du,
                         bv_canonical_release = dt_canonical_release dr\<rparr>))"

definition effective_revision :: "version \<Rightarrow> nat" where
  "effective_revision v = (case bv_revision v of Some r \<Rightarrow> r | None \<Rightarrow> 0)"

text \<open>\<open>optional\<close> values compare with the absent one first.\<close>

definition opt_less :: "nat option \<Rightarrow> nat option \<Rightarrow> bool" where
  "opt_less x y = (case (x, y) of (None, Some _) \<Rightarrow> True | (Some a, Some b) \<Rightarrow> a < b | _ \<Rightarrow> False)"

definition bv_compare :: "version \<Rightarrow> version \<Rightarrow> bool \<Rightarrow> bool \<Rightarrow> int" where
  "bv_compare x y ignore_revision ignore_iteration =
     (if bv_epoch x \<noteq> bv_epoch y then (if bv_epoch x < bv_epoch y then -1 else 1)
      else let c = cmp (bv_canonical_upstream x) (bv_canonical_upstream y) in
        if c \<noteq> 0 then c
        else let d = cmp (bv_canonical_release x) (bv_canonical_release y) in
          if d \<noteq> 0 then d
          else if \<not> ignore_revision
          then (if bv_revision x \<noteq> bv_revision y
                then (if opt_less (bv_revision x) (bv_revision y) then -1 else 1)
                else if \<not> ignore_iteration \<and> bv_iteration x \<noteq> bv_iteration y
                then (if bv_iteration x < bv_iteration y then -1 else 1)
                else 0)
          else 0)"

definition bv_empty :: "version \<Rightarrow> bool result" where
  "bv_empty v =
     (let e = (bv_upstream v = []) in
      if \<not> e \<or> (bv_epoch v = 0 \<and> bv_release v = Some [] \<and> bv_revision v = None \<and> bv_iteration v = 0)
      then Inr e else Inl Assertion_failure)"

definition bv_string :: "version \<Rightarrow> bool \<Rightarrow> bool \<Rightarrow> string result" where
  "bv_string v ignore_revision ignore_iteration =
     (case bv_empty v of
        Inl x \<Rightarrow> Inl x
      | Inr True \<Rightarrow> Inl (Logic_error ''empty version'')
      | Inr False \<Rightarrow> Inr
          ((if bv_epoch v \<noteq> default_epoch (bv_canonical_upstream v) (bv_release v)
            then ''+'' @ to_string (bv_epoch v) @ ''-'' @ bv_upstream v else bv_upstream v) @
           (case bv_release v of Some r \<Rightarrow> ''-'' @ r | None \<Rightarrow> []) @
           (if \<not> ignore_revision
            then (case bv_revision v of Some r \<Rightarrow> ''+'' @ to_string r | None \<Rightarrow> []) @
                 (if \<not> ignore_iteration \<and> bv_iteration v \<noteq> 0 then ''#'' @ to_string (bv_iteration v) else [])
            else [])))"

section \<open>Dotted lists of components\<close>

fun dot_join :: "string list \<Rightarrow> string" where
  "dot_join [] = []"
| "dot_join [c] = c"
| "dot_join (c # d # cs) = c @ CHR ''.'' # dot_join (d # cs)"

lemma dot_join_Cons: "dot_join (c # cs) = c @ (if cs = [] then [] else CHR ''.'' # dot_join cs)"
  by (cases cs) simp_all

lemma dot_join_append:
  "xs \<noteq> [] \<Longrightarrow> ys \<noteq> [] \<Longrightarrow> dot_join (xs @ ys) = dot_join xs @ CHR ''.'' # dot_join ys"
  by (induction xs rule: dot_join.induct) (auto simp: dot_join_Cons)

lemma dot_join_snoc: "dot_join (cs @ [c]) = (if cs = [] then c else dot_join cs @ CHR ''.'' # c)"
  by (simp add: dot_join_append)

lemma dot_join_eq_Nil: "[] \<notin> set cs \<Longrightarrow> dot_join cs = [] \<longleftrightarrow> cs = []"
  by (cases cs) (auto simp: dot_join_Cons)

text \<open>A component as it stands in a version, padded to compare, and zero.\<close>

definition component_ok :: "string \<Rightarrow> bool" where
  "component_ok c \<longleftrightarrow> c \<noteq> [] \<and> list_all alnum c \<and> (list_all digit c \<longrightarrow> length c \<le> 16)"

definition padded :: "string \<Rightarrow> string" where
  "padded c = (if list_all digit c then replicate (16 - length c) CHR ''0'' @ c else lcase c)"

definition zero_component :: "string \<Rightarrow> bool" where
  "zero_component c \<longleftrightarrow> list_all (\<lambda>d. d = CHR ''0'') c"

definition strip_zeros :: "string list \<Rightarrow> string list" where
  "strip_zeros cs = rev (dropWhile zero_component (rev cs))"

definition canonical :: "string list \<Rightarrow> string" where
  "canonical cs = dot_join (map padded (strip_zeros cs))"

definition part_of :: "string list \<Rightarrow> canonical_part" where
  "part_of cs = \<lparr>cp_string = dot_join (map padded cs), cp_len = length (canonical cs)\<rparr>"

lemma strip_zeros_snoc: "strip_zeros (cs @ [c]) = (if zero_component c then strip_zeros cs else cs @ [c])"
  by (simp add: strip_zeros_def)

lemma strip_zeros_Nil [simp]: "strip_zeros [] = []"
  by (simp add: strip_zeros_def)

lemma strip_zeros_prefix: "\<exists>zs. cs = strip_zeros cs @ zs \<and> list_all zero_component zs"
  by (rule exI [of _ "rev (takeWhile zero_component (rev cs))"])
    (auto simp: strip_zeros_def rev_append [symmetric] list_all_iff dest: set_takeWhileD)

lemma padded_eq_Nil [simp]: "c \<noteq> [] \<Longrightarrow> padded c \<noteq> []"
  by (auto simp: padded_def lcase_def)

lemma component_ok_not_Nil: "list_all component_ok cs \<Longrightarrow> [] \<notin> set cs"
  by (auto simp: list_all_iff component_ok_def)

lemma padded_not_Nil: "list_all component_ok cs \<Longrightarrow> [] \<notin> set (map padded cs)"
  by (auto simp: list_all_iff component_ok_def) (metis padded_eq_Nil)

lemma part_of_Nil [simp]: "part_of [] = empty_part"
  by (simp add: part_of_def empty_part_def canonical_def)

lemma part_string_Nil: "list_all component_ok cs \<Longrightarrow> cp_string (part_of cs) = [] \<longleftrightarrow> cs = []"
  using dot_join_eq_Nil [OF padded_not_Nil] by (auto simp: part_of_def)

lemma zero_component_digits: "zero_component c \<Longrightarrow> list_all digit c"
  using digit_digit_char [of 0] by (induction c) (simp_all add: zero_component_def)

text \<open>The builder of the canonical form, one component at a time.\<close>

lemma canonical_add_part:
  assumes "list_all component_ok cs" "c \<noteq> []" "list_all alnum c"
  shows "canonical_add (part_of cs) c (list_all digit c) =
    (if component_ok c then Inr (part_of (cs @ [c]))
     else Inl (Invalid_argument ''16 digits maximum allowed in a component''))"
  using assms part_string_Nil [OF assms(1)] zero_component_digits [of c]
  by (auto simp: canonical_add_def part_of_def dot_join_snoc component_ok_def padded_def canonical_def
      strip_zeros_snoc zero_component_def [symmetric] Let_def)

lemma canonical_final_part: "canonical_final (part_of cs) = canonical cs"
proof -
  obtain zs where "cs = strip_zeros cs @ zs" using strip_zeros_prefix by blast
  then have m: "map padded cs = map padded (strip_zeros cs) @ map padded zs" by (metis map_append)
  show ?thesis
    unfolding canonical_final_def part_of_def canonical_part.simps canonical_def m
    by (cases "strip_zeros cs = []"; cases "zs = []") (simp_all add: dot_join_append)
qed

section \<open>The order of the canonical forms\<close>

lemma Nil_less: "[] < (s :: 'a::linorder list) \<longleftrightarrow> s \<noteq> []"
  by (cases s) simp_all

lemma less_word_append:
  assumes "\<forall>c \<in> set w. CHR ''.'' < c" "\<forall>c \<in> set w'. CHR ''.'' < c"
    and "t = [] \<or> hd t = CHR ''.''" "t' = [] \<or> hd t' = CHR ''.''" 
  shows "w @ t < w' @ t' \<longleftrightarrow> w < w' \<or> (w = w' \<and> t < t')"
  using assms
proof (induction w arbitrary: w')
  case Nil
  then show ?case by (cases w'; cases t; cases t') auto
next
  case (Cons c w)
  then show ?case by (cases w'; cases t') auto
qed

lemma dot_join_less:
  assumes "\<forall>w \<in> set xs \<union> set ys. w \<noteq> [] \<and> (\<forall>c \<in> set w. CHR ''.'' < c)"
  shows "dot_join xs < dot_join ys \<longleftrightarrow> xs < ys"
  using assms
proof (induction xs arbitrary: ys)
  case Nil
  then show ?case by (cases ys) (auto simp: dot_join_Cons Nil_less)
next
  case (Cons x xs)
  show ?case
  proof (cases ys)
    case Nil
    with Cons show ?thesis by (auto simp: dot_join_Cons)
  next
    case (Cons y zs)
    let ?t = "\<lambda>l. if l = [] then [] else CHR ''.'' # dot_join l"
    have "dot_join (x # xs) < dot_join ys \<longleftrightarrow> x < y \<or> x = y \<and> ?t xs < ?t zs"
      unfolding Cons dot_join_Cons
      by (rule less_word_append) (use Cons.prems Cons in auto)
    moreover have "?t xs < ?t zs \<longleftrightarrow> xs < zs"
      using Cons.IH [of zs] Cons.prems Cons by (cases zs) auto
    ultimately show ?thesis by (simp add: Cons)
  qed
qed

lemma dot_join_cmp:
  assumes "\<forall>w \<in> set xs \<union> set ys. w \<noteq> [] \<and> (\<forall>c \<in> set w. CHR ''.'' < c)"
  shows "cmp (dot_join xs) (dot_join ys) = cmp xs ys"
proof -
  have "dot_join xs < dot_join ys \<longleftrightarrow> xs < ys" "dot_join ys < dot_join xs \<longleftrightarrow> ys < xs"
    using assms by (intro dot_join_less; auto)+
  then show ?thesis by (auto simp: cmp_def)
qed

lemma lcase_char_alnum: "alnum c \<Longrightarrow> CHR ''.'' < lcase_char c"
  by (auto simp: char_defs lcase_char_def less_char_def)

lemma digit_above_dot: "digit c \<Longrightarrow> CHR ''.'' < c"
  by (auto simp: char_defs less_char_def)

lemma padded_above_dot:
  assumes "component_ok c"
  shows "padded c \<noteq> [] \<and> (\<forall>x \<in> set (padded c). CHR ''.'' < x)"
  using assms lcase_char_alnum digit_above_dot
  by (auto simp: padded_def component_ok_def list_all_iff lcase_def less_char_def)

lemma strip_zeros_subset: "set (strip_zeros cs) \<subseteq> set cs"
  by (auto simp: strip_zeros_def dest: set_dropWhileD)

lemma canonical_cmp:
  assumes "list_all component_ok xs" "list_all component_ok ys"
  shows "cmp (canonical xs) (canonical ys) = cmp (map padded (strip_zeros xs)) (map padded (strip_zeros ys))"
  unfolding canonical_def
  by (rule dot_join_cmp)
    (use assms padded_above_dot strip_zeros_subset in \<open>fastforce simp: list_all_iff\<close>)

text \<open>Digits of the same length compare as numbers.\<close>

lemma dec_val_Cons: "dec_val (c # s) = digit_val c * 10 ^ length s + dec_val s"
proof -
  have "foldl (\<lambda>n c. 10 * n + digit_val c) a s = a * 10 ^ length s + foldl (\<lambda>n c. 10 * n + digit_val c) 0 s"
    for a
  proof (induction s arbitrary: a)
    case (Cons d s)
    from Cons.IH [of "10 * a + digit_val d"] Cons.IH [of "digit_val d"] show ?case
      by (simp add: algebra_simps)
  qed simp
  from this [of "digit_val c"] show ?thesis by (simp add: dec_val_def)
qed

lemma digit_val_less: "digit c \<Longrightarrow> digit_val c < 10"
  by (auto simp: digit_def digit_val_def)

lemma dec_val_less: "list_all digit s \<Longrightarrow> dec_val s < 10 ^ length s"
proof (induction s)
  case (Cons c s)
  then have "digit_val c * 10 ^ length s \<le> 9 * 10 ^ length s" "dec_val s < 10 ^ length s"
    using digit_val_less [of c] by (auto intro: mult_right_mono)
  then have "digit_val c * 10 ^ length s + dec_val s < 9 * 10 ^ length s + 10 ^ length s"
    by (rule add_le_less_mono)
  then show ?case by (simp add: dec_val_Cons)
qed (simp add: dec_val_def)

lemma digits_less_iff:
  assumes "length s = length t" "list_all digit s" "list_all digit t"
  shows "s < t \<longleftrightarrow> dec_val s < dec_val t"
  using assms
proof (induction s t rule: list_induct2)
  case (Cons c s d t)
  have b: "dec_val s < 10 ^ length t" "dec_val t < 10 ^ length t"
    using Cons dec_val_less [of s] dec_val_less [of t] by auto
  have "48 \<le> ord c" "48 \<le> ord d" using Cons.prems by (simp_all add: digit_def)
  then have cd: "c < d \<longleftrightarrow> digit_val c < digit_val d" "c = d \<longleftrightarrow> digit_val c = digit_val d"
    unfolding less_char_def digit_val_def ord_inject [symmetric] by arith+
  have e: "digit_val c * 10 ^ length t + dec_val s < digit_val d * 10 ^ length t + dec_val t \<longleftrightarrow>
     digit_val c < digit_val d \<or> digit_val c = digit_val d \<and> dec_val s < dec_val t"
  proof (cases "digit_val c" "digit_val d" rule: linorder_cases)
    case less
    then have "(digit_val c + 1) * 10 ^ length t \<le> digit_val d * 10 ^ length t" by (intro mult_right_mono) auto
    with b less show ?thesis by (simp add: algebra_simps)
  next
    case greater
    then have "(digit_val d + 1) * 10 ^ length t \<le> digit_val c * 10 ^ length t" by (intro mult_right_mono) auto
    with b greater show ?thesis by (simp add: algebra_simps)
  qed simp
  show ?case using Cons cd e by (auto simp: dec_val_Cons)
qed simp

lemma dec_val_zeros: "dec_val (replicate k CHR ''0'' @ s) = dec_val s"
  by (induction k) (simp_all add: dec_val_Cons digit_val_def)

lemma length_to_string: "n < 10 ^ Suc k \<Longrightarrow> length (to_string n) \<le> Suc k"
proof (induction k arbitrary: n)
  case (Suc k)
  then have "n div 10 < 10 ^ Suc k" by auto
  from Suc.IH [OF this] show ?case by (subst to_string.simps) simp
qed (simp add: to_string.simps)

lemma to_string_component: "n < 10 ^ 16 \<Longrightarrow> component_ok (to_string n)"
  using length_to_string [of n 15] to_string_digits [of _ n]
  by (auto simp: component_ok_def list_all_iff alnum_def)

lemma zero_component_to_string: "zero_component (to_string n) \<longleftrightarrow> n = 0"
proof
  assume z: "zero_component (to_string n)"
  have "zero_component s \<Longrightarrow> dec_val s = 0" for s
    by (induction s) (simp_all add: zero_component_def dec_val_Cons digit_val_def, simp add: dec_val_def)
  from this [OF z] show "n = 0" by simp
qed (simp add: zero_component_def to_string.simps)

definition strip_zero_numbers :: "nat list \<Rightarrow> nat list" where
  "strip_zero_numbers ns = rev (dropWhile (\<lambda>n. n = 0) (rev ns))"

lemma strip_zeros_to_string: "strip_zeros (map to_string ns) = map to_string (strip_zero_numbers ns)"
proof -
  have "rev (map to_string ns) = map to_string (rev ns)" by (rule rev_map)
  then show ?thesis
    by (simp add: strip_zeros_def strip_zero_numbers_def dropWhile_map o_def zero_component_to_string rev_map)
qed

lemma map_less_iff:
  fixes f :: "'a::linorder \<Rightarrow> 'b::linorder"
  assumes "\<And>x y. x \<in> set xs \<Longrightarrow> y \<in> set ys \<Longrightarrow> f x < f y \<longleftrightarrow> x < y"
    "\<And>x y. x \<in> set xs \<Longrightarrow> y \<in> set ys \<Longrightarrow> f x = f y \<longleftrightarrow> x = y"
  shows "map f xs < map f ys \<longleftrightarrow> xs < ys"
  using assms
proof (induction xs arbitrary: ys)
  case Nil
  then show ?case by (cases ys) auto
next
  case (Cons x xs)
  then show ?case by (cases ys) auto
qed

lemma padded_to_string_less:
  assumes "n < 10 ^ 16" "m < 10 ^ 16"
  shows "padded (to_string n) < padded (to_string m) \<longleftrightarrow> n < m"
proof -
  have d: "list_all digit (to_string k)" for k using to_string_digits by (auto simp: list_all_iff)
  have "length (padded (to_string k)) = 16 \<and> list_all digit (padded (to_string k)) \<and>
      dec_val (padded (to_string k)) = k" if "k < 10 ^ 16" for k
    using length_to_string [of k 15] d [of k] that digit_digit_char [of 0]
    by (auto simp: padded_def dec_val_zeros list_all_iff in_set_replicate)
  with assms digits_less_iff [of "padded (to_string n)" "padded (to_string m)"] show ?thesis by simp
qed

lemma canonical_numbers_cmp:
  assumes "\<forall>n \<in> set ns \<union> set ms. n < 10 ^ 16"
  shows "cmp (canonical (map to_string ns)) (canonical (map to_string ms)) =
    cmp (strip_zero_numbers ns) (strip_zero_numbers ms)"
proof -
  let ?f = "\<lambda>n. padded (to_string n)"
  have sub: "set (strip_zero_numbers ks) \<subseteq> set ks" for ks
    by (auto simp: strip_zero_numbers_def dest: set_dropWhileD)
  have lt: "?f n < ?f m \<longleftrightarrow> n < m" if "n < 10 ^ 16" "m < 10 ^ 16" for n m
    using that by (rule padded_to_string_less)
  have eq: "?f n = ?f m \<longleftrightarrow> n = m" if "n < 10 ^ 16" "m < 10 ^ 16" for n m
    using lt [OF that] lt [OF that(2,1)] by (metis linorder_less_linear less_irrefl)
  have ok: "list_all component_ok (map to_string ks)" if "\<forall>n \<in> set ks. n < 10 ^ 16" for ks
    using that by (auto simp: list_all_iff intro: to_string_component)
  have "map ?f (strip_zero_numbers ns) < map ?f (strip_zero_numbers ms) \<longleftrightarrow>
      strip_zero_numbers ns < strip_zero_numbers ms"
    using assms sub by (intro map_less_iff lt eq) auto
  moreover have "map ?f (strip_zero_numbers ms) < map ?f (strip_zero_numbers ns) \<longleftrightarrow>
      strip_zero_numbers ms < strip_zero_numbers ns"
    using assms sub by (intro map_less_iff lt eq) auto
  ultimately have "cmp (map ?f (strip_zero_numbers ns)) (map ?f (strip_zero_numbers ms)) =
      cmp (strip_zero_numbers ns) (strip_zero_numbers ms)"
    by (auto simp: cmp_def)
  moreover have "cmp (canonical (map to_string ns)) (canonical (map to_string ms)) =
      cmp (map ?f (strip_zero_numbers ns)) (map ?f (strip_zero_numbers ms))"
    using canonical_cmp [OF ok ok] assms by (simp add: strip_zeros_to_string o_def)
  ultimately show ?thesis by simp
qed

end
