(* ===== verification/Bpkg_Version_Parser.thy ===== *)
theory Bpkg_Version_Parser
  imports Bpkg_Version
begin

text \<open>
  How the parser of package versions walks over a string: the state at the beginning of each
  component, what a separator does to it, and the exact result for the string of a version.
\<close>

section \<open>The scanner, component by component\<close>

lemma range_of_append: "length u = a \<Longrightarrow> a + length w = b \<Longrightarrow> range_of (u @ w @ t) a b = w"
  by (auto simp: range_of_def)

lemma range_of_self [simp]: "range_of v a a = []"
  by (simp add: range_of_def)

fun word_lnn :: "string \<Rightarrow> nat \<Rightarrow> int \<Rightarrow> int" where
  "word_lnn [] p l = l"
| "word_lnn (c # w) p l = word_lnn w (p + 1) (if digit c then l else int p)"

lemma word_lnn_less:
  "cb \<le> p \<Longrightarrow> word_lnn w p l < int cb \<longleftrightarrow> (l < int cb \<and> list_all digit w)"
  by (induction w arbitrary: p l) auto

lemma alnum_not_separator: "alnum c \<Longrightarrow> c \<noteq> CHR ''+'' \<and> c \<noteq> CHR ''-'' \<and> c \<noteq> CHR ''.'' \<and> c \<noteq> NUL"
  by (auto simp: char_defs)

lemma scan_word:
  "list_all alnum w \<Longrightarrow>
     scan pr v (w @ cs) p st = scan pr v cs (p + length w) (st\<lparr>ps_lnn := word_lnn w p (ps_lnn st)\<rparr>)"
proof (induction w arbitrary: p st)
  case (Cons c w)
  then show ?case using alnum_not_separator [of c] by simp
qed simp

text \<open>
  The state at the beginning of a component, position \<open>p\<close> of \<open>v\<close>: the components read so far of the
  upstream part (\<open>us\<close>) and of the release part (\<open>rs\<close>), and where they stand in the string.
\<close>

definition boundary :: "parse_kind \<Rightarrow> string \<Rightarrow> nat \<Rightarrow> parser \<Rightarrow> string list \<Rightarrow> string list \<Rightarrow> bool" where
  "boundary pr v p st us rs \<longleftrightarrow>
     ps_cb st = p \<and> ps_lnn st < int p \<and> list_all component_ok us \<and> list_all component_ok rs \<and>
     ps_canon_upstream st = part_of us \<and> ps_canon_release st = part_of rs \<and>
     (\<forall>n. ps_ep st = Some n \<longrightarrow> n \<le> uint16_max) \<and>
     (ps_ep st \<noteq> None \<or> ps_mode st = M_epoch \<longrightarrow> cur v = CHR ''+'') \<and>
     (ps_mode st = M_epoch \<longrightarrow> pr = Full \<and> us = [] \<and> rs = [] \<and> \<not> ps_on_release st \<and> ps_ep st = None) \<and>
     (ps_mode st = M_upstream \<longrightarrow> \<not> ps_on_release st \<and> rs = [] \<and> pr \<noteq> Release_part \<and>
        (us = [] \<and> ps_ub st = p \<or> us \<noteq> [] \<and> ps_ub st \<le> p \<and> range_of v (ps_ub st) p = dot_join us @ ''.'')) \<and>
     (ps_mode st = M_release \<longrightarrow> ps_on_release st \<and> pr \<noteq> Upstream_part \<and> (pr = Full \<longrightarrow> us \<noteq> []) \<and>
        (rs = [] \<and> ps_rb st = p \<or> rs \<noteq> [] \<and> ps_rb st \<le> p \<and> range_of v (ps_rb st) p = dot_join rs @ ''.'')) \<and>
     (ps_mode st = M_revision \<longrightarrow> pr = Full \<and> us \<noteq> []) \<and>
     range_of v (ps_ub st) (ps_ue st) = dot_join us \<and> ps_ub st \<le> ps_ue st \<and>
     range_of v (ps_rb st) (ps_re st) = dot_join rs \<and> ps_rb st \<le> ps_re st"


lemma range_of_split: "a \<le> b \<Longrightarrow> b \<le> c \<Longrightarrow> range_of v a c = range_of v a b @ range_of v b c"
proof -
  assume "a \<le> b" "b \<le> c"
  then have "c - a = (b - a) + (c - b)" "drop (b - a) (drop a v) = drop b v" by simp_all
  then show ?thesis unfolding range_of_def by (simp only: take_add)
qed

lemma range_of_drop: "drop p v = w @ t \<Longrightarrow> q = p + length w \<Longrightarrow> range_of v p q = w"
  by (simp add: range_of_def)

lemma range_of_next: "drop p v = w @ c # t \<Longrightarrow> q = p + length w \<Longrightarrow> range_of v p (q + 1) = w @ [c]"
  by (simp add: range_of_def)

lemma add_component_boundary:
  assumes "boundary pr v p st us rs" "drop p v = w @ t" "q = p + length w" "w \<noteq> []" "list_all alnum w"
    and "ps_mode st = M_upstream \<or> ps_mode st = M_release"
  shows "add_component v q (st\<lparr>ps_lnn := word_lnn w p (ps_lnn st)\<rparr>) =
    (if component_ok w
     then Inr (if ps_mode st = M_release
               then st\<lparr>ps_lnn := word_lnn w p (ps_lnn st), ps_canon_release := part_of (rs @ [w])\<rparr>
               else st\<lparr>ps_lnn := word_lnn w p (ps_lnn st), ps_canon_upstream := part_of (us @ [w])\<rparr>)
     else Inl (Invalid_argument ''16 digits maximum allowed in a component''))"
  using assms canonical_add_part [of us w] canonical_add_part [of rs w]
  by (auto simp: add_component_def boundary_def word_lnn_less range_of_drop)

lemma stoull_digits:
  assumes "w \<noteq> []" "list_all digit w"
  shows "stoull w = (if dec_val w \<le> uint64_max then Some (dec_val w) else None)"
proof -
  obtain c u where w: "w = c # u" using assms by (cases w) auto
  then have c: "digit c" using assms by simp
  then have "c \<noteq> CHR ''+''" "c \<noteq> CHR ''-''" "\<not> isspace c" by (auto simp: char_defs)
  moreover have "takeWhile digit w = w" "dropWhile digit w = []"
    using assms by (auto simp: list_all_iff takeWhile_eq_all_conv)
  ultimately show ?thesis using assms(1) w
    by (auto simp: stoull_def strtoull_def Let_def)
qed

lemma parse_epoch_number_digits:
  assumes "w \<noteq> []" "list_all digit w"
  shows "parse_epoch_number w what = (if dec_val w \<le> uint16_max then Inr (dec_val w)
      else Inl (Invalid_argument (what @ '' should be 2-byte unsigned integer'')))"
  using stoull_digits [OF assms] by (auto simp: parse_epoch_number_def)

text \<open>When a separator is accepted, and what it does to the components read.\<close>

definition separator_ok :: "parse_kind \<Rightarrow> char \<Rightarrow> parser \<Rightarrow> string \<Rightarrow> bool" where
  "separator_ok pr c st w \<longleftrightarrow>
     (c = CHR ''.'' \<or> pr = Full) \<and> w \<noteq> [] \<and> ps_mode st \<noteq> M_revision \<and>
     (ps_mode st = M_release \<longrightarrow> c \<noteq> CHR ''-'') \<and> (ps_mode st = M_epoch \<longrightarrow> c = CHR ''-'') \<and>
     (if ps_mode st = M_epoch then list_all digit w \<and> dec_val w \<le> uint16_max else component_ok w)"

definition separator_mode :: "char \<Rightarrow> parse_mode \<Rightarrow> parse_mode" where
  "separator_mode c m = (if c = CHR ''+'' then M_revision
     else if c = CHR ''-'' then (if m = M_epoch then M_upstream else M_release) else m)"

lemma boundary_word:
  assumes "boundary pr v p st us rs" "drop p v = w @ t"
  shows "ps_cb st = p" "range_of v p (p + length w) = w"
    "int p \<le> word_lnn w p (ps_lnn st) \<longleftrightarrow> \<not> list_all digit w"
  using assms word_lnn_less [of p p w "ps_lnn st"] by (auto simp: boundary_def range_of_drop)

lemma separator_refused:
  assumes b: "boundary pr v p st us rs" and d: "drop p v = w @ t"
    and w: "list_all alnum w" and n: "\<not> separator_ok pr c st w"
  shows "\<exists>m. separator pr v c (p + length w) (st\<lparr>ps_lnn := word_lnn w p (ps_lnn st)\<rparr>) = Inl (Invalid_argument m)"
proof (cases "ps_mode st")
  case M_epoch
  with boundary_word [OF b d] n show ?thesis
    by (auto simp: separator_def separator_ok_def Let_def parse_epoch_number_digits)
next
  case M_revision
  then show ?thesis by (auto simp: separator_def)
next
  case M_upstream
  with boundary_word [OF b d] add_component_boundary [OF b d refl _ w] n show ?thesis
    by (auto simp: separator_def separator_ok_def Let_def)
next
  case M_release
  with boundary_word [OF b d] add_component_boundary [OF b d refl _ w] n show ?thesis
    by (auto simp: separator_def separator_ok_def Let_def)
qed

text \<open>The parser after an accepted separator.\<close>

definition after_separator :: "char \<Rightarrow> nat \<Rightarrow> string \<Rightarrow> string list \<Rightarrow> string list \<Rightarrow> parser \<Rightarrow> parser" where
  "after_separator c q w us rs st =
     (case ps_mode st of
        M_epoch \<Rightarrow> st\<lparr>ps_ep := Some (dec_val w), ps_cb := q + 1, ps_mode := M_upstream, ps_ub := q + 1, ps_ue := q + 1\<rparr>
      | M_upstream \<Rightarrow>
          let s = st\<lparr>ps_canon_upstream := part_of (us @ [w]), ps_cb := q + 1, ps_ue := q\<rparr> in
          if c = CHR ''+'' then s\<lparr>ps_mode := M_revision\<rparr>
          else if c = CHR ''-''
          then s\<lparr>ps_mode := M_release, ps_rb := q + 1, ps_re := q + 1, ps_on_release := True\<rparr> else s
      | M_release \<Rightarrow>
          let s = st\<lparr>ps_canon_release := part_of (rs @ [w]), ps_cb := q + 1, ps_re := q\<rparr> in
          if c = CHR ''+'' then s\<lparr>ps_mode := M_revision\<rparr> else s
      | M_revision \<Rightarrow> st)"

lemma separator_accepted:
  assumes b: "boundary pr v p st us rs" and d: "drop p v = w @ t"
    and w: "list_all alnum w" and n: "separator_ok pr c st w"
  shows "separator pr v c (p + length w) (st\<lparr>ps_lnn := word_lnn w p (ps_lnn st)\<rparr>) =
    Inr (after_separator c (p + length w) w us rs (st\<lparr>ps_lnn := word_lnn w p (ps_lnn st)\<rparr>))"
proof (cases "ps_mode st")
  case M_epoch
  with boundary_word [OF b d] n show ?thesis
    by (auto simp: separator_def separator_ok_def Let_def parse_epoch_number_digits after_separator_def)
next
  case M_revision
  with n show ?thesis by (simp add: separator_ok_def)
next
  case M_upstream
  with boundary_word [OF b d] add_component_boundary [OF b d refl _ w] n show ?thesis
    by (simp add: separator_def separator_ok_def Let_def after_separator_def)
next
  case M_release
  with boundary_word [OF b d] add_component_boundary [OF b d refl _ w] n show ?thesis
    by (simp add: separator_def separator_ok_def Let_def after_separator_def)
qed

lemma range_of_part:
  assumes "drop p v = w @ c # t" "b \<le> p" "us = [] \<and> b = p \<or> us \<noteq> [] \<and> range_of v b p = dot_join us @ ''.''"
  shows "range_of v b (p + length w) = dot_join (us @ [w])"
    "range_of v b (p + length w + 1) = dot_join (us @ [w]) @ [c]"
  using range_of_split [OF assms(2), of "p + length w" v] range_of_split [OF assms(2), of "p + length w + 1" v]
    range_of_drop [OF assms(1) refl] range_of_next [OF assms(1) refl] assms(3)
  by (auto simp: dot_join_snoc)

lemma after_separator_boundary:
  assumes b: "boundary pr v p st us rs" and d: "drop p v = w @ c # t"
    and n: "separator_ok pr c st w" and c: "c = CHR ''+'' \<or> c = CHR ''-'' \<or> c = CHR ''.''"
  shows "boundary pr v (p + length w + 1)
     ((after_separator c (p + length w) w us rs (st\<lparr>ps_lnn := l\<rparr>))\<lparr>ps_lnn := int (p + length w)\<rparr>)
     (if ps_mode st = M_upstream then us @ [w] else us) (if ps_mode st = M_release then rs @ [w] else rs)"
proof (cases "ps_mode st")
  case M_epoch
  with n b show ?thesis by (simp add: boundary_def after_separator_def separator_ok_def)
next
  case M_revision
  with n show ?thesis by (simp add: separator_ok_def)
next
  case M_upstream
  with b have u: "us = [] \<and> ps_ub st = p \<or> us \<noteq> [] \<and> range_of v (ps_ub st) p = dot_join us @ ''.''"
      and le: "ps_ub st \<le> p" by (auto simp: boundary_def)
  note r = range_of_part [OF d le u]
  show ?thesis using c M_upstream n b r le
    by (elim disjE) (simp_all add: boundary_def after_separator_def separator_ok_def)
next
  case M_release
  with b have u: "rs = [] \<and> ps_rb st = p \<or> rs \<noteq> [] \<and> range_of v (ps_rb st) p = dot_join rs @ ''.''"
      and le: "ps_rb st \<le> p" by (auto simp: boundary_def)
  note r = range_of_part [OF d le u]
  show ?thesis using c M_release n b r le
    by (elim disjE) (simp_all add: boundary_def after_separator_def separator_ok_def)
qed

lemma after_separator_mode:
  "separator_ok pr c st w \<Longrightarrow> c = CHR ''+'' \<or> c = CHR ''-'' \<or> c = CHR ''.'' \<Longrightarrow>
     ps_mode (after_separator c q w us rs st) = separator_mode c (ps_mode st) \<and>
     ps_ep (after_separator c q w us rs st) = (if ps_mode st = M_epoch then Some (dec_val w) else ps_ep st)"
  by (cases "ps_mode st") (auto simp: after_separator_def separator_mode_def separator_ok_def Let_def)


lemma scan_step:
  assumes b: "boundary pr v p st us rs" and d: "drop p v = w @ c # t" and w: "list_all alnum w"
    and ok: "separator_ok pr c st w" and c: "c = CHR ''+'' \<or> c = CHR ''-'' \<or> c = CHR ''.''"
  obtains st' where "scan pr v (w @ c # t) p st = scan pr v t (p + length w + 1) st'"
    "boundary pr v (p + length w + 1) st'
       (if ps_mode st = M_upstream then us @ [w] else us) (if ps_mode st = M_release then rs @ [w] else rs)"
    "ps_mode st' = separator_mode c (ps_mode st)"
    "ps_ep st' = (if ps_mode st = M_epoch then Some (dec_val w) else ps_ep st)"
    "drop (p + length w + 1) v = t"
proof -
  let ?st = "st\<lparr>ps_lnn := word_lnn w p (ps_lnn st)\<rparr>"
  let ?a = "after_separator c (p + length w) w us rs ?st"
  have nd: "c \<noteq> NUL" "\<not> digit c" using c by (auto simp: char_defs)
  have "scan pr v (w @ c # t) p st = scan pr v t (p + length w + 1) (?a\<lparr>ps_lnn := int (p + length w)\<rparr>)"
    using separator_accepted [OF b d w ok] c nd by (simp add: scan_word [OF w])
  moreover have "separator_ok pr c ?st w" using ok by (simp add: separator_ok_def)
  note after_separator_mode [OF this c, of "p + length w" us rs]
  moreover have "drop (p + length w + 1) v = t"
    using d by (metis append_eq_conv_conj drop_drop add.commute drop_Suc_Cons drop0 Suc_eq_plus1)
  ultimately show thesis
    using that [of "?a\<lparr>ps_lnn := int (p + length w)\<rparr>"] after_separator_boundary [OF b d ok c] by simp
qed

section \<open>The whole parser\<close>

text \<open>Where a successful scan stops: after the last word of the part it is in.\<close>

definition scan_end :: "parse_kind \<Rightarrow> string \<Rightarrow> nat \<times> parser \<Rightarrow> bool" where
  "scan_end pr v r \<longleftrightarrow> (\<exists>q st us rs w t. boundary pr v q st us rs \<and> drop q v = w @ t \<and> list_all alnum w \<and>
     r = (q + length w, st\<lparr>ps_lnn := word_lnn w q (ps_lnn st)\<rparr>))"

lemma scan_boundary:
  assumes "boundary pr v p st us rs" "drop p v = s"
  shows "case scan pr v s p st of Inl e \<Rightarrow> \<exists>m. e = Invalid_argument m | Inr r \<Rightarrow> scan_end pr v r"
  using assms
proof (induction s arbitrary: p st us rs rule: measure_induct_rule [of length])
  case (less s)
  define w t where "w = takeWhile alnum s" and "t = dropWhile alnum s"
  have s: "s = w @ t" and w: "list_all alnum w"
    by (auto simp: w_def t_def list_all_iff dest: set_takeWhileD)
  let ?q = "p + length w" and ?st = "st\<lparr>ps_lnn := word_lnn w p (ps_lnn st)\<rparr>"
  have d: "drop p v = w @ t" using less.prems s by simp
  have e: "scan pr v s p st = scan pr v t ?q ?st" unfolding s by (rule scan_word [OF w])
  have stop: "scan_end pr v (?q, ?st)" using less.prems(1) d w unfolding scan_end_def by blast
  show ?case
  proof (cases t)
    case Nil
    then show ?thesis using e stop by simp
  next
    case (Cons c u)
    then have na: "\<not> alnum c" "\<not> digit c" by (auto simp: t_def dropWhile_eq_Cons_conv)
    show ?thesis
    proof (cases "c = CHR ''+'' \<or> c = CHR ''-'' \<or> c = CHR ''.''")
      case False
      then show ?thesis using e stop na by (simp add: Cons)
    next
      case True
      then have nn: "c \<noteq> NUL" by auto
      show ?thesis
      proof (cases "separator_ok pr c st w")
        case False
        from separator_refused [OF less.prems(1) d w False] True nn show ?thesis
          by (auto simp: e Cons)
      next
        case ok: True
        obtain st' us' rs' where "scan pr v (w @ c # u) p st = scan pr v u (?q + 1) st'"
          "boundary pr v (?q + 1) st' us' rs'" "drop (?q + 1) v = u"
          using scan_step [OF less.prems(1) d [unfolded Cons] w ok True] by metis
        with less.IH [of u "?q + 1" st' us' rs'] show ?thesis by (simp add: s Cons)
      qed
    qed
  qed
qed


text \<open>The initial state is the beginning of the first component.\<close>

lemma initial_boundary:
  "boundary pr v (ps_cb (initial_parser pr v)) (initial_parser pr v) [] []"
  by (cases pr) (auto simp: initial_parser_def boundary_def Let_def)

text \<open>
  What parsing a string gives: the components of its parts, the canonical forms computed from them,
  the epoch and the revision.
\<close>

definition data_ok :: "parse_kind \<Rightarrow> data_type \<Rightarrow> string list \<Rightarrow> string list \<Rightarrow> bool" where
  "data_ok pr d us rs \<longleftrightarrow>
     list_all component_ok us \<and> list_all component_ok rs \<and>
     (pr \<noteq> Release_part \<longrightarrow> dt_canonical_upstream d = canonical us) \<and>
     (pr = Full \<longrightarrow> us \<noteq> [] \<and> dt_upstream d = dot_join us \<and> dt_epoch d \<le> uint16_max \<and>
        (\<forall>n. dt_revision d = Some n \<longrightarrow> n \<le> uint16_max) \<and>
        (dt_release d = Some [] \<longrightarrow> dt_revision d = None) \<and>
        \<not> (dt_epoch d = 0 \<and> dt_canonical_upstream d = [] \<and> dt_canonical_release d = []) \<and>
        (case dt_release d of
           None \<Rightarrow> dt_canonical_release d = ''~''
         | Some r \<Rightarrow> r = dot_join rs \<and> dt_canonical_release d = canonical rs)) \<and>
     (pr = Release_part \<longrightarrow> dt_canonical_release d = canonical rs)"

text \<open>The parser when the last component has been read.\<close>

definition final_ok :: "parse_kind \<Rightarrow> string \<Rightarrow> parser \<Rightarrow> string list \<Rightarrow> string list \<Rightarrow> bool" where
  "final_ok pr v st us rs \<longleftrightarrow>
     list_all component_ok us \<and> list_all component_ok rs \<and>
     ps_canon_upstream st = part_of us \<and> ps_canon_release st = part_of rs \<and>
     (\<forall>n. ps_ep st = Some n \<longrightarrow> n \<le> uint16_max) \<and> ps_mode st \<noteq> M_epoch \<and>
     (pr = Full \<longrightarrow> us \<noteq> []) \<and> (pr = Release_part \<longrightarrow> ps_mode st = M_release) \<and>
     range_of v (ps_ub st) (ps_ue st) = dot_join us \<and> ps_ub st \<le> ps_ue st \<and>
     range_of v (ps_rb st) (ps_re st) = dot_join rs \<and> ps_rb st \<le> ps_re st"

lemma fill_data_final:
  assumes f: "final_ok pr v st us rs" and r: "rv \<noteq> None \<longrightarrow> ps_mode st = M_revision"
    and rb: "\<forall>n. rv = Some n \<longrightarrow> n \<le> uint16_max"
  shows "case fill_data pr v st rv of
      Inl e \<Rightarrow> e = Assertion_failure \<longrightarrow> pr = Full \<and> ps_ep st = Some 0 \<and> rv \<noteq> None \<and> rs \<noteq> []
    | Inr d \<Rightarrow> data_ok pr d us rs \<and> dt_revision d = rv"
proof -
  have ok: "list_all component_ok us" "list_all component_ok rs" using f by (simp_all add: final_ok_def)
  have u: "cp_string (ps_canon_upstream st) \<noteq> [] \<longleftrightarrow> us \<noteq> []"
    and rr: "cp_string (ps_canon_release st) \<noteq> [] \<longleftrightarrow> rs \<noteq> []"
    using f part_string_Nil [OF ok(1)] part_string_Nil [OF ok(2)] by (simp_all add: final_ok_def)
  have ne: "us \<noteq> [] \<Longrightarrow> ps_ub st \<noteq> ps_ue st" "rs \<noteq> [] \<Longrightarrow> ps_rb st \<noteq> ps_re st"
    using f dot_join_eq_Nil [OF component_ok_not_Nil [OF ok(1)]]
      dot_join_eq_Nil [OF component_ok_not_Nil [OF ok(2)]]
    by (auto simp: final_ok_def)
  have cf: "canonical_final (ps_canon_upstream st) = canonical us" "canonical_final (ps_canon_release st) = canonical rs"
    using f by (simp_all add: final_ok_def canonical_final_part)
  have c0: "canonical [] = []" by (simp add: canonical_def)
  show ?thesis
    using f r rb dot_join_eq_Nil [OF component_ok_not_Nil [OF ok(2)]]
    unfolding fill_data_def u rr Let_def cf
    by (cases pr; cases "us = []"; cases "rs = []"; cases "ps_ep st")
      (auto simp: final_ok_def data_ok_def ne c0 default_epoch_def)
qed


text \<open>The components when the last word has been added to the current part.\<close>

lemma last_component_boundary:
  assumes b: "boundary pr v q st us rs" and d: "drop q v = w @ t" and w: "list_all alnum w"
  shows "case last_component pr fz v (q + length w) (st\<lparr>ps_lnn := word_lnn w q (ps_lnn st)\<rparr>) of
      Inl e \<Rightarrow> \<exists>m. e = Invalid_argument m
    | Inr (st1, rv) \<Rightarrow> ps_mode st1 = ps_mode st \<and> ps_ep st1 = ps_ep st \<and>
        (rv \<noteq> None \<longrightarrow> ps_mode st1 = M_revision) \<and> (\<forall>n. rv = Some n \<longrightarrow> n \<le> uint16_max) \<and>
        (fz \<longrightarrow> rv \<noteq> Some 0) \<and>
        final_ok pr v st1 (if ps_mode st = M_upstream \<and> w \<noteq> [] then us @ [w] else us)
          (if ps_mode st = M_release \<and> w \<noteq> [] then rs @ [w] else rs)"
proof (cases "ps_mode st")
  case M_epoch
  then show ?thesis using boundary_word [OF b d] by (simp add: last_component_def)
next
  case M_revision
  then show ?thesis using boundary_word [OF b d] b
    by (auto simp: last_component_def Let_def parse_epoch_number_digits boundary_def final_ok_def)
next
  case M_upstream
  with b have u: "us = [] \<and> ps_ub st = q \<or> us \<noteq> [] \<and> range_of v (ps_ub st) q = dot_join us @ ''.''"
      and le: "ps_ub st \<le> q" by (auto simp: boundary_def)
  have "w \<noteq> [] \<Longrightarrow> range_of v (ps_ub st) (q + length w) = dot_join (us @ [w])"
    using range_of_split [OF le, of "q + length w" v] range_of_drop [OF d refl] u by (auto simp: dot_join_snoc)
  with M_upstream boundary_word [OF b d] b le add_component_boundary [OF b d refl _ w] show ?thesis
    by (auto simp: last_component_def boundary_def final_ok_def Let_def)
next
  case M_release
  with b have u: "rs = [] \<and> ps_rb st = q \<or> rs \<noteq> [] \<and> range_of v (ps_rb st) q = dot_join rs @ ''.''"
      and le: "ps_rb st \<le> q" by (auto simp: boundary_def)
  have "w \<noteq> [] \<Longrightarrow> range_of v (ps_rb st) (q + length w) = dot_join (rs @ [w])"
    using range_of_split [OF le, of "q + length w" v] range_of_drop [OF d refl] u by (auto simp: dot_join_snoc)
  with M_release boundary_word [OF b d] b le add_component_boundary [OF b d refl _ w] show ?thesis
    by (auto simp: last_component_def boundary_def final_ok_def Let_def)
qed

text \<open>Every string is refused as invalid, or gives well-formed parts; one assertion can fail.\<close>

lemma parse_data_cases:
  assumes "fz \<longrightarrow> pr = Full"
  shows "case parse_data (Some v) pr fz of
      Inl e \<Rightarrow> e = Assertion_failure \<longrightarrow> pr = Full \<and> cur v = CHR ''+''
    | Inr d \<Rightarrow> (fz \<longrightarrow> dt_revision d \<noteq> Some 0) \<and> (\<exists>us rs. data_ok pr d us rs)"
proof -
  define st0 where "st0 = initial_parser pr v"
  have "boundary pr v (ps_cb st0) st0 [] []" unfolding st0_def by (rule initial_boundary)
  note s = scan_boundary [OF this refl]
  show ?thesis
  proof (cases "scan pr v (drop (ps_cb st0) v) (ps_cb st0) st0")
    case (Inl e)
    with s assms show ?thesis by (auto simp: parse_data_def st0_def [symmetric] Let_def)
  next
    case (Inr r)
    with s obtain q st us rs w t where e: "boundary pr v q st us rs" "drop q v = w @ t" "list_all alnum w"
      "r = (q + length w, st\<lparr>ps_lnn := word_lnn w q (ps_lnn st)\<rparr>)" by (auto simp: scan_end_def)
    note l = last_component_boundary [OF e(1-3), of fz]
    show ?thesis
    proof (cases "last_component pr fz v (q + length w) (st\<lparr>ps_lnn := word_lnn w q (ps_lnn st)\<rparr>)")
      case (Inl x)
      with l e Inr assms show ?thesis by (auto simp: parse_data_def st0_def [symmetric] Let_def)
    next
      case (Inr x)
      obtain st1 rv where x: "x = (st1, rv)" by (cases x)
      from l [unfolded Inr x] obtain us' rs' where f: "final_ok pr v st1 us' rs'"
        "rv \<noteq> None \<longrightarrow> ps_mode st1 = M_revision" "\<forall>n. rv = Some n \<longrightarrow> n \<le> uint16_max"
        and z: "fz \<longrightarrow> rv \<noteq> Some 0" by auto
      have "parse_data (Some v) pr fz = fill_data pr v st1 rv"
        using \<open>scan pr v (drop (ps_cb st0) v) (ps_cb st0) st0 = Inr r\<close> Inr x e assms
        by (auto simp: parse_data_def st0_def [symmetric] Let_def)
      moreover have "ps_ep st1 \<noteq> None \<longrightarrow> cur v = CHR ''+''"
        using l e(1) by (auto simp: Inr x boundary_def)
      ultimately show ?thesis
        using fill_data_final [OF f] z by (auto split: sum.splits)
    qed
  qed
qed

section \<open>Printed versions parse\<close>

lemma scan_dotted:
  assumes "boundary pr v p st us rs" "drop p v = dot_join (ws @ [w]) @ t" "list_all component_ok ws"
    and "ps_mode st = M_upstream \<or> ps_mode st = M_release"
  shows "\<exists>q st'. scan pr v (dot_join (ws @ [w]) @ t) p st = scan pr v (w @ t) q st' \<and>
    boundary pr v q st' (if ps_mode st = M_upstream then us @ ws else us)
      (if ps_mode st = M_release then rs @ ws else rs) \<and>
    ps_mode st' = ps_mode st \<and> ps_ep st' = ps_ep st \<and> drop q v = w @ t"
  using assms
proof (induction ws arbitrary: p st us rs)
  case Nil
  then show ?case by (intro exI [of _ p] exI [of _ st]) auto
next
  case (Cons x ws)
  have j: "dot_join ((x # ws) @ [w]) @ t = x @ CHR ''.'' # (dot_join (ws @ [w]) @ t)"
    by (cases ws) simp_all
  have x: "component_ok x" "list_all alnum x" using Cons.prems by (auto simp: component_ok_def)
  have ok: "separator_ok pr CHR ''.'' st x"
    using Cons.prems x by (auto simp: separator_ok_def component_ok_def)
  obtain st1 where s: "scan pr v (x @ CHR ''.'' # (dot_join (ws @ [w]) @ t)) p st =
      scan pr v (dot_join (ws @ [w]) @ t) (p + length x + 1) st1"
    "boundary pr v (p + length x + 1) st1
       (if ps_mode st = M_upstream then us @ [x] else us) (if ps_mode st = M_release then rs @ [x] else rs)"
    "ps_mode st1 = separator_mode CHR ''.'' (ps_mode st)"
    "ps_ep st1 = (if ps_mode st = M_epoch then Some (dec_val x) else ps_ep st)"
    "drop (p + length x + 1) v = dot_join (ws @ [w]) @ t"
    by (rule scan_step [OF Cons.prems(1) Cons.prems(2) [unfolded j] x(2) ok]) auto
  then have m: "ps_mode st1 = ps_mode st" "ps_ep st1 = ps_ep st"
    using Cons.prems(4) by (auto simp: separator_mode_def)
  from Cons.prems(3,4) m have "list_all component_ok ws" "ps_mode st1 = M_upstream \<or> ps_mode st1 = M_release"
    by simp_all
  from Cons.IH [OF s(2) s(5) this] obtain q st' where
    "scan pr v (dot_join (ws @ [w]) @ t) (p + length x + 1) st1 = scan pr v (w @ t) q st'"
    "boundary pr v q st' (if ps_mode st = M_upstream then us @ x # ws else us)
      (if ps_mode st = M_release then rs @ x # ws else rs)"
    "ps_mode st' = ps_mode st" "ps_ep st' = ps_ep st" "drop q v = w @ t"
    using m by (auto split: if_splits)
  then show ?case unfolding j s(1) by blast
qed

text \<open>The members that a full parse fills in.\<close>

definition full_data :: "nat option \<Rightarrow> string list \<Rightarrow> string list option \<Rightarrow> nat option \<Rightarrow> data_type result" where
  "full_data ep us rel rv =
     (let r = map_option dot_join rel;
          cr = (case rel of None \<Rightarrow> ''~'' | Some rs \<Rightarrow> canonical rs);
          e = (case ep of Some n \<Rightarrow> n | None \<Rightarrow> default_epoch (canonical us) r)
      in if e = 0 \<and> canonical us = [] \<and> cr = []
         then (if rv \<noteq> None then Inl Assertion_failure else Inl (Invalid_argument ''empty version''))
         else Inr \<lparr>dt_epoch = e, dt_upstream = dot_join us, dt_release = r, dt_revision = rv,
                   dt_canonical_upstream = canonical us, dt_canonical_release = cr\<rparr>)"

lemma fill_data_full:
  assumes f: "final_ok Full v st us rs"
  shows "fill_data Full v st rv =
    full_data (ps_ep st) us (if rs \<noteq> [] \<or> ps_mode st = M_release then Some rs else None) rv"
proof -
  have ok: "list_all component_ok us" "list_all component_ok rs" using f by (simp_all add: final_ok_def)
  have u: "cp_string (ps_canon_upstream st) \<noteq> [] \<longleftrightarrow> us \<noteq> []"
    and rr: "cp_string (ps_canon_release st) \<noteq> [] \<longleftrightarrow> rs \<noteq> []"
    using f part_string_Nil [OF ok(1)] part_string_Nil [OF ok(2)] by (simp_all add: final_ok_def)
  have ne: "us \<noteq> [] \<Longrightarrow> ps_ub st \<noteq> ps_ue st" "rs \<noteq> [] \<Longrightarrow> ps_rb st \<noteq> ps_re st"
    using f dot_join_eq_Nil [OF component_ok_not_Nil [OF ok(1)]]
      dot_join_eq_Nil [OF component_ok_not_Nil [OF ok(2)]]
    by (auto simp: final_ok_def)
  have cf: "canonical_final (ps_canon_upstream st) = canonical us" "canonical_final (ps_canon_release st) = canonical rs"
    using f by (simp_all add: final_ok_def canonical_final_part)
  have c0: "canonical [] = []" by (simp add: canonical_def)
  show ?thesis
    using f unfolding fill_data_def u rr Let_def cf full_data_def
    by (cases "rs = []"; cases "ps_ep st") (auto simp: final_ok_def ne c0)
qed

lemma last_component_accepted:
  assumes b: "boundary pr v q st us rs" and d: "drop q v = w @ t" and w: "list_all alnum w"
    and m: "ps_mode st = M_revision \<and> w \<noteq> [] \<and> list_all digit w \<and> dec_val w \<le> uint16_max \<or>
      (ps_mode st = M_upstream \<or> ps_mode st = M_release) \<and> component_ok w \<or> ps_mode st = M_release \<and> w = []"
  shows "\<exists>st1. last_component pr fz v (q + length w) (st\<lparr>ps_lnn := word_lnn w q (ps_lnn st)\<rparr>) =
    Inr (st1, if ps_mode st = M_revision \<and> (dec_val w \<noteq> 0 \<or> \<not> fz) then Some (dec_val w) else None)"
  using m boundary_word [OF b d] add_component_boundary [OF b d refl _ w]
  by (auto simp: last_component_def Let_def parse_epoch_number_digits component_ok_def)

lemma scan_end_full:
  assumes b: "boundary Full v q st us rs" and d: "drop q v = w" and w: "list_all alnum w"
    and m: "ps_mode st = M_revision \<and> w \<noteq> [] \<and> list_all digit w \<and> dec_val w \<le> uint16_max \<or>
      (ps_mode st = M_upstream \<or> ps_mode st = M_release) \<and> component_ok w \<or> ps_mode st = M_release \<and> w = []"
    and us': "us' = (if ps_mode st = M_upstream then us @ [w] else us)"
    and rs': "rs' = (if ps_mode st = M_release \<and> w \<noteq> [] then rs @ [w] else rs)"
    and s: "scan Full v (drop (ps_cb (initial_parser Full v)) v) (ps_cb (initial_parser Full v))
        (initial_parser Full v) = scan Full v w q st"
  shows "parse_data (Some v) Full fz =
    full_data (ps_ep st) us' (if rs' \<noteq> [] \<or> ps_mode st = M_release then Some rs' else None)
      (if ps_mode st = M_revision \<and> (dec_val w \<noteq> 0 \<or> \<not> fz) then Some (dec_val w) else None)"
proof -
  let ?st = "st\<lparr>ps_lnn := word_lnn w q (ps_lnn st)\<rparr>"
  have d': "drop q v = w @ []" using d by simp
  have e: "scan Full v w q st = Inr (q + length w, ?st)"
    using scan_word [OF w, of Full v "[]" q st] by simp
  obtain st1 where l: "last_component Full fz v (q + length w) ?st =
      Inr (st1, if ps_mode st = M_revision \<and> (dec_val w \<noteq> 0 \<or> \<not> fz) then Some (dec_val w) else None)"
    using last_component_accepted [OF b d' w m] by blast
  have u: "us' = (if ps_mode st = M_upstream \<and> w \<noteq> [] then us @ [w] else us)"
    using us' m by (auto simp: component_ok_def)
  from last_component_boundary [OF b d' w, of fz] l
  have f: "final_ok Full v st1 us' rs'" "ps_mode st1 = ps_mode st" "ps_ep st1 = ps_ep st"
    by (simp_all add: u rs')
  from fill_data_full [OF f(1)] f(2,3) l s e show ?thesis
    by (simp add: parse_data_def Let_def)
qed


text \<open>The string of a version from its parts.\<close>

definition epoch_text :: "nat option \<Rightarrow> string" where
  "epoch_text ep = (case ep of None \<Rightarrow> [] | Some e \<Rightarrow> ''+'' @ to_string e @ ''-'')"

definition release_text :: "string list option \<Rightarrow> string" where
  "release_text rel = (case rel of None \<Rightarrow> [] | Some rs \<Rightarrow> ''-'' @ dot_join rs)"

definition revision_text :: "nat option \<Rightarrow> string" where
  "revision_text rv = (case rv of None \<Rightarrow> [] | Some n \<Rightarrow> ''+'' @ to_string n)"

lemma list_all_digit_to_string [simp]: "list_all digit (to_string n)"
  using to_string_digits by (auto simp: list_all_iff)

lemma list_all_alnum_to_string [simp]: "list_all alnum (to_string n)"
  using to_string_digits by (auto simp: list_all_iff)

lemma scan_epoch_text:
  assumes v: "v = epoch_text ep @ dot_join us @ t" and us: "us \<noteq> []" "list_all component_ok us"
    and ep: "\<forall>e. ep = Some e \<longrightarrow> e \<le> uint16_max"
  shows "\<exists>p st. scan Full v (drop (ps_cb (initial_parser Full v)) v) (ps_cb (initial_parser Full v))
        (initial_parser Full v) = scan Full v (dot_join us @ t) p st \<and>
      boundary Full v p st [] [] \<and> ps_mode st = M_upstream \<and> ps_ep st = ep \<and> drop p v = dot_join us @ t"
proof (cases ep)
  case None
  obtain c cs where c: "us = c # cs" using us(1) by (cases us) auto
  with us(2) have "alnum (cur c)" "c \<noteq> []" by (cases c; auto simp: component_ok_def)+
  then have "cur v \<noteq> CHR ''+''" using alnum_not_separator
    by (auto simp: v None epoch_text_def c dot_join_Cons cur_append)
  then have "ps_mode (initial_parser Full v) = M_upstream" "ps_cb (initial_parser Full v) = 0"
    "ps_ep (initial_parser Full v) = None"
    by (simp_all add: initial_parser_def Let_def)
  with initial_boundary [of Full v] None show ?thesis
    by (intro exI [of _ 0] exI [of _ "initial_parser Full v"]) (simp add: v epoch_text_def)
next
  case (Some e)
  let ?i = "initial_parser Full v"
  have i: "ps_mode ?i = M_epoch" "ps_cb ?i = 1"
    by (simp_all add: initial_parser_def v Some epoch_text_def Let_def)
  have d: "drop 1 v = to_string e @ CHR ''-'' # (dot_join us @ t)" by (simp add: v Some epoch_text_def)
  have ok: "separator_ok Full CHR ''-'' ?i (to_string e)"
    using ep Some i by (simp add: separator_ok_def)
  obtain st where "scan Full v (to_string e @ CHR ''-'' # (dot_join us @ t)) 1 ?i =
      scan Full v (dot_join us @ t) (1 + length (to_string e) + 1) st"
    "boundary Full v (1 + length (to_string e) + 1) st [] []"
    "ps_mode st = M_upstream" "ps_ep st = Some e" "drop (1 + length (to_string e) + 1) v = dot_join us @ t"
    by (rule scan_step [OF initial_boundary [of Full v, unfolded i(2)] d _ ok])
      (use i in \<open>auto simp: separator_mode_def\<close>)
  then show ?thesis using d Some unfolding i(2) by auto
qed

lemma scan_part:
  assumes b: "boundary Full v p st us rs" and d: "drop p v = dot_join ws @ c # t" and ws: "ws \<noteq> []" "list_all component_ok ws"
    and m: "ps_mode st = M_upstream \<or> ps_mode st = M_release"
    and c: "c = CHR ''+'' \<or> c = CHR ''-'' \<and> ps_mode st = M_upstream"
  shows "\<exists>q st'. scan Full v (dot_join ws @ c # t) p st = scan Full v t q st' \<and>
    boundary Full v q st' (if ps_mode st = M_upstream then us @ ws else us)
      (if ps_mode st = M_release then rs @ ws else rs) \<and>
    ps_mode st' = (if c = CHR ''+'' then M_revision else M_release) \<and> ps_ep st' = ps_ep st \<and> drop q v = t"
proof -
  obtain xs w where w: "ws = xs @ [w]" using ws(1) by (cases ws rule: rev_cases) auto
  with ws(2) have ok: "list_all component_ok xs" "component_ok w" "list_all alnum w" by (auto simp: component_ok_def)
  from scan_dotted [OF b d [unfolded w] ok(1) m] obtain q st1 where
    1: "scan Full v (dot_join ws @ c # t) p st = scan Full v (w @ c # t) q st1"
    and bb: "boundary Full v q st1 (if ps_mode st = M_upstream then us @ xs else us)
      (if ps_mode st = M_release then rs @ xs else rs)"
    and m1: "ps_mode st1 = ps_mode st" "ps_ep st1 = ps_ep st" and dq: "drop q v = w @ c # t"
    unfolding w by blast
  have so: "separator_ok Full c st1 w"
    using m m1 ok c by (auto simp: separator_ok_def component_ok_def)
  obtain st' where s: "scan Full v (w @ c # t) q st1 = scan Full v t (q + length w + 1) st'"
    "boundary Full v (q + length w + 1) st'
      (if ps_mode st1 = M_upstream then (if ps_mode st = M_upstream then us @ xs else us) @ [w]
       else (if ps_mode st = M_upstream then us @ xs else us))
      (if ps_mode st1 = M_release then (if ps_mode st = M_release then rs @ xs else rs) @ [w]
       else (if ps_mode st = M_release then rs @ xs else rs))"
    "ps_mode st' = separator_mode c (ps_mode st1)"
    "ps_ep st' = (if ps_mode st1 = M_epoch then Some (dec_val w) else ps_ep st1)"
    "drop (q + length w + 1) v = t"
    by (rule scan_step [OF bb dq ok(3) so]) (use c in auto)
  from 1 s(1) have e: "scan Full v (dot_join ws @ c # t) p st = scan Full v t (q + length w + 1) st'" by simp
  show ?thesis
    using m m1 c s(2-5)
    by (intro exI [of _ "q + length w + 1"] exI [of _ st'] conjI e) (auto simp: separator_mode_def w)
qed

lemma parse_part_end:
  assumes b: "boundary Full v p st us rs" and d: "drop p v = dot_join ws" and ws: "ws \<noteq> []" "list_all component_ok ws"
    and m: "ps_mode st = M_upstream \<or> ps_mode st = M_release"
    and s: "scan Full v (drop (ps_cb (initial_parser Full v)) v) (ps_cb (initial_parser Full v))
        (initial_parser Full v) = scan Full v (dot_join ws) p st"
  shows "parse_data (Some v) Full fz =
    full_data (ps_ep st) (if ps_mode st = M_upstream then us @ ws else us)
      (if ps_mode st = M_release then Some (rs @ ws) else if rs \<noteq> [] then Some rs else None) None"
proof -
  obtain xs w where w: "ws = xs @ [w]" using ws(1) by (cases ws rule: rev_cases) auto
  with ws(2) have ok: "list_all component_ok xs" "component_ok w" "list_all alnum w" by (auto simp: component_ok_def)
  have "drop p v = dot_join (xs @ [w]) @ []" using d w by simp
  from scan_dotted [OF b this ok(1) m] obtain q st1 where
    1: "scan Full v (dot_join ws) p st = scan Full v w q st1"
    and bb: "boundary Full v q st1 (if ps_mode st = M_upstream then us @ xs else us)
      (if ps_mode st = M_release then rs @ xs else rs)"
    and m1: "ps_mode st1 = ps_mode st" "ps_ep st1 = ps_ep st" and dq: "drop q v = w"
    unfolding w by auto
  have m2: "ps_mode st1 = M_revision \<and> w \<noteq> [] \<and> list_all digit w \<and> dec_val w \<le> uint16_max \<or>
      (ps_mode st1 = M_upstream \<or> ps_mode st1 = M_release) \<and> component_ok w \<or> ps_mode st1 = M_release \<and> w = []"
    using m m1 ok by simp
  from scan_end_full [OF bb dq ok(3) m2 refl refl, of fz] s m m1 ok(2) show ?thesis
    unfolding 1 by (auto simp: w component_ok_def)
qed

lemma parse_revision_end:
  assumes b: "boundary Full v p st us rs" and d: "drop p v = to_string n" and n: "n \<le> uint16_max"
    and m: "ps_mode st = M_revision"
    and s: "scan Full v (drop (ps_cb (initial_parser Full v)) v) (ps_cb (initial_parser Full v))
        (initial_parser Full v) = scan Full v (to_string n) p st"
  shows "parse_data (Some v) Full fz =
    full_data (ps_ep st) us (if rs \<noteq> [] then Some rs else None) (if n \<noteq> 0 \<or> \<not> fz then Some n else None)"
  using scan_end_full [OF b d _ _ refl refl s, of fz] m n by simp

lemma parse_release_end:
  assumes b: "boundary Full v p st us []" and d: "drop p v = []" and m: "ps_mode st = M_release"
    and s: "scan Full v (drop (ps_cb (initial_parser Full v)) v) (ps_cb (initial_parser Full v))
        (initial_parser Full v) = scan Full v [] p st"
  shows "parse_data (Some v) Full fz = full_data (ps_ep st) us (Some []) None"
  using scan_end_full [OF b d _ _ refl refl s, of fz] m by simp

text \<open>The parser on the string of a version.\<close>

lemma parse_version_text:
  assumes v: "v = epoch_text ep @ dot_join us @ release_text rel @ revision_text rv"
    and us: "us \<noteq> []" "list_all component_ok us" and ep: "\<forall>e. ep = Some e \<longrightarrow> e \<le> uint16_max"
    and rel: "\<forall>rs. rel = Some rs \<longrightarrow> list_all component_ok rs" and rv: "\<forall>n. rv = Some n \<longrightarrow> n \<le> uint16_max"
    and earliest: "rel = Some [] \<longrightarrow> rv = None"
  shows "parse_data (Some v) Full fz = full_data ep us rel (if fz \<and> rv = Some 0 then None else rv)"
proof -
  let ?t = "release_text rel @ revision_text rv"
  from scan_epoch_text [OF v us ep] obtain p st where
    s: "scan Full v (drop (ps_cb (initial_parser Full v)) v) (ps_cb (initial_parser Full v))
        (initial_parser Full v) = scan Full v (dot_join us @ ?t) p st"
    and b: "boundary Full v p st [] []" and m: "ps_mode st = M_upstream" "ps_ep st = ep"
    and d: "drop p v = dot_join us @ ?t" by blast
  have m': "ps_mode st = M_upstream \<or> ps_mode st = M_release" using m by simp
  show ?thesis
  proof (cases rel)
    case None
    show ?thesis
    proof (cases rv)
      case rN: None
      from parse_part_end [OF b _ us m', of fz] s d m None rN show ?thesis
        by (simp add: release_text_def revision_text_def)
    next
      case (Some n)
      then have t: "?t = CHR ''+'' # to_string n" using None by (simp add: release_text_def revision_text_def)
      from scan_part [OF b d [unfolded t] us m'] obtain q st1 where
        1: "scan Full v (dot_join us @ CHR ''+'' # to_string n) p st = scan Full v (to_string n) q st1"
        "boundary Full v q st1 us []" "ps_mode st1 = M_revision" "ps_ep st1 = ep" "drop q v = to_string n"
        using m by auto
      from parse_revision_end [OF 1(2,5) _ 1(3), of fz] s 1(1,4) rv Some None show ?thesis
        unfolding t by (auto split: if_splits)
    qed
  next
    case (Some rs)
    then have t: "?t = CHR ''-'' # (dot_join rs @ revision_text rv)" by (simp add: release_text_def)
    from scan_part [OF b d [unfolded t] us m'] obtain q st1 where
      1: "scan Full v (dot_join us @ CHR ''-'' # (dot_join rs @ revision_text rv)) p st =
          scan Full v (dot_join rs @ revision_text rv) q st1"
      "boundary Full v q st1 us []" "ps_mode st1 = M_release" "ps_ep st1 = ep"
      "drop q v = dot_join rs @ revision_text rv"
      using m by auto
    have ok: "list_all component_ok rs" using rel Some by simp
    have m1: "ps_mode st1 = M_upstream \<or> ps_mode st1 = M_release" using 1 by simp
    show ?thesis
    proof (cases "rs = []")
      case True
      then have "rv = None" using earliest Some by simp
      with parse_release_end [OF 1(2) _ 1(3), of fz] s 1(1,4,5) True Some show ?thesis
        unfolding t by (simp add: revision_text_def)
    next
      case False
      show ?thesis
      proof (cases rv)
        case None
        from parse_part_end [OF 1(2) _ False ok m1, of fz] s 1 Some None show ?thesis
          unfolding t by (simp add: revision_text_def)
      next
        case rS: (Some n)
        then have r: "revision_text rv = CHR ''+'' # to_string n" by (simp add: revision_text_def)
        from scan_part [OF 1(2) 1(5) [unfolded r] False ok m1] obtain q2 st2 where
          2: "scan Full v (dot_join rs @ CHR ''+'' # to_string n) q st1 = scan Full v (to_string n) q2 st2"
          "boundary Full v q2 st2 us rs" "ps_mode st2 = M_revision" "ps_ep st2 = ep" "drop q2 v = to_string n"
          using 1(3,4) by auto
        from parse_revision_end [OF 2(2,5) _ 2(3), of fz] s 1(1) 2(1,4) rv rS Some False show ?thesis
          unfolding t r by (auto simp: release_text_def split: if_splits)
      qed
    qed
  qed
qed

end
