(* ===== verification/Bpkg_Version_Properties.thy ===== *)
theory Bpkg_Version_Properties
  imports Bpkg_Version_Parser
begin

text \<open>
  The properties of package versions: printing and parsing are inverse, which assertions hold, and the
  order of the canonical forms is the documented order of versions.
\<close>

section \<open>Properties\<close>

text \<open>What a version parsed from a string satisfies.\<close>

definition bv_wf :: "version \<Rightarrow> bool" where
  "bv_wf v \<longleftrightarrow>
     (\<exists>us. us \<noteq> [] \<and> list_all component_ok us \<and> bv_upstream v = dot_join us \<and>
           bv_canonical_upstream v = canonical us) \<and>
     (case bv_release v of
        None \<Rightarrow> bv_canonical_release v = ''~''
      | Some r \<Rightarrow> \<exists>rs. list_all component_ok rs \<and> r = dot_join rs \<and> bv_canonical_release v = canonical rs) \<and>
     bv_epoch v \<le> uint16_max \<and> (\<forall>n. bv_revision v = Some n \<longrightarrow> n \<le> uint16_max) \<and>
     (bv_release v = Some [] \<longrightarrow> bv_revision v = None) \<and>
     \<not> (bv_epoch v = 0 \<and> bv_canonical_upstream v = [] \<and> bv_canonical_release v = [])"

text \<open>
  The versions without an iteration and without a release part of zeros only (it compares equal to
  the empty release part but is not the earliest release).
\<close>

definition plain_version :: "version \<Rightarrow> bool" where
  "plain_version v \<longleftrightarrow> bv_wf v \<and> bv_iteration v = 0 \<and> (bv_canonical_release v = [] \<longrightarrow> bv_release v = Some [])"

lemma version_of_string_wf:
  assumes "version_of_string s fz = Inr v"
  shows "bv_wf v \<and> bv_iteration v = 0 \<and> (fz \<longrightarrow> bv_revision v \<noteq> Some 0)"
proof -
  from assms obtain d where d: "parse_data (Some s) Full fz = Inr d"
    and v: "v = \<lparr>bv_epoch = dt_epoch d, bv_upstream = dt_upstream d, bv_release = dt_release d,
        bv_revision = dt_revision d, bv_iteration = 0, bv_canonical_upstream = dt_canonical_upstream d,
        bv_canonical_release = dt_canonical_release d\<rparr>"
    by (auto simp: version_of_string_def split: sum.splits)
  from parse_data_cases [of fz Full s] d obtain us rs where ok: "data_ok Full d us rs"
    and z: "fz \<longrightarrow> dt_revision d \<noteq> Some 0" by auto
  have "bv_wf v"
    using ok unfolding v bv_wf_def data_ok_def by (auto split: option.splits)
  with z show ?thesis by (simp add: v)
qed

lemma earliest_canonical: "bv_wf v \<Longrightarrow> bv_release v = Some [] \<Longrightarrow> bv_canonical_release v = [] \<and> bv_revision v = None"
proof -
  assume "bv_wf v" "bv_release v = Some []"
  then obtain rs where "list_all component_ok rs" "dot_join rs = []" "bv_canonical_release v = canonical rs"
    "bv_revision v = None" by (auto simp: bv_wf_def)
  with dot_join_eq_Nil [OF component_ok_not_Nil, of rs] show ?thesis by (simp add: canonical_def)
qed

lemma bv_string_wf:
  assumes "bv_wf v" "bv_iteration v = 0"
  obtains us rel where "us \<noteq> []" "list_all component_ok us" "bv_upstream v = dot_join us"
    "bv_canonical_upstream v = canonical us" "\<forall>rs. rel = Some rs \<longrightarrow> list_all component_ok rs"
    "bv_release v = map_option dot_join rel"
    "bv_canonical_release v = (case rel of None \<Rightarrow> ''~'' | Some rs \<Rightarrow> canonical rs)"
    "bv_string v False False = Inr (epoch_text
       (if bv_epoch v \<noteq> default_epoch (canonical us) (bv_release v) then Some (bv_epoch v) else None) @
       dot_join us @ release_text rel @ revision_text (bv_revision v))"
proof -
  from assms(1) obtain us where us: "us \<noteq> []" "list_all component_ok us" "bv_upstream v = dot_join us"
    "bv_canonical_upstream v = canonical us" by (auto simp: bv_wf_def)
  from assms(1) obtain rel where rel: "\<forall>rs. rel = Some rs \<longrightarrow> list_all component_ok rs"
    "bv_release v = map_option dot_join rel"
    "bv_canonical_release v = (case rel of None \<Rightarrow> ''~'' | Some rs \<Rightarrow> canonical rs)"
  proof (cases "bv_release v")
    case None
    with assms(1) show thesis by (intro that [of None]) (auto simp: bv_wf_def)
  next
    case (Some r)
    with assms(1) obtain rs where "list_all component_ok rs" "r = dot_join rs"
      "bv_canonical_release v = canonical rs" by (auto simp: bv_wf_def)
    with Some show thesis by (intro that [of "Some rs"]) auto
  qed
  have "bv_upstream v \<noteq> []"
    using us dot_join_eq_Nil [OF component_ok_not_Nil [OF us(2)]] by simp
  then have "bv_string v False False = Inr (epoch_text
       (if bv_epoch v \<noteq> default_epoch (canonical us) (bv_release v) then Some (bv_epoch v) else None) @
       dot_join us @ release_text rel @ revision_text (bv_revision v))"
    using us rel assms(2)
    by (auto simp: bv_string_def bv_empty_def epoch_text_def release_text_def revision_text_def
        split: option.splits)
  with us rel show thesis by (rule that)
qed

text \<open>The string of a well-formed version parses back to it.\<close>

lemma bv_string_parse:
  assumes w: "bv_wf v" "bv_iteration v = 0" and z: "fz \<longrightarrow> bv_revision v \<noteq> Some 0"
  shows "\<exists>t. bv_string v False False = Inr t \<and> version_of_string t fz = Inr v"
proof -
  from bv_string_wf [OF w] obtain us rel where
    us: "us \<noteq> []" "list_all component_ok us" "bv_upstream v = dot_join us" "bv_canonical_upstream v = canonical us"
    and rel: "\<forall>rs. rel = Some rs \<longrightarrow> list_all component_ok rs" "bv_release v = map_option dot_join rel"
      "bv_canonical_release v = (case rel of None \<Rightarrow> ''~'' | Some rs \<Rightarrow> canonical rs)"
    and t: "bv_string v False False = Inr (epoch_text
       (if bv_epoch v \<noteq> default_epoch (canonical us) (bv_release v) then Some (bv_epoch v) else None) @
       dot_join us @ release_text rel @ revision_text (bv_revision v))" .
  have "parse_data (Some (epoch_text
       (if bv_epoch v \<noteq> default_epoch (canonical us) (bv_release v) then Some (bv_epoch v) else None) @
       dot_join us @ release_text rel @ revision_text (bv_revision v))) Full fz =
      full_data (if bv_epoch v \<noteq> default_epoch (canonical us) (bv_release v) then Some (bv_epoch v) else None)
        us rel (if fz \<and> bv_revision v = Some 0 then None else bv_revision v)"
    by (rule parse_version_text [OF refl us(1,2) _ rel(1)]) (use w rel(2) in \<open>auto simp: bv_wf_def\<close>)
  moreover have "full_data (if bv_epoch v \<noteq> default_epoch (canonical us) (bv_release v) then Some (bv_epoch v) else None)
      us rel (bv_revision v) = Inr \<lparr>dt_epoch = bv_epoch v, dt_upstream = bv_upstream v,
        dt_release = bv_release v, dt_revision = bv_revision v, dt_canonical_upstream = bv_canonical_upstream v,
        dt_canonical_release = bv_canonical_release v\<rparr>"
  proof -
    have "\<not> (bv_epoch v = 0 \<and> canonical us = [] \<and> (case rel of None \<Rightarrow> ''~'' | Some rs \<Rightarrow> canonical rs) = [])"
      using w(1) us(4) rel(3) by (simp add: bv_wf_def)
    then show ?thesis
      unfolding full_data_def Let_def us(3,4) rel(2,3) by (cases "bv_epoch v = default_epoch (canonical us) (map_option dot_join rel)") auto
  qed
  moreover have "(if fz \<and> bv_revision v = Some 0 then None else bv_revision v) = bv_revision v"
    using z by auto
  ultimately show ?thesis
    using t w(2) by (simp add: version_of_string_def)
qed

text \<open>
  C3: the string of a version that was parsed from some string parses back to the same version, with
  the same treatment of the zero revision: every member, the canonical forms included, is recovered.
\<close>

theorem version_string_roundtrip:
  assumes "version_of_string s fz = Inr v"
  shows "\<exists>t. bv_string v False False = Inr t \<and> version_of_string t fz = Inr v"
  using version_of_string_wf [OF assms] by (intro bv_string_parse) auto

lemma pad_eval:
  "replicate 15 CHR ''0'' = ''000000000000000''" "replicate 16 CHR ''0'' = ''0000000000000000''"
  "char_of (98::nat) = CHR ''b''"
  by code_simp+

lemmas version_eval = version_of_string_def parse_data_def initial_parser_def separator_def add_component_def
  last_component_def fill_data_def canonical_add_def canonical_final_def range_of_def empty_part_def
  default_epoch_def parse_epoch_number_def stoull_def strtoull_def dec_val_def digit_val_def Let_def
  lcase_def lcase_char_def char_defs pad_eval

theorem version_string_roundtrip_witness:
  "\<exists>t. bv_string \<lparr>bv_epoch = 1, bv_upstream = ''1.B'', bv_release = Some ''a'', bv_revision = None, bv_iteration = 0,
       bv_canonical_upstream = ''0000000000000001.b'', bv_canonical_release = ''a''\<rparr> False False = Inr t \<and>
     version_of_string t True =
       Inr \<lparr>bv_epoch = 1, bv_upstream = ''1.B'', bv_release = Some ''a'', bv_revision = None, bv_iteration = 0,
         bv_canonical_upstream = ''0000000000000001.b'', bv_canonical_release = ''a''\<rparr>"
  by (rule version_string_roundtrip [of "''1.B-a.''"]) (simp add: version_eval)

text \<open>
  A string that does not begin with an epoch trips none of the parser's assertions: it is parsed,
  or refused as an invalid argument.
\<close>

lemma version_of_string_no_assert:
  assumes "cur s \<noteq> CHR ''+''"
  shows "version_of_string s fz \<noteq> Inl Assertion_failure"
  using parse_data_cases [of fz Full s] assms
  by (auto simp: version_of_string_def split: sum.splits)

lemma version_of_string_no_assert_witness:
  "version_of_string ''1.2-'' True \<noteq> Inl Assertion_failure"
  by (rule version_of_string_no_assert) simp

text \<open>
  With an epoch one assertion can fail. The parser takes a version whose canonical upstream and
  release parts are both empty for the empty version and asserts that it has no revision, but
  \<open>+0-0-0+1\<close> has such parts (zero components are stripped) and a revision.
\<close>

lemma version_of_string_assert:
  "version_of_string ''+0-0-0+1'' True = Inl Assertion_failure"
  by (simp add: version_eval)


section \<open>The version order\<close>

definition revision_rank :: "nat option \<Rightarrow> nat" where
  "revision_rank r = (case r of None \<Rightarrow> 0 | Some n \<Rightarrow> Suc n)"

definition bv_key :: "version \<Rightarrow> nat \<times> string \<times> string \<times> nat \<times> nat" where
  "bv_key v = (bv_epoch v, bv_canonical_upstream v, bv_canonical_release v,
     revision_rank (bv_revision v), bv_iteration v)"

lemma opt_less_rank: "opt_less x y \<longleftrightarrow> revision_rank x < revision_rank y"
  "x = y \<longleftrightarrow> revision_rank x = revision_rank y"
  by (auto simp: opt_less_def revision_rank_def split: option.splits)

lemma bv_compare_key: "bv_compare x y False False = cmp (bv_key x) (bv_key y)"
  using opt_less_rank [of "bv_revision x" "bv_revision y"]
  by (auto simp: bv_compare_def cmp_def bv_key_def less_prod_def Let_def)

lemma bv_compare_key_no_revision:
  "bv_compare x y True i = cmp (bv_epoch x, bv_canonical_upstream x, bv_canonical_release x)
     (bv_epoch y, bv_canonical_upstream y, bv_canonical_release y)"
  by (auto simp: bv_compare_def cmp_def less_prod_def Let_def)

interpretation bv: key_compare "\<lambda>x y. bv_compare x y False False" bv_key
  by unfold_locales (rule bv_compare_key)

interpretation bvr: key_compare "\<lambda>x y. bv_compare x y True True"
    "\<lambda>v. (bv_epoch v, bv_canonical_upstream v, bv_canonical_release v)"
  by unfold_locales (rule bv_compare_key_no_revision)

text \<open>
  C9: versions made of numbers compare component by component as numbers, not as strings, and
  trailing zero components do not count: \<open>1.10\<close> is greater than \<open>1.9\<close>, and \<open>1.0\<close> equals \<open>1\<close>.
\<close>

theorem numeric_versions_compare:
  assumes "ns \<noteq> []" "ms \<noteq> []" "\<forall>n \<in> set ns \<union> set ms. n < 10 ^ 16"
  shows "\<exists>v w. version_of_string (dot_join (map to_string ns)) True = Inr v \<and>
    version_of_string (dot_join (map to_string ms)) True = Inr w \<and>
    bv_compare v w False False = cmp (strip_zero_numbers ns) (strip_zero_numbers ms)"
proof -
  have p: "version_of_string (dot_join (map to_string ks)) True =
      Inr \<lparr>bv_epoch = (if strip_zero_numbers ks = [] then 0 else 1), bv_upstream = dot_join (map to_string ks),
        bv_release = None, bv_revision = None, bv_iteration = 0,
        bv_canonical_upstream = canonical (map to_string ks), bv_canonical_release = ''~''\<rparr>"
    if "ks \<noteq> []" "\<forall>n \<in> set ks. n < 10 ^ 16" for ks
  proof -
    have ok: "list_all component_ok (map to_string ks)"
      using that by (auto simp: list_all_iff intro: to_string_component)
    have "canonical (map to_string ks) = [] \<longleftrightarrow> strip_zero_numbers ks = []"
      unfolding canonical_def strip_zeros_to_string
      by (subst dot_join_eq_Nil) (auto dest!: padded_eq_Nil [OF to_string_not_Nil, THEN notE, OF sym])
    with parse_version_text [of _ None "map to_string ks" None None True] ok that show ?thesis
      by (simp add: version_of_string_def full_data_def epoch_text_def release_text_def revision_text_def
          default_epoch_def)
  qed
  show ?thesis
    using p [OF assms(1)] p [OF assms(2)] assms(3) canonical_numbers_cmp [OF assms(3)]
    by (auto simp: bv_compare_def cmp_def Nil_less Let_def)
qed

theorem numeric_versions_compare_witness:
  "\<exists>v w. version_of_string (dot_join (map to_string [1, 10])) True = Inr v \<and>
    version_of_string (dot_join (map to_string [1, 9, 0])) True = Inr w \<and>
    bv_compare v w False False = cmp (strip_zero_numbers [1, 10]) (strip_zero_numbers [1, 9, 0])"
  by (rule numeric_versions_compare) simp_all

lemma canonical_below_final:
  assumes "list_all component_ok rs"
  shows "canonical rs < ''~''"
proof (cases "canonical rs")
  case (Cons c cs)
  have w: "strip_zeros rs \<noteq> []" using Cons by (auto simp: canonical_def)
  then obtain x xs where x: "strip_zeros rs = x # xs" by (cases "strip_zeros rs") auto
  then have "component_ok x" using assms strip_zeros_subset [of rs] by (auto simp: list_all_iff)
  then have "c \<in> set (padded x)"
    using padded_above_dot [of x] Cons by (cases "padded x") (auto simp: canonical_def x dot_join_Cons)
  then have "c < CHR ''~''"
    using \<open>component_ok x\<close>
    by (auto simp: padded_def component_ok_def list_all_iff lcase_def lcase_char_def char_defs less_char_def
        split: if_splits)
  then show ?thesis by (simp add: Cons)
qed simp

text \<open>
  Among the versions of one epoch and upstream part, a version without a release part (the final
  release) is greater than every pre-release, and one with an empty release part (the earliest
  release) is not greater than any of them, whatever the revisions.
\<close>

lemma release_order:
  assumes "bv_wf v" "bv_wf w" "bv_epoch v = bv_epoch w" "bv_canonical_upstream v = bv_canonical_upstream w"
  shows "(bv_release v \<noteq> None \<and> bv_release w = None \<longrightarrow> bv_compare v w i j < 0) \<and>
    (bv_release v = Some [] \<longrightarrow> bv_compare v w True j \<le> 0)"
proof -
  have 1: "bv_canonical_release w = ''~''" if "bv_release w = None"
    using that assms(2) by (simp add: bv_wf_def)
  have 2: "bv_canonical_release v < ''~''" if "bv_release v \<noteq> None"
    using that assms(1) canonical_below_final by (auto simp: bv_wf_def)
  have 3: "bv_canonical_release v = []" if "bv_release v = Some []"
  proof -
    from that assms(1) obtain rs where "list_all component_ok rs" "dot_join rs = []" "bv_canonical_release v = canonical rs"
      by (auto simp: bv_wf_def)
    with dot_join_eq_Nil [OF component_ok_not_Nil, of rs] show ?thesis by (simp add: canonical_def)
  qed
  have 4: "cmp [] s \<le> 0" for s :: string by (cases s) auto
  have "bv_compare v w i j < 0" if "bv_release v \<noteq> None" "bv_release w = None"
    using assms(3,4) 1 [OF that(2)] 2 [OF that(1)] by (simp add: bv_compare_def cmp_def Let_def)
  moreover have "bv_compare v w True j \<le> 0" if "bv_release v = Some []"
    using assms(3,4) 3 [OF that] 4 by (simp add: bv_compare_def Let_def)
  ultimately show ?thesis by blast
qed

lemma release_order_witness:
  "bv_compare \<lparr>bv_epoch = 1, bv_upstream = ''1'', bv_release = Some ''b'', bv_revision = Some 3, bv_iteration = 0,
      bv_canonical_upstream = ''0000000000000001'', bv_canonical_release = ''b''\<rparr>
    \<lparr>bv_epoch = 1, bv_upstream = ''1'', bv_release = None, bv_revision = None, bv_iteration = 0,
      bv_canonical_upstream = ''0000000000000001'', bv_canonical_release = ''~''\<rparr> False False < 0"
proof -
  have 1: "version_of_string ''1-b+3'' True = Inr \<lparr>bv_epoch = 1, bv_upstream = ''1'', bv_release = Some ''b'',
      bv_revision = Some 3, bv_iteration = 0,
      bv_canonical_upstream = ''0000000000000001'', bv_canonical_release = ''b''\<rparr>"
    by (simp add: version_eval)
  have 2: "version_of_string ''1'' True = Inr \<lparr>bv_epoch = 1, bv_upstream = ''1'', bv_release = None,
      bv_revision = None, bv_iteration = 0,
      bv_canonical_upstream = ''0000000000000001'', bv_canonical_release = ''~''\<rparr>"
    by (simp add: version_eval)
  show ?thesis
    using release_order [OF version_of_string_wf [OF 1, THEN conjunct1] version_of_string_wf [OF 2, THEN conjunct1]]
    by simp
qed

section \<open>Parsing one part\<close>

text \<open>The upstream or the release part alone, for the constructor from the separate parts.\<close>

lemma fill_data_part:
  assumes f: "final_ok pr v st us rs" "pr \<noteq> Full"
  shows "\<exists>d. fill_data pr v st rv = Inr d \<and> (pr = Upstream_part \<longrightarrow> dt_canonical_upstream d = canonical us) \<and>
    (pr = Release_part \<longrightarrow> dt_canonical_release d = canonical rs)"
proof -
  have ok: "list_all component_ok us" "list_all component_ok rs" using f by (simp_all add: final_ok_def)
  have u: "cp_string (ps_canon_upstream st) \<noteq> [] \<longleftrightarrow> us \<noteq> []"
    and rr: "cp_string (ps_canon_release st) \<noteq> [] \<longleftrightarrow> rs \<noteq> []"
    using f part_string_Nil [OF ok(1)] part_string_Nil [OF ok(2)] by (simp_all add: final_ok_def)
  have ne: "us \<noteq> [] \<Longrightarrow> ps_ub st \<noteq> ps_ue st" "rs \<noteq> [] \<Longrightarrow> ps_rb st \<noteq> ps_re st"
    using f dot_join_eq_Nil [OF component_ok_not_Nil [OF ok(1)]]
      dot_join_eq_Nil [OF component_ok_not_Nil [OF ok(2)]]
    by (auto simp: final_ok_def)
  have cf: "canonical_final (ps_canon_upstream st) = canonical us" "canonical_final (ps_canon_release st) = canonical rs"
    using f by (simp_all add: final_ok_def canonical_final_part)
  have c0: "canonical [] = []" by (simp add: canonical_def)
  show ?thesis
    using f unfolding fill_data_def u rr Let_def cf
    by (cases pr) (auto simp: final_ok_def ne c0)
qed

lemma parse_part_text:
  assumes "pr \<noteq> Full" "ws \<noteq> []" "list_all component_ok ws"
  shows "\<exists>d. parse_data (Some (dot_join ws)) pr False = Inr d \<and>
    (pr = Upstream_part \<longrightarrow> dt_canonical_upstream d = canonical ws) \<and>
    (pr = Release_part \<longrightarrow> dt_canonical_release d = canonical ws)"
proof -
  let ?v = "dot_join ws" and ?i = "initial_parser pr (dot_join ws)"
  obtain xs w where w: "ws = xs @ [w]" using assms(2) by (cases ws rule: rev_cases) auto
  with assms(3) have ok: "list_all component_ok xs" "component_ok w" "list_all alnum w" by (auto simp: component_ok_def)
  have i: "ps_cb ?i = 0" "ps_mode ?i = (if pr = Upstream_part then M_upstream else M_release)"
    using assms(1) by (cases pr; simp add: initial_parser_def Let_def)+
  have m: "ps_mode ?i = M_upstream \<or> ps_mode ?i = M_release" by (simp add: i)
  have "drop 0 ?v = dot_join (xs @ [w]) @ []" by (simp add: w)
  from scan_dotted [OF initial_boundary [of pr ?v, unfolded i(1)] this ok(1) m] obtain q st where
    s: "scan pr ?v ?v 0 ?i = scan pr ?v w q st"
    and b: "boundary pr ?v q st (if ps_mode ?i = M_upstream then xs else []) (if ps_mode ?i = M_release then xs else [])"
    and ms: "ps_mode st = ps_mode ?i" and d: "drop q ?v = w @ []"
    unfolding w by (simp only: append_Nil append_Nil2) blast
  have m2: "ps_mode st = M_revision \<and> w \<noteq> [] \<and> list_all digit w \<and> dec_val w \<le> uint16_max \<or>
      (ps_mode st = M_upstream \<or> ps_mode st = M_release) \<and> component_ok w \<or> ps_mode st = M_release \<and> w = []"
    using ms m ok by simp
  let ?st = "st\<lparr>ps_lnn := word_lnn w q (ps_lnn st)\<rparr>"
  obtain st1 where l: "last_component pr False ?v (q + length w) ?st = Inr (st1, None)"
    using last_component_accepted [OF b d ok(3) m2, of False] ms m by auto
  from last_component_boundary [OF b d ok(3), of False] l
  have f: "final_ok pr ?v st1 (if ps_mode st = M_upstream \<and> w \<noteq> [] then (if ps_mode ?i = M_upstream then xs else []) @ [w]
        else (if ps_mode ?i = M_upstream then xs else []))
      (if ps_mode st = M_release \<and> w \<noteq> [] then (if ps_mode ?i = M_release then xs else []) @ [w]
        else (if ps_mode ?i = M_release then xs else []))"
    by simp
  have "w \<noteq> []" using ok by (simp add: component_ok_def)
  moreover have "parse_data (Some ?v) pr False = fill_data pr ?v st1 None"
    using s l scan_word [OF ok(3), of pr ?v "[]" q st] by (simp add: parse_data_def Let_def i(1))
  ultimately show ?thesis
    using fill_data_part [OF f assms(1), of None] ms i assms(1) w by (cases pr) auto
qed

lemma parse_release_empty:
  "\<exists>d. parse_data (Some []) Release_part False = Inr d \<and> dt_canonical_release d = []"
  by (simp add: parse_data_def initial_parser_def last_component_def fill_data_def empty_part_def Let_def)

text \<open>Changing the revision and the iteration of a version through the constructor from parts.\<close>

lemma version_of_parts_wf:
  assumes wf: "bv_wf v"
  shows "version_of_parts (bv_epoch v) (bv_upstream v) (bv_release v) r i =
    (if bv_release v = Some [] \<and> (r \<noteq> None \<or> i \<noteq> 0)
     then Inl (Invalid_argument ''revision for earliest possible release'')
     else Inr (v\<lparr>bv_revision := r, bv_iteration := i\<rparr>))"
proof -
  from wf obtain us where us: "us \<noteq> []" "list_all component_ok us" "bv_upstream v = dot_join us"
    "bv_canonical_upstream v = canonical us" by (auto simp: bv_wf_def)
  have ne: "bv_upstream v \<noteq> []" using us dot_join_eq_Nil [OF component_ok_not_Nil [OF us(2)]] by simp
  obtain du where du: "parse_data (Some (bv_upstream v)) Upstream_part False = Inr du"
    "dt_canonical_upstream du = bv_canonical_upstream v"
    using parse_part_text [of Upstream_part us] us by auto
  obtain dr where dr: "parse_data (bv_release v) Release_part False = Inr dr"
    "dt_canonical_release dr = bv_canonical_release v"
  proof (cases "bv_release v")
    case None
    with wf show thesis by (intro that) (auto simp: parse_data_def bv_wf_def)
  next
    case (Some s)
    with wf obtain rs where rs: "list_all component_ok rs" "s = dot_join rs" "bv_canonical_release v = canonical rs"
      by (auto simp: bv_wf_def)
    show thesis
    proof (cases "rs = []")
      case True
      with rs Some parse_release_empty show thesis by (auto intro: that simp: canonical_def)
    next
      case False
      with rs Some parse_part_text [of Release_part rs] show thesis by (auto intro: that)
    qed
  qed
  show ?thesis
    using ne du dr by (cases v) (simp add: version_of_parts_def)
qed

end
