(* ===== verification/Bpkg_Constraint.thy ===== *)
theory Bpkg_Constraint
  imports Standard_Constraint Bpkg_Version_Properties
begin

text \<open>
  Version constraints of packages (\<open>version_constraint\<close> of \<open>libbpkg/manifest.cxx\<close>) and the
  dependencies that carry them. The endpoints are package versions; an empty version stands for \<open>$\<close>,
  the version of the dependent package. The shortcut operators are delegated to the constraints over
  standard versions, whose versions are printed and parsed again as package versions.
\<close>

section \<open>Constraints\<close>

record version_constraint =
  vc_min :: "version option"
  vc_max :: "version option"
  vc_min_open :: bool
  vc_max_open :: bool

definition vc_of_endpoints ::
  "version option \<Rightarrow> bool \<Rightarrow> version option \<Rightarrow> bool \<Rightarrow> version_constraint result" where
  "vc_of_endpoints mnv mno mxv mxo =
     (let c = \<lparr>vc_min = mnv, vc_max = mxv, vc_min_open = mno, vc_max_open = mxo\<rparr> in
      if \<not> ((mnv \<noteq> None \<or> mxv \<noteq> None) \<and> (mnv \<noteq> None \<or> mno) \<and> (mxv \<noteq> None \<or> mxo))
      then Inl Assertion_failure
      else case (mnv, mxv) of
        (Some mn, Some mx) \<Rightarrow>
          (case bv_empty mx of
             Inl x \<Rightarrow> Inl x
           | Inr mxe \<Rightarrow>
               if bv_compare mn mx False False > 0 \<and> \<not> mxe \<and>
                  \<not> (\<not> mxo \<and> bv_revision mx = None \<and> bv_compare mx mn True False = 0)
               then Inl (Invalid_argument ''min version is greater than max version'')
               else if bv_compare mn mx False False = 0 \<and>
                  ((\<not> mxe \<and> (mno \<or> mxo)) \<or> (mxe \<and> mno \<and> mxo))
               then Inl (Invalid_argument ''equal version endpoints not closed'')
               else if bv_compare mn mx False False = 0 \<and> \<not> mxe \<and> bv_release mx = Some []
               then Inl (Invalid_argument ''equal version endpoints are earliest'')
               else Inr c)
      | _ \<Rightarrow> Inr c)"

definition vc_of_version :: "version \<Rightarrow> version_constraint result" where
  "vc_of_version v = vc_of_endpoints (Some v) False (Some v) False"

definition vc_empty :: "version_constraint \<Rightarrow> bool" where
  "vc_empty c \<longleftrightarrow> vc_min c = None \<and> vc_max c = None"

text \<open>The test \<open>v && v->empty ()\<close> on an endpoint.\<close>

definition endpoint_empty :: "version option \<Rightarrow> bool result" where
  "endpoint_empty v = (case v of None \<Rightarrow> Inr False | Some w \<Rightarrow> bv_empty w)"

definition vc_complete :: "version_constraint \<Rightarrow> bool result" where
  "vc_complete c =
     (case endpoint_empty (vc_min c) of
        Inl x \<Rightarrow> Inl x
      | Inr True \<Rightarrow> Inr False
      | Inr False \<Rightarrow> (case endpoint_empty (vc_max c) of Inl x \<Rightarrow> Inl x | Inr e \<Rightarrow> Inr (\<not> e)))"

text \<open>\<open>operator==\<close> of optional versions and of constraints.\<close>

definition opt_version_eq :: "version option \<Rightarrow> version option \<Rightarrow> bool" where
  "opt_version_eq x y =
     (case (x, y) of (None, None) \<Rightarrow> True | (Some v, Some w) \<Rightarrow> bv_compare v w False False = 0 | _ \<Rightarrow> False)"

definition vc_equal :: "version_constraint \<Rightarrow> version_constraint \<Rightarrow> bool" where
  "vc_equal x y \<longleftrightarrow> opt_version_eq (vc_min x) (vc_min y) \<and> opt_version_eq (vc_max x) (vc_max y) \<and>
     vc_min_open x = vc_min_open y \<and> vc_max_open x = vc_max_open y"

section \<open>Parsing\<close>

definition vc_endpoint :: "string \<Rightarrow> version result" where
  "vc_endpoint s = (if s \<noteq> ''$'' then version_of_string s False else Inr empty_version)"

definition vc_range :: "string \<Rightarrow> version_constraint result" where
  "vc_range s =
     (let min_open = (cur s = CHR ''(''); p = find_first_not_of blanks (tl s) in
      if p = [] then Inl (Invalid_argument ''no min version specified'')
      else let e = find_first_of blanks p in
        if e = [] then Inl (Invalid_argument ''no max version specified'')
        else case rethrow ''invalid min version: '' (vc_endpoint (until_first_of blanks p)) of
          Inl x \<Rightarrow> Inl x
        | Inr min_version \<Rightarrow>
            let p2 = find_first_not_of blanks e in
            if p2 = [] then Inl (Invalid_argument ''no max version specified'')
            else let e2 = find_first_of (blanks @ ''])'') p2 in
              if e2 = [] then Inl (Invalid_argument ''invalid version range'')
              else case rethrow ''invalid max version: '' (vc_endpoint (until_first_of (blanks @ ''])'') p2)) of
                Inl x \<Rightarrow> Inl x
              | Inr max_version \<Rightarrow>
                  let e3 = find_first_of ''])'' e2 in
                  if e3 = [] then Inl (Invalid_argument ''invalid version range'')
                  else if tl e3 \<noteq> [] then Inl (Invalid_argument ''unexpected text after version range'')
                  else vc_of_endpoints (Some min_version) min_open (Some max_version) (cur e3 = CHR '')''))"

text \<open>
  A standard constraint as a package constraint: the versions are printed and parsed again, and no
  \<open>invalid_argument\<close> is expected on the way.
\<close>

definition vc_of_standard :: "std_constraint \<Rightarrow> version_constraint result" where
  "vc_of_standard sc =
     (case (sc_min sc, sc_max sc) of
        (Some mn, Some mx) \<Rightarrow>
          (case (case version_of_string (sv_string mn) True of
                   Inl x \<Rightarrow> Inl x
                 | Inr mnv \<Rightarrow>
                     (case version_of_string (sv_string mx) True of
                        Inl x \<Rightarrow> Inl x
                      | Inr mxv \<Rightarrow> vc_of_endpoints (Some mnv) (sc_min_open sc) (Some mxv) (sc_max_open sc))) of
             Inl _ \<Rightarrow> Inl Assertion_failure
           | Inr c \<Rightarrow> Inr c)
      | _ \<Rightarrow> Inl Assertion_failure)"

definition vc_shortcut :: "bool \<Rightarrow> string \<Rightarrow> version_constraint result" where
  "vc_shortcut er s =
     (let c = cur s; p = find_first_not_of blanks (tl s) in
      if p = ''$''
      then vc_of_endpoints (Some empty_version) (c = CHR ''~'') (Some empty_version) (c = CHR ''^'')
      else case parse_constraint er s None of Inl x \<Rightarrow> Inl x | Inr sc \<Rightarrow> vc_of_standard sc)"

definition vc_comparison :: "string \<Rightarrow> version_constraint result" where
  "vc_comparison s =
     (case parse_operation s of
        None \<Rightarrow> Inl (Invalid_argument ''invalid version comparison'')
      | Some (op, s1) \<Rightarrow>
          let p = find_first_not_of blanks s1 in
          if p = [] then Inl (Invalid_argument ''no version specified'')
          else rethrow ''invalid version: ''
            (case vc_endpoint p of
               Inl x \<Rightarrow> Inl x
             | Inr v \<Rightarrow>
                 (case op of
                    Eq \<Rightarrow> vc_of_version v
                  | Lt \<Rightarrow> vc_of_endpoints None True (Some v) True
                  | Le \<Rightarrow> vc_of_endpoints None True (Some v) False
                  | Gt \<Rightarrow> vc_of_endpoints (Some v) True None True
                  | Ge \<Rightarrow> vc_of_endpoints (Some v) False None True)))"

definition vc_of_string :: "bool \<Rightarrow> string \<Rightarrow> version_constraint result" where
  "vc_of_string er s =
     (if cur s = CHR ''('' \<or> cur s = CHR ''['' then vc_range s
      else if cur s = CHR ''~'' \<or> cur s = CHR ''^'' then vc_shortcut er s
      else vc_comparison s)"

section \<open>Completion with the dependent version\<close>

definition stub_flag :: flags where
  "stub_flag = \<lparr>allow_earliest = False, allow_stub = True\<rparr>"

text \<open>The test for \<open>~$\<close> and \<open>^$\<close>.\<close>

definition vc_is_shortcut :: "version_constraint \<Rightarrow> bool result" where
  "vc_is_shortcut c =
     (case endpoint_empty (vc_min c) of
        Inl x \<Rightarrow> Inl x
      | Inr e \<Rightarrow> Inr (e \<and> opt_version_eq (vc_max c) (vc_min c) \<and> (vc_min_open c \<or> vc_max_open c)))"

definition effective_shortcut :: "bool \<Rightarrow> version_constraint \<Rightarrow> version \<Rightarrow> version_constraint result" where
  "effective_shortcut er c v =
     (if vc_min_open c \<and> vc_max_open c then Inl Assertion_failure
      else case bv_string v False False of
        Inl x \<Rightarrow> Inl x
      | Inr vs \<Rightarrow>
          (case parse_standard_version er vs stub_flag of
             None \<Rightarrow> Inl (Invalid_argument ''dependent version is not standard'')
           | Some sv \<Rightarrow>
               (case parse_constraint er (if vc_min_open c then ''~$'' else ''^$'') (Some sv) of
                  Inl x \<Rightarrow> Inl x
                | Inr sc \<Rightarrow> vc_of_standard sc)))"

definition effective :: "bool \<Rightarrow> version_constraint \<Rightarrow> version \<Rightarrow> version_constraint result" where
  "effective er c dv =
     (case bv_empty dv of
        Inl x \<Rightarrow> Inl x
      | Inr True \<Rightarrow> Inl (Invalid_argument ''dependent version is empty'')
      | Inr False \<Rightarrow>
          if bv_release dv = Some [] then Inl (Invalid_argument ''dependent version is earliest'')
          else case version_of_parts (bv_epoch dv) (bv_upstream dv) (bv_release dv) None 0 of
            Inl x \<Rightarrow> Inl x
          | Inr v \<Rightarrow>
              (case vc_is_shortcut c of
                 Inl x \<Rightarrow> Inl x
               | Inr True \<Rightarrow> effective_shortcut er c v
               | Inr False \<Rightarrow>
                   (case endpoint_empty (vc_min c) of
                      Inl x \<Rightarrow> Inl x
                    | Inr mne \<Rightarrow>
                        (case endpoint_empty (vc_max c) of
                           Inl x \<Rightarrow> Inl x
                         | Inr mxe \<Rightarrow>
                             vc_of_endpoints (if mne then Some v else vc_min c) (vc_min_open c)
                               (if mxe then Some v else vc_max c) (vc_max_open c)))))"

section \<open>Printing\<close>

definition vc_endpoint_string :: "version \<Rightarrow> string result" where
  "vc_endpoint_string v =
     (case bv_empty v of Inl x \<Rightarrow> Inl x | Inr True \<Rightarrow> Inr ''$'' | Inr False \<Rightarrow> bv_string v False False)"

definition prefixed :: "string \<Rightarrow> string result \<Rightarrow> string result" where
  "prefixed p r = (case r of Inl x \<Rightarrow> Inl x | Inr s \<Rightarrow> Inr (p @ s))"

definition vc_range_string :: "version_constraint \<Rightarrow> version \<Rightarrow> version \<Rightarrow> string result" where
  "vc_range_string c mn mx =
     (case vc_endpoint_string mn of
        Inl x \<Rightarrow> Inl x
      | Inr s \<Rightarrow>
          (case vc_endpoint_string mx of
             Inl x \<Rightarrow> Inl x
           | Inr t \<Rightarrow> Inr ((if vc_min_open c then ''('' else ''['') @ s @ '' '' @ t @
                           (if vc_max_open c then '')'' else '']''))))"

text \<open>The shortest notation of a half-open range of standard versions, if it is one.\<close>

definition standard_range_string :: "bool \<Rightarrow> version_constraint \<Rightarrow> version \<Rightarrow> version \<Rightarrow> string option result" where
  "standard_range_string er c mn mx =
     (case bv_string mn False False of
        Inl x \<Rightarrow> Inl x
      | Inr s \<Rightarrow>
          (case parse_standard_version er s earliest_flag of
             None \<Rightarrow> Inr None
           | Some mnv \<Rightarrow>
               (case bv_string mx False False of
                  Inl x \<Rightarrow> Inl x
                | Inr t \<Rightarrow>
                    (case parse_standard_version er t earliest_flag of
                       None \<Rightarrow> Inr None
                     | Some mxv \<Rightarrow>
                         (case constraint_of_endpoints (Some mnv) (vc_min_open c) (Some mxv) (vc_max_open c) of
                            Inl _ \<Rightarrow> Inl Assertion_failure
                          | Inr sc \<Rightarrow> (case constraint_string sc of Inl x \<Rightarrow> Inl x | Inr r \<Rightarrow> Inr (Some r)))))))"

definition vc_string :: "bool \<Rightarrow> version_constraint \<Rightarrow> string result" where
  "vc_string er c =
     (case (vc_min c, vc_max c) of
        (None, None) \<Rightarrow> Inl Assertion_failure
      | (None, Some mx) \<Rightarrow> prefixed (if vc_max_open c then ''< '' else ''<= '') (vc_endpoint_string mx)
      | (Some mn, None) \<Rightarrow> prefixed (if vc_min_open c then ''> '' else ''>= '') (vc_endpoint_string mn)
      | (Some mn, Some mx) \<Rightarrow>
          if bv_compare mn mx False False = 0
          then (if \<not> vc_min_open c \<and> \<not> vc_max_open c then prefixed ''== '' (vc_endpoint_string mn)
                else case bv_empty mn of
                  Inl x \<Rightarrow> Inl x
                | Inr e \<Rightarrow> if e \<and> (\<not> vc_min_open c \<or> \<not> vc_max_open c)
                           then Inr (if vc_min_open c then ''~$'' else ''^$'') else Inl Assertion_failure)
          else case bv_empty mn of
            Inl x \<Rightarrow> Inl x
          | Inr mne \<Rightarrow>
              (case bv_empty mx of
                 Inl x \<Rightarrow> Inl x
               | Inr mxe \<Rightarrow>
                   (case (if \<not> vc_min_open c \<and> vc_max_open c \<and> \<not> mne \<and> \<not> mxe
                          then standard_range_string er c mn mx else Inr None) of
                      Inl x \<Rightarrow> Inl x
                    | Inr (Some r) \<Rightarrow> Inr r
                    | Inr None \<Rightarrow> vc_range_string c mn mx)))"

section \<open>Dependencies\<close>

record dependency =
  dep_name :: string
  dep_constraint :: "version_constraint option"

definition dependency_string :: "bool \<Rightarrow> dependency \<Rightarrow> string result" where
  "dependency_string er d =
     (case dep_constraint d of
        None \<Rightarrow> Inr (dep_name d)
      | Some c \<Rightarrow> prefixed (dep_name d @ '' '') (vc_string er c))"

record dependency_alternatives =
  da_alternatives :: "dependency list"
  da_conditional :: bool
  da_buildtime :: bool
  da_comment :: string

fun alternatives_string :: "bool \<Rightarrow> dependency list \<Rightarrow> string result" where
  "alternatives_string er [] = Inr []"
| "alternatives_string er [d] = dependency_string er d"
| "alternatives_string er (d # ds) =
     (case dependency_string er d of
        Inl x \<Rightarrow> Inl x
      | Inr s \<Rightarrow> prefixed (s @ '' | '') (alternatives_string er ds))"

definition dependency_alternatives_string :: "bool \<Rightarrow> dependency_alternatives \<Rightarrow> string result" where
  "dependency_alternatives_string er a =
     (case alternatives_string er (da_alternatives a) of
        Inl x \<Rightarrow> Inl x
      | Inr s \<Rightarrow> Inr ((if da_conditional a then ''?'' else []) @ (if da_buildtime a then ''*'' else []) @
          (if da_conditional a \<or> da_buildtime a then '' '' else []) @ s @
          (if da_comment a \<noteq> [] then ''; '' @ da_comment a else [])))"

end
