(* ===== verification/Standard_Package.thy ===== *)
theory Standard_Package
  imports Bpkg_Constraint
begin

text \<open>
  Standard versions are package versions: the string that a standard version prints is parsed by the
  package version parser, and the two orders agree. This is what the toolchain relies on when it
  turns constraints over standard versions into package constraints.
\<close>

section \<open>Standard versions as package versions\<close>

text \<open>The components of the release part that a standard version prints.\<close>

definition pre_components :: "bool \<Rightarrow> nat \<Rightarrow> nat \<Rightarrow> string \<Rightarrow> string list" where
  "pre_components b n sn si =
     [if b then ''b'' else ''a'', to_string n] @
     (if sn = 0 then []
      else (if sn = latest_sn then ''z'' else to_string sn) # (if si = [] then [] else [si]))"

definition sv_ab :: "standard_version \<Rightarrow> nat" where
  "sv_ab v = sv_version v div 10 mod 1000"

definition sv_release_components :: "standard_version \<Rightarrow> string list option" where
  "sv_release_components v =
     (if sv_version v mod 10000 = 0 then None
      else if sv_version v mod 10000 = 1 \<and> sv_snapshot_sn v = 0 then Some []
      else Some (pre_components (sv_ab v \<ge> 500) (if sv_ab v \<ge> 500 then sv_ab v - 500 else sv_ab v)
                   (sv_snapshot_sn v) (sv_snapshot_id v)))"

definition package_version :: "standard_version \<Rightarrow> version" where
  "package_version v =
     (let us = map to_string [sv_major v, sv_minor v, sv_patch v]; rel = sv_release_components v in
      \<lparr>bv_epoch = sv_epoch v, bv_upstream = dot_join us, bv_release = map_option dot_join rel,
       bv_revision = (if sv_revision v = 0 then None else Some (sv_revision v)), bv_iteration = 0,
       bv_canonical_upstream = canonical us,
       bv_canonical_release = (case rel of None \<Rightarrow> ''~'' | Some rs \<Rightarrow> canonical rs)\<rparr>)"

text \<open>The snapshot numbers a package version can hold.\<close>

definition snapshot_sn_fits :: "standard_version \<Rightarrow> bool" where
  "snapshot_sn_fits v \<longleftrightarrow> sv_snapshot_sn v < 10 ^ 16 \<or> sv_snapshot_sn v = latest_sn"

lemma sv_pre_part_components:
  assumes wf: "sv_wf f v" "\<not> sv_stub v"
  shows "pre_part v = release_text (sv_release_components v)"
proof -
  define ab where "ab = sv_ab v"
  have m: "sv_version v mod 10000 = 10 * ab + sv_version v mod 10"
    unfolding ab_def sv_ab_def by (rule mod_10000_split)
  have z: "sv_version v mod 10000 = 0 \<longleftrightarrow> ab = 0 \<and> sv_version v mod 10 = 0" using m by auto
  have e: "sv_version v mod 10 \<le> 1" by (rule sv_wf_e [OF wf])
  have ab: "sv_version v div 10 mod 1000 = ab" by (simp add: ab_def sv_ab_def)
  consider (rel) "sv_version v mod 10000 = 0" | (earliest) "sv_version v mod 10000 = 1" "sv_snapshot_sn v = 0"
    | (pre) "sv_version v mod 10000 \<noteq> 0" "\<not> (sv_version v mod 10000 = 1 \<and> sv_snapshot_sn v = 0)"
    by (cases "sv_version v mod 10000 = 0"; cases "sv_version v mod 10000 = 1 \<and> sv_snapshot_sn v = 0") simp_all
  then show ?thesis
  proof cases
    case rel
    then have "sv_snapshot_sn v = 0" using wf m by (auto simp: sv_wf_def split: if_splits)
    with rel show ?thesis
      by (simp add: pre_part_def sv_alpha_def sv_beta_def sv_pre_release_def sv_release_def sv_release_components_def
          release_text_def sv_snapshot_def)
  next
    case earliest
    then have "ab = 0" using m by linarith
    with earliest wf ab show ?thesis
      by (simp add: pre_part_def sv_alpha_def sv_beta_def sv_pre_release_def sv_release_def sv_release_components_def
          release_text_def sv_snapshot_def string_pre_release_def sv_earliest_def)
  next
    case pre
    then have "\<not> sv_earliest v" "\<not> sv_release v"
      by (auto simp: sv_earliest_def sv_snapshot_def sv_release_def)
    with pre wf ab show ?thesis
      by (auto simp: pre_part_def sv_alpha_def sv_beta_def sv_pre_release_def sv_release_components_def
          release_text_def sv_snapshot_def string_pre_release_def string_snapshot_def pre_components_def
          sv_ab_def Let_def)
  qed
qed

lemma sv_string_text:
  assumes wf: "sv_wf f v" "\<not> sv_stub v"
  shows "sv_string v = epoch_text (if sv_epoch v \<noteq> 1 then Some (sv_epoch v) else None) @
    dot_join (map to_string [sv_major v, sv_minor v, sv_patch v]) @ release_text (sv_release_components v) @
    revision_text (if sv_revision v = 0 then None else Some (sv_revision v))"
  unfolding sv_string_parts [OF wf(2) sv_wf_not_empty [OF wf]] sv_pre_part_components [OF wf]
  by (simp add: epoch_part_def epoch_text_def rev_part_def revision_text_def)

lemma sv_numbers_fit:
  "\<forall>n \<in> set [sv_major v, sv_minor v, sv_patch v]. n < 10 ^ 16"
proof -
  have "n < 10 ^ 16" if "n \<le> 99999" for n :: nat using that by (rule le_less_trans) simp
  from this [OF sv_component_bounds(1)] this [OF sv_component_bounds(2)] this [OF sv_component_bounds(3)]
  show ?thesis by simp
qed

lemma sv_upstream_components: "list_all component_ok (map to_string [sv_major v, sv_minor v, sv_patch v])"
  using sv_numbers_fit [of v] by (auto intro: to_string_component)

lemma pre_components_ok:
  assumes "n < 10 ^ 16" "sn < 10 ^ 16 \<or> sn = latest_sn" "snapshot_id_ok sn si"
  shows "list_all component_ok (pre_components b n sn si)"
  using assms to_string_component
  by (auto simp: pre_components_def snapshot_id_ok_def component_ok_def char_defs)

lemma sv_release_components_ok:
  assumes wf: "sv_wf f v" "\<not> sv_stub v" and "snapshot_sn_fits v"
  shows "\<forall>rs. sv_release_components v = Some rs \<longrightarrow> list_all component_ok rs"
proof -
  have "sv_ab v < 1000" by (simp add: sv_ab_def)
  then have "(if sv_ab v \<ge> 500 then sv_ab v - 500 else sv_ab v) < 10 ^ 16" by auto
  moreover have "snapshot_id_ok (sv_snapshot_sn v) (sv_snapshot_id v)"
    using wf by (auto simp: sv_wf_def snapshot_id_ok_def split: if_splits)
  ultimately show ?thesis
    using assms(3) pre_components_ok by (auto simp: sv_release_components_def snapshot_sn_fits_def)
qed

lemma sv_canonical_upstream_not_Nil:
  assumes wf: "sv_wf f v" "\<not> sv_stub v"
  shows "canonical (map to_string [sv_major v, sv_minor v, sv_patch v]) \<noteq> []"
proof -
  have "1 \<le> sv_triple (sv_version v)" using wf by (simp add: sv_wf_def)
  then have "sv_major v \<noteq> 0 \<or> sv_minor v \<noteq> 0 \<or> sv_patch v \<noteq> 0"
    using sv_components [OF wf] by auto
  then have "strip_zero_numbers [sv_major v, sv_minor v, sv_patch v] \<noteq> []"
    by (auto simp: strip_zero_numbers_def)
  moreover have "[] \<notin> set (map padded (map to_string (strip_zero_numbers [sv_major v, sv_minor v, sv_patch v])))"
    by (auto dest!: padded_eq_Nil [OF to_string_not_Nil, THEN notE, OF sym])
  ultimately show ?thesis
    unfolding canonical_def strip_zeros_to_string by (simp add: dot_join_eq_Nil)
qed

lemma package_version_parse:
  assumes wf: "sv_wf f v" "\<not> sv_stub v" and fits: "snapshot_sn_fits v"
  shows "version_of_string (sv_string v) fz = Inr (package_version v)"
proof -
  have e: "sv_epoch v \<noteq> 1 \<longrightarrow> sv_epoch v \<le> uint16_max" "sv_revision v \<le> uint16_max" "1 \<le> sv_epoch v"
    using wf by (auto simp: sv_wf_def)
  have r: "sv_release_components v = Some [] \<longrightarrow> sv_revision v = 0"
    using wf by (auto simp: sv_wf_def sv_release_components_def pre_components_def split: if_splits)
  have "parse_data (Some (sv_string v)) Full fz =
      full_data (if sv_epoch v \<noteq> 1 then Some (sv_epoch v) else None)
        (map to_string [sv_major v, sv_minor v, sv_patch v]) (sv_release_components v)
        (if sv_revision v = 0 then None else Some (sv_revision v))"
    using parse_version_text [OF sv_string_text [OF wf] _ sv_upstream_components _ sv_release_components_ok [OF wf fits], of fz] e r
    by (auto split: if_splits)
  then show ?thesis
    using sv_canonical_upstream_not_Nil [OF wf] e
    by (simp add: version_of_string_def full_data_def package_version_def default_epoch_def Let_def)
qed


text \<open>Trailing zeros do not matter between lists of the same length.\<close>

lemma strip_zero_numbers_Cons:
  "strip_zero_numbers (n # ns) = (if n = 0 \<and> strip_zero_numbers ns = [] then [] else n # strip_zero_numbers ns)"
  by (auto simp: strip_zero_numbers_def dropWhile_append)

lemma strip_zero_numbers_Nil [simp]: "strip_zero_numbers [] = []"
  by (simp add: strip_zero_numbers_def)

lemma strip_zero_numbers_less:
  "length ns = length ms \<Longrightarrow> strip_zero_numbers ns < strip_zero_numbers ms \<longleftrightarrow> ns < ms"
proof (induction ns ms rule: list_induct2)
  case (Cons n ns m ms)
  have "strip_zero_numbers ns = strip_zero_numbers ms \<longleftrightarrow> ns = ms"
    using Cons.hyps by (induction ns ms rule: list_induct2) (auto simp: strip_zero_numbers_Cons)
  with Cons.IH show ?case
    by (auto simp: strip_zero_numbers_Cons Nil_less)
qed simp

lemma cmp_less_cong: "cmp x y = cmp a b \<Longrightarrow> x < y \<longleftrightarrow> a < b"
  using cmp_simps(2) [of x y] cmp_simps(2) [of a b] by simp

lemma canonical_numbers_less:
  assumes "length ns = length ms" "\<forall>n \<in> set ns \<union> set ms. n < 10 ^ 16"
  shows "canonical (map to_string ns) < canonical (map to_string ms) \<longleftrightarrow> ns < ms"
proof -
  have "canonical (map to_string ns) < canonical (map to_string ms) \<longleftrightarrow>
      strip_zero_numbers ns < strip_zero_numbers ms"
    by (rule cmp_less_cong, rule canonical_numbers_cmp [OF assms(2)])
  then show ?thesis using strip_zero_numbers_less [OF assms(1)] by simp
qed

lemma padded_pre_components:
  assumes "sn = 0 \<longrightarrow> n \<noteq> 0"
  shows "map padded (strip_zeros (pre_components b n sn si)) =
    [if b then ''b'' else ''a'', padded (to_string n)] @
    (if sn = 0 then []
     else (if sn = latest_sn then ''z'' else padded (to_string sn)) #
          (if zero_component si then [] else [padded si]))"
proof -
  have l: "padded ''a'' = ''a''" "padded ''b'' = ''b''" "padded ''z'' = ''z''"
    by (simp_all add: padded_def lcase_def lcase_char_def char_defs)
  have z: "\<not> zero_component ''a''" "\<not> zero_component ''b''" "\<not> zero_component ''z''" "zero_component []"
    by (simp_all add: zero_component_def)
  show ?thesis
    using assms l z
    by (auto simp: pre_components_def strip_zeros_def zero_component_to_string)
qed


lemma padded_number_less_z: "padded (to_string sn) < ''z''"
proof -
  have "list_all digit (padded (to_string sn))"
    using to_string_digits digit_digit_char [of 0] by (auto simp: padded_def list_all_iff)
  then obtain c cs where c: "padded (to_string sn) = c # cs" "digit c"
    using padded_eq_Nil [OF to_string_not_Nil, of sn] by (cases "padded (to_string sn)") auto
  then have "c < CHR ''z''" by (auto simp: char_defs less_char_def)
  with c show ?thesis by simp
qed

lemma snapshot_component_less:
  assumes "sn < 10 ^ 16 \<or> sn = latest_sn" "sn' < 10 ^ 16 \<or> sn' = latest_sn"
  shows "(if sn = latest_sn then ''z'' else padded (to_string sn)) <
      (if sn' = latest_sn then ''z'' else padded (to_string sn')) \<longleftrightarrow> sn < sn'"
proof (cases "sn = latest_sn"; cases "sn' = latest_sn")
  assume *: "sn = latest_sn" "sn' \<noteq> latest_sn"
  with assms(2) padded_number_less_z [of sn'] have "padded (to_string sn') < ''z''" "sn' < sn" by auto
  with * show ?thesis by (auto dest: order.asym)
next
  assume *: "sn \<noteq> latest_sn" "sn' = latest_sn"
  with assms(1) padded_number_less_z [of sn] show ?thesis by auto
next
  assume "sn \<noteq> latest_sn" "sn' \<noteq> latest_sn"
  with assms show ?thesis using padded_to_string_less [of sn sn'] by simp
qed simp

lemma less_eqI:
  fixes x y :: "'a::linorder" and a b :: "'b::linorder"
  shows "(x < y \<longleftrightarrow> a < b) \<Longrightarrow> (y < x \<longleftrightarrow> b < a) \<Longrightarrow> x = y \<longleftrightarrow> a = b"
  by (metis linorder_less_linear order.irrefl)

text \<open>The order of two pre-releases: alpha before beta, then the numbers, then the snapshots.\<close>

lemma pre_components_less:
  assumes "n < 500" "n' < 500" and fit: "sn < 10 ^ 16 \<or> sn = latest_sn" "sn' < 10 ^ 16 \<or> sn' = latest_sn"
    and z: "sn = 0 \<longrightarrow> n \<noteq> 0" "sn' = 0 \<longrightarrow> n' \<noteq> 0" and si: "sn = sn' \<longrightarrow> si = si'"
    and ok: "snapshot_id_ok sn si" "snapshot_id_ok sn' si'"
  shows "canonical (pre_components b n sn si) < canonical (pre_components b' n' sn' si') \<longleftrightarrow>
     b < b' \<or> b = b' \<and> (n < n' \<or> n = n' \<and> sn < sn')"
proof -
  have n: "n < 10 ^ 16" "n' < 10 ^ 16" using assms(1,2) by simp_all
  let ?l = "\<lambda>b. if b then ''b'' else ''a''"
  let ?s = "\<lambda>sn. if sn = latest_sn then ''z'' else padded (to_string sn)"
  have l: "?l b < ?l b' \<longleftrightarrow> b < b'" "?l b = ?l b' \<longleftrightarrow> b = b'" by (auto simp: less_char_def)
  have pn: "padded (to_string n) < padded (to_string n') \<longleftrightarrow> n < n'"
      "padded (to_string n) = padded (to_string n') \<longleftrightarrow> n = n'"
    by (rule padded_to_string_less [OF n])
      (rule less_eqI [OF padded_to_string_less [OF n] padded_to_string_less [OF n(2,1)]])
  have ps: "?s sn < ?s sn' \<longleftrightarrow> sn < sn'" "?s sn = ?s sn' \<longleftrightarrow> sn = sn'"
    by (rule snapshot_component_less [OF fit])
      (rule less_eqI [OF snapshot_component_less [OF fit] snapshot_component_less [OF fit(2,1)]])
  have c: "canonical (pre_components b n sn si) < canonical (pre_components b' n' sn' si') \<longleftrightarrow>
      map padded (strip_zeros (pre_components b n sn si)) < map padded (strip_zeros (pre_components b' n' sn' si'))"
    by (rule cmp_less_cong, rule canonical_cmp)
      (rule pre_components_ok [OF n(1) fit(1) ok(1)], rule pre_components_ok [OF n(2) fit(2) ok(2)])
  have t: "(if sn = 0 then [] else ?s sn # (if zero_component si then [] else [padded si])) <
      (if sn' = 0 then [] else ?s sn' # (if zero_component si' then [] else [padded si'])) \<longleftrightarrow> sn < sn'"
    using ps si by (cases "sn = 0"; cases "sn' = 0") auto
  show ?thesis
    unfolding c padded_pre_components [OF z(1)] padded_pre_components [OF z(2)] append_Cons append_Nil Cons_less_Cons
      l pn t by simp
qed


text \<open>The pre-release digits \<open>DDDE\<close>, a release counting as the greatest.\<close>

definition sv_rank :: "standard_version \<Rightarrow> nat" where
  "sv_rank v = (if sv_version v mod 10000 = 0 then 10000 else sv_version v mod 10000)"

definition sv_canonical_release :: "standard_version \<Rightarrow> string" where
  "sv_canonical_release v = (case sv_release_components v of None \<Rightarrow> ''~'' | Some rs \<Rightarrow> canonical rs)"

lemma sv_version_rank: "sv_version v + 10000 = sv_triple (sv_version v) * 10000 + sv_rank v" "1 \<le> sv_rank v" "sv_rank v \<le> 10000"
proof -
  obtain q r where qr: "q = sv_version v div 10000" "r = sv_version v mod 10000" by simp
  then have n: "sv_version v = q * 10000 + r" and r: "r < 10000" by simp_all
  have t: "sv_triple (sv_version v) = (if r = 0 then q else q + 1)" "sv_rank v = (if r = 0 then 10000 else r)"
    unfolding sv_triple_def sv_rank_def qr by simp_all
  show "sv_version v + 10000 = sv_triple (sv_version v) * 10000 + sv_rank v" "1 \<le> sv_rank v" "sv_rank v \<le> 10000"
    unfolding t using n r by auto
qed

lemma sv_version_less: "sv_version v < sv_version w \<longleftrightarrow>
  sv_triple (sv_version v) < sv_triple (sv_version w) \<or>
  sv_triple (sv_version v) = sv_triple (sv_version w) \<and> sv_rank v < sv_rank w"
proof -
  define a b c d where "a = sv_triple (sv_version v)" and "b = sv_rank v"
    and "c = sv_triple (sv_version w)" and "d = sv_rank w"
  note f = sv_version_rank [of v, folded a_def b_def] sv_version_rank [of w, folded c_def d_def]
  show ?thesis unfolding a_def [symmetric] b_def [symmetric] c_def [symmetric] d_def [symmetric]
  proof (cases a c rule: linorder_cases)
    case less
    then have "a * 10000 + 10000 \<le> c * 10000" by simp
    with less f show "sv_version v < sv_version w \<longleftrightarrow> a < c \<or> a = c \<and> b < d" by linarith
  next
    case greater
    then have "c * 10000 + 10000 \<le> a * 10000" by simp
    with greater f show "sv_version v < sv_version w \<longleftrightarrow> a < c \<or> a = c \<and> b < d" by linarith
  next
    case equal
    with f show "sv_version v < sv_version w \<longleftrightarrow> a < c \<or> a = c \<and> b < d" by linarith
  qed
qed

lemma sv_triple_less:
  assumes "sv_wf f v" "\<not> sv_stub v" "sv_wf g w" "\<not> sv_stub w"
  shows "[sv_major v, sv_minor v, sv_patch v] < [sv_major w, sv_minor w, sv_patch w] \<longleftrightarrow>
    sv_triple (sv_version v) < sv_triple (sv_version w)"
proof -
  obtain a b c where v: "a = sv_major v" "b = sv_minor v" "c = sv_patch v" by simp
  obtain a' b' c' where w: "a' = sv_major w" "b' = sv_minor w" "c' = sv_patch w" by simp
  have m: "b \<le> 99999" "c \<le> 99999" "b' \<le> 99999" "c' \<le> 99999"
    unfolding v w by (rule sv_component_bounds)+
  have t: "sv_triple (sv_version v) = a * 10000000000 + b * 100000 + c"
     "sv_triple (sv_version w) = a' * 10000000000 + b' * 100000 + c'"
    using sv_components [OF assms(1,2)] sv_components [OF assms(3,4)] unfolding v w by linarith+
  have "a < a' \<or> a = a' \<and> (b < b' \<or> b = b' \<and> c < c') \<longleftrightarrow>
     a * 10000000000 + b * 100000 + c < a' * 10000000000 + b' * 100000 + c'"
  proof (cases a a' rule: linorder_cases)
    case less
    then have "a + 1 \<le> a'" by simp
    then have "a * 10000000000 + 10000000000 \<le> a' * 10000000000" by linarith
    then have "a * 10000000000 + b * 100000 + c < a' * 10000000000 + b' * 100000 + c'" using m by linarith
    with less show ?thesis by simp
  next
    case greater
    then have "a' + 1 \<le> a" by simp
    then have "a' * 10000000000 + 10000000000 \<le> a * 10000000000" by linarith
    then have "\<not> a * 10000000000 + b * 100000 + c < a' * 10000000000 + b' * 100000 + c'" using m by linarith
    with greater show ?thesis by simp
  next
    case equal
    have "b * 100000 + c < b' * 100000 + c' \<longleftrightarrow> b < b' \<or> b = b' \<and> c < c'"
    proof (cases b b' rule: linorder_cases)
      case less
      then have "b + 1 \<le> b'" by simp
      then have "b * 100000 + 100000 \<le> b' * 100000" by linarith
      with m less show ?thesis by linarith
    next
      case greater
      then have "b' + 1 \<le> b" by simp
      then have "b' * 100000 + 100000 \<le> b * 100000" by linarith
      with m greater show ?thesis by linarith
    qed simp
    with equal show ?thesis by simp
  qed
  then show ?thesis unfolding t v [symmetric] w [symmetric] by (simp add: Nil_less)
qed

text \<open>The release part of a version: none, the earliest, or a pre-release.\<close>

lemma sv_release_cases [consumes 3, case_names release earliest pre]:
  assumes wf: "sv_wf f v" "\<not> sv_stub v" "snapshot_sn_fits v"
  obtains (release) "sv_canonical_release v = ''~''" "sv_rank v = 10000" "sv_snapshot_sn v = 0"
  | (earliest) "sv_canonical_release v = []" "sv_rank v = 1" "sv_snapshot_sn v = 0"
  | (pre) b n where "sv_canonical_release v = canonical (pre_components b n (sv_snapshot_sn v) (sv_snapshot_id v))"
      "sv_rank v = 10 * ((if b then 500 else 0) + n) + (if sv_snapshot_sn v = 0 then 0 else 1)"
      "n < 500" "sv_snapshot_sn v = 0 \<longrightarrow> n \<noteq> 0" "snapshot_id_ok (sv_snapshot_sn v) (sv_snapshot_id v)"
      "[] < sv_canonical_release v" "sv_canonical_release v < ''~''"
proof -
  define ab where "ab = sv_ab v"
  have m: "sv_version v mod 10000 = 10 * ab + sv_version v mod 10"
    unfolding ab_def sv_ab_def by (rule mod_10000_split)
  have ab: "ab < 1000" by (simp add: ab_def sv_ab_def)
  consider (rel) "sv_version v mod 10000 = 0" | (earl) "sv_version v mod 10000 = 1" "sv_snapshot_sn v = 0"
    | (prerel) "sv_version v mod 10000 \<noteq> 0" "\<not> (sv_version v mod 10000 = 1 \<and> sv_snapshot_sn v = 0)"
    by (cases "sv_version v mod 10000 = 0"; cases "sv_version v mod 10000 = 1 \<and> sv_snapshot_sn v = 0") simp_all
  then show thesis
  proof cases
    case rel
    then have "sv_snapshot_sn v = 0" using wf m by (auto simp: sv_wf_def split: if_splits)
    with rel show thesis
      by (intro release) (simp_all add: sv_canonical_release_def sv_release_components_def sv_rank_def)
  next
    case earl
    then show thesis
      by (intro earliest) (simp_all add: sv_canonical_release_def sv_release_components_def sv_rank_def canonical_def)
  next
    case prerel
    define b n where "b \<longleftrightarrow> ab \<ge> 500" and "n = (if ab \<ge> 500 then ab - 500 else ab)"
    have rc: "sv_release_components v = Some (pre_components b n (sv_snapshot_sn v) (sv_snapshot_id v))"
      using prerel unfolding sv_release_components_def b_def n_def ab_def by (simp only: if_False)
    have c: "sv_canonical_release v = canonical (pre_components b n (sv_snapshot_sn v) (sv_snapshot_id v))"
      by (simp add: sv_canonical_release_def rc)
    have e: "sv_version v mod 10 = (if sv_snapshot_sn v = 0 then 0 else 1)" "sv_snapshot_sn v = 0 \<longrightarrow> ab \<noteq> 0 \<and> ab \<noteq> 500"
    proof -
      have w1: "sv_version v mod 10 = 1" if "sv_snapshot_sn v \<noteq> 0"
        using wf(1,2) that by (simp add: sv_wf_def)
      have w0: "sv_version v mod 10 = 0 \<and> ab \<noteq> 500" if "sv_snapshot_sn v = 0"
        using wf(1,2) that prerel by (simp add: sv_wf_def ab_def sv_ab_def)
      show "sv_version v mod 10 = (if sv_snapshot_sn v = 0 then 0 else 1)" using w0 w1 by simp
      show "sv_snapshot_sn v = 0 \<longrightarrow> ab \<noteq> 0 \<and> ab \<noteq> 500" using w0 prerel(1) m by auto
    qed
    have n: "n < 500" "sv_snapshot_sn v = 0 \<longrightarrow> n \<noteq> 0" and abn: "ab = (if b then 500 else 0) + n"
      using ab e(2) by (auto simp: n_def b_def)
    have ok: "snapshot_id_ok (sv_snapshot_sn v) (sv_snapshot_id v)"
      using wf by (auto simp: sv_wf_def snapshot_id_ok_def split: if_splits)
    have "sv_rank v = 10 * ((if b then 500 else 0) + n) + (if sv_snapshot_sn v = 0 then 0 else 1)"
      using prerel m e(1) by (simp add: sv_rank_def abn)
    moreover have "sv_canonical_release v < ''~''"
      unfolding c by (rule canonical_below_final) (use sv_release_components_ok [OF wf] rc in auto)
    moreover have "[] < sv_canonical_release v"
      unfolding c Nil_less canonical_def padded_pre_components [OF n(2)] by (simp add: dot_join_Cons)
    ultimately show thesis using c n ok by (intro pre)
  qed
qed

lemma sv_canonical_release_less:
  assumes v: "sv_wf f v" "\<not> sv_stub v" "snapshot_sn_fits v" and w: "sv_wf g w" "\<not> sv_stub w" "snapshot_sn_fits w"
    and id: "sv_snapshot_sn v = sv_snapshot_sn w \<longrightarrow> sv_snapshot_id v = sv_snapshot_id w"
  shows "sv_canonical_release v < sv_canonical_release w \<longleftrightarrow>
    sv_rank v < sv_rank w \<or> sv_rank v = sv_rank w \<and> sv_snapshot_sn v < sv_snapshot_sn w"
using v
proof (cases rule: sv_release_cases)
  case release
  note v1 = this
  from w show ?thesis
  proof (cases rule: sv_release_cases)
    case release
    with v1 show ?thesis by simp
  next
    case earliest
    with v1 show ?thesis by simp
  next
    case (pre b n)
    with v1 show ?thesis by (auto dest: order.asym)
  qed
next
  case earliest
  note v1 = this
  from w show ?thesis
  proof (cases rule: sv_release_cases)
    case (pre b n)
    with v1 show ?thesis by auto
  qed (use v1 in simp_all)
next
  case (pre b n)
  note v1 = this
  from w show ?thesis
  proof (cases rule: sv_release_cases)
    case release
    with v1 show ?thesis by auto
  next
    case earliest
    with v1 show ?thesis by (auto dest: order.asym)
  next
    case (pre b' n')
    have fit: "sv_snapshot_sn v < 10 ^ 16 \<or> sv_snapshot_sn v = latest_sn"
      "sv_snapshot_sn w < 10 ^ 16 \<or> sv_snapshot_sn w = latest_sn"
      using v(3) w(3) by (simp_all add: snapshot_sn_fits_def)
    have "sv_canonical_release v < sv_canonical_release w \<longleftrightarrow>
        b < b' \<or> b = b' \<and> (n < n' \<or> n = n' \<and> sv_snapshot_sn v < sv_snapshot_sn w)"
      unfolding v1(1) pre(1) by (rule pre_components_less [OF v1(3) pre(3) fit v1(4) pre(4) id v1(5) pre(5)])
    then show ?thesis
      unfolding v1(2) pre(2) using v1(3) pre(3)
      by (cases b; cases b'; cases "sv_snapshot_sn v = 0"; cases "sv_snapshot_sn w = 0") auto
  qed
qed

lemma less_pair: "(a, b) < (c, d) \<longleftrightarrow> a < c \<or> a = c \<and> b < d" for a c :: "'a::linorder" and b d :: "'b::linorder"
  by (auto simp: less_prod_def)

text \<open>
  C6: a well-formed standard version that is not a stub and whose snapshot number fits the sixteen digits of a
  component (others may be refused, see \<open>shortcut_snapshot_assert\<close>) prints to a string that is a valid package version with the same epoch and revision, and
  the package order of two such versions is the order of the standard versions, whenever snapshots
  with the same number have the same identifier.
\<close>

theorem standard_package_order:
  assumes v: "sv_wf f v" "\<not> sv_stub v" "snapshot_sn_fits v" and w: "sv_wf g w" "\<not> sv_stub w" "snapshot_sn_fits w"
    and id: "sv_snapshot_sn v = sv_snapshot_sn w \<longrightarrow> sv_snapshot_id v = sv_snapshot_id w"
  shows "\<exists>x y. version_of_string (sv_string v) fz = Inr x \<and> version_of_string (sv_string w) fz = Inr y \<and>
    bv_epoch x = sv_epoch v \<and> effective_revision x = sv_revision v \<and>
    bv_compare x y False False = sv_compare v w False"
proof -
  have u: "canonical (map to_string [sv_major a, sv_minor a, sv_patch a]) <
      canonical (map to_string [sv_major b, sv_minor b, sv_patch b]) \<longleftrightarrow>
      sv_triple (sv_version a) < sv_triple (sv_version b)"
    if "sv_wf h a" "\<not> sv_stub a" "sv_wf k b" "\<not> sv_stub b" for a b h k
    using canonical_numbers_less [of "[sv_major a, sv_minor a, sv_patch a]" "[sv_major b, sv_minor b, sv_patch b]"]
      sv_numbers_fit [of a] sv_numbers_fit [of b] sv_triple_less [OF that]
    by (simp only: length_Cons list.size ball_Un set_simps)
  note uu = u [OF v(1,2) w(1,2)] u [OF w(1,2) v(1,2)]
  have id': "sv_snapshot_sn w = sv_snapshot_sn v \<longrightarrow> sv_snapshot_id w = sv_snapshot_id v" using id by simp
  note r = sv_canonical_release_less [OF v w id] sv_canonical_release_less [OF w v id']
  note vl = sv_version_less [of v w] sv_version_less [of w v]
  have k: "bv_compare (package_version v) (package_version w) False False = cmp (sv_key v) (sv_key w)"
  proof -
    have eqs: "canonical (map to_string [sv_major v, sv_minor v, sv_patch v]) =
        canonical (map to_string [sv_major w, sv_minor w, sv_patch w]) \<longleftrightarrow>
        sv_triple (sv_version v) = sv_triple (sv_version w)"
      by (rule less_eqI [OF uu])
    have eqr: "sv_canonical_release v = sv_canonical_release w \<longleftrightarrow>
        sv_rank v = sv_rank w \<and> sv_snapshot_sn v = sv_snapshot_sn w"
      using r by (metis linorder_less_linear order.irrefl)
    have eqv: "sv_version v = sv_version w \<longleftrightarrow>
        sv_triple (sv_version v) = sv_triple (sv_version w) \<and> sv_rank v = sv_rank w"
      using vl by (metis linorder_less_linear order.irrefl)
    define rk where "rk x = revision_rank (if sv_revision x = 0 then None else Some (sv_revision x))"
      for x :: standard_version
    have rk: "rk v < rk w \<longleftrightarrow> sv_revision v < sv_revision w" "rk v = rk w \<longleftrightarrow> sv_revision v = sv_revision w"
      by (auto simp: rk_def revision_rank_def)
    have key: "bv_key (package_version x) = (sv_epoch x, canonical (map to_string [sv_major x, sv_minor x, sv_patch x]),
        sv_canonical_release x, rk x, 0)" for x
      by (simp add: bv_key_def package_version_def sv_canonical_release_def rk_def Let_def)
    show ?thesis
      unfolding bv_compare_key key sv_key_def cmp_def prod.inject less_pair
        eqs eqr eqv rk uu(1) r(1) vl(1) by auto
  qed
  show ?thesis
    using package_version_parse [OF v, of fz] package_version_parse [OF w, of fz] k sv_compare_key [of v w]
    by (auto simp: package_version_def effective_revision_def Let_def)
qed

theorem standard_package_order_witness:
  "\<exists>x y. version_of_string (sv_string \<lparr>sv_epoch = 1, sv_version = 100002000020010, sv_snapshot_sn = 0,
        sv_snapshot_id = [], sv_revision = 0\<rparr>) True = Inr x \<and>
    version_of_string (sv_string \<lparr>sv_epoch = 1, sv_version = 100002000020011, sv_snapshot_sn = latest_sn,
        sv_snapshot_id = [], sv_revision = 2\<rparr>) True = Inr y \<and>
    bv_compare x y False False < 0"
  using standard_package_order [of no_flags "\<lparr>sv_epoch = 1, sv_version = 100002000020010, sv_snapshot_sn = 0,
        sv_snapshot_id = [], sv_revision = 0\<rparr>" no_flags "\<lparr>sv_epoch = 1, sv_version = 100002000020011,
        sv_snapshot_sn = latest_sn, sv_snapshot_id = [], sv_revision = 2\<rparr>" True]
  by (auto simp: sv_wf_def sv_stub_def sv_triple_def snapshot_id_ok_def no_flags_def snapshot_sn_fits_def sv_compare_def)

end
