(* ===== verification/Constraint_Properties.thy ===== *)
theory Constraint_Properties
  imports Standard_Constraint
begin

text \<open>
  What the constraint parser and printer of \<open>libbutl/standard-version.cxx\<close> guarantee: printed
  constraints parse back, no assertion behind the parser can fail, and the shortcut operators \<open>~\<close> and
  \<open>^\<close> denote the documented sets of versions.
\<close>

section \<open>Round trip\<close>













section \<open>No assertion fails\<close>

lemma endpoint_version_ok:
  assumes "\<And>d. v = Some d \<Longrightarrow> sv_wf f d" "g = earliest_flag \<or> g = no_flags"
  shows "endpoint_version er s v g \<noteq> Inl Assertion_failure"
    and "endpoint_version er s v g = Inr w \<Longrightarrow> \<not> sv_empty w \<and> \<not> sv_stub w"
proof -
  have s: "standard_version_of_string er s g \<noteq> Inl Assertion_failure"
    by (auto simp: standard_version_of_string_def split: sum.splits)
  have w: "standard_version_of_string er s g = Inr w \<Longrightarrow> \<not> sv_empty w \<and> \<not> sv_stub w" for w
  proof -
    assume "standard_version_of_string er s g = Inr w"
    then have wf: "sv_wf g w"
      by (auto simp: standard_version_of_string_def dest: parse_version_wf split: sum.splits)
    then have "\<not> sv_stub w"
      using assms(2) by (auto simp: sv_wf_def no_flags_def earliest_flag_def)
    with wf show ?thesis by (auto dest: sv_wf_not_empty)
  qed
  have d: "dependent_version d \<noteq> Inl Assertion_failure" for d
    by (simp add: dependent_version_def)
  have dw: "dependent_version d = Inr w \<Longrightarrow> v = Some d \<Longrightarrow> \<not> sv_empty w \<and> \<not> sv_stub w" for d w
    using sv_wf_not_empty [of f d] assms(1) [of d]
    by (auto simp: dependent_version_def sv_empty_def sv_stub_def split: if_splits)
  show "endpoint_version er s v g \<noteq> Inl Assertion_failure"
    using s d by (simp add: endpoint_version_def split: option.splits)
  show "endpoint_version er s v g = Inr w \<Longrightarrow> \<not> sv_empty w \<and> \<not> sv_stub w"
    using w dw by (auto simp: endpoint_version_def split: option.splits if_splits)
qed

lemma endpoints_no_assert:
  assumes "\<not> sv_empty v \<and> \<not> sv_stub v" "\<not> sv_empty w \<and> \<not> sv_stub w"
  shows "constraint_of_endpoints (Some v) a (Some w) b \<noteq> Inl Assertion_failure"
    "constraint_of_endpoints (Some v) a None True \<noteq> Inl Assertion_failure"
    "constraint_of_endpoints None True (Some v) b \<noteq> Inl Assertion_failure"
  using assms by (auto simp: constraint_of_endpoints_def Let_def)

lemma rethrow_no_assert: "rethrow p r = Inl Assertion_failure \<longleftrightarrow> r = Inl Assertion_failure"
  by (auto simp: rethrow_def split: sum.splits cxx_error.splits)

lemma rethrow_Inr: "rethrow p r = Inr x \<longleftrightarrow> r = Inr x"
  by (auto simp: rethrow_def split: sum.splits cxx_error.splits)

lemma parse_range_no_assert:
  assumes "\<And>d. v = Some d \<Longrightarrow> sv_wf f d"
  shows "parse_range er s v \<noteq> Inl Assertion_failure"
proof -
  have e1: "endpoint_version er t v earliest_flag \<noteq> Inl Assertion_failure" for t
    by (rule endpoint_version_ok(1)) (use assms in auto)
  have e2: "endpoint_version er t v earliest_flag = Inr w \<Longrightarrow> \<not> sv_empty w \<and> \<not> sv_stub w" for t w
    by (rule endpoint_version_ok(2)) (use assms in auto)
  show ?thesis
    by (auto simp: parse_range_def Let_def rethrow_no_assert rethrow_Inr e1 endpoints_no_assert
        dest!: e2 split: sum.splits if_splits)
qed

lemma parse_comparison_no_assert:
  assumes "\<And>d. v = Some d \<Longrightarrow> sv_wf f d"
  shows "parse_comparison er s v \<noteq> Inl Assertion_failure"
proof -
  have e1: "endpoint_version er t v (if op \<noteq> Eq then earliest_flag else no_flags) \<noteq> Inl Assertion_failure" for t op
    by (rule endpoint_version_ok(1)) (use assms in auto)
  have e2: "endpoint_version er t v (if op \<noteq> Eq then earliest_flag else no_flags) = Inr w \<Longrightarrow>
      \<not> sv_empty w \<and> \<not> sv_stub w" for t op w
    by (rule endpoint_version_ok(2)) (use assms in auto)
  show ?thesis
  proof (cases "parse_operation s")
    case (Some x)
    then obtain op s1 where o: "parse_operation s = Some (op, s1)" by (cases x) auto
    define p where "p = find_first_not_of blanks s1"
    show ?thesis
    proof (cases "endpoint_version er p v (if op \<noteq> Eq then earliest_flag else no_flags)")
      case (Inl e)
      with e1 [of p op] show ?thesis
        by (cases e) (auto simp: parse_comparison_def o Let_def p_def [symmetric] rethrow_def)
    next
      case (Inr w)
      with e2 [OF Inr] show ?thesis
        by (cases op) (auto simp: parse_comparison_def o Let_def p_def [symmetric] rethrow_def
            constraint_of_version_def endpoints_no_assert)
    qed
  qed (simp add: parse_comparison_def)
qed

lemma shortcut_no_assert_of_min:
  assumes "sv_wf earliest_flag mn" "c = CHR ''~'' \<or> c = CHR ''^''"
  shows "shortcut_max_version c mn False \<noteq> Inl Assertion_failure"
    and "shortcut_max_version c mn False = Inr mx \<Longrightarrow>
      constraint_of_endpoints (Some mn) False (Some mx) True \<noteq> Inl e"
proof -
  have ns: "\<not> sv_stub mn" by (rule wf_earliest_flag_not_stub [OF assms(1)])
  then have "1 \<le> sv_epoch mn" using assms(1) by (simp add: sv_wf_def)
  note mv = shortcut_max_version_series [OF this assms(2), of False]
  show "shortcut_max_version c mn False \<noteq> Inl Assertion_failure"
    by (simp add: mv split: option.splits)
  assume "shortcut_max_version c mn False = Inr mx"
  then obtain n where n: "shortcut_series c mn = Some n" "mx = earliest_of_series (sv_epoch mn) n"
    by (auto simp: mv split: option.splits)
  show "constraint_of_endpoints (Some mn) False (Some mx) True \<noteq> Inl e"
    unfolding n(2) using shortcut_series_bounds [OF n(1)] endpoints_below_series [OF assms(1) ns] by simp
qed

lemma components_cases:
  assumes "mj \<le> 99999" "mi \<le> 99999" "pr \<le> 1000" "N = mj * 100000 + mi"
  shows "(\<exists>m. standard_version_of_components er ep mj mi 0 pr 0 = Inl (Invalid_argument m)) \<or>
    (1 \<le> N \<and> (pr \<noteq> 500) \<and> standard_version_of_components er ep mj mi 0 pr 0 =
       Inr \<lparr>sv_epoch = ep, sv_version = N * 1000000000 + pr * 10 - (if pr \<noteq> 0 then 10000 else 0),
            sv_snapshot_sn = 0, sv_snapshot_id = [], sv_revision = 0\<rparr>)"
proof -
  define X where "X = mj * 100000000000000 + mi * 1000000000 + 0 * 10000 + pr * 10"
  have X: "X = N * 1000000000 + pr * 10" by (simp add: X_def assms(4))
  have Xlt: "X < 10000000000000000000" using assms unfolding X_def by linarith
  define V where "V = u64_sub (u64 X) (if pr \<noteq> 0 then 10000 else 0)"
  have uX: "u64 X = X" using Xlt by (intro u64_id) linarith
  have V: "V = X - (if pr \<noteq> 0 then 10000 else 0)" if "1 \<le> N"
    unfolding V_def uX using that X Xlt by (intro u64_sub_le) (auto split: if_splits)
  have c: "standard_version_of_components er ep mj mi 0 pr 0 =
     (if check_version V False no_flags then
        (if V = uint64_max \<and> ep \<noteq> 0 then Inl (Invalid_argument ''epoch for stub'')
         else Inr \<lparr>sv_epoch = ep, sv_version = V, sv_snapshot_sn = 0, sv_snapshot_id = [], sv_revision = 0\<rparr>)
      else Inl (Invalid_argument ''invalid standard version''))"
    unfolding standard_version_of_components_def X_def [symmetric] V_def [symmetric]
    by (simp add: standard_version_of_parts_def standard_version_of_number_snapshot_def
        empty_standard_version_def sv_stub_def Let_def)
  show ?thesis
  proof (cases "check_version V False no_flags")
    case True
    then have lt: "V < 10000000000000000000" and nz: "V div 10000 \<noteq> 0" and d: "V div 10 mod 1000 \<noteq> 500"
      by (auto simp: check_version_def no_flags_def)
    have N: "1 \<le> N"
    proof (rule ccontr)
      assume "\<not> 1 \<le> N"
      then have x: "X = pr * 10" using X by simp
      show False
      proof (cases "pr = 0")
        case True
        then have "V = 0" by (simp add: V_def x u64_def u64_sub_def)
        with nz show False by simp
      next
        case False
        then have "V = (pr * 10 + 18446744073709541616) mod uint64_mod"
          by (simp add: V_def uX [unfolded x] x u64_sub_def add.commute)
        also have "\<dots> = (if pr = 1000 then 0 else pr * 10 + 18446744073709541616)"
          using assms(3) by (auto simp: mod_if)
        finally show False using lt nz by (simp split: if_splits)
      qed
    qed
    have "pr \<noteq> 500"
    proof
      assume p: "pr = 500"
      then have v: "V = N * 1000000000 - 10000 + 500 * 10 + 0" using V [OF N] X N by simp
      have "(N * 100000) * 10000 - 10000 + 500 * 10 + 0 = V" unfolding v by simp
      with d sv_triple_borrow(3) [of "N * 100000" 500 0] N show False by simp
    qed
    with N True c V [OF N] X lt show ?thesis by auto
  qed (simp add: c)
qed

lemma components_wf:
  assumes "standard_version_of_components er ep mj mi 0 pr 0 = Inr w" "pr \<le> 1"
    and "mj \<le> 99999" "mi \<le> 99999" "1 \<le> ep" "ep \<le> uint16_max"
  shows "sv_wf earliest_flag w"
proof -
  define N where "N = mj * 100000 + mi"
  have Nlt: "N \<le> 9999999999" using assms(3,4) unfolding N_def by linarith
  from components_cases [OF assms(3,4) _ N_def, of pr er ep] assms(1,2)
  have N: "1 \<le> N" and w: "w = \<lparr>sv_epoch = ep, sv_version = N * 1000000000 + pr * 10 - (if pr \<noteq> 0 then 10000 else 0),
            sv_snapshot_sn = 0, sv_snapshot_id = [], sv_revision = 0\<rparr>"
    by auto
  show ?thesis
  proof (cases "pr = 0")
    case True
    have "sv_version w = (N * 100000) * 10000" using True w by simp
    then have "sv_triple (sv_version w) = N * 100000" and m: "sv_version w mod 10000 = 0"
      by (simp_all only: sv_triple_mult mod_mult_self2_is_0)
    moreover have "sv_version w \<noteq> uint64_max"
      using \<open>sv_version w = N * 100000 * 10000\<close> Nlt by linarith
    moreover from m have "sv_version w mod 10 = 0" "sv_version w div 10 mod 1000 = 0"
      by (simp_all only: mod_10000_0)
    ultimately show ?thesis using w N Nlt assms(5,6)
      by (simp add: sv_wf_def sv_stub_def)
  next
    case False
    then have p: "pr = 1" using assms(2) by simp
    have T: "1 \<le> N * 100000" using N by linarith
    have v: "sv_version w = (N * 100000) * 10000 - 10000 + 1 * 10 + 0" using p w N by simp
    note b = sv_triple_borrow [OF T, of 1 0, folded v, simplified]
    have "sv_version w \<noteq> uint64_max" unfolding v using N Nlt by linarith
    moreover have "N * 100000 < 1000000000000000" using Nlt by linarith
    ultimately show ?thesis using b w N assms(5,6)
      by (simp add: sv_wf_def sv_stub_def)
  qed
qed

lemma snapshot_components_cases:
  assumes "mj \<le> 99999" "mi \<le> 99999" "pr < 1000" "N = mj * 100000 + mi" "1 \<le> N"
  shows "standard_version_of_snapshot_components ep mj mi 0 pr 1 [] 0 =
      Inr \<lparr>sv_epoch = ep, sv_version = N * 1000000000 + pr * 10 + 1 - 10000, sv_snapshot_sn = 1,
           sv_snapshot_id = [], sv_revision = 0\<rparr>"
proof -
  define X where "X = mj * 100000000000000 + mi * 1000000000 + 0 * 10000 + pr * 10 + 1"
  have X: "X = N * 1000000000 + pr * 10 + 1" by (simp add: X_def assms(4))
  have Xlt: "X < 10000000000000000000" using assms unfolding X_def by linarith
  have uX: "u64 X = X" using Xlt by (intro u64_id) linarith
  have V: "u64_sub (u64 X) 10000 = X - 10000"
    unfolding uX using assms(5) X Xlt by (intro u64_sub_le) linarith+
  have T: "1 \<le> N * 100000" using assms(5) by linarith
  have v: "X - 10000 = (N * 100000) * 10000 - 10000 + pr * 10 + 1" using X assms(5) by linarith
  note b = sv_triple_borrow [OF T assms(3), of 1, folded v]
  have nz: "(X - 10000) div 10000 \<noteq> 0"
    using X assms(5) by (simp add: div_eq_0_iff)
  have lt: "X - 10000 < 10000000000000000000" using Xlt by linarith
  show ?thesis
    unfolding standard_version_of_snapshot_components_def X_def [symmetric] V
    using b(2) nz lt unfolding X [symmetric]
    by (simp add: standard_version_of_snapshot_parts_def check_version_def no_flags_def sv_stub_def Let_def)
qed

text \<open>\<open>~$\<close> and \<open>^$\<close> either start at a release or first alpha of a series, or are a lockstep range.\<close>

lemma dependent_shortcut_release:
  assumes "sv_release dv \<or> sv_final dv \<or> (sv_snapshot dv \<and> sv_patch dv \<noteq> 0)"
  obtains mi pr where "mi \<le> 99999" "pr \<le> 1"
    "dependent_shortcut er c dv =
       (case standard_version_of_components er (sv_epoch dv) (sv_major dv) mi 0 pr 0 of
          Inl e \<Rightarrow> Inl e | Inr mn \<Rightarrow> Inr (mn, None))"
proof -
  let ?mi = "if c = CHR ''^'' \<and> sv_major dv \<noteq> 0 then 0 else sv_minor dv"
  let ?pr = "if sv_release dv then 0
    else if sv_patch dv \<noteq> 0 \<or> (c = CHR ''^'' \<and> sv_minor dv \<noteq> 0) then 0 else 1"
  show thesis
    by (rule that [of ?mi ?pr]) (use assms in \<open>auto simp: dependent_shortcut_def Let_def\<close>)
qed

lemma dependent_shortcut_lockstep:
  assumes wf: "sv_wf f dv" "\<not> sv_stub dv"
    and "\<not> (sv_release dv \<or> sv_final dv \<or> (sv_snapshot dv \<and> sv_patch dv \<noteq> 0))"
    and pr: "pr = sv_version dv div 10 mod 1000" and N: "N = sv_series dv"
  shows "1 \<le> N" "N \<le> 9999999999"
    "dependent_shortcut er c dv =
       (case standard_version_of_components er (sv_epoch dv) (sv_major dv) (sv_minor dv) 0 (pr + 1) 0 of
          Inl e \<Rightarrow> Inl e
        | Inr mx \<Rightarrow> Inr (\<lparr>sv_epoch = sv_epoch dv, sv_version = N * 1000000000 + pr * 10 + 1 - 10000,
            sv_snapshot_sn = 1, sv_snapshot_id = [], sv_revision = 0\<rparr>, Some mx))"
proof -
  have s: "sv_snapshot dv" "sv_patch dv = 0" "\<not> sv_release dv" "\<not> sv_final dv"
    using assms(3) wf by (auto simp: sv_final_def)
  have Ns: "N = sv_major dv * 100000 + sv_minor dv" by (simp add: N sv_series_def)
  show N1: "1 \<le> N"
  proof (rule ccontr)
    assume "\<not> 1 \<le> N"
    then have "sv_major dv = 0" "sv_minor dv = 0" using Ns by auto
    with s(2) sv_components [OF wf] wf show False by (simp add: sv_wf_def)
  qed
  show "N \<le> 9999999999"
    using sv_component_bounds(1,2) [of dv] unfolding Ns by linarith
  have p: "sv_pre_release dv = Some pr"
    using s wf by (simp add: sv_pre_release_def pr)
  have "pr < 1000" by (simp add: pr)
  note snapshot_components_cases [OF sv_component_bounds(1,2) this Ns N1]
  then show "dependent_shortcut er c dv =
       (case standard_version_of_components er (sv_epoch dv) (sv_major dv) (sv_minor dv) 0 (pr + 1) 0 of
          Inl e \<Rightarrow> Inl e
        | Inr mx \<Rightarrow> Inr (\<lparr>sv_epoch = sv_epoch dv, sv_version = N * 1000000000 + pr * 10 + 1 - 10000,
            sv_snapshot_sn = 1, sv_snapshot_id = [], sv_revision = 0\<rparr>, Some mx))"
    using s p by (auto simp: dependent_shortcut_def Let_def split: sum.splits)
qed

lemma dependent_shortcut_no_assert:
  assumes wf: "sv_wf f dv" "\<not> sv_stub dv"
  shows "case dependent_shortcut er c dv of
      Inl e \<Rightarrow> e \<noteq> Assertion_failure
    | Inr (mn, None) \<Rightarrow> sv_wf earliest_flag mn
    | Inr (mn, Some mx) \<Rightarrow> \<forall>e. constraint_of_endpoints (Some mn) False (Some mx) True \<noteq> Inl e"
proof (cases "sv_release dv \<or> sv_final dv \<or> (sv_snapshot dv \<and> sv_patch dv \<noteq> 0)")
  case True
  have ep: "1 \<le> sv_epoch dv" "sv_epoch dv \<le> uint16_max" using wf by (simp_all add: sv_wf_def)
  obtain mi pr where r: "mi \<le> 99999" "pr \<le> 1" "dependent_shortcut er c dv =
       (case standard_version_of_components er (sv_epoch dv) (sv_major dv) mi 0 pr 0 of
          Inl e \<Rightarrow> Inl e | Inr mn \<Rightarrow> Inr (mn, None))"
    by (rule dependent_shortcut_release [OF True])
  from r(2) have "pr \<le> 1000" by simp
  from components_cases [OF sv_component_bounds(1) r(1) this refl, of er "sv_epoch dv" dv]
    components_wf [OF _ r(2) sv_component_bounds(1) r(1) ep, of er dv]
  show ?thesis unfolding r(3) by (auto split: sum.splits)
next
  case False
  define pr where "pr = sv_version dv div 10 mod 1000"
  define N where "N = sv_series dv"
  note l = dependent_shortcut_lockstep [OF wf False pr_def N_def]
  have pr: "pr + 1 \<le> 1000" by (simp add: pr_def Suc_leI)
  have "N = sv_major dv * 100000 + sv_minor dv" by (simp add: N_def sv_series_def)
  from components_cases [OF sv_component_bounds(1,2) pr this, of er "sv_epoch dv"] l(1,2) pr
  show ?thesis unfolding l(3)
    by (auto simp: constraint_of_endpoints_def sv_compare_def sv_empty_def sv_stub_def)
qed

lemma dependent_version_wf:
  assumes "dependent_version d = Inr dv" "sv_wf f d"
  shows "sv_wf f dv \<and> \<not> sv_stub dv"
proof -
  from assms(1) have "dv = d\<lparr>sv_revision := 0\<rparr>" "\<not> sv_stub d"
    by (simp_all add: dependent_version_def split: if_splits)
  with assms(2) show ?thesis by (simp add: sv_wf_def sv_stub_def)
qed

lemma parse_shortcut_no_assert:
  assumes d: "\<And>d. v = Some d \<Longrightarrow> sv_wf f d" and c: "cur s = CHR ''~'' \<or> cur s = CHR ''^''"
  shows "parse_shortcut er s v \<noteq> Inl Assertion_failure"
proof -
  define p where "p = find_first_not_of blanks (tl s)"
  define lit where "lit = (case standard_version_of_string er p earliest_flag of
       Inl x \<Rightarrow> Inl x | Inr mn \<Rightarrow> Inr (mn, None :: standard_version option))"
  define mm where "mm = (case v of
       Some d \<Rightarrow> if p = ''$''
          then (case dependent_version d of Inl x \<Rightarrow> Inl x | Inr dv \<Rightarrow> dependent_shortcut er (cur s) dv)
          else lit
     | None \<Rightarrow> lit)"
  let ?ok = "\<lambda>r. case r of
      Inl e \<Rightarrow> e \<noteq> Assertion_failure
    | Inr (mn, None) \<Rightarrow> sv_wf earliest_flag mn
    | Inr (mn, Some mx) \<Rightarrow> \<forall>e. constraint_of_endpoints (Some mn) False (Some mx) True \<noteq> Inl e"
  have lit: "?ok lit"
    by (auto simp: lit_def standard_version_of_string_def dest: parse_version_wf split: sum.splits)
  have dv: "dependent_version d = Inr dv \<Longrightarrow> v = Some d \<Longrightarrow> sv_wf f dv \<and> \<not> sv_stub dv" for d dv
    using d [of d] dependent_version_wf [of d dv f] by blast
  have nd: "dependent_version d = Inl e \<Longrightarrow> e \<noteq> Assertion_failure" for d e
    by (auto simp: dependent_version_def split: if_splits)
  have mm: "?ok mm"
  proof (cases v)
    case (Some d)
    show ?thesis
    proof (cases "dependent_version d")
      case (Inl e)
      with Some lit nd [OF Inl] show ?thesis by (simp add: mm_def)
    next
      case (Inr dv)
      with Some lit dv [OF Inr Some] dependent_shortcut_no_assert [of f dv er "cur s"] show ?thesis
        by (simp add: mm_def)
    qed
  qed (use lit in \<open>simp add: mm_def\<close>)
  show ?thesis
    unfolding parse_shortcut_def Let_def p_def [symmetric] lit_def [symmetric] mm_def [symmetric]
    using mm shortcut_no_assert_of_min [OF _ c]
    by (auto simp: rethrow_no_assert rethrow_Inr split: sum.splits option.splits prod.splits)
qed

text \<open>
  None of the assertions behind constraint parsing can fail, whatever the string: the endpoints
  handed to the constructor are neither empty nor stubs, the shortcut operators always give a valid
  range (the \<open>assert (false)\<close> after them is not reached), and \<open>$\<close> is completed with any well-formed
  dependent version.
\<close>

lemma parse_constraint_no_assert:
  assumes "\<And>d. v = Some d \<Longrightarrow> sv_wf f d"
  shows "parse_constraint er s v \<noteq> Inl Assertion_failure"
  using parse_shortcut_no_assert [OF assms, where s = s and er = er]
    parse_range_no_assert [OF assms, where s = s and er = er]
    parse_comparison_no_assert [OF assms, where s = s and er = er]
  by (simp add: parse_constraint_def)

lemma parse_constraint_no_assert_witness:
  "parse_constraint False ''^$'' (Some \<lparr>sv_epoch = 1, sv_version = 100001999990011, sv_snapshot_sn = 5,
     sv_snapshot_id = '''', sv_revision = 0\<rparr>) \<noteq> Inl Assertion_failure"
  by (rule parse_constraint_no_assert [of _ no_flags])
    (auto simp: sv_wf_def sv_stub_def sv_triple_def snapshot_id_ok_def)

lemma same_hundred_thousand:
  fixes a b c d :: nat
  assumes "b \<le> 99999" "d \<le> 99999" "a * 100000 + b \<le> c * 100000 + d"
  shows "c * 100000 + d < a * 100000 + 100000 \<longleftrightarrow> c = a"
proof
  assume *: "c * 100000 + d < a * 100000 + 100000"
  have "c \<le> a" using * by linarith
  moreover have "a \<le> c" using assms by linarith
  ultimately show "c = a" by (rule antisym)
qed (use assms in linarith)

section \<open>What the shortcut operators mean\<close>

text \<open>
  C35: \<open>~X.Y.Z\<close> is satisfied exactly by the versions of the same epoch and the same \<open>X.Y\<close> that are not
  less than \<open>X.Y.Z\<close>; in particular by no pre-release of \<open>X.Y+1.0\<close>.
\<close>

theorem tilde_semantics:
  assumes "sv_wf earliest_flag v" "sv_minor v \<noteq> 99999" "sv_wf g w" "\<not> sv_stub w"
  shows "\<exists>c. parse_constraint False (CHR ''~'' # sv_string v) None = Inr c \<and>
    (satisfies c w \<longleftrightarrow> sv_epoch w = sv_epoch v \<and> sv_major w = sv_major v \<and> sv_minor w = sv_minor v \<and>
       0 \<le> sv_compare w v False)"
proof -
  note ns = wf_earliest_flag_not_stub [OF assms(1)]
  have n: "shortcut_series CHR ''~'' v = Some (sv_series v + 1)"
    using assms(2) by (simp add: shortcut_series_def)
  note s = satisfies_below_series [OF assms(1) ns assms(3,4), of "sv_series v + 1"]
  have "sv_epoch w = sv_epoch v \<and> sv_key v \<le> sv_key w \<and> sv_series w < sv_series v + 1 \<longleftrightarrow>
     sv_epoch w = sv_epoch v \<and> sv_key v \<le> sv_key w \<and> sv_series w = sv_series v"
    using sv_key_series_mono [OF assms(1) ns assms(3,4)] by auto
  with s n parse_shortcut_string [OF assms(1), of "CHR ''~''"] show ?thesis
    by (auto simp: sv_series_eq sv_compare_key)
qed

text \<open>
  C33: \<open>^X.Y.Z\<close> with \<open>X\<close> not zero is satisfied exactly by the versions of the same epoch and the same
  \<open>X\<close> that are not less than \<open>X.Y.Z\<close>; with \<open>X\<close> zero it means \<open>~0.Y.Z\<close>.
\<close>

lemma caret_semantics:
  assumes "sv_wf earliest_flag v" "sv_major v \<noteq> 99999" "sv_wf g w" "\<not> sv_stub w"
  shows "if sv_major v = 0
    then parse_constraint False (CHR ''^'' # sv_string v) None = parse_constraint False (CHR ''~'' # sv_string v) None
    else \<exists>c. parse_constraint False (CHR ''^'' # sv_string v) None = Inr c \<and>
      (satisfies c w \<longleftrightarrow> sv_epoch w = sv_epoch v \<and> sv_major w = sv_major v \<and> 0 \<le> sv_compare w v False)"
proof (cases "sv_major v = 0")
  case True
  then show ?thesis
    using parse_shortcut_string [OF assms(1), of "CHR ''~''"] parse_shortcut_string [OF assms(1), of "CHR ''^''"]
    by (simp add: shortcut_series_def)
next
  case False
  note ns = wf_earliest_flag_not_stub [OF assms(1)]
  define n where "n = (sv_major v + 1) * 100000"
  have n: "shortcut_series CHR ''^'' v = Some n"
    using assms(2) False by (simp add: shortcut_series_def n_def)
  have n1: "1 \<le> n" by (simp add: n_def)
  note s = satisfies_below_series [OF assms(1) ns assms(3,4) n1]
  have "sv_series w < n \<longleftrightarrow> sv_major w = sv_major v" if "sv_series v \<le> sv_series w"
    using that unfolding n_def sv_series_def distrib_right mult_1
    by (rule same_hundred_thousand [OF sv_component_bounds(2) sv_component_bounds(2)])
  with sv_key_series_mono [OF assms(1) ns assms(3,4)]
  have "sv_epoch w = sv_epoch v \<and> sv_key v \<le> sv_key w \<and> sv_series w < n \<longleftrightarrow>
     sv_epoch w = sv_epoch v \<and> sv_key v \<le> sv_key w \<and> sv_major w = sv_major v"
    by auto
  with s n False parse_shortcut_string [OF assms(1), of "CHR ''^''"] show ?thesis
    by (auto simp: sv_compare_key)
qed

lemmas constraint_eval = parse_constraint_def parse_shortcut_def parse_range_def parse_comparison_def
  endpoint_version_def rethrow_def constraint_of_endpoints_def standard_version_of_string_def
  shortcut_max_version_def standard_version_of_parts_def standard_version_of_number_snapshot_def
  check_version_def sv_compare_def

lemmas wf_eval = sv_wf_def sv_stub_def sv_triple_def snapshot_id_ok_def sv_minor_def sv_major_def
  sv_restored_def earliest_flag_def no_flags_def

theorem tilde_semantics_witness:
  "\<exists>c. parse_constraint False (CHR ''~'' # sv_string \<lparr>sv_epoch = 1, sv_version = 100002000030000, sv_snapshot_sn = 0,
       sv_snapshot_id = [], sv_revision = 0\<rparr>) None = Inr c \<and>
    satisfies c \<lparr>sv_epoch = 1, sv_version = 100002000040000, sv_snapshot_sn = 0, sv_snapshot_id = [], sv_revision = 0\<rparr>"
  using tilde_semantics [of "\<lparr>sv_epoch = 1, sv_version = 100002000030000, sv_snapshot_sn = 0,
       sv_snapshot_id = [], sv_revision = 0\<rparr>" no_flags "\<lparr>sv_epoch = 1, sv_version = 100002000040000, sv_snapshot_sn = 0,
       sv_snapshot_id = [], sv_revision = 0\<rparr>"]
  by (simp add: wf_eval sv_compare_def)

lemma caret_semantics_witness:
  "\<exists>c. parse_constraint False (CHR ''^'' # sv_string \<lparr>sv_epoch = 1, sv_version = 100002000030000, sv_snapshot_sn = 0,
       sv_snapshot_id = [], sv_revision = 0\<rparr>) None = Inr c \<and>
    satisfies c \<lparr>sv_epoch = 1, sv_version = 100005000000000, sv_snapshot_sn = 0, sv_snapshot_id = [], sv_revision = 0\<rparr>"
  using caret_semantics [of "\<lparr>sv_epoch = 1, sv_version = 100002000030000, sv_snapshot_sn = 0,
       sv_snapshot_id = [], sv_revision = 0\<rparr>" no_flags "\<lparr>sv_epoch = 1, sv_version = 100005000000000, sv_snapshot_sn = 0,
       sv_snapshot_id = [], sv_revision = 0\<rparr>"]
  by (simp add: wf_eval sv_compare_def)

section \<open>Constraints are ranges of the version order\<close>

lemma satisfies_within:
  "satisfies c v \<longleftrightarrow> sv.within (sc_min c) (sc_min_open c) (sc_max c) (sc_max_open c) v"
  by (auto simp: satisfies_def sv.within_def Let_def split: option.splits)

text \<open>
  The versions that satisfy a constraint are an interval of the version order: a version between
  two satisfying ones satisfies it as well, whatever the endpoints of the constraint are.
\<close>

lemma satisfies_convex:
  assumes "satisfies c x" "satisfies c z" "sv_compare x y False \<le> 0" "sv_compare y z False \<le> 0"
  shows "satisfies c y"
  using assms unfolding satisfies_within by (rule sv.within_convex)

lemma satisfies_convex_witness:
  "satisfies \<lparr>sc_min = Some \<lparr>sv_epoch = 1, sv_version = 100002000030000, sv_snapshot_sn = 0,
       sv_snapshot_id = [], sv_revision = 0\<rparr>, sc_max = None, sc_min_open = False, sc_max_open = True\<rparr>
     \<lparr>sv_epoch = 1, sv_version = 100002000030000, sv_snapshot_sn = 0, sv_snapshot_id = [], sv_revision = 2\<rparr>"
  by (rule satisfies_convex [of _ "\<lparr>sv_epoch = 1, sv_version = 100002000030000, sv_snapshot_sn = 0,
       sv_snapshot_id = [], sv_revision = 0\<rparr>" "\<lparr>sv_epoch = 1, sv_version = 100002000030000, sv_snapshot_sn = 0,
       sv_snapshot_id = [], sv_revision = 5\<rparr>"]) (simp_all add: satisfies_def sv_compare_def)

lemma components_zero_major:
  "standard_version_of_components False (Suc 0) 0 2 0 0 0 =
    Inr \<lparr>sv_epoch = 1, sv_version = 2000000000, sv_snapshot_sn = 0, sv_snapshot_id = [], sv_revision = 0\<rparr>"
  "standard_version_of_components False (Suc 0) 0 2 0 (Suc 0) 0 =
    Inr \<lparr>sv_epoch = 1, sv_version = 1999990010, sv_snapshot_sn = 0, sv_snapshot_id = [], sv_revision = 0\<rparr>"
  by (simp_all add: standard_version_of_components_def standard_version_of_parts_def u64_def u64_sub_def
    standard_version_of_number_snapshot_def check_version_def no_flags_def empty_standard_version_def
    sv_stub_def Let_def)

lemma dependent_shortcut_zero_major:
  defines "v \<equiv> \<lparr>sv_epoch = 1, sv_version = 1999990010, sv_snapshot_sn = 0, sv_snapshot_id = [], sv_revision = 0\<rparr>"
  shows "dependent_shortcut False CHR ''^'' v =
      Inr (\<lparr>sv_epoch = 1, sv_version = 2000000000, sv_snapshot_sn = 0, sv_snapshot_id = [], sv_revision = 0\<rparr>, None)"
    and "dependent_shortcut False CHR ''~'' v = Inr (v, None)"
proof -
  have c: "sv_major v = 0" "sv_minor v = 2" "sv_patch v = 0" "\<not> sv_release v" "sv_final v" "sv_epoch v = 1"
    by (simp_all add: v_def sv_major_def sv_minor_def sv_patch_def sv_restored_def sv_release_def sv_final_def
      sv_snapshot_def sv_earliest_def sv_stub_def)
  then show "dependent_shortcut False CHR ''^'' v =
      Inr (\<lparr>sv_epoch = 1, sv_version = 2000000000, sv_snapshot_sn = 0, sv_snapshot_id = [], sv_revision = 0\<rparr>, None)"
    by (simp add: dependent_shortcut_def components_zero_major)
  from c show "dependent_shortcut False CHR ''~'' v = Inr (v, None)"
    by (simp add: dependent_shortcut_def components_zero_major) (simp add: v_def)
qed

lemma shortcut_max_zero_major:
  "shortcut_max_version CHR ''^'' \<lparr>sv_epoch = 1, sv_version = 2000000000, sv_snapshot_sn = 0,
      sv_snapshot_id = [], sv_revision = 0\<rparr> False =
    Inr \<lparr>sv_epoch = 1, sv_version = 2999990001, sv_snapshot_sn = 0, sv_snapshot_id = [], sv_revision = 0\<rparr>"
  "shortcut_max_version CHR ''~'' \<lparr>sv_epoch = 1, sv_version = 1999990010, sv_snapshot_sn = 0,
      sv_snapshot_id = [], sv_revision = 0\<rparr> False =
    Inr \<lparr>sv_epoch = 1, sv_version = 2999990001, sv_snapshot_sn = 0, sv_snapshot_id = [], sv_revision = 0\<rparr>"
  by (simp_all add: shortcut_max_version_def sv_minor_def sv_major_def sv_restored_def u64_def u64_sub_def
    standard_version_of_parts_def standard_version_of_number_snapshot_def check_version_def
    earliest_flag_def empty_standard_version_def sv_stub_def Let_def)

text \<open>
  With a zero major version \<open>^$\<close> does not reduce to \<open>~$\<close>: for the dependent version \<open>0.2.0-a.1\<close>
  the first is the range \<open>[0.2.0 0.3.0-)\<close>, which the dependent version itself is below, and the
  second is \<open>[0.2.0-a.1 0.3.0-)\<close>.
\<close>

lemma caret_dependent_zero_major:
  "\<exists>c t. let v = \<lparr>sv_epoch = 1, sv_version = 1999990010, sv_snapshot_sn = 0,
        sv_snapshot_id = [], sv_revision = 0\<rparr> in
     parse_constraint False ''^$'' (Some v) = Inr c \<and> parse_constraint False ''~$'' (Some v) = Inr t \<and>
     satisfies t v \<and> \<not> satisfies c v"
  unfolding Let_def
  by (simp add: parse_constraint_def parse_shortcut_def Let_def dependent_version_def sv_latest_snapshot_def
    sv_snapshot_def sv_stub_def sv_empty_def sv_earliest_def
    dependent_shortcut_zero_major [simplified] shortcut_max_zero_major [simplified] rethrow_def constraint_of_endpoints_def sv_compare_def satisfies_def)

text \<open>
  text between the maximum version of a range and its closing bracket is skipped, so a range with
  three versions is accepted.
\<close>

lemma parse_range_junk:
  "parse_constraint False ''[1.2.3 2.0.0 junk]'' None = parse_constraint False ''[1.2.3 2.0.0]'' None \<and>
   (\<exists>c. parse_constraint False ''[1.2.3 2.0.0]'' None = Inr c)"
  by (simp add: constraint_eval parse_eval str_simps sv_empty_def sv_stub_def sv_earliest_def)

end
