(* ===== verification/Bpkg_Constraint_Properties.thy ===== *)
theory Bpkg_Constraint_Properties
  imports Standard_Package Constraint_Properties
begin

text \<open>
  The properties of package constraints: completion with the dependent version, printing and parsing
  back, and the two assertions of the code that its input can make fail.
\<close>

section \<open>Completion\<close>

lemma vc_of_endpoints_fields:
  "vc_of_endpoints mn mno mx mxo = Inr c \<Longrightarrow>
     c = \<lparr>vc_min = mn, vc_max = mx, vc_min_open = mno, vc_max_open = mxo\<rparr>"
  by (auto simp: vc_of_endpoints_def Let_def split: option.splits sum.splits if_splits)

lemma bv_empty_upstream: "bv_upstream v \<noteq> [] \<Longrightarrow> bv_empty v = Inr False"
  by (simp add: bv_empty_def)

lemma wf_upstream: "bv_wf v \<Longrightarrow> bv_upstream v \<noteq> []"
proof -
  assume "bv_wf v"
  then obtain us where "us \<noteq> []" "list_all component_ok us" "bv_upstream v = dot_join us" by (auto simp: bv_wf_def)
  with dot_join_eq_Nil [OF component_ok_not_Nil, of us] show ?thesis by simp
qed

lemma version_of_parts_upstream:
  "version_of_parts e u l r i = Inr v \<Longrightarrow> u \<noteq> [] \<Longrightarrow> bv_upstream v = u"
  by (auto simp: version_of_parts_def split: sum.splits if_splits)

lemma complete_endpoints:
  assumes "\<And>m. vc_min c = Some m \<or> vc_max c = Some m \<Longrightarrow> bv_upstream m \<noteq> []"
  shows "vc_complete c = Inr True"
  using assms bv_empty_upstream
  by (cases "vc_min c"; cases "vc_max c") (auto simp: vc_complete_def endpoint_empty_def)

lemma vc_of_standard_complete:
  assumes "vc_of_standard sc = Inr d"
  shows "vc_complete d = Inr True"
proof -
  from assms obtain a b s t where "version_of_string s True = Inr a" "version_of_string t True = Inr b"
    "vc_of_endpoints (Some a) (sc_min_open sc) (Some b) (sc_max_open sc) = Inr d"
    by (auto simp: vc_of_standard_def split: option.splits sum.splits)
  with version_of_string_wf wf_upstream vc_of_endpoints_fields show ?thesis
    by (intro complete_endpoints) fastforce
qed

text \<open>
  Completing a constraint with a dependent version leaves no reference to the dependent: the
  result of \<open>effective ()\<close>, when it returns one, is complete, for ranges, comparisons and the shortcut
  operators alike.
\<close>

lemma effective_complete:
  assumes "effective er c dv = Inr d"
  shows "vc_complete d = Inr True"
proof -
  from assms obtain v where e: "bv_empty dv = Inr False"
    and v: "version_of_parts (bv_epoch dv) (bv_upstream dv) (bv_release dv) None 0 = Inr v"
    by (auto simp: effective_def split: sum.splits bool.splits if_splits)
  have "bv_upstream dv \<noteq> []" using e by (auto simp: bv_empty_def Let_def split: if_splits)
  with version_of_parts_upstream [OF v] have u: "bv_upstream v \<noteq> []" by simp
  show ?thesis
  proof (cases "vc_is_shortcut c = Inr True")
    case True
    with assms e v have "effective_shortcut er c v = Inr d" by (auto simp: effective_def split: if_splits)
    then obtain sc where "vc_of_standard sc = Inr d"
      by (auto simp: effective_shortcut_def split: sum.splits option.splits if_splits)
    then show ?thesis by (rule vc_of_standard_complete)
  next
    case False
    with assms e v obtain mne mxe where m: "endpoint_empty (vc_min c) = Inr mne" "endpoint_empty (vc_max c) = Inr mxe"
      and d: "vc_of_endpoints (if mne then Some v else vc_min c) (vc_min_open c)
                (if mxe then Some v else vc_max c) (vc_max_open c) = Inr d"
      by (auto simp: effective_def split: sum.splits bool.splits if_splits)
    show ?thesis
      using vc_of_endpoints_fields [OF d] u m
      by (intro complete_endpoints) (auto simp: endpoint_empty_def bv_empty_def Let_def split: if_splits)
  qed
qed

text \<open>
  A constraint that does not refer to the dependent version is its own effective constraint, for
  every dependent version that is neither empty nor earliest.
\<close>

lemma effective_identity:
  assumes c: "vc_of_endpoints (vc_min c) (vc_min_open c) (vc_max c) (vc_max_open c) = Inr c"
    and "vc_complete c = Inr True" and v: "bv_wf dv" "bv_release dv \<noteq> Some []"
  shows "effective er c dv = Inr c"
proof -
  have e: "endpoint_empty (vc_min c) = Inr False" "endpoint_empty (vc_max c) = Inr False"
    using assms(2) by (auto simp: vc_complete_def split: sum.splits bool.splits)
  then have "vc_is_shortcut c = Inr False" by (simp add: vc_is_shortcut_def)
  with e v c version_of_parts_wf [OF v(1), of None 0] bv_empty_upstream [OF wf_upstream [OF v(1)]] show ?thesis
    by (simp add: effective_def)
qed

section \<open>Two assertions that can fail\<close>

text \<open>
  The parser of \<open>~\<close> and \<open>^\<close> asserts that every standard version is a valid package version, but a
  snapshot number may have up to twenty digits and a package version component only sixteen:
  \<open>~1.2.3-a.1.12345678901234567\<close> trips the assertion.
\<close>

lemma shortcut_snapshot_assert:
  "vc_of_string False ''~1.2.3-a.1.12345678901234567'' = Inl Assertion_failure"
proof -
  let ?v = "\<lparr>sv_epoch = 1, sv_version = 100002000020011, sv_snapshot_sn = 12345678901234567,
      sv_snapshot_id = [], sv_revision = 0\<rparr>"
  have s: "sv_string ?v = ''1.2.3-a.1.12345678901234567''" by (simp add: print_eval)
  have wf: "sv_wf earliest_flag ?v" by (simp add: wf_eval)
  have "shortcut_series CHR ''~'' ?v \<noteq> None" by (simp add: shortcut_series_def sv_minor_def sv_restored_def)
  then obtain c where c: "parse_constraint False ''~1.2.3-a.1.12345678901234567'' None = Inr c" "sc_min c = Some ?v"
    "sc_max c \<noteq> None"
    using parse_shortcut_string [OF wf, of "CHR ''~''"] unfolding s by auto
  have "version_of_string ''1.2.3-a.1.12345678901234567'' True =
      Inl (Invalid_argument ''16 digits maximum allowed in a component'')"
    by (simp add: version_eval)
  with c show ?thesis
    by (auto simp: vc_of_string_def vc_shortcut_def vc_of_standard_def s [simplified])
qed

lemma two_snapshots:
  "version_of_string ''1.2.3-a.1.9.x'' False = Inr \<lparr>bv_epoch = 1, bv_upstream = ''1.2.3'', bv_release = Some ''a.1.9.x'',
     bv_revision = None, bv_iteration = 0,
     bv_canonical_upstream = ''0000000000000001.0000000000000002.0000000000000003'',
     bv_canonical_release = ''a.0000000000000001.0000000000000009.x''\<rparr>"
  "version_of_string ''1.2.3-a.1.9.y'' False = Inr \<lparr>bv_epoch = 1, bv_upstream = ''1.2.3'', bv_release = Some ''a.1.9.y'',
     bv_revision = None, bv_iteration = 0,
     bv_canonical_upstream = ''0000000000000001.0000000000000002.0000000000000003'',
     bv_canonical_release = ''a.0000000000000001.0000000000000009.y''\<rparr>"
  "parse_version False ''1.2.3-a.1.9.x'' earliest_flag = Inr \<lparr>sv_epoch = 1, sv_version = 100002000020011,
     sv_snapshot_sn = 9, sv_snapshot_id = ''x'', sv_revision = 0\<rparr>"
  "parse_version False ''1.2.3-a.1.9.y'' earliest_flag = Inr \<lparr>sv_epoch = 1, sv_version = 100002000020011,
     sv_snapshot_sn = 9, sv_snapshot_id = ''y'', sv_revision = 0\<rparr>"
  by (simp_all add: version_eval parse_eval)

text \<open>
  Printing asserts that a half-open range of standard versions is a standard constraint. The order
  of standard versions ignores the snapshot identifier and the package order does not, so the range
  \<open>[1.2.3-a.1.9.x 1.2.3-a.1.9.y)\<close> is accepted, and printing it trips the assertion.
\<close>

lemma range_string_assert:
  "\<exists>c. vc_of_string False ''[1.2.3-a.1.9.x 1.2.3-a.1.9.y)'' = Inr c \<and> vc_string False c = Inl Assertion_failure"
  by (simp add: vc_of_string_def vc_range_def vc_endpoint_def rethrow_def two_snapshots vc_of_endpoints_def
      bv_empty_def bv_compare_def cmp_def less_char_def vc_string_def standard_range_string_def bv_string_def
      default_epoch_def parse_standard_version_def two_snapshots [simplified] constraint_of_endpoints_def sv_compare_def
      sv_empty_def sv_stub_def)

section \<open>Printing and parsing back\<close>

definition endpoint_ok :: "version \<Rightarrow> bool" where
  "endpoint_ok v \<longleftrightarrow> v = empty_version \<or> plain_version v"

lemma set_dot_join: "set (dot_join ws) \<subseteq> (\<Union>w \<in> set ws. set w) \<union> {CHR ''.''}"
  by (induction ws rule: dot_join.induct) auto

lemma dot_join_chars: "list_all component_ok ws \<Longrightarrow> list_all version_char (dot_join ws)"
  using set_dot_join [of ws] by (fastforce simp: list_all_iff component_ok_def version_char_def)

lemma bv_string_chars:
  assumes "bv_wf v" "bv_iteration v = 0" "bv_string v False False = Inr t"
  shows "list_all version_char t \<and> t \<noteq> []"
proof -
  from bv_string_wf [OF assms(1,2)] obtain us rel where us: "us \<noteq> []" "list_all component_ok us"
      "bv_upstream v = dot_join us" "bv_canonical_upstream v = canonical us"
    and rel: "\<forall>rs. rel = Some rs \<longrightarrow> list_all component_ok rs" "bv_release v = map_option dot_join rel"
      "bv_canonical_release v = (case rel of None \<Rightarrow> ''~'' | Some rs \<Rightarrow> canonical rs)"
    and t: "bv_string v False False = Inr (epoch_text
       (if bv_epoch v \<noteq> default_epoch (canonical us) (bv_release v) then Some (bv_epoch v) else None) @
       dot_join us @ release_text rel @ revision_text (bv_revision v))" .
  have "list_all version_char (epoch_text e)" "list_all version_char (revision_text e)" for e
    by (auto simp: epoch_text_def revision_text_def version_char_def split: option.splits)
  moreover have "list_all version_char (release_text rel)"
    using rel(1) dot_join_chars by (auto simp: release_text_def version_char_def split: option.splits)
  ultimately show ?thesis
    using t assms(3) dot_join_chars [OF us(2)] us dot_join_eq_Nil [OF component_ok_not_Nil [OF us(2)]] by auto
qed

text \<open>The text of an endpoint, and that it is read back.\<close>

lemma endpoint_text:
  assumes "endpoint_ok v"
  obtains t where "vc_endpoint_string v = Inr t" "vc_endpoint t = Inr v" "t \<noteq> []"
    "set t \<inter> set (blanks @ ''])'') = {}"
proof (cases "v = empty_version")
  case True
  then show thesis
    by (intro that [of "''$''"]) (simp_all add: vc_endpoint_string_def bv_empty_def empty_version_def vc_endpoint_def)
next
  case False
  with assms have v: "bv_wf v" "bv_iteration v = 0" by (auto simp: endpoint_ok_def plain_version_def)
  from bv_string_parse [OF v, of False] obtain t where
    t: "bv_string v False False = Inr t" "version_of_string t False = Inr v" by auto
  note c = bv_string_chars [OF v t(1)]
  have "set t \<inter> set (blanks @ ''])'') = {}"
    using c by (auto simp: list_all_iff version_char_def char_defs)
  moreover have "t \<noteq> ''$''" using c by (auto simp: version_char_def char_defs)
  ultimately show thesis
    using t c bv_empty_upstream [OF wf_upstream [OF v(1)]]
    by (intro that [of t]) (simp_all add: vc_endpoint_string_def vc_endpoint_def)
qed

lemma skip_blanks_text: "t \<noteq> [] \<Longrightarrow> set t \<inter> set (blanks @ ''])'') = {} \<Longrightarrow> find_first_not_of blanks (t @ u) = t @ u"
  by (cases t) auto

lemma vc_range_text:
  assumes "t \<noteq> []" "u \<noteq> []" "set t \<inter> set (blanks @ ''])'') = {}" "set u \<inter> set (blanks @ ''])'') = {}"
    and "vc_endpoint t = Inr mn" "vc_endpoint u = Inr mx" "a = CHR ''('' \<or> a = CHR ''[''" "b = CHR '')'' \<or> b = CHR '']''"
  shows "vc_of_string er (a # t @ '' '' @ u @ [b]) =
    vc_of_endpoints (Some mn) (a = CHR ''('') (Some mx) (b = CHR '')'')"
proof -
  have dt: "set t \<inter> set blanks = {}" using assms(3) by auto
  have s1: "find_first_not_of blanks (t @ CHR '' '' # u @ [b]) = t @ CHR '' '' # u @ [b]"
    using skip_blanks_text [OF assms(1,3)] .
  have u1: "until_first_of blanks (t @ CHR '' '' # u @ [b]) = t"
      "find_first_of blanks (t @ CHR '' '' # u @ [b]) = CHR '' '' # u @ [b]"
    using until_first_of_append [OF dt] find_first_of_append [OF dt] by simp_all
  have s2: "find_first_not_of blanks (CHR '' '' # u @ [b]) = u @ [b]"
    using skip_blanks_text [OF assms(2,4), of "[b]"] by simp
  have u2: "until_first_of (blanks @ ''])'') (u @ [b]) = u" "find_first_of (blanks @ ''])'') (u @ [b]) = [b]"
    using until_first_of_append [OF assms(4)] find_first_of_append [OF assms(4)] assms(8) by auto
  have f3: "find_first_of ''])'' [b] = [b]" using assms(8) by auto
  have "vc_range (a # t @ CHR '' '' # u @ [b]) =
      vc_of_endpoints (Some mn) (a = CHR ''('') (Some mx) (b = CHR '')'')"
    unfolding vc_range_def Let_def cur_simps list.sel s1 u1 s2 u2 f3
    using assms(1,2,5,6) by (simp add: rethrow_def)
  then show ?thesis using assms(7) by (auto simp: vc_of_string_def)
qed

lemma vc_comparison_text:
  assumes "t \<noteq> []" "set t \<inter> set (blanks @ ''])'') = {}" "vc_endpoint t = Inr v"
    and "cur o1 \<noteq> CHR ''(''" "cur o1 \<noteq> CHR ''[''" "cur o1 \<noteq> CHR ''~''" "cur o1 \<noteq> CHR ''^''" "o1 \<noteq> []"
    and "parse_operation (o1 @ '' '' @ t) = Some (op, CHR '' '' # t)"
  shows "vc_of_string er (o1 @ '' '' @ t) = rethrow ''invalid version: ''
     (case op of
        Eq \<Rightarrow> vc_of_version v
      | Lt \<Rightarrow> vc_of_endpoints None True (Some v) True
      | Le \<Rightarrow> vc_of_endpoints None True (Some v) False
      | Gt \<Rightarrow> vc_of_endpoints (Some v) True None True
      | Ge \<Rightarrow> vc_of_endpoints (Some v) False None True)"
proof -
  have "cur (o1 @ '' '' @ t) = cur o1" using assms(8) by (cases o1) auto
  moreover have "find_first_not_of blanks (CHR '' '' # t) = t"
    using skip_blanks_text [OF assms(1,2), of "[]"] by simp
  ultimately show ?thesis
    using assms by (simp add: vc_of_string_def vc_comparison_def)
qed

lemma vc_equal_refl [simp]: "vc_equal c c"
  using bv.compare_self by (auto simp: vc_equal_def opt_version_eq_def split: option.splits)

lemma compare_eq_empty:
  assumes "endpoint_ok v" "endpoint_ok w" "bv_compare v w False False = 0"
  shows "v = empty_version \<longleftrightarrow> w = empty_version"
proof -
  have "bv_key v = bv_key w" using assms(3) by (simp add: bv_compare_key)
  moreover have "\<not> bv_wf u" if "bv_key u = bv_key empty_version" for u
    using that by (auto simp: bv_wf_def bv_key_def empty_version_def)
  ultimately show ?thesis
    using assms(1,2) by (auto simp: endpoint_ok_def plain_version_def)
qed

lemma endpoint_ok_empty: "endpoint_ok v \<Longrightarrow> bv_empty v = Inr (v = empty_version)"
  using bv_empty_upstream [OF wf_upstream, of v]
  by (auto simp: endpoint_ok_def plain_version_def bv_empty_def empty_version_def)

lemma one_sided_roundtrip:
  assumes "endpoint_ok v" "vc_of_endpoints None mno (Some v) mxo = Inr c \<or> vc_of_endpoints (Some v) mno None mxo = Inr c"
  shows "\<exists>t. vc_string er c = Inr t \<and> vc_of_string er' t = Inr c"
proof -
  obtain t where t: "vc_endpoint_string v = Inr t" "vc_endpoint t = Inr v" "t \<noteq> []"
    "set t \<inter> set (blanks @ ''])'') = {}" using endpoint_text [OF assms(1)] .
  note cmp = vc_comparison_text [OF t(3,4,2), of _ _ er']
  from assms(2) show ?thesis
  proof
    assume c: "vc_of_endpoints None mno (Some v) mxo = Inr c"
    then have "mno" "c = \<lparr>vc_min = None, vc_max = Some v, vc_min_open = mno, vc_max_open = mxo\<rparr>"
      using vc_of_endpoints_fields [OF c] by (auto simp: vc_of_endpoints_def Let_def split: if_splits)
    with c t cmp [of "''<''" Lt] cmp [of "''<=''" Le] show ?thesis
      by (cases mxo) (simp_all add: vc_string_def prefixed_def parse_operation_def rethrow_def)
  next
    assume c: "vc_of_endpoints (Some v) mno None mxo = Inr c"
    then have "mxo" "c = \<lparr>vc_min = Some v, vc_max = None, vc_min_open = mno, vc_max_open = mxo\<rparr>"
      using vc_of_endpoints_fields [OF c] by (auto simp: vc_of_endpoints_def Let_def split: if_splits)
    with c t cmp [of "''>''" Gt] cmp [of "''>=''" Ge] show ?thesis
      by (cases mno) (simp_all add: vc_string_def prefixed_def parse_operation_def rethrow_def)
  qed
qed

lemma equal_endpoints_roundtrip:
  assumes c: "vc_of_endpoints (Some v) mno (Some w) mxo = Inr c" and ok: "endpoint_ok v" "endpoint_ok w"
    and eq: "bv_compare v w False False = 0"
  shows "\<exists>t d. vc_string er c = Inr t \<and> vc_of_string er' t = Inr d \<and> vc_equal c d"
proof (cases "mno \<or> mxo")
  case True
  note f = vc_of_endpoints_fields [OF c]
  have w: "w = empty_version" "\<not> (mno \<and> mxo)"
    using c True eq endpoint_ok_empty [OF ok(2)] by (auto simp: vc_of_endpoints_def split: if_splits)
  then have v: "v = empty_version" using compare_eq_empty [OF ok eq] by simp
  have "vc_of_string er' (if mno then ''~$'' else ''^$'') = Inr c"
    using c True w v f by (auto simp: vc_of_string_def vc_shortcut_def)
  moreover have "vc_string er c = Inr (if mno then ''~$'' else ''^$'')"
    using True w eq endpoint_ok_empty [OF ok(1)] v by (auto simp: vc_string_def f)
  ultimately show ?thesis by auto
next
  case False
  note f = vc_of_endpoints_fields [OF c]
  obtain t where t: "vc_endpoint_string v = Inr t" "vc_endpoint t = Inr v" "t \<noteq> []"
    "set t \<inter> set (blanks @ ''])'') = {}" using endpoint_text [OF ok(1)] .
  have ee: "v = empty_version \<longleftrightarrow> w = empty_version" by (rule compare_eq_empty [OF ok eq])
  have rel: "bv_release v \<noteq> Some [] \<or> v = empty_version"
  proof (rule ccontr)
    assume *: "\<not> ?thesis"
    then have pv: "plain_version v" "plain_version w" using ok ee by (auto simp: endpoint_ok_def)
    have "bv_canonical_release v = []"
      using * pv earliest_canonical [of v] by (simp add: plain_version_def)
    moreover have "bv_canonical_release v = bv_canonical_release w"
      using eq by (simp add: bv_compare_key bv_key_def)
    ultimately have "bv_release w = Some []" using pv by (simp add: plain_version_def)
    with c False eq * ee endpoint_ok_empty [OF ok(2)] show False
      by (auto simp: vc_of_endpoints_def split: if_splits)
  qed
  have "vc_of_version v = Inr \<lparr>vc_min = Some v, vc_max = Some v, vc_min_open = False, vc_max_open = False\<rparr>"
    using endpoint_ok_empty [OF ok(1)] rel bv.compare_self [of v]
    by (auto simp: vc_of_version_def vc_of_endpoints_def)
  with t vc_comparison_text [OF t(3,4,2), of "''==''" Eq er']
  have "vc_of_string er' (''== '' @ t) = Inr \<lparr>vc_min = Some v, vc_max = Some v, vc_min_open = False, vc_max_open = False\<rparr>"
    by (simp add: parse_operation_def rethrow_def)
  moreover have "vc_string er c = Inr (''== '' @ t)"
    using False eq t by (simp add: vc_string_def f prefixed_def)
  moreover have "bv_compare w v False False = 0" using eq bv.eq_sym by blast
  then have "vc_equal c \<lparr>vc_min = Some v, vc_max = Some v, vc_min_open = False, vc_max_open = False\<rparr>"
    using False bv.compare_self [of v] by (simp add: vc_equal_def opt_version_eq_def f)
  ultimately show ?thesis by blast
qed

text \<open>
  Printing a valid package constraint and parsing the string gives an equal constraint (in the
  sense of its \<open>operator==\<close>): for one-sided ranges, for equality, for \<open>~$\<close> and \<open>^$\<close>, and for the
  ranges that are not a closed minimum with an open maximum, which go through standard constraints.
\<close>

lemma vc_string_roundtrip:
  assumes valid: "vc_of_endpoints (vc_min c) (vc_min_open c) (vc_max c) (vc_max_open c) = Inr c"
    and ok: "\<forall>m. vc_min c = Some m \<or> vc_max c = Some m \<longrightarrow> endpoint_ok m"
    and not_half_open: "vc_min_open c \<or> \<not> vc_max_open c \<or> vc_min c = None \<or> vc_max c = None \<or>
      vc_min c = Some empty_version \<or> vc_max c = Some empty_version"
  shows "\<exists>t d. vc_string er c = Inr t \<and> vc_of_string er' t = Inr d \<and> vc_equal c d"
proof (cases "vc_min c"; cases "vc_max c")
  fix v w assume vw: "vc_min c = Some v" "vc_max c = Some w"
  with ok have o: "endpoint_ok v" "endpoint_ok w" by auto
  show ?thesis
  proof (cases "bv_compare v w False False = 0")
    case True
    with equal_endpoints_roundtrip [OF _ o] valid vw show ?thesis by simp
  next
    case False
    obtain t where t: "vc_endpoint_string v = Inr t" "vc_endpoint t = Inr v" "t \<noteq> []"
      "set t \<inter> set (blanks @ ''])'') = {}" using endpoint_text [OF o(1)] .
    obtain u where u: "vc_endpoint_string w = Inr u" "vc_endpoint u = Inr w" "u \<noteq> []"
      "set u \<inter> set (blanks @ ''])'') = {}" using endpoint_text [OF o(2)] .
    let ?a = "if vc_min_open c then CHR ''('' else CHR ''[''" and ?b = "if vc_max_open c then CHR '')'' else CHR '']''"
    have "vc_string er c = vc_range_string c v w"
      using False vw not_half_open endpoint_ok_empty [OF o(1)] endpoint_ok_empty [OF o(2)]
      by (auto simp: vc_string_def)
    then have "vc_string er c = Inr (?a # t @ '' '' @ u @ [?b])" using t u by (simp add: vc_range_string_def)
    moreover have "vc_of_string er' (?a # t @ '' '' @ u @ [?b]) = Inr c"
      using vc_range_text [OF t(3) u(3) t(4) u(4) t(2) u(2), of ?a ?b er'] valid vw
      by (cases "vc_min_open c"; cases "vc_max_open c") simp_all
    ultimately show ?thesis using vc_equal_refl by blast
  qed
next
  fix v assume "vc_min c = Some v" "vc_max c = None"
  with one_sided_roundtrip [of v "vc_min_open c" "vc_max_open c" c er er'] ok valid show ?thesis
    by (metis vc_equal_refl)
next
  fix v assume "vc_min c = None" "vc_max c = Some v"
  with one_sided_roundtrip [of v "vc_min_open c" "vc_max_open c" c er er'] ok valid show ?thesis
    by (metis vc_equal_refl)
next
  assume "vc_min c = None" "vc_max c = None"
  with valid show ?thesis by (simp add: vc_of_endpoints_def)
qed


section \<open>Witnesses\<close>

text \<open>The package version \<open>1\<close>.\<close>

definition version_one :: version where
  "version_one = \<lparr>bv_epoch = 1, bv_upstream = ''1'', bv_release = None, bv_revision = None, bv_iteration = 0,
     bv_canonical_upstream = ''0000000000000001'', bv_canonical_release = ''~''\<rparr>"

lemma version_one_parsed: "version_of_string ''1'' True = Inr version_one"
  by (simp add: version_eval version_one_def)

lemma version_one_wf [simp]: "bv_wf version_one"
  using version_of_string_wf [OF version_one_parsed] by simp

lemma empty_eval [simp]: "bv_empty empty_version = Inr True" "bv_empty version_one = Inr False"
    "bv_release version_one = None" "version_one\<lparr>bv_revision := None, bv_iteration := 0\<rparr> = version_one"
  by (simp_all add: bv_empty_def empty_version_def version_one_def)

lemma effective_complete_witness:
  "vc_complete \<lparr>vc_min = Some version_one, vc_max = None, vc_min_open = False, vc_max_open = True\<rparr> = Inr True"
proof (rule effective_complete)
  show "effective False \<lparr>vc_min = Some empty_version, vc_max = None, vc_min_open = False, vc_max_open = True\<rparr> version_one =
      Inr \<lparr>vc_min = Some version_one, vc_max = None, vc_min_open = False, vc_max_open = True\<rparr>"
    using version_of_parts_wf [OF version_one_wf, of None 0]
    by (simp add: effective_def vc_is_shortcut_def endpoint_empty_def opt_version_eq_def vc_of_endpoints_def)
qed

lemma effective_identity_witness:
  "effective False \<lparr>vc_min = Some version_one, vc_max = None, vc_min_open = True, vc_max_open = True\<rparr> version_one =
     Inr \<lparr>vc_min = Some version_one, vc_max = None, vc_min_open = True, vc_max_open = True\<rparr>"
  by (rule effective_identity) (simp_all add: vc_of_endpoints_def vc_complete_def endpoint_empty_def)

lemma vc_string_roundtrip_witness:
  "\<exists>t d. vc_string False \<lparr>vc_min = Some version_one, vc_max = None, vc_min_open = True, vc_max_open = True\<rparr> = Inr t \<and>
     vc_of_string False t = Inr d \<and>
     vc_equal \<lparr>vc_min = Some version_one, vc_max = None, vc_min_open = True, vc_max_open = True\<rparr> d"
proof (rule vc_string_roundtrip)
  have "plain_version version_one" by (simp add: plain_version_def) (simp add: version_one_def)
  then show "\<forall>m. vc_min \<lparr>vc_min = Some version_one, vc_max = None, vc_min_open = True, vc_max_open = True\<rparr> = Some m \<or>
      vc_max \<lparr>vc_min = Some version_one, vc_max = None, vc_min_open = True, vc_max_open = True\<rparr> = Some m \<longrightarrow> endpoint_ok m"
    by (simp add: endpoint_ok_def)
qed (simp_all add: vc_of_endpoints_def)

end
