(* ===== verification/Bpkg_Satisfaction.thy ===== *)
theory Bpkg_Satisfaction
  imports Bpkg_Constraint
begin

text \<open>
  Satisfaction of package constraints (\<open>bpkg/satisfaction.cxx\<close>): of a constraint by a version, and of
  a constraint by a stricter constraint. Both functions need complete constraints, and both build
  versions from parts, which may throw.
\<close>

definition wildcard_version :: version where
  "wildcard_version = \<lparr>bv_epoch = 0, bv_upstream = ''0'', bv_release = None, bv_revision = None,
     bv_iteration = 0, bv_canonical_upstream = [], bv_canonical_release = ''~''\<rparr>"

text \<open>The precondition of both functions, \<open>!c.empty () && c.complete ()\<close>.\<close>

definition usable :: "version_constraint \<Rightarrow> bool result" where
  "usable c = (if vc_empty c then Inr False else vc_complete c)"

definition satisfies_version :: "version \<Rightarrow> version_constraint \<Rightarrow> bool result" where
  "satisfies_version v c =
     (case usable c of
        Inl x \<Rightarrow> Inl x
      | Inr False \<Rightarrow> Inl Assertion_failure
      | Inr True \<Rightarrow>
          if bv_compare v wildcard_version False False = 0 then Inr True
          else case version_of_parts (bv_epoch v) (bv_upstream v) (bv_release v)
                      (Some (effective_revision v)) (bv_iteration v) of
            Inl x \<Rightarrow> Inl x
          | Inr ev \<Rightarrow>
              let s = (case vc_min c of
                         None \<Rightarrow> True
                       | Some m \<Rightarrow> let i = bv_compare ev m (bv_revision m = None) False
                                   in if vc_min_open c then i > 0 else i \<ge> 0)
              in Inr (if s
                      then (case vc_max c of
                              None \<Rightarrow> True
                            | Some m \<Rightarrow> let i = bv_compare ev m (bv_revision m = None) False
                                        in if vc_max_open c then i < 0 else i \<le> 0)
                      else False))"

text \<open>The endpoint with the revision that an absent one stands for on its side of the range.\<close>

definition norm_endpoint :: "version \<Rightarrow> bool \<Rightarrow> bool \<Rightarrow> version result" where
  "norm_endpoint v is_min is_open =
     (if bv_revision v \<noteq> None \<or> bv_release v = Some [] then Inr v
      else version_of_parts (bv_epoch v) (bv_upstream v) (bv_release v)
             (Some (if (is_min \<and> \<not> is_open) \<or> (\<not> is_min \<and> is_open) then 0 else uint16_max)) (bv_iteration v))"

definition satisfies_min :: "version_constraint \<Rightarrow> version_constraint \<Rightarrow> bool result" where
  "satisfies_min l r =
     (case vc_min l of
        None \<Rightarrow> Inr (vc_min r = None)
      | Some lm \<Rightarrow>
          (case vc_min r of
             None \<Rightarrow> Inr True
           | Some rm \<Rightarrow>
               (case norm_endpoint lm True (vc_min_open l) of
                  Inl x \<Rightarrow> Inl x
                | Inr lv \<Rightarrow>
                    (case norm_endpoint rm True (vc_min_open r) of
                       Inl x \<Rightarrow> Inl x
                     | Inr rv \<Rightarrow>
                         let i = bv_compare lv rv False False in
                         Inr (if vc_min_open l then i \<ge> 0 else if vc_min_open r then i > 0 else i \<ge> 0)))))"

definition satisfies_max :: "version_constraint \<Rightarrow> version_constraint \<Rightarrow> bool result" where
  "satisfies_max l r =
     (case vc_max l of
        None \<Rightarrow> Inr (vc_max r = None)
      | Some lm \<Rightarrow>
          (case vc_max r of
             None \<Rightarrow> Inr True
           | Some rm \<Rightarrow>
               (case norm_endpoint lm False (vc_max_open l) of
                  Inl x \<Rightarrow> Inl x
                | Inr lv \<Rightarrow>
                    (case norm_endpoint rm False (vc_max_open r) of
                       Inl x \<Rightarrow> Inl x
                     | Inr rv \<Rightarrow>
                         let i = bv_compare lv rv False False in
                         Inr (if vc_max_open l then i \<le> 0 else if vc_max_open r then i < 0 else i \<le> 0)))))"

definition satisfies_constraint :: "version_constraint \<Rightarrow> version_constraint \<Rightarrow> bool result" where
  "satisfies_constraint l r =
     (case usable l of
        Inl x \<Rightarrow> Inl x
      | Inr False \<Rightarrow> Inl Assertion_failure
      | Inr True \<Rightarrow>
          (case usable r of
             Inl x \<Rightarrow> Inl x
           | Inr False \<Rightarrow> Inl Assertion_failure
           | Inr True \<Rightarrow>
               (case satisfies_min l r of
                  Inl x \<Rightarrow> Inl x
                | Inr False \<Rightarrow> Inr False
                | Inr True \<Rightarrow> satisfies_max l r)))"

text \<open>The overloads on optional constraints; an absent one admits every version.\<close>

definition satisfies_version_opt :: "version \<Rightarrow> version_constraint option \<Rightarrow> bool result" where
  "satisfies_version_opt v c = (case c of None \<Rightarrow> Inr True | Some c' \<Rightarrow> satisfies_version v c')"

definition satisfies_constraint_opt ::
  "version_constraint option \<Rightarrow> version_constraint option \<Rightarrow> bool result" where
  "satisfies_constraint_opt l r =
     (case l of
        None \<Rightarrow> Inr (r = None)
      | Some l' \<Rightarrow> (case r of None \<Rightarrow> Inr True | Some r' \<Rightarrow> satisfies_constraint l' r'))"

section \<open>Satisfaction as membership in a range\<close>

definition plain_constraint :: "version_constraint \<Rightarrow> bool" where
  "plain_constraint c \<longleftrightarrow> (\<forall>m. vc_min c = Some m \<or> vc_max c = Some m \<longrightarrow> plain_version m)"

definition with_revision :: "version \<Rightarrow> version" where
  "with_revision v = v\<lparr>bv_revision := Some (effective_revision v), bv_iteration := 0\<rparr>"

definition normalized :: "bool \<Rightarrow> bool \<Rightarrow> version \<Rightarrow> version" where
  "normalized is_min is_open v =
     (if bv_revision v \<noteq> None \<or> bv_release v = Some [] then v
      else v\<lparr>bv_revision := Some (if (is_min \<and> \<not> is_open) \<or> (\<not> is_min \<and> is_open) then 0 else uint16_max)\<rparr>)"

lemma norm_endpoint_plain:
  assumes "plain_version v"
  shows "norm_endpoint v is_min is_open = Inr (normalized is_min is_open v)"
  using assms version_of_parts_wf [of v] by (auto simp: norm_endpoint_def normalized_def plain_version_def)

definition bv_base :: "version \<Rightarrow> nat \<times> string \<times> string" where
  "bv_base v = (bv_epoch v, bv_canonical_upstream v, bv_canonical_release v)"

lemma bv_compare_base: "bv_compare x y True j = cmp (bv_base x) (bv_base y)"
  unfolding bv_base_def by (rule bv_compare_key_no_revision)

lemma cmp_pair: "cmp (a, b) (c, d) = (if a \<noteq> c then cmp a c else cmp b d)"
  for a c :: "'a::linorder" and b d :: "'b::linorder"
  by (auto simp: cmp_def less_prod_def)

lemma bv_compare_lex:
  "bv_compare x y False False =
     cmp (bv_base x, revision_rank (bv_revision x), bv_iteration x) (bv_base y, revision_rank (bv_revision y), bv_iteration y)"
  unfolding bv_compare_key bv_key_def bv_base_def cmp_pair by simp

text \<open>
  Comparing with an endpoint while ignoring an absent revision is comparing with the normalized one.
\<close>

lemma compare_normalized:
  assumes m: "plain_version m" and v: "plain_version v" "bv_release v \<noteq> Some []"
  shows "(if mo then bv_compare (with_revision v) m (bv_revision m = None) False > 0
          else bv_compare (with_revision v) m (bv_revision m = None) False \<ge> 0) \<longleftrightarrow>
         (if mo then bv_compare (with_revision v) (normalized True mo m) False False > 0
          else bv_compare (with_revision v) (normalized True mo m) False False \<ge> 0)" (is ?min)
    and "(if mo then bv_compare (with_revision v) m (bv_revision m = None) False < 0
          else bv_compare (with_revision v) m (bv_revision m = None) False \<le> 0) \<longleftrightarrow>
         (if mo then bv_compare (with_revision v) (normalized False mo m) False False < 0
          else bv_compare (with_revision v) (normalized False mo m) False False \<le> 0)" (is ?max)
proof -
  let ?e = "with_revision v"
  have e: "bv_revision ?e = Some (effective_revision v)" "bv_iteration ?e = 0" "bv_base ?e = bv_base v"
    "effective_revision v \<le> uint16_max" "bv_canonical_release v \<noteq> []"
    using v by (auto simp: with_revision_def bv_base_def effective_revision_def plain_version_def bv_wf_def split: option.splits)
  have it: "bv_iteration m = 0" using m by (simp add: plain_version_def)
  consider (rev) "bv_revision m \<noteq> None" | (early) "bv_release m = Some []"
    | (norm) "bv_revision m = None" "bv_release m \<noteq> Some []" by blast
  then have "?min \<and> ?max"
  proof cases
    case rev
    then show ?thesis by (auto simp: normalized_def)
  next
    case early
    then have m0: "bv_canonical_release m = []" "bv_revision m = None"
      using m earliest_canonical [of m] by (simp_all add: plain_version_def)
    have n: "normalized b mo m = m" for b using early by (simp add: normalized_def)
    from e m0 have "bv_base ?e \<noteq> bv_base m" by (auto simp: bv_base_def)
    then have "bv_compare ?e m True False = bv_compare ?e m False False"
      unfolding bv_compare_base bv_compare_lex cmp_pair by simp
    then show ?thesis unfolding n m0(2) by simp
  next
    case norm
    have b: "bv_base (normalized b mo m) = bv_base m" "bv_iteration (normalized b mo m) = 0"
      "revision_rank (bv_revision (normalized b mo m)) = Suc (if (b \<and> \<not> mo) \<or> (\<not> b \<and> mo) then 0 else uint16_max)" for b
      using norm it by (simp_all add: normalized_def bv_base_def revision_rank_def)
    have r: "revision_rank (bv_revision ?e) = Suc (effective_revision v)" by (simp add: e revision_rank_def)
    show ?thesis
      unfolding bv_compare_lex b r e(2,3) using norm(1) e(4)
      by (cases "bv_base v = bv_base m") (auto simp: bv_compare_base e(3) cmp_pair)
  qed
  then show ?min ?max by blast+
qed


lemma plain_constraint_endpoints:
  assumes "plain_constraint c"
  shows "vc_min c = Some m \<Longrightarrow> plain_version m" "vc_max c = Some m \<Longrightarrow> plain_version m"
  using assms by (auto simp: plain_constraint_def)

lemma satisfies_version_within:
  assumes v: "plain_version v" "bv_release v \<noteq> Some []" "bv_compare v wildcard_version False False \<noteq> 0"
    and c: "plain_constraint c" "usable c = Inr True"
  shows "satisfies_version v c =
    Inr (bv.within (map_option (normalized True (vc_min_open c)) (vc_min c)) (vc_min_open c)
           (map_option (normalized False (vc_max_open c)) (vc_max c)) (vc_max_open c) (with_revision v))"
proof -
  have "version_of_parts (bv_epoch v) (bv_upstream v) (bv_release v) (Some (effective_revision v)) (bv_iteration v) =
      Inr (with_revision v)"
    using v version_of_parts_wf [of v] by (simp add: plain_version_def with_revision_def)
  then have e: "satisfies_version v c = Inr
      ((case vc_min c of None \<Rightarrow> True
        | Some m \<Rightarrow> if vc_min_open c then bv_compare (with_revision v) m (bv_revision m = None) False > 0
                    else bv_compare (with_revision v) m (bv_revision m = None) False \<ge> 0) \<and>
       (case vc_max c of None \<Rightarrow> True
        | Some m \<Rightarrow> if vc_max_open c then bv_compare (with_revision v) m (bv_revision m = None) False < 0
                    else bv_compare (with_revision v) m (bv_revision m = None) False \<le> 0))"
    using v(3) c(2) unfolding satisfies_version_def Let_def by (auto split: option.splits)
  show ?thesis
    unfolding e bv.within_def
    using compare_normalized(1) [OF plain_constraint_endpoints(1) [OF c(1)] v(1,2)]
      compare_normalized(2) [OF plain_constraint_endpoints(2) [OF c(1)] v(1,2)]
    by (cases "vc_min c"; cases "vc_max c") auto
qed

text \<open>
  C1: the test of a constraint against another one is sound for well-formed versions and endpoints that have no
  iteration and no release part of zeros only: when it says that \<open>l\<close> is stricter than or equal to \<open>r\<close>, every such
  version that satisfies \<open>l\<close> satisfies \<open>r\<close>. The revisions that absent ones stand for, the openness of the
  endpoints, absent endpoints and the wildcard version are all accounted for. With a release part of zeros,
  such as in \<open>1-0\<close>, it is false: see \<open>satisfies_zero_release\<close>.
\<close>

theorem satisfies_constraint_sound:
  assumes lr: "satisfies_constraint l r = Inr True" and vl: "satisfies_version v l = Inr True"
    and p: "plain_constraint l" "plain_constraint r" "plain_version v"
  shows "satisfies_version v r = Inr True"
proof (cases "bv_compare v wildcard_version False False = 0")
  case True
  with lr show ?thesis
    by (auto simp: satisfies_constraint_def satisfies_version_def split: sum.splits bool.splits)
next
  case False
  from lr have u: "usable l = Inr True" "usable r = Inr True"
    and mn: "satisfies_min l r = Inr True" and mx: "satisfies_max l r = Inr True"
    by (auto simp: satisfies_constraint_def split: sum.splits bool.splits)
  have ne: "bv_release v \<noteq> Some []"
    using vl False u(1) p(3) version_of_parts_wf [of v] by (auto simp: satisfies_version_def plain_version_def)
  note w = satisfies_version_within [OF p(3) ne False]
  note e = plain_constraint_endpoints [OF p(1)] plain_constraint_endpoints [OF p(2)]
  have "bv.within (map_option (normalized True (vc_min_open l)) (vc_min l)) (vc_min_open l)
      (map_option (normalized False (vc_max_open l)) (vc_max l)) (vc_max_open l) (with_revision v)"
    using w [OF p(1) u(1)] vl by simp
  then have "bv.within (map_option (normalized True (vc_min_open r)) (vc_min r)) (vc_min_open r)
      (map_option (normalized False (vc_max_open r)) (vc_max r)) (vc_max_open r) (with_revision v)"
  proof (rule bv.within_subset)
    show "map_option (normalized True (vc_min_open r)) (vc_min r) = None \<or> (\<exists>m m'.
        map_option (normalized True (vc_min_open l)) (vc_min l) = Some m \<and>
        map_option (normalized True (vc_min_open r)) (vc_min r) = Some m' \<and>
        (if \<not> vc_min_open l \<and> vc_min_open r then 0 < bv_compare m m' False False else 0 \<le> bv_compare m m' False False))"
      using mn e by (auto simp: satisfies_min_def norm_endpoint_plain Let_def split: option.splits if_splits)
    show "map_option (normalized False (vc_max_open r)) (vc_max r) = None \<or> (\<exists>m m'.
        map_option (normalized False (vc_max_open l)) (vc_max l) = Some m \<and>
        map_option (normalized False (vc_max_open r)) (vc_max r) = Some m' \<and>
        (if \<not> vc_max_open l \<and> vc_max_open r then bv_compare m m' False False < 0 else bv_compare m m' False False \<le> 0))"
      using mx e by (auto simp: satisfies_max_def norm_endpoint_plain Let_def split: option.splits if_splits)
  qed
  with w [OF p(2) u(2)] show ?thesis by simp
qed

lemma plain_of_string:
  assumes "version_of_string s fz = Inr v" "bv_canonical_release v = [] \<longrightarrow> bv_release v = Some []"
  shows "plain_version v"
  using version_of_string_wf [OF assms(1)] assms(2) by (simp add: plain_version_def)

lemmas satisfies_eval = satisfies_constraint_def satisfies_version_def usable_def vc_empty_def vc_complete_def
  endpoint_empty_def bv_empty_def satisfies_min_def satisfies_max_def norm_endpoint_def version_of_parts_def
  bv_compare_def wildcard_version_def effective_revision_def opt_less_def cmp_def

theorem satisfies_constraint_sound_witness:
  "satisfies_version \<lparr>bv_epoch = 1, bv_upstream = ''1'', bv_release = None, bv_revision = Some 3, bv_iteration = 0,
      bv_canonical_upstream = ''0000000000000001'', bv_canonical_release = ''~''\<rparr>
     \<lparr>vc_min = None, vc_max = Some \<lparr>bv_epoch = 1, bv_upstream = ''1'', bv_release = None, bv_revision = None,
        bv_iteration = 0, bv_canonical_upstream = ''0000000000000001'', bv_canonical_release = ''~''\<rparr>,
      vc_min_open = True, vc_max_open = False\<rparr> = Inr True"
proof -
  let ?v = "\<lparr>bv_epoch = 1, bv_upstream = ''1'', bv_release = None, bv_revision = Some 3, bv_iteration = 0,
      bv_canonical_upstream = ''0000000000000001'', bv_canonical_release = ''~''\<rparr>"
  let ?w = "\<lparr>bv_epoch = 1, bv_upstream = ''1'', bv_release = None, bv_revision = None, bv_iteration = 0,
      bv_canonical_upstream = ''0000000000000001'', bv_canonical_release = ''~''\<rparr>"
  let ?l = "\<lparr>vc_min = None, vc_max = Some ?v, vc_min_open = True, vc_max_open = False\<rparr>"
  let ?r = "\<lparr>vc_min = None, vc_max = Some ?w, vc_min_open = True, vc_max_open = False\<rparr>"
  have v: "version_of_string ''1+3'' True = Inr ?v" and w: "version_of_string ''1'' True = Inr ?w"
    by (simp_all add: version_eval)
  have pv: "plain_version ?v" and pw: "plain_version ?w"
    by (rule plain_of_string [OF v], simp, rule plain_of_string [OF w], simp)
  note parts = version_of_parts_wf [of ?v] version_of_parts_wf [of ?w]
  have wf: "bv_wf ?v" "bv_wf ?w" using pv pw by (simp_all add: plain_version_def)
  show ?thesis
  proof (rule satisfies_constraint_sound [of ?l ?r ?v])
    show "satisfies_constraint ?l ?r = Inr True"
      using norm_endpoint_plain [OF pv, of False False] norm_endpoint_plain [OF pw, of False False]
      by (simp add: satisfies_constraint_def usable_def vc_empty_def vc_complete_def endpoint_empty_def bv_empty_def
          satisfies_min_def satisfies_max_def normalized_def bv_compare_def opt_less_def)
    show "satisfies_version ?v ?l = Inr True"
      using parts(1) [OF wf(1)]
      by (simp add: satisfies_version_def usable_def vc_empty_def vc_complete_def endpoint_empty_def bv_empty_def
          effective_revision_def bv_compare_def wildcard_version_def cmp_def)
  qed (use pv pw in \<open>auto simp: plain_constraint_def\<close>)
qed

text \<open>
  The test is not sound for release parts of zeros: \<open>1-0\<close> compares equal to \<open>1-\<close>, whose absent
  revision is left absent. The test says that \<open><= 1-\<close> is stricter than \<open><= 1-0+2\<close>, yet \<open>1-0+5\<close>
  satisfies the first and not the second.
\<close>

lemma satisfies_zero_release:
  "\<exists>a b c l r. version_of_string ''1-'' False = Inr a \<and> version_of_string ''1-0+2'' False = Inr b \<and>
     version_of_string ''1-0+5'' False = Inr c \<and>
     vc_of_endpoints None True (Some a) False = Inr l \<and> vc_of_endpoints None True (Some b) False = Inr r \<and>
     satisfies_constraint l r = Inr True \<and> satisfies_version c l = Inr True \<and> satisfies_version c r = Inr False"
  by (simp add: version_eval vc_of_endpoints_def satisfies_eval)

end
