(* ===== verification/Build_Class.thy ===== *)
theory Build_Class
  imports Butl_Prelude
begin

text \<open>
  Build class expressions of \<open>libbpkg\<close> (\<open>build_class_term\<close> and \<open>build_class_expr\<close> of
  \<open>manifest.cxx\<close>): parsing of nested expressions word by word, printing, and matching of a build
  configuration against an expression through the class inheritance map. The map is not checked for
  cycles by the code, so walking it is a partial function.
\<close>

section \<open>Words\<close>

text \<open>
  \<open>next_word (s, b, e)\<close> from the current position: the word (empty when there is none) and the rest of
  the string. The delimiters are the space and NUL.
\<close>

definition word_delim :: "char \<Rightarrow> bool" where
  "word_delim c \<longleftrightarrow> c = CHR '' '' \<or> c = NUL"

definition next_word :: "string \<Rightarrow> string \<times> string" where
  "next_word s =
     (case dropWhile word_delim s of
        [] \<Rightarrow> ([], [])
      | c # t \<Rightarrow> (c # takeWhile (\<lambda>d. \<not> word_delim d) t, dropWhile (\<lambda>d. \<not> word_delim d) t))"

section \<open>Terms\<close>

datatype build_class_term =
    Simple_term char bool string                    \<comment> \<open>operation, inverted, name\<close>
  | Compound_term char bool "build_class_term list" \<comment> \<open>operation, inverted, expression\<close>

definition quoted :: "string \<Rightarrow> string" where
  "quoted s = [CHR 0x27] @ s @ [CHR 0x27]"

definition validate_name :: "string \<Rightarrow> bool result" where
  "validate_name s =
     (if s = [] then Inl (Invalid_argument ''empty class name'')
      else if \<not> (alnum (hd s) \<or> hd s = CHR ''_'')
      then Inl (Invalid_argument (''class name '' @ quoted s @ '' starts with '' @ quoted [hd s]))
      else case find (\<lambda>c. \<not> (alnum c \<or> c = CHR ''+'' \<or> c = CHR ''-'' \<or> c = CHR ''_'' \<or> c = CHR ''.'')) (tl s) of
        Some c \<Rightarrow> Inl (Invalid_argument (''class name '' @ quoted s @ '' contains '' @ quoted [c]))
      | None \<Rightarrow> Inr (hd s = CHR ''_''))"

section \<open>Parsing\<close>

text \<open>
  The head of a term: operation, inversion and the rest of the word, \<open>first\<close> telling that no term
  precedes it. Only the root expression may start with \<open>-\<close> or \<open>&\<close>.
\<close>

definition term_head :: "bool \<Rightarrow> bool \<Rightarrow> string \<Rightarrow> (char \<times> bool \<times> string) result" where
  "term_head root first t =
     (let op = hd t in
      if op \<noteq> CHR ''+'' \<and> op \<noteq> CHR ''-'' \<and> op \<noteq> CHR ''&''
      then Inl (Invalid_argument (''class term '' @ quoted t @ '' must start with '' @ quoted ''+'' @
             '', '' @ quoted ''-'' @ '', or '' @ quoted ''&''))
      else if op \<noteq> CHR ''+'' \<and> first \<and> \<not> root
      then Inl (Invalid_argument (''class term '' @ quoted t @ '' must start with '' @ quoted ''+''))
      else
        let inv = (cur (tl t) = CHR ''!'')
        in Inr (op, inv, drop (if inv then 2 else 1) t))"

text \<open>
  The loop of \<open>parse_build_class_expr ()\<close>, with the terms parsed so far and the rest of the string. A
  nested expression is parsed by the recursive call and gives the rest after its parenthesis.
\<close>

function parse_terms ::
  "bool \<Rightarrow> build_class_term list \<Rightarrow> string \<Rightarrow> (build_class_term list \<times> string) result" where
  "parse_terms root r s =
     (case next_word s of (t, s1) \<Rightarrow>
        if t = []
        then (if root then Inr (r, [])
              else Inl (Invalid_argument (''nested class expression must be closed with '' @ quoted '')'')))
        else if t = '')''
        then (if root then Inl (Invalid_argument (''class term expected instead of '' @ quoted '')''))
              else if r = [] then Inl (Invalid_argument ''empty nested class expression'')
              else Inr (r, s1))
        else (case term_head root (r = []) t of
          Inl x \<Rightarrow> Inl x
        | Inr (op, iv, nm) \<Rightarrow>
            if nm = ''(''
            then (case parse_terms False [] s1 of
                    Inl x \<Rightarrow> Inl x
                  | Inr (es, s2) \<Rightarrow> parse_terms root (r @ [Compound_term op iv es]) s2)
            else (case validate_name nm of
                    Inl x \<Rightarrow> Inl x
                  | Inr _ \<Rightarrow> parse_terms root (r @ [Simple_term op iv nm]) s1)))"
  by pat_completeness auto

lemma next_word_shorter: "next_word s = (t, s1) \<Longrightarrow> t \<noteq> [] \<Longrightarrow> length s1 < length s"
proof -
  assume *: "next_word s = (t, s1)" "t \<noteq> []"
  then obtain c u where u: "dropWhile word_delim s = c # u" "s1 = dropWhile (\<lambda>d. \<not> word_delim d) u"
    by (auto simp: next_word_def split: list.splits)
  have "length s1 \<le> length u" using u(2) by (simp add: length_dropWhile_le)
  also have "length u < length s" using u(1) length_dropWhile_le [of word_delim s] by simp
  finally show ?thesis .
qed

lemma parse_terms_rest:
  assumes "parse_terms_dom (root, r, s)" "parse_terms root r s = Inr (es, s')"
  shows "length s' \<le> length s"
  using assms
proof (induction root r s arbitrary: es s' rule: parse_terms.pinduct)
  case (1 root r s)
  obtain t s1 where n: "next_word s = (t, s1)" by (cases "next_word s")
  have sh: "t \<noteq> [] \<Longrightarrow> length s1 < length s" using n by (rule next_word_shorter)
  have compound: "length s' \<le> length s"
    if t: "t \<noteq> []" "t \<noteq> '')''" "term_head root (r = []) t = Inr (op, iv, ''('')"
      "parse_terms False [] s1 = Inr (es2, s2)"
      "parse_terms root (r @ [Compound_term op iv es2]) s2 = Inr (es, s')" for op iv es2 s2
    using 1(2) [OF n [symmetric] t(1-3) refl refl refl t(4)]
      1(3) [OF n [symmetric] t(1-3) refl refl refl t(4) refl t(5)] sh [OF t(1)] by linarith
  have simple: "length s' \<le> length s"
    if t: "t \<noteq> []" "t \<noteq> '')''" "term_head root (r = []) t = Inr (op, iv, nm)" "nm \<noteq> ''(''"
      "validate_name nm = Inr b" "parse_terms root (r @ [Simple_term op iv nm]) s1 = Inr (es, s')" for op iv nm b
    using 1(4) [OF n [symmetric] t(1-3) refl refl t(4-6)] sh [OF t(1)] by linarith
  from 1(5) n sh show ?case
    by (auto simp: parse_terms.psimps [OF 1(1)] split: if_splits sum.splits prod.splits
        intro: compound simple)
qed

termination parse_terms
proof (relation "measure (\<lambda>(root, r, s). length s)", goal_cases)
  case (3 root r s t s1 h op y iv nm p es2 s2)
  have "length s2 \<le> length s1"
    using 3 parse_terms_rest by blast
  moreover have "length s1 < length s" using 3 next_word_shorter by metis
  ultimately show ?case by simp
qed (auto dest: next_word_shorter [OF sym])

definition parse_build_class_expr :: "string \<Rightarrow> build_class_term list result" where
  "parse_build_class_expr s = (case parse_terms True [] s of Inl x \<Rightarrow> Inl x | Inr (es, _) \<Rightarrow> Inr es)"

declare parse_terms.simps [simp del]

record build_class_expr =
  bce_comment :: string
  underlying_classes :: "string list"
  bce_expr :: "build_class_term list"

text \<open>
  The loop over the underlying classes: the classes and the rest of the string at which the expression
  starts.
\<close>

function parse_underlying :: "string list \<Rightarrow> string \<Rightarrow> (string list \<times> string) result" where
  "parse_underlying cs s =
     (case next_word s of (nm, s1) \<Rightarrow>
        if nm = [] then Inr (cs, [])
        else if hd nm = CHR ''+'' \<or> hd nm = CHR ''-'' \<or> hd nm = CHR ''&''
        then (if cs \<noteq> [] then Inl (Invalid_argument (''class expression separator '' @ quoted '':'' @ '' expected''))
              else Inr (cs, dropWhile word_delim s))
        else if nm = '':''
        then (if cs = [] then Inl (Invalid_argument ''underlying class set expected'') else Inr (cs, s1))
        else (case validate_name nm of Inl x \<Rightarrow> Inl x | Inr _ \<Rightarrow> parse_underlying (cs @ [nm]) s1))"
  by pat_completeness auto
termination
  by (relation "measure (\<lambda>(cs, s). length s)") (auto dest: next_word_shorter [OF sym])

declare parse_underlying.simps [simp del]

definition build_class_expr_of_string :: "string \<Rightarrow> string \<Rightarrow> build_class_expr result" where
  "build_class_expr_of_string s c =
     (case parse_underlying [] s of
        Inl x \<Rightarrow> Inl x
      | Inr (cs, e) \<Rightarrow>
          (case parse_build_class_expr e of
             Inl x \<Rightarrow> Inl x
           | Inr es \<Rightarrow>
               if es = [] \<and> cs = [] then Inl (Invalid_argument ''empty class expression'')
               else Inr \<lparr>bce_comment = c, underlying_classes = cs, bce_expr = es\<rparr>))"

definition build_class_expr_of_classes :: "string list \<Rightarrow> char \<Rightarrow> string \<Rightarrow> build_class_expr" where
  "build_class_expr_of_classes cs op c =
     (let r = map (Simple_term (if op = CHR ''-'' then CHR ''-'' else CHR ''+'') False) cs
      in \<lparr>bce_comment = c, underlying_classes = [],
          bce_expr = (if op = CHR ''&'' \<and> r \<noteq> [] then [Compound_term (CHR ''&'') False r] else r)\<rparr>)"

section \<open>Printing\<close>

definition append_word :: "string \<Rightarrow> string \<Rightarrow> string" where
  "append_word r w = (if r \<noteq> [] then r @ '' '' else r) @ w"

fun term_string :: "build_class_term \<Rightarrow> string"
  and append_terms :: "string \<Rightarrow> build_class_term list \<Rightarrow> string" where
  "term_string (Simple_term op iv nm) = op # (if iv then ''!'' else []) @ nm"
| "term_string (Compound_term op iv es) = op # (if iv then ''!'' else []) @ ''( '' @ append_terms [] es @ '' )''"
| "append_terms r [] = r"
| "append_terms r (t # ts) = append_terms (append_word r (term_string t)) ts"

definition build_class_expr_string :: "build_class_expr \<Rightarrow> string" where
  "build_class_expr_string e =
     (let r = foldl append_word [] (underlying_classes e)
      in if bce_expr e \<noteq> []
         then (if r \<noteq> [] then r @ '' : '' @ append_terms [] (bce_expr e) else append_terms [] (bce_expr e))
         else r)"

section \<open>Matching\<close>

text \<open>
  The loop through the base classes of \<open>c\<close>: \<open>None\<close> when it does not end, which a cycle of the map can
  cause.
\<close>

partial_function (option) base_match :: "(string \<rightharpoonup> string) \<Rightarrow> string \<Rightarrow> string \<Rightarrow> bool option" where
  "base_match im nm c =
     (case im c of
        None \<Rightarrow> Some False
      | Some base \<Rightarrow> if base = nm then Some True else base_match im nm base)"

fun class_match :: "(string \<rightharpoonup> string) \<Rightarrow> string \<Rightarrow> string list \<Rightarrow> bool option" where
  "class_match im nm [] = Some False"
| "class_match im nm (c # cs) =
     (if c = nm then Some True
      else case base_match im nm c of
             None \<Rightarrow> None
           | Some m \<Rightarrow> if m then Some True else class_match im nm cs)"

text \<open>
  \<open>match_classes ()\<close> with the result so far. An operation other than the three is the failing
  assertion of the \<open>switch\<close>.
\<close>

fun match_term :: "string list \<Rightarrow> (string \<rightharpoonup> string) \<Rightarrow> build_class_term \<Rightarrow> bool result option"
  and match_classes ::
    "string list \<Rightarrow> (string \<rightharpoonup> string) \<Rightarrow> build_class_term list \<Rightarrow> bool \<Rightarrow> bool result option" where
  "match_term cs im (Simple_term op iv nm) = map_option Inr (class_match im nm cs)"
| "match_term cs im (Compound_term op iv es) = match_classes cs im es False"
| "match_classes cs im [] r = Some (Inr r)"
| "match_classes cs im (t # ts) r =
     (let op = (case t of Simple_term op iv nm \<Rightarrow> op | Compound_term op iv es \<Rightarrow> op);
          inverted = (case t of Simple_term op iv nm \<Rightarrow> iv | Compound_term op iv es \<Rightarrow> iv)
      in if (op = CHR ''+'') = r then match_classes cs im ts r
         else case match_term cs im t of
                None \<Rightarrow> None
              | Some (Inl x) \<Rightarrow> Some (Inl x)
              | Some (Inr m0) \<Rightarrow>
                  let m = (if inverted then \<not> m0 else m0) in
                  if op = CHR ''+'' then match_classes cs im ts (if m then True else r)
                  else if op = CHR ''-'' then match_classes cs im ts (if m then False else r)
                  else if op = CHR ''&'' then match_classes cs im ts (r \<and> m)
                  else Some (Inl Assertion_failure))"

definition build_class_match_update ::
  "build_class_expr \<Rightarrow> string list \<Rightarrow> (string \<rightharpoonup> string) \<Rightarrow> bool \<Rightarrow> bool result option" where
  "build_class_match_update e cs im r = match_classes cs im (bce_expr e) r"

definition build_class_match :: "build_class_expr \<Rightarrow> string list \<Rightarrow> (string \<rightharpoonup> string) \<Rightarrow> bool result option" where
  "build_class_match e cs im = build_class_match_update e cs im False"

end
