(* ===== verification/Build_Class_Properties.thy ===== *)
theory Build_Class_Properties
  imports Build_Class
begin

text \<open>
  Properties of build class expressions: what the parser accepts is well formed, printing a well-formed
  expression and parsing it back gives the expression, and matching computes the set semantics of the
  expression over the classes and their bases whenever the inheritance map has no cycle.
\<close>

section \<open>Well-formed expressions\<close>

definition name_ok :: "string \<Rightarrow> bool" where
  "name_ok nm \<longleftrightarrow> nm \<noteq> [] \<and> (alnum (hd nm) \<or> hd nm = CHR ''_'') \<and>
     list_all (\<lambda>c. alnum c \<or> c = CHR ''+'' \<or> c = CHR ''-'' \<or> c = CHR ''_'' \<or> c = CHR ''.'') (tl nm)"

definition op_ok :: "char \<Rightarrow> bool" where
  "op_ok c \<longleftrightarrow> c = CHR ''+'' \<or> c = CHR ''-'' \<or> c = CHR ''&''"

fun term_op :: "build_class_term \<Rightarrow> char" where
  "term_op (Simple_term op iv nm) = op"
| "term_op (Compound_term op iv es) = op"

fun term_ok :: "build_class_term \<Rightarrow> bool" where
  "term_ok (Simple_term op iv nm) \<longleftrightarrow> op_ok op \<and> name_ok nm"
| "term_ok (Compound_term op iv es) \<longleftrightarrow> op_ok op \<and> es \<noteq> [] \<and> term_op (hd es) = CHR ''+'' \<and> list_all term_ok es"

definition bce_ok :: "build_class_expr \<Rightarrow> bool" where
  "bce_ok e \<longleftrightarrow> list_all name_ok (underlying_classes e) \<and> list_all term_ok (bce_expr e) \<and>
     (underlying_classes e \<noteq> [] \<or> bce_expr e \<noteq> [])"

lemma validate_name_ok: "(\<exists>b. validate_name nm = Inr b) \<longleftrightarrow> name_ok nm"
proof (cases "find (\<lambda>c. \<not> (alnum c \<or> c = CHR ''+'' \<or> c = CHR ''-'' \<or> c = CHR ''_'' \<or> c = CHR ''.'')) (tl nm)")
  case None
  note n = None [unfolded find_None_iff]
  show ?thesis
    using None n by (auto simp: validate_name_def name_ok_def list_all_iff)
next
  case (Some c)
  then have "c \<in> set (tl nm) \<and> \<not> (alnum c \<or> c = CHR ''+'' \<or> c = CHR ''-'' \<or> c = CHR ''_'' \<or> c = CHR ''.'')"
    unfolding find_Some_iff by auto
  with Some show ?thesis
    by (auto simp: validate_name_def name_ok_def list_all_iff)
qed

lemma validate_nameD: "validate_name nm = Inr b \<Longrightarrow> name_ok nm"
  using validate_name_ok by blast

lemma term_headD:
  assumes "term_head root first t = Inr (op, iv, nm)"
  shows "op_ok op" and "first \<Longrightarrow> \<not> root \<Longrightarrow> op = CHR ''+''"
  using assms by (auto simp: term_head_def Let_def op_ok_def split: if_splits)

text \<open>What the loop keeps: well-formed terms, and a nested expression that starts with \<open>+\<close>.\<close>

definition terms_inv :: "bool \<Rightarrow> build_class_term list \<Rightarrow> bool" where
  "terms_inv root r \<longleftrightarrow> list_all term_ok r \<and> (root \<or> r = [] \<or> term_op (hd r) = CHR ''+'')"

lemma parse_terms_inv:
  assumes "parse_terms root r s = Inr (es, s')" "terms_inv root r"
  shows "terms_inv root es \<and> (root \<or> es \<noteq> [])"
  using assms
proof (induction root r s arbitrary: es s' rule: parse_terms.induct)
  case (1 root r s)
  obtain t s1 where n: "next_word s = (t, s1)" by (cases "next_word s")
  have step: "terms_inv root (r @ [x])" if "term_head root (r = []) t = Inr (term_op x, iv, nm)" "term_ok x" for x iv nm
    using that term_headD [OF that(1)] 1(5) by (cases r) (auto simp: terms_inv_def)
  show ?case
  proof (cases "t = [] \<or> t = '')''")
    case True
    with 1(4,5) n show ?thesis by (auto simp: parse_terms.simps [of root r s] split: if_splits)
  next
    case False
    with 1(4) n obtain op iv nm where h: "term_head root (r = []) t = Inr (op, iv, nm)"
      by (auto simp: parse_terms.simps [of root r s] split: sum.splits)
    note op = term_headD(1) [OF h]
    show ?thesis
    proof (cases "nm = ''(''")
      case True
      with 1(4) n False h obtain es2 s2 where p: "parse_terms False [] s1 = Inr (es2, s2)"
        "parse_terms root (r @ [Compound_term op iv es2]) s2 = Inr (es, s')"
        by (auto simp: parse_terms.simps [of root r s] split: sum.splits prod.splits)
      have e: "terms_inv False es2 \<and> es2 \<noteq> []"
        using 1(1) [OF n [symmetric] _ _ h refl refl True p(1)] False by (auto simp: terms_inv_def)
      with op have "terms_inv root (r @ [Compound_term op iv es2])"
        by (intro step [where iv = iv and nm = nm]) (auto simp: h terms_inv_def)
      then show ?thesis
        using 1(2) [OF n [symmetric] _ _ h refl refl True p(1) refl p(2)] False by simp
    next
      case nf: False
      with 1(4) n False h obtain b where p: "validate_name nm = Inr b"
        "parse_terms root (r @ [Simple_term op iv nm]) s1 = Inr (es, s')"
        by (auto simp: parse_terms.simps [of root r s] split: sum.splits)
      have "terms_inv root (r @ [Simple_term op iv nm])"
        by (intro step [where iv = iv and nm = nm]) (simp_all add: h op validate_nameD [OF p(1)])
      then show ?thesis
        using 1(3) [OF n [symmetric] _ _ h refl refl nf p] False by simp
    qed
  qed
qed


lemma parse_underlying_ok:
  assumes "parse_underlying cs s = Inr (cs', e)" "list_all name_ok cs"
  shows "list_all name_ok cs'"
  using assms
proof (induction cs s rule: parse_underlying.induct)
  case (1 cs s)
  obtain nm s1 where n: "next_word s = (nm, s1)" by (cases "next_word s")
  from 1(2,3) 1(1) [OF n [symmetric]] n show ?case
    by (auto simp: parse_underlying.simps [of cs s] validate_nameD split: if_splits sum.splits)
qed

lemma parse_build_class_expr_ok: "parse_build_class_expr s = Inr es \<Longrightarrow> list_all term_ok es"
  using parse_terms_inv [of True "[]" s]
  by (auto simp: parse_build_class_expr_def terms_inv_def split: sum.splits)

section \<open>Printing and parsing back\<close>

definition word_ok :: "string \<Rightarrow> bool" where
  "word_ok w \<longleftrightarrow> w \<noteq> [] \<and> list_all (\<lambda>c. \<not> word_delim c) w"

text \<open>A rest of the string at which a word ends.\<close>

definition ends_word :: "string \<Rightarrow> bool" where
  "ends_word s \<longleftrightarrow> s = [] \<or> word_delim (hd s)"

lemma takeWhile_word: "list_all (\<lambda>c. \<not> word_delim c) w \<Longrightarrow> ends_word s \<Longrightarrow> takeWhile (\<lambda>c. \<not> word_delim c) (w @ s) = w"
  by (cases s) (auto simp: ends_word_def list_all_iff takeWhile_append takeWhile_eq_all_conv)

lemma dropWhile_word: "list_all (\<lambda>c. \<not> word_delim c) w \<Longrightarrow> ends_word s \<Longrightarrow> dropWhile (\<lambda>c. \<not> word_delim c) (w @ s) = s"
  by (cases s) (auto simp: ends_word_def list_all_iff dropWhile_append)

lemma next_word_append: "word_ok w \<Longrightarrow> ends_word s \<Longrightarrow> next_word (w @ s) = (w, s)"
  by (cases w) (auto simp: next_word_def word_ok_def takeWhile_word dropWhile_word)

lemma next_word_space [simp]: "next_word (CHR '' '' # s) = next_word s"
  by (simp add: next_word_def word_delim_def)

lemma next_word_Nil [simp]: "next_word [] = ([], [])"
  by (simp add: next_word_def)

lemma parse_terms_space [simp]: "parse_terms root r (CHR '' '' # s) = parse_terms root r s"
  by (simp add: parse_terms.simps [of root r "CHR '' '' # s"] parse_terms.simps [of root r s])

lemma parse_terms_Nil [simp]: "parse_terms True r [] = Inr (r, [])"
  by (simp add: parse_terms.simps)

lemma ends_word_simps [simp]: "ends_word []" "ends_word (CHR '' '' # s)"
  by (simp_all add: ends_word_def word_delim_def)

lemma alnum_not_special: "alnum c \<Longrightarrow> \<not> word_delim c \<and> c \<notin> set ''+-&!():''"
  by (auto simp: char_defs word_delim_def)

lemma name_ok_word: "name_ok nm \<Longrightarrow> word_ok nm"
  using alnum_not_special by (cases nm) (auto simp: name_ok_def word_ok_def list_all_iff word_delim_def)

lemma name_ok_hd: "name_ok nm \<Longrightarrow> hd nm \<notin> set ''+-&!():''"
  using alnum_not_special by (auto simp: name_ok_def)

lemma word_ok_Cons [simp]: "word_ok (c # w) \<longleftrightarrow> \<not> word_delim c \<and> (w = [] \<or> word_ok w)"
  by (auto simp: word_ok_def)

lemma op_ok_not_delim: "op_ok c \<Longrightarrow> \<not> word_delim c \<and> c \<noteq> CHR '')''"
  by (auto simp: op_ok_def word_delim_def)

lemma term_head_word:
  assumes "op_ok op" "first \<longrightarrow> \<not> root \<longrightarrow> op = CHR ''+''" "nm \<noteq> []" "hd nm \<noteq> CHR ''!''"
  shows "term_head root first (op # (if iv then ''!'' else []) @ nm) = Inr (op, iv, nm)"
  using assms by (cases nm) (auto simp: term_head_def op_ok_def Let_def)

abbreviation spaced :: "build_class_term list \<Rightarrow> string" where
  "spaced es \<equiv> concat (map (\<lambda>t. CHR '' '' # term_string t) es)"

lemma term_string_not_Nil [simp]: "term_string t \<noteq> []"
  by (cases t) simp_all

lemma append_terms_spaced: "r \<noteq> [] \<Longrightarrow> append_terms r es = r @ spaced es"
  by (induction es arbitrary: r) (auto simp: append_word_def)

lemma append_terms_Nil: "es \<noteq> [] \<Longrightarrow> CHR '' '' # append_terms [] es = spaced es"
  by (cases es) (auto simp: append_terms_spaced append_word_def)

lemma ends_word_spaced: "ends_word s \<Longrightarrow> ends_word (spaced es @ s)"
  by (cases es) auto

text \<open>The step of the loop on a term, and on a printed one.\<close>

lemma parse_terms_step:
  assumes "next_word s = (t, s1)" "t \<noteq> []" "t \<noteq> '')''" "term_head root (r = []) t = Inr (op, iv, nm)"
  shows "parse_terms root r s =
     (if nm = ''('' then (case parse_terms False [] s1 of
                    Inl x \<Rightarrow> Inl x
                  | Inr (es, s2) \<Rightarrow> parse_terms root (r @ [Compound_term op iv es]) s2)
      else (case validate_name nm of Inl x \<Rightarrow> Inl x | Inr _ \<Rightarrow> parse_terms root (r @ [Simple_term op iv nm]) s1))"
  using assms by (simp add: parse_terms.simps [of root r s])

lemma parse_terms_word:
  assumes "op_ok op" "r = [] \<longrightarrow> \<not> root \<longrightarrow> op = CHR ''+''" "word_ok nm" "hd nm \<noteq> CHR ''!''" "ends_word s"
  shows "parse_terms root r (op # (if iv then ''!'' else []) @ nm @ s) =
     (if nm = ''('' then (case parse_terms False [] s of
                    Inl x \<Rightarrow> Inl x
                  | Inr (es, s2) \<Rightarrow> parse_terms root (r @ [Compound_term op iv es]) s2)
      else (case validate_name nm of Inl x \<Rightarrow> Inl x | Inr _ \<Rightarrow> parse_terms root (r @ [Simple_term op iv nm]) s))"
proof -
  let ?w = "op # (if iv then ''!'' else []) @ nm"
  have nm: "nm \<noteq> []" using assms(3) by (simp add: word_ok_def)
  have w: "word_ok ?w"
    using assms(3) op_ok_not_delim [OF assms(1)] by (auto simp: word_delim_def)
  have "next_word (?w @ s) = (?w, s)" using w assms(5) by (rule next_word_append)
  then have n: "next_word (op # (if iv then ''!'' else []) @ nm @ s) = (?w, s)" by simp
  have "?w \<noteq> '')''" using op_ok_not_delim [OF assms(1)] by simp
  with n show ?thesis
    by (rule parse_terms_step [OF _ list.distinct(2) _ term_head_word [OF assms(1,2) nm assms(4)]])
qed

lemma parse_printed_term:
  "\<lbrakk>term_ok t; r = [] \<longrightarrow> \<not> root \<longrightarrow> term_op t = CHR ''+''; ends_word s\<rbrakk> \<Longrightarrow>
     parse_terms root r (term_string t @ s) = parse_terms root (r @ [t]) s"
proof (induction t arbitrary: root r s)
  case (Simple_term op iv nm)
  then obtain b where b: "validate_name nm = Inr b" using validate_name_ok by (metis term_ok.simps(1))
  from Simple_term have nm: "name_ok nm" by simp
  then have "hd nm \<noteq> CHR ''!''" "nm \<noteq> ''(''" using name_ok_hd [OF nm] by auto
  with Simple_term b name_ok_word [OF nm] show ?case
    by (simp add: parse_terms_word)
next
  case (Compound_term op iv es)
  have ok: "list_all term_ok es" "es \<noteq> []" "term_op (hd es) = CHR ''+''" "op_ok op"
    using Compound_term.prems(1) by auto
  have "parse_terms False r2 (spaced us @ u) = parse_terms False (r2 @ us) u"
    if "ends_word u" "set us \<subseteq> set es" "r2 = [] \<longrightarrow> us = [] \<or> term_op (hd us) = CHR ''+''" for us r2 u
    using that
  proof (induction us arbitrary: r2)
    case (Cons x xs)
    then have "parse_terms False r2 (term_string x @ spaced xs @ u) = parse_terms False (r2 @ [x]) (spaced xs @ u)"
      using ok(1) by (intro Compound_term.IH) (auto simp: list_all_iff ends_word_spaced)
    with Cons show ?case by simp
  qed simp
  from this [of "'' )'' @ s" es "[]"] ok
  have inner: "parse_terms False [] (spaced es @ '' )'' @ s) = parse_terms False es ('')'' @ s)" by simp
  have "next_word ('')'' @ s) = ('')'', s)"
    using Compound_term.prems(3) by (intro next_word_append) (simp_all add: word_delim_def)
  then have close: "parse_terms False es ('')'' @ s) = Inr (es, s)"
    using ok(2) by (simp add: parse_terms.simps [of False es "CHR '')'' # s"])
  have "parse_terms False [] (append_terms [] es @ '' )'' @ s) = Inr (es, s)"
    using inner close unfolding append_terms_Nil [OF ok(2), symmetric] by simp
  then show ?case
    using Compound_term.prems ok
    by (simp add: parse_terms_word [where nm = "''(''", simplified] word_delim_def)
qed

lemma parse_printed_terms:
  assumes "list_all term_ok es"
  shows "parse_terms True r (spaced es) = Inr (r @ es, [])"
  using assms
proof (induction es arbitrary: r)
  case (Cons t ts)
  have "parse_terms True r (term_string t @ spaced ts) = parse_terms True (r @ [t]) (spaced ts)"
    using Cons.prems ends_word_spaced [of "[]" ts] by (intro parse_printed_term) simp_all
  with Cons show ?case by simp
qed simp


lemma parse_terms_words:
  assumes "next_word s = next_word s'"
  shows "parse_terms root r s = parse_terms root r s'"
  using assms by (simp add: parse_terms.simps [of root r s] parse_terms.simps [of root r s'])

lemma parse_printed_expr: "list_all term_ok es \<Longrightarrow> parse_build_class_expr (append_terms [] es) = Inr es"
proof (cases "es = []")
  case False
  assume "list_all term_ok es"
  from parse_printed_terms [OF this, of "[]"] show ?thesis
    unfolding append_terms_Nil [OF False, symmetric] by (simp add: parse_build_class_expr_def)
qed (simp add: parse_build_class_expr_def)

abbreviation spaced_names :: "string list \<Rightarrow> string" where
  "spaced_names cs \<equiv> concat (map ((#) (CHR '' '')) cs)"

lemma append_words_spaced: "r \<noteq> [] \<Longrightarrow> foldl append_word r cs = r @ spaced_names cs"
  by (induction cs arbitrary: r) (auto simp: append_word_def)

lemma append_words_Nil:
  "cs \<noteq> [] \<Longrightarrow> list_all name_ok cs \<Longrightarrow> CHR '' '' # foldl append_word [] cs = spaced_names cs"
  by (cases cs) (auto simp: append_words_spaced append_word_def name_ok_def)

lemma parse_underlying_space [simp]: "parse_underlying cs (CHR '' '' # s) = parse_underlying cs s"
  by (simp add: parse_underlying.simps [of cs "CHR '' '' # s"] parse_underlying.simps [of cs s] word_delim_def
      split: prod.splits)

lemma ends_word_spaced_names: "ends_word s \<Longrightarrow> ends_word (spaced_names cs @ s)"
  by (cases cs) auto

lemma parse_printed_underlying:
  assumes "list_all name_ok ns" "ends_word s"
  shows "parse_underlying cs (spaced_names ns @ s) = parse_underlying (cs @ ns) s"
  using assms(1)
proof (induction ns arbitrary: cs)
  case (Cons n ns)
  then have n: "name_ok n" by simp
  then obtain b where b: "validate_name n = Inr b" using validate_name_ok by blast
  have "next_word (n @ spaced_names ns @ s) = (n, spaced_names ns @ s)"
    by (rule next_word_append [OF name_ok_word [OF n] ends_word_spaced_names [OF assms(2)]])
  with b name_ok_hd [OF n] n have "parse_underlying cs (n @ spaced_names ns @ s) =
      parse_underlying (cs @ [n]) (spaced_names ns @ s)"
    by (auto simp: parse_underlying.simps [of cs "n @ _"] name_ok_def)
  with Cons show ?case by simp
qed simp

section \<open>The meaning of an expression\<close>

text \<open>The class names a configuration with the classes \<open>cs\<close> belongs to: the classes and their bases.\<close>

definition belongs :: "(string \<rightharpoonup> string) \<Rightarrow> string list \<Rightarrow> string \<Rightarrow> bool" where
  "belongs im cs nm \<longleftrightarrow> (\<exists>c\<in>set cs. (c, nm) \<in> (Map.graph im)\<^sup>*)"

text \<open>
  The value of an expression over a set of class names: \<open>+\<close> adds, \<open>-\<close> subtracts and \<open>&\<close> intersects, each
  term being evaluated whatever the result so far.
\<close>

fun term_value :: "(string \<Rightarrow> bool) \<Rightarrow> build_class_term \<Rightarrow> bool"
  and terms_value :: "(string \<Rightarrow> bool) \<Rightarrow> bool \<Rightarrow> build_class_term list \<Rightarrow> bool" where
  "term_value S (Simple_term op iv nm) \<longleftrightarrow> S nm \<noteq> iv"
| "term_value S (Compound_term op iv es) \<longleftrightarrow> terms_value S False es \<noteq> iv"
| "terms_value S r [] \<longleftrightarrow> r"
| "terms_value S r (t # ts) \<longleftrightarrow>
     terms_value S (if term_op t = CHR ''+'' then r \<or> term_value S t
                    else if term_op t = CHR ''-'' then r \<and> \<not> term_value S t
                    else r \<and> term_value S t) ts"

fun ops_ok :: "build_class_term \<Rightarrow> bool" where
  "ops_ok (Simple_term op iv nm) \<longleftrightarrow> op_ok op"
| "ops_ok (Compound_term op iv es) \<longleftrightarrow> op_ok op \<and> list_all ops_ok es"

lemma term_ok_ops: "term_ok t \<Longrightarrow> ops_ok t"
  by (induction t) (auto simp: list_all_iff)

lemma base_match_returns:
  assumes "base_match im nm c = Some b"
  shows "(b \<longleftrightarrow> (c, nm) \<in> (Map.graph im)\<^sup>+) \<and> (b \<or> (\<exists>d. (c, d) \<in> (Map.graph im)\<^sup>* \<and> im d = None))"
  using assms
proof (induction rule: base_match.raw_induct [rotated 1, consumes 1, case_names step])
  case (step f im nm c b)
  show ?case
  proof (cases "im c")
    case None
    then show ?thesis
      using step(2) tranclD [of c nm "Map.graph im"] by (auto simp: Map.graph_def)
  next
    case (Some base)
    then have g: "(c, base) \<in> Map.graph im" by (simp add: in_graphI)
    have base: "(c, nm) \<in> (Map.graph im)\<^sup>+ \<longleftrightarrow> base = nm \<or> (base, nm) \<in> (Map.graph im)\<^sup>+"
      using g Some by (auto simp: Map.graph_def elim: converse_tranclE intro: trancl_into_trancl2)
    show ?thesis
    proof (cases "base = nm")
      case True
      with step(2) Some base show ?thesis by simp
    next
      case False
      with step(2) Some have "f im nm base = Some b" by simp
      from step(1) [OF this] base g False show ?thesis
        by (meson converse_rtrancl_into_rtrancl)
    qed
  qed
qed

lemma base_match_total:
  assumes "wf ((Map.graph im)\<inverse>)"
  shows "base_match im nm c = Some ((c, nm) \<in> (Map.graph im)\<^sup>+)"
proof -
  have "\<exists>b. base_match im nm c = Some b"
    using assms
  proof (induction c rule: wf_induct_rule)
    case (less c)
    then show ?case
      by (cases "im c") (auto simp: base_match.simps [of im nm c] in_graphI)
  qed
  then show ?thesis using base_match_returns by blast
qed

lemma class_match_belongs:
  "wf ((Map.graph im)\<inverse>) \<Longrightarrow> class_match im nm cs = Some (belongs im cs nm)"
  by (induction cs) (auto simp: belongs_def base_match_total rtrancl_eq_or_trancl)

fun term_inverted :: "build_class_term \<Rightarrow> bool" where
  "term_inverted (Simple_term op iv nm) = iv"
| "term_inverted (Compound_term op iv es) = iv"

lemma match_classes_value:
  assumes "\<And>t. t \<in> set es \<Longrightarrow> match_term cs im t = Some (Inr (term_value S t \<noteq> term_inverted t))"
    and "list_all ops_ok es"
  shows "match_classes cs im es r = Some (Inr (terms_value S r es))"
  using assms
proof (induction es arbitrary: r)
  case (Cons t ts)
  obtain op iv where t: "(case t of Simple_term op iv nm \<Rightarrow> op | Compound_term op iv es \<Rightarrow> op) = op" "term_op t = op"
      "(case t of Simple_term op iv nm \<Rightarrow> iv | Compound_term op iv es \<Rightarrow> iv) = iv" "term_inverted t = iv"
    by (cases t) simp_all
  have m: "match_term cs im t = Some (Inr (term_value S t \<noteq> iv))" using Cons.prems(1) [of t] t by simp
  have "op_ok op" using Cons.prems(2) t by (cases t) auto
  then consider "op = CHR ''+''" | "op = CHR ''-''" | "op = CHR ''&''" by (auto simp: op_ok_def)
  then show ?case
    using Cons m by cases (cases r; cases "term_value S t"; cases iv; simp add: t Let_def)+
qed simp

lemma match_term_value:
  "wf ((Map.graph im)\<inverse>) \<Longrightarrow> ops_ok t \<Longrightarrow>
     match_term cs im t = Some (Inr (term_value (belongs im cs) t \<noteq> term_inverted t))"
proof (induction t)
  case (Compound_term op iv es)
  then have "match_classes cs im es False = Some (Inr (terms_value (belongs im cs) False es))"
    by (intro match_classes_value) (auto simp: list_all_iff)
  then show ?case by (auto simp del: term_inverted.simps simp: term_inverted.simps)
qed (auto simp: class_match_belongs)

lemma match_value:
  assumes "finite (dom im)" "acyclic (Map.graph im)" "list_all ops_ok es"
  shows "match_classes cs im es r = Some (Inr (terms_value (belongs im cs) r es))"
proof -
  have "wf ((Map.graph im)\<inverse>)"
    using assms(1,2) by (intro finite_acyclic_wf_converse) (simp_all add: finite_graph_iff_finite_dom)
  with assms(3) show ?thesis by (intro match_classes_value match_term_value) (auto simp: list_all_iff)
qed

section \<open>Properties\<close>

lemma of_string_ok:
  assumes "build_class_expr_of_string s c = Inr e"
  shows "bce_ok e" and "bce_comment e = c"
  using assms parse_underlying_ok [of "[]" s] parse_build_class_expr_ok
  by (fastforce simp: build_class_expr_of_string_def bce_ok_def split: sum.splits prod.splits if_splits)+

lemma parse_underlying_expr:
  assumes "es \<noteq> []" "list_all term_ok es"
  shows "parse_underlying [] (append_terms [] es) = Inr ([], append_terms [] es)"
proof -
  obtain t ts where es: "es = t # ts" using assms(1) by (cases es) auto
  then obtain w where w: "append_terms [] es = term_op t # w"
    by (cases t) (simp_all add: append_terms_spaced append_word_def)
  have "op_ok (term_op t)" using assms(2) es by (cases t) auto
  then show ?thesis
    unfolding w by (auto simp: parse_underlying.simps [of "[]" "_ # _"] next_word_def op_ok_def word_delim_def)
qed

lemma printed_underlying:
  assumes "list_all name_ok cs" "cs \<noteq> []" "ends_word s"
  shows "parse_underlying [] (foldl append_word [] cs @ s) = parse_underlying cs s"
  using parse_printed_underlying [OF assms(1,3), of "[]"]
  unfolding append_words_Nil [OF assms(2,1), symmetric] by simp

lemma printed_separator: "cs \<noteq> [] \<Longrightarrow> parse_underlying cs ('' : '' @ s) = Inr (cs, '' '' @ s)"
  using next_word_append [of "'':''" "'' '' @ s"]
  by (simp add: word_delim_def parse_underlying.simps [of cs "CHR '':'' # _"])

text \<open>
  C16: Parsing the string representation of a well-formed build class expression, with its underlying
  class set and nested terms, gives back the expression.
\<close>

theorem build_class_expr_roundtrip:
  assumes "bce_ok e"
  shows "build_class_expr_of_string (build_class_expr_string e) (bce_comment e) = Inr e"
proof -
  let ?cs = "underlying_classes e" and ?es = "bce_expr e"
  have ok: "list_all name_ok ?cs" "list_all term_ok ?es" "?cs \<noteq> [] \<or> ?es \<noteq> []"
    using assms by (auto simp: bce_ok_def)
  note expr = parse_printed_expr [OF ok(2)]
  then have expr': "parse_build_class_expr (CHR '' '' # append_terms [] ?es) = Inr ?es"
    by (simp add: parse_build_class_expr_def)
  have r: "?cs \<noteq> [] \<Longrightarrow> foldl append_word [] ?cs \<noteq> []"
    using append_words_Nil [OF _ ok(1)] ok(1) by (cases ?cs) (auto simp: name_ok_def)
  consider "?cs = []" "?es \<noteq> []" | "?cs \<noteq> []" "?es = []" | "?cs \<noteq> []" "?es \<noteq> []" using ok(3) by blast
  then show ?thesis
  proof cases
    case 1
    with parse_underlying_expr [OF 1(2) ok(2)] expr show ?thesis
      by (simp add: build_class_expr_of_string_def build_class_expr_string_def)
  next
    case 2
    with printed_underlying [OF ok(1) 2(1), of "[]"] show ?thesis
      by (simp add: build_class_expr_of_string_def build_class_expr_string_def
          parse_underlying.simps [of _ "[]"] parse_build_class_expr_def)
  next
    case 3
    with printed_underlying [OF ok(1) 3(1), of "'' : '' @ append_terms [] ?es"]
      printed_separator [OF 3(1), of "append_terms [] ?es"] expr' r show ?thesis
      by (simp add: build_class_expr_of_string_def build_class_expr_string_def)
  qed
qed

theorem build_class_expr_roundtrip_witness:
  "let e = \<lparr>bce_comment = [], underlying_classes = [''default''],
            bce_expr = [Simple_term (CHR ''-'') False ''msvc'',
                        Compound_term (CHR ''&'') True [Simple_term (CHR ''+'') False ''gcc'']]\<rparr>
   in bce_ok e \<and> build_class_expr_string e = ''default : -msvc &!( +gcc )'' \<and>
      build_class_expr_of_string ''default : -msvc &!( +gcc )'' [] = Inr e"
  using build_class_expr_roundtrip [of "\<lparr>bce_comment = [], underlying_classes = [''default''],
            bce_expr = [Simple_term (CHR ''-'') False ''msvc'',
                        Compound_term (CHR ''&'') True [Simple_term (CHR ''+'') False ''gcc'']]\<rparr>"]
  by (simp add: Let_def bce_ok_def op_ok_def name_ok_def char_defs build_class_expr_string_def append_word_def)

text \<open>
  C38: An expression that the parser accepts is well formed: the class names are valid, the operations
  are \<open>+\<close>, \<open>-\<close> or \<open>&\<close>, and a nested expression is not empty and starts with \<open>+\<close>. The loop and its
  recursive calls end on every string.
\<close>

theorem build_class_expr_parse_wf:
  assumes "build_class_expr_of_string s c = Inr e"
  shows "bce_ok e \<and> bce_comment e = c"
  using of_string_ok [OF assms] by simp

theorem build_class_expr_parse_wf_witness:
  "\<exists>e. build_class_expr_of_string ''+gcc'' ''x'' = Inr e \<and> bce_ok e \<and> bce_comment e = ''x''"
proof -
  let ?e = "\<lparr>bce_comment = ''x'', underlying_classes = [], bce_expr = [Simple_term (CHR ''+'') False ''gcc'']\<rparr>"
  have "build_class_expr_of_string ''+gcc'' ''x'' = Inr ?e" by code_simp
  with build_class_expr_parse_wf [OF this] show ?thesis by blast
qed

text \<open>
  C12: Over an inheritance map without cycles, matching a parsed expression ends and gives the value of
  the expression over the set of the configuration's classes and all their bases; in particular skipping
  the terms that cannot change the result never changes the outcome, and the assertion on the operation
  never fails.
\<close>

theorem build_class_match_value:
  assumes "finite (dom im)" "acyclic (Map.graph im)" "build_class_expr_of_string s c = Inr e"
  shows "build_class_match_update e cs im r = Some (Inr (terms_value (belongs im cs) r (bce_expr e)))"
proof -
  have "list_all ops_ok (bce_expr e)"
    using of_string_ok(1) [OF assms(3)] term_ok_ops by (auto simp: bce_ok_def list_all_iff)
  with assms(1,2) show ?thesis
    unfolding build_class_match_update_def by (rule match_value)
qed

lemma graph_single: "Map.graph [a \<mapsto> b] = {(a, b)}"
  by (auto simp: Map.graph_def split: if_splits)

theorem build_class_match_value_witness:
  "\<exists>e. build_class_expr_of_string ''+default'' [] = Inr e \<and>
       build_class_match_update e [''gcc''] [''gcc'' \<mapsto> ''default''] False = Some (Inr True)"
proof -
  let ?e = "\<lparr>bce_comment = [], underlying_classes = [], bce_expr = [Simple_term (CHR ''+'') False ''default'']\<rparr>"
  have e: "build_class_expr_of_string ''+default'' [] = Inr ?e" by code_simp
  have "acyclic (Map.graph [''gcc'' \<mapsto> ''default''])" by (simp add: graph_single, simp add: acyclic_def)
  from build_class_match_value [OF _ this e, of "[''gcc'']" False]
  show ?thesis using e by (auto simp: belongs_def graph_single)
qed

text \<open>
  C39: Walking the base classes of a class ends exactly when the name is found among them or when the
  chain of bases ends; on a cycle that does not contain the name it never returns.
\<close>

theorem base_match_terminates:
  "(\<exists>b. base_match im nm c = Some b) \<longleftrightarrow>
     (c, nm) \<in> (Map.graph im)\<^sup>+ \<or> (\<exists>d. (c, d) \<in> (Map.graph im)\<^sup>* \<and> im d = None)"
proof
  assume "\<exists>b. base_match im nm c = Some b"
  then show "(c, nm) \<in> (Map.graph im)\<^sup>+ \<or> (\<exists>d. (c, d) \<in> (Map.graph im)\<^sup>* \<and> im d = None)"
    using base_match_returns by metis
next
  have found: "\<exists>b. base_match im nm c = Some b" if "(c, nm) \<in> (Map.graph im)\<^sup>+"
    using that
  proof (induction rule: converse_trancl_induct)
    case (base y)
    then show ?case by (auto simp: base_match.simps [of im nm y] Map.graph_def)
  next
    case (step y z)
    then show ?case by (auto simp: base_match.simps [of im nm y] Map.graph_def)
  qed
  have ended: "\<exists>b. base_match im nm c = Some b" if "(c, d) \<in> (Map.graph im)\<^sup>*" "im d = None" for d
    using that
  proof (induction rule: converse_rtrancl_induct)
    case base
    then show ?case by (auto simp: base_match.simps [of im nm d])
  next
    case (step y z)
    then show ?case by (auto simp: base_match.simps [of im nm y] Map.graph_def)
  qed
  assume "(c, nm) \<in> (Map.graph im)\<^sup>+ \<or> (\<exists>d. (c, d) \<in> (Map.graph im)\<^sup>* \<and> im d = None)"
  with found ended show "\<exists>b. base_match im nm c = Some b" by blast
qed

lemma terms_value_simple:
  "terms_value S r (map (Simple_term (CHR ''+'') False) ns) \<longleftrightarrow> r \<or> (\<exists>n\<in>set ns. S n)"
  "terms_value S r (map (Simple_term (CHR ''-'') False) ns) \<longleftrightarrow> r \<and> \<not> (\<exists>n\<in>set ns. S n)"
  by (induction ns arbitrary: r) auto

text \<open>
  The expression made from a class list and an operation matches as documented: \<open>+\<close> adds a
  configuration that belongs to one of the classes, \<open>-\<close> removes it, \<open>&\<close> keeps only such
  configurations, and an empty list changes nothing.
\<close>

lemma build_class_expr_of_classes_match:
  assumes "finite (dom im)" "acyclic (Map.graph im)" "op = CHR ''+'' \<or> op = CHR ''-'' \<or> op = CHR ''&''"
  shows "build_class_match_update (build_class_expr_of_classes ns op c) cs im r =
    Some (Inr (if ns = [] then r
               else if op = CHR ''+'' then r \<or> (\<exists>n\<in>set ns. belongs im cs n)
               else if op = CHR ''-'' then r \<and> \<not> (\<exists>n\<in>set ns. belongs im cs n)
               else r \<and> (\<exists>n\<in>set ns. belongs im cs n)))"
proof -
  have ops: "list_all ops_ok (bce_expr (build_class_expr_of_classes ns op c))"
    using assms(3) by (auto simp: build_class_expr_of_classes_def Let_def op_ok_def list_all_iff)
  show ?thesis
    unfolding build_class_match_update_def match_value [OF assms(1,2) ops]
    using assms(3) by (auto simp: build_class_expr_of_classes_def Let_def terms_value_simple)
qed

lemma build_class_expr_of_classes_match_witness:
  "build_class_match_update (build_class_expr_of_classes [''gcc'', ''clang''] (CHR ''&'') []) [''msvc''] Map.empty True =
     Some (Inr False)"
  using build_class_expr_of_classes_match [of Map.empty "CHR ''&''" "[''gcc'', ''clang'']" "[]" "[''msvc'']" True]
  by (simp add: belongs_def acyclic_def)

end
