(* ===== verification/Utf8.thy ===== *)
theory Utf8
  imports Butl_Prelude
begin

text \<open>
  The byte-wise UTF-8 validator of \<open>libbutl\<close> (\<open>utf8.ixx\<close>), the codepoint types of \<open>unicode.ixx\<close> and
  \<open>unicode.cxx\<close>, and the functions of \<open>utility.ixx\<close> and \<open>utility.cxx\<close> built on them: the length of a
  byte string in codepoints and the replacement of invalid bytes. Bytes are the characters of the
  string, read as numbers below 256; a codepoint is a natural number, built with the shifts and masks of
  the code and shown to stay below the 32 bits of \<open>char32_t\<close>.
\<close>

unbundle bit_operations_syntax

section \<open>Codepoint types\<close>

text \<open>The values of \<open>enum class codepoint_types\<close>, a bit set.\<close>

definition ct_none :: nat where "ct_none = 0x00"
definition ct_graphic :: nat where "ct_graphic = 0x01"
definition ct_format :: nat where "ct_format = 0x02"
definition ct_control :: nat where "ct_control = 0x04"
definition ct_private_use :: nat where "ct_private_use = 0x08"
definition ct_non_character :: nat where "ct_non_character = 0x10"
definition ct_reserved :: nat where "ct_reserved = 0x20"
definition ct_any :: nat where "ct_any = 0x3f"

lemmas ct_defs = ct_none_def ct_graphic_def ct_format_def ct_control_def ct_private_use_def
  ct_non_character_def ct_reserved_def ct_any_def

definition ct_ranges :: "(nat \<times> (nat \<times> nat) list) list" where
  "ct_ranges =
    [(ct_control, [(0x00, 0x1F), (0x7F, 0x9F)]),
     (ct_format,
       [(0x000AD, 0x000AD), (0x00600, 0x00605), (0x0061C, 0x0061C), (0x006DD, 0x006DD),
        (0x0070F, 0x0070F), (0x008E2, 0x008E2), (0x0180E, 0x0180E), (0x0200B, 0x0200F),
        (0x0202A, 0x0202E), (0x02060, 0x02064), (0x02066, 0x0206F), (0x0FEFF, 0x0FEFF),
        (0x0FFF9, 0x0FFFB), (0x110BD, 0x110BD), (0x110CD, 0x110CD), (0x13430, 0x13438),
        (0x1BCA0, 0x1BCA3), (0x1D173, 0x1D17A), (0xE0001, 0xE0001), (0xE0020, 0xE007F)]),
     (ct_private_use, [(0x00E000, 0x00F8FF), (0x0F0000, 0x10FFFF)]),
     (ct_non_character, [(0xFDD0, 0xFDEF)]),
     (ct_reserved, [(0x30000, 0xE0000), (0xE0002, 0xE001F), (0xE0080, 0xE00FF), (0xE01F0, 0xEFFFF)])]"

text \<open>
  \<open>std::lower_bound\<close> by bisection, the comparison being true on a prefix of the array: \<open>n\<close> elements from
  index \<open>i\<close> are left.
\<close>

function lower_bound :: "('a \<Rightarrow> bool) \<Rightarrow> 'a list \<Rightarrow> nat \<Rightarrow> nat \<Rightarrow> nat" where
  "lower_bound lt rs i n =
     (if n = 0 then i
      else let h = n div 2 in
           if lt (rs ! (i + h)) then lower_bound lt rs (i + h + 1) (n - h - 1)
           else lower_bound lt rs i h)"
  by pat_completeness auto
termination
  by (relation "measure (\<lambda>(lt, rs, i, n). n)") auto

declare lower_bound.simps [simp del]

fun codepoint_type_loop :: "(nat \<times> (nat \<times> nat) list) list \<Rightarrow> nat \<Rightarrow> nat" where
  "codepoint_type_loop [] c = ct_graphic"
| "codepoint_type_loop ((t, rs) # ts) c =
     (let r = lower_bound (\<lambda>r. snd r < c) rs 0 (length rs)
      in if r \<noteq> length rs \<and> fst (rs ! r) \<le> c then t else codepoint_type_loop ts c)"

definition codepoint_type_lookup :: "nat \<Rightarrow> nat" where
  "codepoint_type_lookup c = codepoint_type_loop ct_ranges c"

definition codepoint_type :: "nat \<Rightarrow> nat" where
  "codepoint_type c =
     (if c \<ge> 0x20 \<and> c \<le> 0x7E then ct_graphic
      else if c > 0x10FFFF \<or> (c \<ge> 0xD800 \<and> c \<le> 0xDFFF) then ct_none
      else if (c AND 0xFFFF) \<ge> 0xFFFE then ct_non_character
      else codepoint_type_lookup c)"

definition codepoint_types_string :: "nat \<Rightarrow> string" where
  "codepoint_types_string t =
     (if t = ct_graphic then ''graphic''
      else if t = ct_format then ''format''
      else if t = ct_control then ''control''
      else if t = ct_private_use then ''private-use''
      else if t = ct_non_character then ''noncharacter''
      else if t = ct_reserved then ''reserved''
      else [])"

section \<open>The validator\<close>

text \<open>
  The state of \<open>utf8_validator\<close>. The members set by the first byte of a sequence have no value before
  it.
\<close>

record utf8_validator =
  v_types :: nat
  v_whitelist :: "nat list"
  seq_size :: nat
  seq_index :: nat
  v_codepoint :: nat
  byte2_range :: "nat \<times> nat"

definition new_validator :: "nat \<Rightarrow> nat list \<Rightarrow> utf8_validator" where
  "new_validator ts wl = \<lparr>v_types = ts, v_whitelist = wl, seq_size = 0, seq_index = 0, v_codepoint = 0,
     byte2_range = (0, 0)\<rparr>"

definition hex_digit :: "nat \<Rightarrow> char" where
  "hex_digit d = ''0123456789ABCDEF'' ! d"

definition byte_error :: "nat \<Rightarrow> nat \<Rightarrow> string" where
  "byte_error i b =
     ''invalid UTF-8 sequence '' @ [''first'', ''second'', ''third'', ''forth''] ! i @ '' byte (0x'' @
     [hex_digit (drop_bit 4 b AND 0xF), hex_digit (b AND 0xF)] @
     (if b \<ge> 0x20 \<and> b \<le> 0x7E then [CHR '' '', CHR 0x27, char_of b, CHR 0x27] else []) @ '')''"

definition seq_start :: "nat \<Rightarrow> (nat \<times> nat) option" where
  "seq_start b =
     (if b < 0x80 then Some (1, b)
      else if b < 0xE0 then Some (2, b AND 0x1F)
      else if b < 0xF0 then Some (3, b AND 0xF)
      else if b < 0xF8 then Some (4, b AND 0x7)
      else None)"

definition in_byte_range :: "nat \<Rightarrow> nat \<times> nat \<Rightarrow> bool" where
  "in_byte_range c r \<longleftrightarrow> fst r \<le> c \<and> c \<le> snd r"

text \<open>The range of the second byte, for the first byte of a sequence of two, three or four bytes.\<close>

definition second_range :: "nat \<Rightarrow> nat \<Rightarrow> (nat \<times> nat) option" where
  "second_range n b =
     (if n = 2 then (if in_byte_range b (0xC2, 0xDF) then Some (0x80, 0xBF) else None)
      else if n = 3
      then (if b = 0xE0 then Some (0xA0, 0xBF)
            else if in_byte_range b (0xE1, 0xEC) then Some (0x80, 0xBF)
            else if b = 0xED then Some (0x80, 0x9F)
            else if in_byte_range b (0xEE, 0xEF) then Some (0x80, 0xBF)
            else None)
      else if n = 4
      then (if b = 0xF0 then Some (0x90, 0xBF)
            else if in_byte_range b (0xF1, 0xF3) then Some (0x80, 0xBF)
            else if b = 0xF4 then Some (0x80, 0x8F)
            else None)
      else None)"

text \<open>
  The \<open>switch (seq_size_)\<close>: whether the byte is valid at its index, and the state with the range of the
  second byte.
\<close>

definition check_byte :: "utf8_validator \<Rightarrow> nat \<Rightarrow> bool \<times> utf8_validator" where
  "check_byte v b =
     (if seq_size v = 1 then (True, v)
      else if seq_index v = 0
      then (case second_range (seq_size v) b of
              None \<Rightarrow> (False, v)
            | Some r \<Rightarrow> (True, v\<lparr>byte2_range := r\<rparr>))
      else if seq_index v = 1 \<or> seq_size v = 2
      then (in_byte_range b (byte2_range v), v)
      else (in_byte_range b (0x80, 0xBF), v))"

definition codepoint_allowed :: "nat \<Rightarrow> nat list \<Rightarrow> nat \<Rightarrow> bool" where
  "codepoint_allowed ts wl c \<longleftrightarrow> ts = ct_any \<or> c \<in> set wl \<or> (codepoint_type c AND ts) \<noteq> ct_none"

text \<open>
  \<open>validate (c, what)\<close>: the pair returned, the description when one is composed, and the state after.
\<close>

definition validate_byte :: "utf8_validator \<Rightarrow> nat \<Rightarrow> (bool \<times> bool) \<times> string option \<times> utf8_validator" where
  "validate_byte v b =
     (case check_byte v b of (valid, v) \<Rightarrow>
        if \<not> valid then ((False, False), Some (byte_error (seq_index v) b), v)
        else
          let cp = (if seq_index v \<noteq> 0 then push_bit 6 (v_codepoint v) OR (b AND 0x3F) else v_codepoint v);
              i = seq_index v + 1;
              v1 = v\<lparr>v_codepoint := cp, seq_index := i\<rparr>
          in if i \<noteq> seq_size v then ((True, False), None, v1)
             else
               let v2 = v1\<lparr>seq_index := 0\<rparr>
               in if codepoint_allowed (v_types v) (v_whitelist v) cp then ((True, True), None, v2)
                  else ((False, True),
                    Some (''invalid Unicode codepoint ('' @ codepoint_types_string (codepoint_type cp) @ '')''), v2))"

definition utf8_validate :: "utf8_validator \<Rightarrow> char \<Rightarrow> (bool \<times> bool) \<times> string option \<times> utf8_validator" where
  "utf8_validate v c =
     (let b = ord c in
      if seq_index v = 0
      then (case seq_start b of
              Some (n, cp) \<Rightarrow> validate_byte (v\<lparr>seq_size := n, v_codepoint := cp\<rparr>) b
            | None \<Rightarrow>
                ((False, False),
                 Some (if b < 0xFE then (if b < 0xFC then ''5'' else ''6'') @ ''-byte length UTF-8 sequence''
                       else byte_error (seq_index v) b), v))
      else validate_byte v b)"

definition utf8_recover :: "utf8_validator \<Rightarrow> char \<Rightarrow> (bool \<times> bool) \<times> utf8_validator" where
  "utf8_recover v c =
     (if (ord c AND 0xC0) = 0x80 then ((False, False), v)
      else case utf8_validate (v\<lparr>seq_index := 0\<rparr>) c of (r, _, v1) \<Rightarrow> (r, v1))"

section \<open>Byte strings\<close>

text \<open>The loop of \<open>utf8_length_impl ()\<close>, \<open>eoc\<close> being the second member of the last result.\<close>

fun utf8_length_loop :: "utf8_validator \<Rightarrow> bool \<Rightarrow> nat \<Rightarrow> string \<Rightarrow> string + nat" where
  "utf8_length_loop v eoc r [] = (if eoc then Inr r else Inl ''incomplete UTF-8 sequence'')"
| "utf8_length_loop v eoc r (c # s) =
     (case utf8_validate v c of ((valid, last1), what, v1) \<Rightarrow>
        if \<not> valid then Inl (case what of Some w \<Rightarrow> w | None \<Rightarrow> [])
        else utf8_length_loop v1 last1 (if last1 then r + 1 else r) s)"

definition utf8_length_impl :: "string \<Rightarrow> nat \<Rightarrow> nat list \<Rightarrow> string + nat" where
  "utf8_length_impl s ts wl = (if s = [] then Inr 0 else utf8_length_loop (new_validator ts wl) False 0 s)"

definition utf8_length :: "string \<Rightarrow> nat \<Rightarrow> nat list \<Rightarrow> nat result" where
  "utf8_length s ts wl =
     (case utf8_length_impl s ts wl of Inr r \<Rightarrow> Inr r | Inl what \<Rightarrow> Inl (Invalid_argument what))"

definition utf8 :: "string \<Rightarrow> nat \<Rightarrow> nat list \<Rightarrow> bool" where
  "utf8 s ts wl = (case utf8_length_impl s ts wl of Inr _ \<Rightarrow> True | Inl _ \<Rightarrow> False)"

text \<open>
  \<open>to_utf8 ()\<close>: \<open>out\<close> is the destination before the current sequence (\<open>b\<close>), \<open>sq\<close> the bytes of the
  current sequence written so far (from \<open>b\<close> to \<open>d\<close>). Every byte read writes at most one byte, so the
  destination never overtakes the source. The recovery loop and the main loop are the two functions.
\<close>

definition append_byte :: "bool \<Rightarrow> char \<Rightarrow> string \<Rightarrow> string \<Rightarrow> string \<times> string" where
  "append_byte eoc c out sq = (if eoc then (out @ sq @ [c], []) else (out, sq @ [c]))"

fun to_utf8_loop :: "char \<Rightarrow> utf8_validator \<Rightarrow> string \<Rightarrow> string \<Rightarrow> string \<Rightarrow> string"
  and to_utf8_recover :: "char \<Rightarrow> utf8_validator \<Rightarrow> string \<Rightarrow> string \<Rightarrow> string" where
  "to_utf8_loop repl v out sq [] = out @ map (\<lambda>_. repl) sq"
| "to_utf8_loop repl v out sq (c # s) =
     (case utf8_validate v c of ((valid, eoc), _, v1) \<Rightarrow>
        if valid then (case append_byte eoc c out sq of (out1, sq1) \<Rightarrow> to_utf8_loop repl v1 out1 sq1 s)
        else if eoc then to_utf8_loop repl v1 (out @ [repl]) [] s
        else \<comment> \<open>the recovery starts with the same byte\<close>
          (let out1 = out @ map (\<lambda>_. repl) sq in
           case utf8_recover v1 c of ((valid2, last2), v2) \<Rightarrow>
             if valid2 then (case append_byte last2 c out1 [] of (out2, sq2) \<Rightarrow> to_utf8_loop repl v2 out2 sq2 s)
             else if last2 then to_utf8_loop repl v2 (out1 @ [repl]) [] s
             else to_utf8_recover repl v2 (out1 @ [repl]) s))"
| "to_utf8_recover repl v out [] = out"
| "to_utf8_recover repl v out (c # s) =
     (case utf8_recover v c of ((valid, eoc), v1) \<Rightarrow>
        if valid then (case append_byte eoc c out [] of (out1, sq1) \<Rightarrow> to_utf8_loop repl v1 out1 sq1 s)
        else if eoc then to_utf8_loop repl v1 (out @ [repl]) [] s
        else to_utf8_recover repl v1 (out @ [repl]) s)"

definition to_utf8 :: "string \<Rightarrow> char \<Rightarrow> nat \<Rightarrow> nat list \<Rightarrow> string" where
  "to_utf8 s repl ts wl = to_utf8_loop repl (new_validator ts wl) [] [] s"

end
