(* ===== verification/Utf8_Properties.thy ===== *)
theory Utf8_Properties
  imports Utf8
begin

text \<open>
  The validator accepts exactly the byte strings that encode sequences of allowed Unicode scalar values,
  in the shortest form, and the codepoint it builds is the one encoded. The replacement of invalid bytes
  always gives a valid string and keeps valid ones.
\<close>

section \<open>The encoding\<close>

definition scalar :: "nat \<Rightarrow> bool" where
  "scalar c \<longleftrightarrow> c \<le> 0x10FFFF \<and> \<not> (0xD800 \<le> c \<and> c \<le> 0xDFFF)"

definition encode_bytes :: "nat \<Rightarrow> nat list" where
  "encode_bytes c =
     (if c < 0x80 then [c]
      else if c < 0x800 then [0xC0 + c div 64, 0x80 + c mod 64]
      else if c < 0x10000 then [0xE0 + c div 4096, 0x80 + c div 64 mod 64, 0x80 + c mod 64]
      else [0xF0 + c div 262144, 0x80 + c div 4096 mod 64, 0x80 + c div 64 mod 64, 0x80 + c mod 64])"

definition utf8_encode :: "nat \<Rightarrow> string" where
  "utf8_encode c = map char_of (encode_bytes c)"

section \<open>Bits\<close>

lemma and_masks:
  fixes b :: nat
  shows "b AND 0x1F = b mod 32" "b AND 0xF = b mod 16" "b AND 0x7 = b mod 8" "b AND 0x3F = b mod 64"
  using take_bit_eq_mask [of 5 b] take_bit_eq_mask [of 4 b] take_bit_eq_mask [of 3 b] take_bit_eq_mask [of 6 b]
  by (simp_all add: take_bit_eq_mod mask_eq_exp_minus_1)

lemma append_bits: "push_bit 6 c OR (b AND 0x3F) = 64 * c + b mod 64" for b c :: nat
proof -
  have "push_bit 6 c AND (b mod 64) = 0"
    unfolding take_bit_eq_mod [of 6 b, simplified, symmetric] by (intro bit_eqI) (auto simp: bit_simps)
  then have "push_bit 6 c + b mod 64 = push_bit 6 c OR (b mod 64)"
    by (rule disjunctive_add_eq_or)
  then show ?thesis by (simp add: and_masks push_bit_eq_mult)
qed

section \<open>Steps of the validator\<close>

abbreviation allowed :: "utf8_validator \<Rightarrow> nat \<Rightarrow> bool" where
  "allowed v \<equiv> codepoint_allowed (v_types v) (v_whitelist v)"

lemma validate_ascii:
  assumes "seq_index v = 0" "b < 0x80"
  shows "\<exists>w. utf8_validate v (char_of b) =
    ((allowed v b, True), w, v\<lparr>seq_size := 1, v_codepoint := b, seq_index := 0\<rparr>)"
  using assms by (simp add: utf8_validate_def seq_start_def validate_byte_def check_byte_def Let_def)

lemma validate_first:
  assumes "seq_index v = 0" "0x80 \<le> b" "b < 256"
  shows "\<exists>w v'. utf8_validate v (char_of b) =
    (let n = (if b < 0xE0 then 2 else if b < 0xF0 then 3 else 4);
         m = (if b < 0xE0 then 0x20 else if b < 0xF0 then 0x10 else 8) in
     case second_range n b of
       Some r \<Rightarrow> ((True, False), None,
         v\<lparr>seq_size := n, v_codepoint := b mod m, seq_index := 1, byte2_range := r\<rparr>)
     | None \<Rightarrow> ((False, False), w, v'))"
  using assms
  by (auto simp: utf8_validate_def seq_start_def validate_byte_def check_byte_def Let_def and_masks
      second_range_def in_byte_range_def split: option.splits)

lemma validate_next:
  assumes "seq_index v = i" "0 < i" "i < seq_size v" "b < 256"
  shows "\<exists>w v'. utf8_validate v (char_of b) =
    (if \<not> in_byte_range b (if i = 1 then byte2_range v else (0x80, 0xBF)) then ((False, False), w, v')
     else if i + 1 \<noteq> seq_size v
     then ((True, False), None, v\<lparr>v_codepoint := 64 * v_codepoint v + b mod 64, seq_index := i + 1\<rparr>)
     else ((allowed v (64 * v_codepoint v + b mod 64), True), w,
       v\<lparr>v_codepoint := 64 * v_codepoint v + b mod 64, seq_index := 0\<rparr>))"
  using assms
  by (auto simp: utf8_validate_def validate_byte_def check_byte_def Let_def append_bits)


section \<open>Sequences\<close>

text \<open>The state after the bytes of exactly one sequence, all accepted.\<close>

fun seq_run :: "utf8_validator \<Rightarrow> string \<Rightarrow> utf8_validator option" where
  "seq_run v [] = None"
| "seq_run v (c # s) =
     (case utf8_validate v c of ((valid, eoc), _, v1) \<Rightarrow>
        if \<not> valid then None
        else if eoc then (if s = [] then Some v1 else None)
        else seq_run v1 s)"

definition same_rules :: "utf8_validator \<Rightarrow> utf8_validator \<Rightarrow> bool" where
  "same_rules v w \<longleftrightarrow> v_types v = v_types w \<and> v_whitelist v = v_whitelist w"

definition ready :: "utf8_validator \<Rightarrow> utf8_validator \<Rightarrow> bool" where
  "ready v w \<longleftrightarrow> seq_index w = 0 \<and> same_rules v w"

lemma char_of_ord [simp]: "char_of (ord c) = c"
  by simp

text \<open>One byte at a time: a sequence with its last byte still to come, at byte \<open>i\<close> of \<open>n\<close>.\<close>

lemma seq_run_next:
  assumes "seq_index v = i" "0 < i" "i < seq_size v"
  shows "seq_run v (c # s) =
    (if \<not> in_byte_range (ord c) (if i = 1 then byte2_range v else (0x80, 0xBF)) then None
     else if i + 1 \<noteq> seq_size v
     then seq_run (v\<lparr>v_codepoint := 64 * v_codepoint v + ord c mod 64, seq_index := i + 1\<rparr>) s
     else if allowed v (64 * v_codepoint v + ord c mod 64) \<and> s = []
     then Some (v\<lparr>v_codepoint := 64 * v_codepoint v + ord c mod 64, seq_index := 0\<rparr>)
     else None)"
  using validate_next [OF assms nat_of_char_less_256 [of c]]
  by (cases "in_byte_range (ord c) (if i = 1 then byte2_range v else (0x80, 0xBF))"; cases "i + 1 = seq_size v"; auto)

lemma seq_run_first:
  assumes "seq_index v = 0"
  shows "seq_run v (c # s) =
    (if ord c < 0x80
     then (if allowed v (ord c) \<and> s = []
           then Some (v\<lparr>seq_size := 1, v_codepoint := ord c, seq_index := 0\<rparr>) else None)
     else (let n = (if ord c < 0xE0 then 2 else if ord c < 0xF0 then 3 else 4);
               m = (if ord c < 0xE0 then 0x20 else if ord c < 0xF0 then 0x10 else 8) in
           case second_range n (ord c) of
             Some r \<Rightarrow> seq_run (v\<lparr>seq_size := n, v_codepoint := ord c mod m, seq_index := 1, byte2_range := r\<rparr>) s
           | None \<Rightarrow> None))"
proof (cases "ord c < 0x80")
  case True
  then show ?thesis using validate_ascii [OF assms True] by auto
next
  case False
  then show ?thesis
    using validate_first [OF assms _ nat_of_char_less_256 [of c]] by (auto simp: Let_def split: option.splits)
qed


declare seq_run.simps(2) [simp del]

text \<open>The digits of a codepoint in base 64, for sequences of three and four bytes.\<close>

lemma digits3:
  obtains a b e where "c div 4096 = a" "c div 64 mod 64 = b" "c mod 64 = e" "b < 64" "e < 64"
    "64 * (64 * a + b) + e = (c :: nat)"
proof (rule that [OF refl refl refl])
  have "64 * (c div 4096) + c div 64 mod 64 = c div 64"
    using mult_div_mod_eq [of 64 "c div 64"] div_mult2_eq [of c 64 64] by simp
  then show "64 * (64 * (c div 4096) + c div 64 mod 64) + c mod 64 = c" by simp
qed simp_all

lemma digits4:
  obtains d a b e where "c div 262144 = d" "c div 4096 mod 64 = a" "c div 64 mod 64 = b" "c mod 64 = e"
    "a < 64" "b < 64" "e < 64" "64 * (64 * (64 * d + a) + b) + e = (c :: nat)"
proof (rule that [OF refl refl refl refl])
  have "64 * (c div 262144) + c div 4096 mod 64 = c div 4096"
    using mult_div_mod_eq [of 64 "c div 4096"] div_mult2_eq [of c 4096 64] by simp
  moreover have "64 * (c div 4096) + c div 64 mod 64 = c div 64"
    using mult_div_mod_eq [of 64 "c div 64"] div_mult2_eq [of c 64 64] by simp
  ultimately show "64 * (64 * (64 * (c div 262144) + c div 4096 mod 64) + c div 64 mod 64) + c mod 64 = c" by simp
qed simp_all

lemmas seq_run_simps = seq_run_first seq_run_next second_range_def in_byte_range_def Let_def ready_def same_rules_def

lemma mod_64 [simp]: "e < 64 \<Longrightarrow> (128 + e) mod 64 = (e :: nat)"
  using mod_mult_self2 [of e 64 2] by (simp add: add.commute)

lemma mod_first [simp]:
  "x < 32 \<Longrightarrow> (192 + x) mod 32 = (x :: nat)" "x < 16 \<Longrightarrow> (224 + x) mod 16 = x" "x < 8 \<Longrightarrow> (240 + x) mod 8 = x"
  using mod_mult_self2 [of x 32 6] mod_mult_self2 [of x 16 14] mod_mult_self2 [of x 8 30] by (simp_all add: add.commute)

lemma div_mod_64 [simp]:
  fixes q e :: nat
  assumes "e < 64"
  shows "(64 * q + e) div 64 = q" "(64 * q + e) mod 64 = e"
  using assms by simp_all

lemma encode_2: "2 \<le> a \<Longrightarrow> a < 32 \<Longrightarrow> e < 64 \<Longrightarrow> utf8_encode (64 * a + e) = map char_of [192 + a, 128 + e]"
  by (simp add: utf8_encode_def encode_bytes_def)

lemma encode_3:
  assumes "a < 16" "b < 64" "e < 64" "a = 0 \<Longrightarrow> 32 \<le> b"
  shows "utf8_encode (64 * (64 * a + b) + e) = map char_of [224 + a, 128 + b, 128 + e]"
proof -
  let ?c = "64 * (64 * a + b) + e"
  have "?c div 4096 = a" using div_mult2_eq [of ?c 64 64] assms by simp
  moreover have "0x800 \<le> ?c" "?c < 0x10000" using assms by (cases "a = 0"; simp)+
  moreover have "?c div 64 mod 64 = b" "?c mod 64 = e" by (simp_all only: div_mod_64 assms)
  ultimately show ?thesis by (simp add: utf8_encode_def encode_bytes_def)
qed

lemma encode_4:
  assumes "d < 5" "a < 64" "b < 64" "e < 64" "d = 0 \<Longrightarrow> 16 \<le> a"
  shows "utf8_encode (64 * (64 * (64 * d + a) + b) + e) = map char_of [240 + d, 128 + a, 128 + b, 128 + e]"
proof -
  let ?c = "64 * (64 * (64 * d + a) + b) + e"
  have e: "?c div 4096 = 64 * d + a" using div_mult2_eq [of ?c 64 64] assms by simp
  then have "?c div 262144 = d" using div_mult2_eq [of ?c 4096 64] assms by simp
  moreover have "?c div 4096 mod 64 = a" unfolding e using assms by simp
  moreover have "0x10000 \<le> ?c" using assms by (cases "d = 0"; simp)
  moreover have "?c div 64 mod 64 = b" "?c mod 64 = e" by (simp_all only: div_mod_64 assms)
  ultimately show ?thesis by (simp add: utf8_encode_def encode_bytes_def)
qed

lemma second_ranges:
  "2 \<le> a \<Longrightarrow> a < 32 \<Longrightarrow> second_range 2 (192 + a) = Some (0x80, 0xBF)"
  "a < 16 \<Longrightarrow> second_range 3 (224 + a) = Some (if a = 0 then 0xA0 else 0x80, if a = 13 then 0x9F else 0xBF)"
  "a < 5 \<Longrightarrow> second_range 4 (240 + a) = Some (if a = 0 then 0x90 else 0x80, if a = 4 then 0x8F else 0xBF)"
  by (auto simp: second_range_def in_byte_range_def)

text \<open>The state after the first byte of a sequence of two, three and four bytes.\<close>

lemma seq_run_first_2:
  assumes "seq_index v = 0" "2 \<le> a" "a < 32"
  shows "seq_run v (char_of (192 + a) # s) = seq_run (v\<lparr>seq_size := 2, v_codepoint := a, seq_index := 1,
    byte2_range := (0x80, 0xBF)\<rparr>) s"
  using assms by (simp add: seq_run_first Let_def second_ranges)

lemma seq_run_first_3:
  assumes "seq_index v = 0" "a < 16"
  shows "seq_run v (char_of (224 + a) # s) = seq_run (v\<lparr>seq_size := 3, v_codepoint := a, seq_index := 1,
    byte2_range := (if a = 0 then 0xA0 else 0x80, if a = 13 then 0x9F else 0xBF)\<rparr>) s"
  using assms second_ranges(2) [OF assms(2)] by (simp add: seq_run_first Let_def del: mod_mult_self1_is_0)

lemma seq_run_first_4:
  assumes "seq_index v = 0" "a < 5"
  shows "seq_run v (char_of (240 + a) # s) = seq_run (v\<lparr>seq_size := 4, v_codepoint := a, seq_index := 1,
    byte2_range := (if a = 0 then 0x90 else 0x80, if a = 4 then 0x8F else 0xBF)\<rparr>) s"
  using assms second_ranges(3) [OF assms(2)] by (simp add: seq_run_first Let_def)

text \<open>A further byte, as an offset within its range.\<close>

lemma seq_run_middle:
  assumes "seq_index v = i" "0 < i" "i + 1 < seq_size v" "e < 64"
    "in_byte_range (128 + e) (if i = 1 then byte2_range v else (0x80, 0xBF))"
  shows "seq_run v (char_of (128 + e) # s) = seq_run (v\<lparr>v_codepoint := 64 * v_codepoint v + e, seq_index := i + 1\<rparr>) s"
  using assms by (simp add: seq_run_next)

lemma seq_run_last:
  assumes "seq_index v = i" "0 < i" "i + 1 = seq_size v" "e < 64"
    "in_byte_range (128 + e) (if i = 1 then byte2_range v else (0x80, 0xBF))" "allowed v (64 * v_codepoint v + e)"
  shows "seq_run v [char_of (128 + e)] = Some (v\<lparr>v_codepoint := 64 * v_codepoint v + e, seq_index := 0\<rparr>)"
  using assms by (auto simp: seq_run_next)

lemma seq_run_encode:
  assumes "seq_index v = 0" "scalar c" "allowed v c"
  shows "\<exists>v'. seq_run v (utf8_encode c) = Some v' \<and> ready v v' \<and> v_codepoint v' = c"
proof -
  have "c \<le> 0x10FFFF" using assms(2) by (simp add: scalar_def)
  then consider "c < 0x80" | "0x80 \<le> c" "c < 0x800" | "0x800 \<le> c" "c < 0x10000" | "0x10000 \<le> c" "c \<le> 0x10FFFF"
    by linarith
  then show ?thesis
  proof cases
    case 1
    with assms show ?thesis
      by (simp add: utf8_encode_def encode_bytes_def seq_run_simps)
  next
    case 2
    define a e where "a = c div 64" and "e = c mod 64"
    then have a: "2 \<le> a" "a < 32" "e < 64" and c: "64 * a + e = c" using 2 by auto
    with assms show ?thesis
      unfolding encode_2 [OF a, unfolded c]
      by (simp add: seq_run_first_2 seq_run_last in_byte_range_def ready_def same_rules_def)
  next
    case 3
    obtain a b e where abe: "c div 4096 = a" "c div 64 mod 64 = b" "c mod 64 = e" "b < 64" "e < 64"
      "64 * (64 * a + b) + e = c" by (rule digits3)
    have a: "a < 16" "a = 0 \<Longrightarrow> 32 \<le> b" "a = 13 \<Longrightarrow> b < 32"
      using 3 abe assms(2) by (auto simp: scalar_def)
    then have "in_byte_range (128 + b) (if a = 0 then 0xA0 else 0x80, if a = 13 then 0x9F else 0xBF)"
      using abe(4) by (auto simp: in_byte_range_def)
    moreover have "in_byte_range (128 + e) (0x80, 0xBF)" using abe(5) by (simp add: in_byte_range_def)
    moreover have enc: "utf8_encode c = map char_of [224 + a, 128 + b, 128 + e]"
      unfolding abe(6) [symmetric] by (rule encode_3 [OF a(1) abe(4,5) a(2)])
    ultimately show ?thesis
      unfolding enc using a(1) abe(4-6) assms
      by (simp add: seq_run_first_3 seq_run_middle seq_run_last ready_def same_rules_def del: distrib_left_numeral)
  next
    case 4
    obtain d a b e where abe: "c div 262144 = d" "c div 4096 mod 64 = a" "c div 64 mod 64 = b" "c mod 64 = e"
      "a < 64" "b < 64" "e < 64" "64 * (64 * (64 * d + a) + b) + e = c" by (rule digits4)
    have a: "d < 5" "d = 0 \<Longrightarrow> 16 \<le> a" "d = 4 \<Longrightarrow> a < 16"
      using 4 abe(5-8) by auto
    then have "in_byte_range (128 + a) (if d = 0 then 0x90 else 0x80, if d = 4 then 0x8F else 0xBF)"
      using abe(5) by (auto simp: in_byte_range_def)
    moreover have "in_byte_range (128 + b) (0x80, 0xBF)" "in_byte_range (128 + e) (0x80, 0xBF)"
      using abe(6,7) by (simp_all add: in_byte_range_def)
    moreover have enc: "utf8_encode c = map char_of [240 + d, 128 + a, 128 + b, 128 + e]"
      unfolding abe(8) [symmetric] by (rule encode_4 [OF a(1) abe(5-7) a(2)])
    ultimately show ?thesis
      unfolding enc using a(1) abe(5-8) assms
      by (simp add: seq_run_first_4 seq_run_middle seq_run_last ready_def same_rules_def del: distrib_left_numeral)
  qed
qed

text \<open>A byte within a range, as an offset from its start.\<close>

lemma byte_offset:
  assumes "l \<le> ord c" "ord c \<le> h"
  obtains x where "c = char_of (l + x)" "ord c = l + x" "x \<le> h - l"
  using assms that [of "ord c - l"] by simp

lemma seq_run_nextD:
  assumes "seq_run v s = Some v'" "seq_index v = i" "0 < i" "i < seq_size v"
  shows "\<exists>c t. s = c # t \<and> in_byte_range (ord c) (if i = 1 then byte2_range v else (0x80, 0xBF)) \<and>
    (if i + 1 \<noteq> seq_size v
     then seq_run (v\<lparr>v_codepoint := 64 * v_codepoint v + ord c mod 64, seq_index := i + 1\<rparr>) t = Some v'
     else allowed v (64 * v_codepoint v + ord c mod 64) \<and> t = [] \<and>
       v' = v\<lparr>v_codepoint := 64 * v_codepoint v + ord c mod 64, seq_index := 0\<rparr>)"
  using assms by (cases s) (auto simp: seq_run_next split: if_splits)


text \<open>The same with the byte as an offset.\<close>

lemma seq_run_nextE:
  assumes "seq_run v s = Some v'" "seq_index v = i" "0 < i" "i < seq_size v"
    "i = 1 \<Longrightarrow> 0x80 \<le> fst (byte2_range v)" "i = 1 \<Longrightarrow> snd (byte2_range v) \<le> 0xBF"
  obtains e t where "s = char_of (128 + e) # t" "e < 64"
    "in_byte_range (128 + e) (if i = 1 then byte2_range v else (0x80, 0xBF))"
    "i + 1 \<noteq> seq_size v \<Longrightarrow> seq_run (v\<lparr>v_codepoint := 64 * v_codepoint v + e, seq_index := i + 1\<rparr>) t = Some v'"
    "i + 1 = seq_size v \<Longrightarrow> allowed v (64 * v_codepoint v + e) \<and> t = [] \<and>
       v' = v\<lparr>v_codepoint := 64 * v_codepoint v + e, seq_index := 0\<rparr>"
proof -
  obtain c t where c: "s = c # t" "in_byte_range (ord c) (if i = 1 then byte2_range v else (0x80, 0xBF))"
    "if i + 1 \<noteq> seq_size v
     then seq_run (v\<lparr>v_codepoint := 64 * v_codepoint v + ord c mod 64, seq_index := i + 1\<rparr>) t = Some v'
     else allowed v (64 * v_codepoint v + ord c mod 64) \<and> t = [] \<and>
       v' = v\<lparr>v_codepoint := 64 * v_codepoint v + ord c mod 64, seq_index := 0\<rparr>"
    using seq_run_nextD [OF assms(1-4)] by blast
  have "128 \<le> ord c" "ord c \<le> 191"
    using c(2) assms(5,6) by (cases "i = 1"; auto simp: in_byte_range_def)+
  then obtain e where e: "c = char_of (128 + e)" "ord c = 128 + e" "e \<le> 191 - 128" by (rule byte_offset)
  then have "e < 64" by simp
  with c e that [of e t] show thesis by (auto split: if_splits)
qed

lemma seq_run_decode:
  assumes "seq_index v = 0" "seq_run v s = Some v'"
  shows "s = utf8_encode (v_codepoint v') \<and> scalar (v_codepoint v') \<and> allowed v (v_codepoint v') \<and> ready v v'"
proof -
  obtain c1 s1 where s: "s = c1 # s1" using assms(2) by (cases s) auto
  note run = assms(2) [unfolded s seq_run_first [OF assms(1)]]
  consider "ord c1 < 0x80" | "0xC2 \<le> ord c1" "ord c1 \<le> 0xDF" | "0xE0 \<le> ord c1" "ord c1 \<le> 0xEF"
    | "0xF0 \<le> ord c1" "ord c1 \<le> 0xF4"
    using run by (auto simp: Let_def second_range_def in_byte_range_def split: if_splits)
  then show ?thesis
  proof cases
    case 1
    with run s show ?thesis
      by (auto simp: utf8_encode_def encode_bytes_def ready_def same_rules_def scalar_def split: if_splits)
  next
    case 2
    then have "192 \<le> ord c1" by simp
    then obtain a where a: "c1 = char_of (192 + a)" "ord c1 = 192 + a" "a \<le> 223 - 192"
      using 2(2) by (rule byte_offset)
    with 2 have a2: "2 \<le> a" "a < 32" by simp_all
    from assms(2) have r: "seq_run (v\<lparr>seq_size := 2, v_codepoint := a, seq_index := 1,
        byte2_range := (0x80, 0xBF)\<rparr>) s1 = Some v'"
      unfolding s a(1) seq_run_first_2 [OF assms(1) a2] .
    obtain e t where e: "s1 = char_of (128 + e) # t" "e < 64"
      "allowed v (64 * a + e) \<and> t = [] \<and> v' = v\<lparr>seq_size := 2, v_codepoint := 64 * a + e, seq_index := 0,
         byte2_range := (0x80, 0xBF)\<rparr>"
      by (rule seq_run_nextE [OF r]) auto
    then show ?thesis
      using encode_2 [OF a2 e(2)] a2 by (simp add: s a(1) ready_def same_rules_def scalar_def)
  next
    case 3
    then obtain a where a: "c1 = char_of (224 + a)" "ord c1 = 224 + a" "a \<le> 239 - 224"
      by (rule byte_offset)
    then have a2: "a < 16" by simp
    from assms(2) have r: "seq_run (v\<lparr>seq_size := 3, v_codepoint := a, seq_index := 1,
        byte2_range := (if a = 0 then 0xA0 else 0x80, if a = 13 then 0x9F else 0xBF)\<rparr>) s1 = Some v'"
      unfolding s a(1) seq_run_first_3 [OF assms(1) a2] .
    obtain b s2 where b: "s1 = char_of (128 + b) # s2" "b < 64"
      "in_byte_range (128 + b) (if a = 0 then 0xA0 else 0x80, if a = 13 then 0x9F else 0xBF)"
      "seq_run (v\<lparr>seq_size := 3, byte2_range := (if a = 0 then 0xA0 else 0x80, if a = 13 then 0x9F else 0xBF),
        v_codepoint := 64 * a + b, seq_index := Suc (Suc 0)\<rparr>) s2 = Some v'"
      by (rule seq_run_nextE [OF r]) auto
    obtain e t where e: "s2 = char_of (128 + e) # t" "e < 64"
      "allowed v (64 * (64 * a + b) + e) \<and> t = [] \<and> v' = v\<lparr>seq_size := 3, v_codepoint := 64 * (64 * a + b) + e,
         seq_index := 0, byte2_range := (if a = 0 then 0xA0 else 0x80, if a = 13 then 0x9F else 0xBF)\<rparr>"
      by (rule seq_run_nextE [OF b(4)]) auto
    have range: "a = 0 \<Longrightarrow> 32 \<le> b" "a = 13 \<Longrightarrow> b < 32" using b(2,3) by (auto simp: in_byte_range_def)
    then have "scalar (64 * (64 * a + b) + e)"
      using a2 b(2) e(2) by (cases "a < 13"; cases "a = 13") (auto simp: scalar_def)
    then show ?thesis
      using encode_3 [OF a2 b(2) e(2) range(1)] e
      by (simp add: s a(1) b(1) ready_def same_rules_def del: distrib_left_numeral)
  next
    case 4
    then obtain d where a: "c1 = char_of (240 + d)" "ord c1 = 240 + d" "d \<le> 244 - 240"
      by (rule byte_offset)
    then have a2: "d < 5" by simp
    let ?r = "(if d = 0 then 0x90 else 0x80, if d = 4 then 0x8F else 0xBF)"
    from assms(2) have r: "seq_run (v\<lparr>seq_size := 4, v_codepoint := d, seq_index := 1, byte2_range := ?r\<rparr>) s1 = Some v'"
      unfolding s a(1) seq_run_first_4 [OF assms(1) a2] .
    obtain f s2 where f: "s1 = char_of (128 + f) # s2" "f < 64" "in_byte_range (128 + f) ?r"
      "seq_run (v\<lparr>seq_size := 4, byte2_range := ?r, v_codepoint := 64 * d + f, seq_index := Suc (Suc 0)\<rparr>) s2 = Some v'"
      by (rule seq_run_nextE [OF r]) auto
    obtain b s3 where b: "s2 = char_of (128 + b) # s3" "b < 64"
      "seq_run (v\<lparr>seq_size := 4, byte2_range := ?r, v_codepoint := 64 * (64 * d + f) + b,
         seq_index := Suc (Suc (Suc 0))\<rparr>) s3 = Some v'"
      by (rule seq_run_nextE [OF f(4)]) auto
    obtain e t where e: "s3 = char_of (128 + e) # t" "e < 64"
      "allowed v (64 * (64 * (64 * d + f) + b) + e) \<and> t = [] \<and>
       v' = v\<lparr>seq_size := 4, v_codepoint := 64 * (64 * (64 * d + f) + b) + e, seq_index := 0, byte2_range := ?r\<rparr>"
      by (rule seq_run_nextE [OF b(3)]) auto
    have range: "d = 0 \<Longrightarrow> 16 \<le> f" "d = 4 \<Longrightarrow> f < 16" using f(2,3) by (auto simp: in_byte_range_def)
    then have "scalar (64 * (64 * (64 * d + f) + b) + e)"
      using a2 f(2) b(2) e(2) by (cases "d = 0"; cases "d = 4") (auto simp: scalar_def)
    then show ?thesis
      using encode_4 [OF a2 f(2) b(2) e(2) range(1)] e
      by (simp add: s a(1) f(1) b(1) ready_def same_rules_def del: distrib_left_numeral)
  qed
qed

section \<open>Valid strings\<close>

definition valid_utf8 :: "nat \<Rightarrow> nat list \<Rightarrow> nat list \<Rightarrow> bool" where
  "valid_utf8 ts wl cps \<longleftrightarrow> list_all (\<lambda>c. scalar c \<and> codepoint_allowed ts wl c) cps"

lemma loop_seq:
  "seq_run v s = Some v' \<Longrightarrow> utf8_length_loop v l r (s @ t) = utf8_length_loop v' True (r + 1) t"
  by (induction s arbitrary: v l) (auto simp: seq_run.simps(2) split: prod.splits if_splits)

lemma loop_seqE:
  "utf8_length_loop v l r s = Inr n \<Longrightarrow> s \<noteq> [] \<Longrightarrow>
     \<exists>s1 s2 v'. s = s1 @ s2 \<and> seq_run v s1 = Some v' \<and> utf8_length_loop v' True (r + 1) s2 = Inr n"
proof (induction s arbitrary: v l)
  case (Cons c s)
  obtain valid eoc w v1 where u: "utf8_validate v c = ((valid, eoc), w, v1)" by (metis prod.exhaust)
  with Cons.prems have valid by (cases valid) (auto split: option.splits)
  show ?case
  proof (cases eoc)
    case True
    with u \<open>valid\<close> Cons.prems show ?thesis
      by (intro exI [of _ "[c]"] exI [of _ s]) (simp add: seq_run.simps(2))
  next
    case False
    with u \<open>valid\<close> Cons.prems have l: "utf8_length_loop v1 False r s = Inr n" "s \<noteq> []"
      by (auto intro: ccontr [of "s \<noteq> []"])
    from Cons.IH [OF l] obtain s1 s2 v' where i: "s = s1 @ s2" "seq_run v1 s1 = Some v'"
      "utf8_length_loop v' True (r + 1) s2 = Inr n" by blast
    with u \<open>valid\<close> False show ?thesis
      by (intro exI [of _ "c # s1"] exI [of _ s2] exI [of _ v']) (simp add: seq_run.simps(2))
  qed
qed simp

lemma allowed_ready: "ready v w \<Longrightarrow> allowed w = allowed v"
  by (simp add: ready_def same_rules_def)

lemma loop_encoded:
  assumes "seq_index v = 0" "list_all (\<lambda>c. scalar c \<and> allowed v c) cps"
  shows "utf8_length_loop v True r (concat (map utf8_encode cps)) = Inr (r + length cps)"
  using assms
proof (induction cps arbitrary: v r)
  case (Cons c cps)
  then obtain v' where v': "seq_run v (utf8_encode c) = Some v'" "ready v v'"
    using seq_run_encode [of v c] by auto
  with Cons.prems have "utf8_length_loop v' True (r + 1) (concat (map utf8_encode cps)) = Inr (r + 1 + length cps)"
    by (intro Cons.IH) (auto simp: ready_def allowed_ready [OF v'(2)])
  with v' show ?case by (simp add: loop_seq)
qed simp

lemma loop_decoded:
  assumes "utf8_length_loop v l r s = Inr n" "l \<or> s \<noteq> []" "seq_index v = 0"
  shows "\<exists>cps. s = concat (map utf8_encode cps) \<and> n = r + length cps \<and> list_all (\<lambda>c. scalar c \<and> allowed v c) cps"
  using assms
proof (induction s arbitrary: v l r rule: measure_induct_rule [of length])
  case (less s)
  show ?case
  proof (cases "s = []")
    case True
    with less.prems show ?thesis by (intro exI [of _ "[]"]) auto
  next
    case False
    then obtain s1 s2 v' where s: "s = s1 @ s2" "seq_run v s1 = Some v'"
      "utf8_length_loop v' True (r + 1) s2 = Inr n" using loop_seqE [OF less.prems(1)] by blast
    then have "s1 \<noteq> []" by auto
    note d = seq_run_decode [OF less.prems(3) s(2)]
    have "seq_index v' = 0" using d by (simp add: ready_def)
    moreover have "length s2 < length s" using s \<open>s1 \<noteq> []\<close> by simp
    ultimately obtain cps where "s2 = concat (map utf8_encode cps)" "n = r + 1 + length cps"
      "list_all (\<lambda>c. scalar c \<and> allowed v' c) cps" using less.IH [OF _ s(3)] by auto
    with d s show ?thesis
      by (intro exI [of _ "v_codepoint v' # cps"]) (auto simp: ready_def same_rules_def)
  qed
qed

lemma utf8_encode_not_Nil [simp]: "utf8_encode c \<noteq> []"
  by (simp add: utf8_encode_def encode_bytes_def)

lemma concat_encode_Nil [simp]: "concat (map utf8_encode cps) = [] \<longleftrightarrow> cps = []"
  by (cases cps) auto

lemma length_impl_iff:
  "utf8_length_impl s ts wl = Inr n \<longleftrightarrow>
     (\<exists>cps. s = concat (map utf8_encode cps) \<and> length cps = n \<and> valid_utf8 ts wl cps)"
proof (cases "s = []")
  case True
  then show ?thesis by (auto simp: utf8_length_impl_def valid_utf8_def)
next
  case False
  let ?v = "new_validator ts wl"
  have v: "seq_index ?v = 0" "v_types ?v = ts" "v_whitelist ?v = wl" by (simp_all add: new_validator_def)
  have any: "utf8_length_loop ?v l 0 s = utf8_length_loop ?v l' 0 s" for l l'
    using False by (cases s) simp_all
  show ?thesis
    using False loop_decoded [of ?v False 0 s n] loop_encoded [OF v(1), of _ 0] any [of False True]
    by (auto simp: utf8_length_impl_def valid_utf8_def v)
qed

section \<open>Replacement of invalid bytes\<close>

definition valid_string :: "nat \<Rightarrow> nat list \<Rightarrow> string \<Rightarrow> bool" where
  "valid_string ts wl s \<longleftrightarrow> (\<exists>cps. s = concat (map utf8_encode cps) \<and> valid_utf8 ts wl cps)"

lemma valid_string_Nil [simp]: "valid_string ts wl []"
  unfolding valid_string_def by (rule exI [of _ "[]"]) (simp add: valid_utf8_def)

lemma valid_string_append [intro]:
  "valid_string ts wl s \<Longrightarrow> valid_string ts wl t \<Longrightarrow> valid_string ts wl (s @ t)"
proof -
  assume "valid_string ts wl s" "valid_string ts wl t"
  then obtain a b where "s = concat (map utf8_encode a)" "valid_utf8 ts wl a"
    "t = concat (map utf8_encode b)" "valid_utf8 ts wl b" unfolding valid_string_def by blast
  then show ?thesis unfolding valid_string_def by (intro exI [of _ "a @ b"]) (simp add: valid_utf8_def)
qed

lemma valid_string_encode: "scalar c \<Longrightarrow> codepoint_allowed ts wl c \<Longrightarrow> valid_string ts wl (utf8_encode c)"
  unfolding valid_string_def by (rule exI [of _ "[c]"]) (simp add: valid_utf8_def)

lemma encode_ascii: "ord c < 0x80 \<Longrightarrow> utf8_encode (ord c) = [c]"
  by (simp add: utf8_encode_def encode_bytes_def)

lemma valid_string_ascii: "ord c < 0x80 \<Longrightarrow> codepoint_allowed ts wl (ord c) \<Longrightarrow> valid_string ts wl [c]"
  using valid_string_encode [of "ord c"] by (simp add: encode_ascii scalar_def)

lemma valid_string_replaced:
  "ord c < 0x80 \<Longrightarrow> codepoint_allowed ts wl (ord c) \<Longrightarrow> valid_string ts wl (map (\<lambda>_. c) s)"
proof (induction s)
  case (Cons x s)
  then show ?case using valid_string_append [OF valid_string_ascii, of c ts wl "map (\<lambda>_. c) s"] by simp
qed simp

lemma validate_byte_state:
  assumes "validate_byte v b = ((valid, eoc), w, v1)"
  shows "same_rules v v1 \<and> (eoc \<longrightarrow> seq_index v1 = 0) \<and> (valid \<longrightarrow> \<not> eoc \<longrightarrow> seq_index v1 \<noteq> 0)"
  using assms
  by (auto simp: validate_byte_def check_byte_def Let_def same_rules_def split: prod.splits if_splits option.splits)

lemma validate_state:
  assumes "utf8_validate v c = ((valid, eoc), w, v1)"
  shows "same_rules v v1" "eoc \<Longrightarrow> seq_index v1 = 0" "valid \<Longrightarrow> \<not> eoc \<Longrightarrow> seq_index v1 \<noteq> 0"
  using assms validate_byte_state [of _ _ valid eoc w v1]
  by (fastforce simp: utf8_validate_def Let_def same_rules_def split: if_splits option.splits prod.splits)+

text \<open>The bytes \<open>sq\<close> are the first bytes of the sequence that the validator is reading.\<close>

definition pending :: "utf8_validator \<Rightarrow> string \<Rightarrow> bool" where
  "pending v sq \<longleftrightarrow> (\<exists>v0. ready v v0 \<and> (\<forall>t v'. seq_run v t = Some v' \<longrightarrow> seq_run v0 (sq @ t) = Some v'))"

lemma pending_start: "seq_index v = 0 \<Longrightarrow> pending v []"
  unfolding pending_def by (rule exI [of _ v]) (simp add: ready_def same_rules_def)

lemma pending_more:
  assumes "pending v sq" "utf8_validate v c = ((True, False), w, v1)"
  shows "pending v1 (sq @ [c])"
proof -
  from assms(1) obtain v0 where v0: "ready v v0" "\<And>t v'. seq_run v t = Some v' \<Longrightarrow> seq_run v0 (sq @ t) = Some v'"
    unfolding pending_def by blast
  have "ready v1 v0" using v0(1) validate_state(1) [OF assms(2)] by (simp add: ready_def same_rules_def)
  moreover have "seq_run v (c # t) = seq_run v1 t" for t using assms(2) by (simp add: seq_run.simps(2))
  ultimately show ?thesis
    unfolding pending_def using v0(2) by (intro exI [of _ v0]) (metis append.assoc append_Cons append_Nil)
qed

lemma pending_last:
  assumes "pending v sq" "utf8_validate v c = ((True, True), w, v1)"
  shows "valid_string (v_types v) (v_whitelist v) (sq @ [c])"
proof -
  from assms(1) obtain v0 where v0: "ready v v0" "\<And>t v'. seq_run v t = Some v' \<Longrightarrow> seq_run v0 (sq @ t) = Some v'"
    unfolding pending_def by blast
  have "seq_run v [c] = Some v1" using assms(2) by (simp add: seq_run.simps(2))
  from v0(2) [OF this] have "seq_run v0 (sq @ [c]) = Some v1" .
  from seq_run_decode [OF _ this] v0(1) show ?thesis
    by (auto simp: ready_def same_rules_def intro: valid_string_encode)
qed


definition rules_are :: "nat \<Rightarrow> nat list \<Rightarrow> utf8_validator \<Rightarrow> bool" where
  "rules_are ts wl v \<longleftrightarrow> v_types v = ts \<and> v_whitelist v = wl"

lemma validate_rules: "utf8_validate v c = ((valid, eoc), w, v1) \<Longrightarrow> rules_are ts wl v \<Longrightarrow> rules_are ts wl v1"
  using validate_state(1) by (fastforce simp: rules_are_def same_rules_def)

lemma append_valid:
  assumes "utf8_validate v c = ((True, eoc), w, v1)" "append_byte eoc c out sq = (out1, sq1)"
    and "rules_are ts wl v" "valid_string ts wl out" "pending v sq"
  shows "valid_string ts wl out1 \<and> pending v1 sq1"
proof (cases eoc)
  case True
  with assms pending_last [of v sq c w v1] validate_state(2) [of v c True eoc w v1] show ?thesis
    by (auto simp: append_byte_def rules_are_def intro: pending_start)
next
  case False
  with assms pending_more [of v sq c w v1] show ?thesis by (simp add: append_byte_def)
qed

lemma recover_cases:
  assumes "utf8_recover v c = ((valid, eoc), v1)"
  shows "(\<not> valid \<and> \<not> eoc \<and> v1 = v) \<or> (\<exists>w. utf8_validate (v\<lparr>seq_index := 0\<rparr>) c = ((valid, eoc), w, v1))"
  using assms by (auto simp: utf8_recover_def split: if_splits prod.splits)

lemma recover_rules:
  assumes "utf8_recover v c = ((valid, eoc), v1)" "rules_are ts wl v"
  shows "rules_are ts wl v1" "eoc \<Longrightarrow> seq_index v1 = 0"
proof -
  have r: "rules_are ts wl (v\<lparr>seq_index := 0\<rparr>)" using assms(2) by (simp add: rules_are_def)
  show "rules_are ts wl v1"
    using recover_cases [OF assms(1)] assms(2) validate_rules [OF _ r] by blast
  show "eoc \<Longrightarrow> seq_index v1 = 0"
    using recover_cases [OF assms(1)] validate_state(2) by blast
qed

lemma recover_append_valid:
  assumes "utf8_recover v c = ((True, eoc), v1)" "append_byte eoc c out [] = (out1, sq1)"
    and "rules_are ts wl v" "valid_string ts wl out"
  shows "valid_string ts wl out1 \<and> pending v1 sq1"
proof -
  obtain w where w: "utf8_validate (v\<lparr>seq_index := 0\<rparr>) c = ((True, eoc), w, v1)"
    using recover_cases [OF assms(1)] by blast
  show ?thesis
    using assms by (intro append_valid [OF w assms(2)]) (simp_all add: rules_are_def pending_start)
qed

lemma to_utf8_loop_valid:
  assumes "ord repl < 0x80" "codepoint_allowed ts wl (ord repl)"
  shows "\<lbrakk>rules_are ts wl v; valid_string ts wl out; pending v sq\<rbrakk> \<Longrightarrow>
      valid_string ts wl (to_utf8_loop repl v out sq s)"
    and "\<lbrakk>rules_are ts wl v; valid_string ts wl out\<rbrakk> \<Longrightarrow>
      valid_string ts wl (to_utf8_recover repl v out s)"
proof (induction s arbitrary: v out sq)
  case Nil
  {
    case 1
    then show ?case using valid_string_append [OF 1(2) valid_string_replaced [OF assms]] by simp
  next
    case 2
    then show ?case by simp
  }
next
  case (Cons c s)
  note repl = valid_string_ascii [OF assms] valid_string_replaced [OF assms]
  have recovered: "valid_string ts wl
     (case utf8_recover v c of ((valid, eoc), v1) \<Rightarrow>
        if valid then (case append_byte eoc c out [] of (out1, sq1) \<Rightarrow> to_utf8_loop repl v1 out1 sq1 s)
        else if eoc then to_utf8_loop repl v1 (out @ [repl]) [] s
        else to_utf8_recover repl v1 (out @ [repl]) s)"
    if "rules_are ts wl v" "valid_string ts wl out" for v out
    using that recover_rules [OF _ that(1), of c] recover_append_valid [OF _ _ that, of c] repl(1)
    by (auto split: prod.splits intro!: Cons.IH pending_start)
  {
    case 1
    obtain valid eoc w v1 where u: "utf8_validate v c = ((valid, eoc), w, v1)" by (metis prod.exhaust)
    obtain out1 sq1 where a: "append_byte eoc c out sq = (out1, sq1)" by (metis prod.exhaust)
    note r1 = validate_rules [OF u 1(1)]
    consider valid | "\<not> valid" eoc | "\<not> valid" "\<not> eoc" by blast
    then show ?case
    proof cases
      assume valid
      with u a append_valid [OF _ a 1] r1 show ?thesis by (auto intro: Cons.IH)
    next
      assume "\<not> valid" eoc
      with u r1 1 repl(1) validate_state(2) [OF u] show ?thesis by (auto intro!: Cons.IH pending_start)
    next
      assume "\<not> valid" "\<not> eoc"
      with u recovered [OF r1, of "out @ map (\<lambda>_. repl) sq"] 1 repl(2) show ?thesis
        by (auto simp: Let_def)
    qed
  next
    case 2
    then show ?case using recovered [OF 2] by simp
  }
qed

lemma to_utf8_seq:
  "seq_run v s = Some v' \<Longrightarrow> to_utf8_loop repl v out sq (s @ t) = to_utf8_loop repl v' (out @ sq @ s) [] t"
  by (induction s arbitrary: v out sq) (auto simp: seq_run.simps(2) append_byte_def split: prod.splits if_splits)

lemma to_utf8_encoded:
  assumes "seq_index v = 0" "list_all (\<lambda>c. scalar c \<and> allowed v c) cps"
  shows "to_utf8_loop repl v out [] (concat (map utf8_encode cps)) = out @ concat (map utf8_encode cps)"
  using assms
proof (induction cps arbitrary: v out)
  case (Cons c cps)
  then obtain v' where v': "seq_run v (utf8_encode c) = Some v'" "ready v v'"
    using seq_run_encode [of v c] by auto
  with Cons.prems have "to_utf8_loop repl v' (out @ utf8_encode c) [] (concat (map utf8_encode cps)) =
      (out @ utf8_encode c) @ concat (map utf8_encode cps)"
    by (intro Cons.IH) (auto simp: ready_def allowed_ready [OF v'(2)])
  with v' show ?case by (simp add: to_utf8_seq)
qed simp

lemma to_utf8_loop_length:
  "length (to_utf8_loop repl v out sq s) \<le> length out + length sq + length s"
  "length (to_utf8_recover repl v out s) \<le> length out + length s"
proof (induction s arbitrary: v out sq)
  case (Cons c s)
  have app: "length out1 + length sq1 = length out + length sq + 1" if "append_byte eoc c out sq = (out1, sq1)"
    for eoc out sq out1 sq1
    using that by (auto simp: append_byte_def split: if_splits)
  have rec: "length (case utf8_recover v c of ((valid, eoc), v1) \<Rightarrow>
        if valid then (case append_byte eoc c out [] of (out1, sq1) \<Rightarrow> to_utf8_loop repl v1 out1 sq1 s)
        else if eoc then to_utf8_loop repl v1 (out @ [repl]) [] s
        else to_utf8_recover repl v1 (out @ [repl]) s) \<le> length out + Suc (length s)" for v out
  proof -
    obtain valid eoc v1 where u: "utf8_recover v c = ((valid, eoc), v1)" by (metis prod.exhaust)
    obtain out1 sq1 where a: "append_byte eoc c out [] = (out1, sq1)" by (metis prod.exhaust)
    show ?thesis
      using u a app [OF a] Cons.IH(1) [of v1 out1 sq1] Cons.IH(1) [of v1 "out @ [repl]" "[]"]
        Cons.IH(2) [of v1 "out @ [repl]"] by simp
  qed
  {
    case 1
    obtain valid eoc w v1 where u: "utf8_validate v c = ((valid, eoc), w, v1)" by (metis prod.exhaust)
    obtain out1 sq1 where a: "append_byte eoc c out sq = (out1, sq1)" by (metis prod.exhaust)
    show ?case
      using u a app [OF a] Cons.IH(1) [of v1 out1 sq1] Cons.IH(1) [of v1 "out @ [repl]" "[]"]
        rec [where v = v1 and out = "out @ map (\<lambda>_. repl) sq"] by (simp add: Let_def)
  next
    case 2
    then show ?case using rec [where v = v and out = out] by simp
  }
qed simp_all

section \<open>Codepoint types\<close>

lemma lower_bound_partition:
  assumes "\<And>j. j < k \<Longrightarrow> lt (rs ! j)" "\<And>j. k \<le> j \<Longrightarrow> j < length rs \<Longrightarrow> \<not> lt (rs ! j)"
    and "i \<le> k" "k \<le> i + n" "i + n \<le> length rs"
  shows "lower_bound lt rs i n = k"
  using assms
proof (induction lt rs i n rule: lower_bound.induct)
  case (1 lt rs i n)
  show ?case
  proof (cases "n = 0")
    case True
    with 1 show ?thesis by (simp add: lower_bound.simps)
  next
    case False
    have h: "n div 2 < n" using False by simp
    show ?thesis
    proof (cases "lt (rs ! (i + n div 2))")
      case True
      with 1(4) h 1(7) have "i + n div 2 < k" by (meson add_le_cancel_left leI less_le_trans nat_add_left_cancel_less)
      then have "lower_bound lt rs (i + n div 2 + 1) (n - n div 2 - 1) = k"
        using False True 1(3-7) h by (intro 1(1)) auto
      with False True show ?thesis by (simp add: lower_bound.simps [of lt rs i n] Let_def)
    next
      case nl: False
      then have "k \<le> i + n div 2" using 1(3) by (meson leI)
      then have "lower_bound lt rs i (n div 2) = k"
        using False nl 1(3-7) h by (intro 1(2)) auto
      with False nl show ?thesis by (simp add: lower_bound.simps [of lt rs i n] Let_def)
    qed
  qed
qed

definition ranges_ok :: "(nat \<times> nat) list \<Rightarrow> bool" where
  "ranges_ok rs \<longleftrightarrow> list_all (\<lambda>r. fst r \<le> snd r) rs \<and> sorted_wrt (\<lambda>x y. snd x < fst y) rs"

lemma ct_ranges_ok: "list_all (\<lambda>tr. ranges_ok (snd tr)) ct_ranges"
  by (simp add: ct_ranges_def ranges_ok_def)

text \<open>The bisection finds the range that contains the codepoint, when there is one.\<close>

lemma lower_bound_range:
  assumes "ranges_ok rs"
  shows "(let r = lower_bound (\<lambda>r. snd r < c) rs 0 (length rs) in r \<noteq> length rs \<and> fst (rs ! r) \<le> c) \<longleftrightarrow>
    list_ex (\<lambda>r. fst r \<le> c \<and> c \<le> snd r) rs"
proof -
  define k where "k = length (takeWhile (\<lambda>r. snd r < c) rs)"
  have sorted: "snd (rs ! i) < fst (rs ! j)" "fst (rs ! j) \<le> snd (rs ! j)" if "i < j" "j < length rs" for i j
    using assms that by (auto simp: ranges_ok_def sorted_wrt_iff_nth_less list_all_length)
  have k: "k \<le> length rs" unfolding k_def by (rule length_takeWhile_le)
  have below: "snd (rs ! j) < c" if "j < k" for j
    using that nth_mem [of j "takeWhile (\<lambda>r. snd r < c) rs"] set_takeWhileD
    by (fastforce simp: k_def takeWhile_nth)
  have at: "\<not> snd (rs ! k) < c" if "k < length rs"
    using that nth_length_takeWhile [of "\<lambda>r. snd r < c" rs] by (simp add: k_def)
  have above: "\<not> snd (rs ! j) < c" if "k \<le> j" "j < length rs" for j
    using at sorted [of k j] that by (cases "j = k") auto
  have lb: "lower_bound (\<lambda>r. snd r < c) rs 0 (length rs) = k"
    using below above k by (intro lower_bound_partition) auto
  show ?thesis
  proof
    assume "let r = lower_bound (\<lambda>r. snd r < c) rs 0 (length rs) in r \<noteq> length rs \<and> fst (rs ! r) \<le> c"
    with k at show "list_ex (\<lambda>r. fst r \<le> c \<and> c \<le> snd r) rs"
      by (auto simp: lb Let_def list_ex_length intro!: exI [of _ k])
  next
    assume "list_ex (\<lambda>r. fst r \<le> c \<and> c \<le> snd r) rs"
    then obtain j where j: "j < length rs" "fst (rs ! j) \<le> c" "c \<le> snd (rs ! j)" by (auto simp: list_ex_length)
    have "k \<le> j" using below [of j] j by force
    moreover have "\<not> k < j" using sorted(1) [of k j] at j by force
    ultimately show "let r = lower_bound (\<lambda>r. snd r < c) rs 0 (length rs) in r \<noteq> length rs \<and> fst (rs ! r) \<le> c"
      using j by (simp add: lb Let_def)
  qed
qed

lemma codepoint_type_loop_find:
  "list_all (\<lambda>tr. ranges_ok (snd tr)) ts \<Longrightarrow> codepoint_type_loop ts c =
     (case find (\<lambda>tr. list_ex (\<lambda>r. fst r \<le> c \<and> c \<le> snd r) (snd tr)) ts of Some (t, _) \<Rightarrow> t | None \<Rightarrow> ct_graphic)"
proof (induction ts)
  case (Cons tr ts)
  then show ?case
    using lower_bound_range [of "snd tr" c] by (cases tr) (simp add: Let_def)
qed simp

section \<open>Properties\<close>

text \<open>
  C19: A byte string is accepted, with a length of \<open>n\<close> codepoints, exactly when it is the UTF-8 encoding of
  \<open>n\<close> Unicode scalar values (no surrogates, nothing above 10FFFF, shortest form) of the allowed types or
  in the whitelist.
\<close>

theorem utf8_length_exact:
  "utf8_length s ts wl = Inr n \<longleftrightarrow>
     (\<exists>cps. s = concat (map utf8_encode cps) \<and> length cps = n \<and> valid_utf8 ts wl cps)"
  using length_impl_iff [of s ts wl n] by (auto simp: utf8_length_def split: sum.splits)

lemma utf8_valid_string: "utf8 s ts wl \<longleftrightarrow> valid_string ts wl s"
  using length_impl_iff [of s ts wl] by (auto simp: utf8_def valid_string_def split: sum.splits)

text \<open>
  C22: After \<open>to_utf8 ()\<close> with an allowed ASCII replacement character the string is valid, and it is not
  longer than before.
\<close>

theorem to_utf8_valid:
  assumes "ord repl < 0x80" "codepoint_allowed ts wl (ord repl)"
  shows "utf8 (to_utf8 s repl ts wl) ts wl \<and> length (to_utf8 s repl ts wl) \<le> length s"
proof -
  have "valid_string ts wl (to_utf8_loop repl (new_validator ts wl) [] [] s)"
    by (rule to_utf8_loop_valid(1) [OF assms]) (simp_all add: rules_are_def new_validator_def pending_start)
  then show ?thesis
    using to_utf8_loop_length(1) [of repl "new_validator ts wl" "[]" "[]" s]
    by (simp add: to_utf8_def utf8_valid_string)
qed

theorem to_utf8_valid_witness:
  "utf8 (to_utf8 [CHR ''a'', CHR 0xC3, CHR ''b'', CHR 0xFF] (CHR ''?'') ct_graphic []) ct_graphic []"
  using to_utf8_valid [of "CHR ''?''" ct_graphic "[]"]
  by (simp add: codepoint_allowed_def codepoint_type_def ct_defs)

text \<open>C37: \<open>to_utf8 ()\<close> does not change a valid string.\<close>

lemma to_utf8_identity:
  assumes "utf8 s ts wl"
  shows "to_utf8 s repl ts wl = s"
proof -
  obtain cps where "s = concat (map utf8_encode cps)" "valid_utf8 ts wl cps"
    using assms by (auto simp: utf8_valid_string valid_string_def)
  then show ?thesis
    using to_utf8_encoded [of "new_validator ts wl" cps repl "[]"]
    by (simp add: to_utf8_def valid_utf8_def new_validator_def)
qed

lemma to_utf8_identity_witness:
  "to_utf8 [CHR ''a'', CHR 0xC3, CHR 0xA9] (CHR ''?'') ct_any [] = [CHR ''a'', CHR 0xC3, CHR 0xA9]"
proof -
  have "utf8 [CHR ''a'', CHR 0xC3, CHR 0xA9] ct_any []" by code_simp
  from to_utf8_identity [OF this] show ?thesis .
qed

text \<open>
  The type of a codepoint found by bisection of the sorted range tables is that of the first table
  one of whose ranges contains the codepoint, and graphic when there is none.
\<close>

lemma codepoint_type_lookup_exact:
  "codepoint_type_lookup c =
     (case find (\<lambda>tr. list_ex (\<lambda>r. fst r \<le> c \<and> c \<le> snd r) (snd tr)) ct_ranges of
        Some (t, _) \<Rightarrow> t | None \<Rightarrow> ct_graphic)"
  unfolding codepoint_type_lookup_def by (rule codepoint_type_loop_find [OF ct_ranges_ok])

text \<open>
  C40: The codepoint that the validator has built after a complete sequence is a Unicode scalar value, so
  it never exceeds 10FFFF, fits \<open>char32_t\<close>, and has a codepoint type.
\<close>

theorem utf8_codepoint_bounds:
  assumes "seq_index v = 0" "seq_run v s = Some v'"
  shows "v_codepoint v' \<le> 0x10FFFF \<and> codepoint_type (v_codepoint v') \<noteq> ct_none"
proof -
  have "scalar (v_codepoint v')" using seq_run_decode [OF assms] by simp
  then show ?thesis
    unfolding codepoint_type_def codepoint_type_lookup_def codepoint_type_loop_find [OF ct_ranges_ok]
    by (auto simp: scalar_def ct_ranges_def ct_defs split: option.splits)
qed

theorem utf8_codepoint_bounds_witness:
  "\<exists>v'. seq_run (new_validator ct_any []) [CHR 0xC3, CHR 0xA9] = Some v' \<and> v_codepoint v' \<le> 0x10FFFF"
proof -
  let ?v = "new_validator ct_any []"
  have "seq_index ?v = 0" "scalar 233" "allowed ?v 233"
    by (simp_all add: new_validator_def scalar_def codepoint_allowed_def)
  from seq_run_encode [OF this] obtain v' where "seq_run ?v (utf8_encode 233) = Some v'" by blast
  moreover have "utf8_encode 233 = [CHR 0xC3, CHR 0xA9]" by code_simp
  ultimately show ?thesis using utf8_codepoint_bounds [OF \<open>seq_index ?v = 0\<close>] by auto
qed

end
