(* ===== verification/Char_Scanner.thy ===== *)
theory Char_Scanner
  imports Utf8_Properties
begin

text \<open>
  The character scanner of \<open>libbutl\<close> (\<open>char-scanner.mxx\<close>, \<open>.ixx\<close>, \<open>.txx\<close>) with the UTF-8 validator and
  one character of unget: a byte stream is read as extended characters with their line and column,
  carriage returns being converted to newlines. The stream positions are those of a plain
  \<open>std::istream\<close>, for which the scanner always reports zero, and are left out. So is the path that reads the buffer
  of an \<open>fdbuf\<close> directly (it takes a byte FF, as a negative \<open>char\<close>, for the end of the stream), and the assertion on
  the capacity of the unget buffer.
\<close>

datatype xvalue = Ch char | Eof | Invalid string  \<comment> \<open>with the reason it is invalid\<close>

record xchar =
  xvalue :: xvalue
  xline :: nat
  xcolumn :: nat

definition eos :: "xchar \<Rightarrow> bool" where
  "eos c \<longleftrightarrow> xvalue c = Eof"

definition invalid :: "xchar \<Rightarrow> bool" where
  "invalid c \<longleftrightarrow> (case xvalue c of Invalid _ \<Rightarrow> True | _ \<Rightarrow> False)"

text \<open>The conversion to \<open>char_type\<close>: the end of the stream and invalid characters compare as NUL.\<close>

definition xch :: "xchar \<Rightarrow> char" where
  "xch c = (case xvalue c of Ch d \<Rightarrow> d | _ \<Rightarrow> NUL)"

abbreviation LF :: char where "LF \<equiv> CHR 0x0A"
abbreviation CR :: char where "CR \<equiv> CHR 0x0D"
abbreviation TAB :: char where "TAB \<equiv> CHR 0x09"

record char_scanner =
  sc_rest :: string             \<comment> \<open>the bytes not read from the stream yet\<close>
  sc_val :: utf8_validator
  sc_decoded :: bool
  sc_validated :: bool
  sc_crlf :: bool
  sc_eos :: bool
  sc_ungetb :: "xchar list"     \<comment> \<open>\<open>ungetb_\<close>, the last one first\<close>
  sc_unpeek :: "xchar option"   \<comment> \<open>\<open>unpeekc_\<close> when \<open>unpeek_\<close>\<close>
  sc_line :: nat
  sc_column :: nat

definition new_scanner :: "string \<Rightarrow> utf8_validator \<Rightarrow> bool \<Rightarrow> char_scanner" where
  "new_scanner s v crlf =
     \<lparr>sc_rest = s, sc_val = v, sc_decoded = True, sc_validated = False, sc_crlf = crlf, sc_eos = False,
      sc_ungetb = [], sc_unpeek = None, sc_line = 1, sc_column = 1\<rparr>"

definition sc_char :: "char_scanner \<Rightarrow> xvalue \<Rightarrow> xchar" where
  "sc_char sc v = \<lparr>xvalue = v, xline = sc_line sc, xcolumn = sc_column sc\<rparr>"

text \<open>The lambda \<open>valid\<close> of \<open>peek ()\<close>: the byte is validated once.\<close>

definition sc_validate :: "char_scanner \<Rightarrow> char \<Rightarrow> bool \<times> string \<times> char_scanner" where
  "sc_validate sc c =
     (if sc_validated sc then (True, [], sc)
      else case utf8_validate (sc_val sc) c of ((valid, eoc), what, v) \<Rightarrow>
        (valid, (case what of Some w \<Rightarrow> w | None \<Rightarrow> []),
         sc\<lparr>sc_val := v, sc_decoded := eoc, sc_validated := True\<rparr>))"

definition sc_peek :: "char_scanner \<Rightarrow> xchar \<times> char_scanner" where
  "sc_peek sc =
     (case sc_ungetb sc of
        c # _ \<Rightarrow> (c, sc)
      | [] \<Rightarrow>
     (case sc_unpeek sc of
        Some c \<Rightarrow> (c, sc)
      | None \<Rightarrow>
     if sc_eos sc then (sc_char sc Eof, sc)
     else case sc_rest sc of
        [] \<Rightarrow> (sc_char sc (if \<not> sc_decoded sc then Invalid ''unexpected end of stream'' else Eof), sc\<lparr>sc_eos := True\<rparr>)
      | b # _ \<Rightarrow>
          (case sc_validate sc b of (valid, what, sc) \<Rightarrow>
             if \<not> valid then (sc_char sc (Invalid what), sc)
             else if sc_crlf sc \<and> b = CR
             then
               let rest = dropWhile (\<lambda>c. c = CR) (sc_rest sc);
                   sc1 = sc\<lparr>sc_rest := rest, sc_validated := False\<rparr>
               in (sc_char sc (Ch LF),
                   if rest \<noteq> [] \<and> hd rest = LF then sc1
                   else sc1\<lparr>sc_unpeek := Some (sc_char sc (Ch LF)), sc_eos := (rest = [])\<rparr>)
             else (sc_char sc (Ch b), sc))))"

definition sc_get :: "xchar \<Rightarrow> char_scanner \<Rightarrow> char_scanner" where
  "sc_get c sc =
     (case sc_ungetb sc of
        _ # cs \<Rightarrow> sc\<lparr>sc_ungetb := cs\<rparr>
      | [] \<Rightarrow>
        let sc1 = (if sc_unpeek sc \<noteq> None then sc\<lparr>sc_unpeek := None\<rparr>
                   else if \<not> eos c then sc\<lparr>sc_rest := tl (sc_rest sc), sc_validated := False\<rparr>
                   else sc)
        in if \<not> eos c
           then (if xch c = LF then sc1\<lparr>sc_line := sc_line sc1 + 1, sc_column := 1\<rparr>
                 else if sc_decoded sc1 then sc1\<lparr>sc_column := sc_column sc1 + 1\<rparr>
                 else sc1)
           else sc1)"

text \<open>
  The extended characters that the scanner delivers, up to the end of the stream or the first invalid
  one. A user of the scanner sees its next characters as this list: \<open>peek ()\<close> is its head, \<open>get ()\<close> its
  tail and \<open>unget ()\<close> puts a character back in front of it.
\<close>

definition sc_left :: "char_scanner \<Rightarrow> nat" where
  "sc_left sc = 2 * length (sc_rest sc) + (if sc_unpeek sc = None then 0 else 1) + length (sc_ungetb sc)"

lemma sc_progress:
  assumes "sc_peek sc = (c, sc1)" "\<not> eos c" "\<not> invalid c"
  shows "sc_left (sc_get c sc1) < sc_left sc"
proof (cases "sc_ungetb sc")
  case (Cons x xs)
  with assms show ?thesis by (auto simp: sc_peek_def sc_get_def sc_left_def)
next
  case ug: Nil
  show ?thesis
  proof (cases "sc_unpeek sc")
    case (Some x)
    with ug assms show ?thesis by (auto simp: sc_peek_def sc_get_def sc_left_def Let_def)
  next
    case up: None
    obtain b bs where bs: "sc_rest sc = b # bs"
      using ug up assms by (cases "sc_rest sc") (auto simp: sc_peek_def sc_char_def eos_def invalid_def split: if_splits)
    obtain valid what sc2 where v: "sc_validate sc b = (valid, what, sc2)" by (metis prod.exhaust)
    then have s2: "sc_rest sc2 = b # bs" "sc_ungetb sc2 = []" "sc_unpeek sc2 = None"
      using bs ug up by (auto simp: sc_validate_def split: if_splits prod.splits)
    have d: "length (dropWhile (\<lambda>c. c = CR) bs) \<le> length bs" by (rule length_dropWhile_le)
    have valid and ne: "\<not> sc_eos sc" using assms ug up bs v
      by (auto simp: sc_peek_def sc_char_def eos_def invalid_def split: if_splits)
    show ?thesis
    proof (cases "sc_crlf sc2 \<and> b = CR")
      case False
      with assms(1) ug up bs v \<open>valid\<close> ne have "c = sc_char sc2 (Ch b)" "sc1 = sc2"
        by (auto simp: sc_peek_def)
      with s2 bs ug up show ?thesis by (auto simp: sc_get_def sc_left_def Let_def sc_char_def eos_def)
    next
      case True
      define r where "r = dropWhile (\<lambda>c. c = CR) (sc_rest sc2)"
      have r: "length r \<le> length bs" using d True by (simp add: r_def s2)
      have "sc_peek sc = (sc_char sc2 (Ch LF),
          if r \<noteq> [] \<and> hd r = LF then sc2\<lparr>sc_rest := r, sc_validated := False\<rparr>
          else sc2\<lparr>sc_rest := r, sc_validated := False, sc_unpeek := Some (sc_char sc2 (Ch LF)), sc_eos := (r = [])\<rparr>)"
        using v True \<open>valid\<close> ne by (simp add: sc_peek_def ug up bs Let_def r_def [symmetric] del: dropWhile_eq_Nil_conv)
      with assms(1) have c1: "c = sc_char sc2 (Ch LF)" and s1: "sc1 = (if r \<noteq> [] \<and> hd r = LF
          then sc2\<lparr>sc_rest := r, sc_validated := False\<rparr>
          else sc2\<lparr>sc_rest := r, sc_validated := False, sc_unpeek := Some (sc_char sc2 (Ch LF)), sc_eos := (r = [])\<rparr>)"
        by simp_all
      from c1 have c: "\<not> eos c" by (simp add: sc_char_def eos_def)
      show ?thesis
      proof (cases "r \<noteq> [] \<and> hd r = LF")
        case lf: True
        with c s1 r s2 ug up bs show ?thesis
          by (cases r) (auto simp: sc_get_def sc_left_def Let_def)
      next
        case nlf: False
        with c s1 r s2 ug up bs show ?thesis
          by (auto simp: sc_get_def sc_left_def Let_def)
      qed
    qed
  qed
qed

function char_stream :: "char_scanner \<Rightarrow> xchar list" where
  "char_stream sc =
     (case sc_peek sc of (c, sc1) \<Rightarrow> if eos c \<or> invalid c then [c] else c # char_stream (sc_get c sc1))"
  by pat_completeness auto
termination
  by (relation "measure sc_left") (auto intro: sc_progress [OF sym])

declare char_stream.simps [simp del]

end
