(* ===== verification/Char_Scanner_Properties.thy ===== *)
theory Char_Scanner_Properties
  imports Char_Scanner
begin

text \<open>
  What the scanner delivers for a valid byte string: its bytes with every run of carriage returns,
  together with a line feed that may follow, replaced by one newline; the column of a character tells
  whether it starts a line.
\<close>

section \<open>Steps of the scanner\<close>

definition fresh :: "char_scanner \<Rightarrow> bool" where
  "fresh sc \<longleftrightarrow> sc_ungetb sc = [] \<and> sc_unpeek sc = None \<and> \<not> sc_validated sc \<and> sc_decoded sc \<and> 0 < sc_column sc \<and>
     (sc_eos sc \<longrightarrow> sc_rest sc = [])"

text \<open>In the middle of a byte sequence the scanner is fresh but for \<open>sc_decoded\<close>.\<close>

definition between :: "char_scanner \<Rightarrow> bool" where
  "between sc \<longleftrightarrow> sc_ungetb sc = [] \<and> sc_unpeek sc = None \<and> \<not> sc_validated sc \<and> 0 < sc_column sc \<and>
     (sc_eos sc \<longrightarrow> sc_rest sc = [])"

definition sc_next :: "char \<Rightarrow> bool \<Rightarrow> utf8_validator \<Rightarrow> string \<Rightarrow> char_scanner \<Rightarrow> char_scanner" where
  "sc_next b eoc v t sc = sc\<lparr>sc_rest := t, sc_val := v, sc_decoded := eoc, sc_validated := False,
     sc_line := (if b = LF then sc_line sc + 1 else sc_line sc),
     sc_column := (if b = LF then 1 else if eoc then sc_column sc + 1 else sc_column sc)\<rparr>"

lemma stream_char:
  assumes "between sc" "sc_rest sc = b # t" "utf8_validate (sc_val sc) b = ((True, eoc), w, v)" "b \<noteq> CR"
  shows "char_stream sc = sc_char sc (Ch b) # char_stream (sc_next b eoc v t sc)"
proof -
  have "sc_peek sc = (sc_char sc (Ch b), sc\<lparr>sc_val := v, sc_decoded := eoc, sc_validated := True\<rparr>)"
    using assms by (auto simp: sc_peek_def between_def sc_validate_def sc_char_def)
  moreover have "sc_get (sc_char sc (Ch b)) (sc\<lparr>sc_val := v, sc_decoded := eoc, sc_validated := True\<rparr>) =
      sc_next b eoc v t sc"
    using assms by (auto simp: sc_get_def between_def sc_char_def Let_def eos_def xch_def sc_next_def)
  ultimately show ?thesis
    by (simp add: char_stream.simps [of sc] eos_def invalid_def sc_char_def)
qed

lemma stream_end: "fresh sc \<Longrightarrow> sc_rest sc = [] \<Longrightarrow> char_stream sc = [sc_char sc Eof]"
  by (simp add: char_stream.simps [of sc] sc_peek_def fresh_def eos_def sc_char_def)

definition skip_newline :: "string \<Rightarrow> string" where
  "skip_newline s = (case dropWhile (\<lambda>c. c = CR) s of [] \<Rightarrow> [] | c # t \<Rightarrow> if c = LF then t else c # t)"

lemma skip_newline_length: "length (skip_newline s) \<le> length s"
  using length_dropWhile_le [of "\<lambda>c. c = CR" s] by (auto simp: skip_newline_def split: list.splits)

definition sc_newline :: "utf8_validator \<Rightarrow> string \<Rightarrow> char_scanner \<Rightarrow> char_scanner" where
  "sc_newline v t sc = sc\<lparr>sc_rest := skip_newline t, sc_val := v, sc_validated := False, sc_line := sc_line sc + 1,
     sc_column := 1, sc_eos := (dropWhile (\<lambda>c. c = CR) t = [])\<rparr>"

lemma stream_cr:
  assumes "fresh sc" "sc_crlf sc" "sc_rest sc = CR # t" "utf8_validate (sc_val sc) CR = ((True, True), w, v)"
  shows "char_stream sc = sc_char sc (Ch LF) # char_stream (sc_newline v t sc)"
proof -
  define r where "r = dropWhile (\<lambda>c. c = CR) t"
  let ?s = "sc\<lparr>sc_val := v, sc_validated := False, sc_rest := r\<rparr>"
  let ?p = "if r \<noteq> [] \<and> hd r = LF then ?s else ?s\<lparr>sc_unpeek := Some (sc_char sc (Ch LF)), sc_eos := (r = [])\<rparr>"
  have f: "sc_ungetb sc = []" "sc_unpeek sc = None" "\<not> sc_validated sc" "\<not> sc_eos sc" "sc_decoded sc"
    using assms(1,3) by (auto simp: fresh_def)
  have "sc_peek sc = (sc_char sc (Ch LF), ?p)"
    using assms(2-4) f by (simp add: sc_peek_def sc_validate_def Let_def r_def [symmetric] sc_char_def del: dropWhile_eq_Nil_conv)
  moreover have "sc_get (sc_char sc (Ch LF)) ?p = sc_newline v t sc"
    using f by (cases r) (auto simp: sc_get_def sc_newline_def skip_newline_def r_def [symmetric] Let_def eos_def
        xch_def sc_char_def simp del: dropWhile_eq_Nil_conv)
  ultimately show ?thesis
    by (simp add: char_stream.simps [of sc] eos_def invalid_def sc_char_def del: dropWhile_eq_Nil_conv)
qed

lemma sc_peek_column: "between sc \<Longrightarrow> xcolumn (fst (sc_peek sc)) = sc_column sc"
  by (auto simp: sc_peek_def between_def sc_char_def sc_validate_def Let_def split: list.splits prod.splits)

lemma stream_hd: "between sc \<Longrightarrow> \<exists>x xs. char_stream sc = x # xs \<and> xcolumn x = sc_column sc"
  using sc_peek_column [of sc] by (auto simp: char_stream.simps [of sc] split: prod.splits)

section \<open>Valid input\<close>

text \<open>The text delivered for a byte string.\<close>

function text_of :: "string \<Rightarrow> string" where
  "text_of [] = []"
| "text_of (c # s) = (if c = CR then LF # text_of (skip_newline s) else c # text_of s)"
  by pat_completeness auto
termination
  by (relation "measure length") (auto simp: le_imp_less_Suc skip_newline_length)

text \<open>The column tells whether a character starts a line.\<close>

fun columns_ok :: "xchar list \<Rightarrow> bool" where
  "columns_ok (x # y # xs) \<longleftrightarrow>
     (xvalue x = Ch LF \<longrightarrow> xcolumn y = 1) \<and>
     (\<forall>c. xvalue x = Ch c \<longrightarrow> ord c < 0x80 \<longrightarrow> c \<noteq> LF \<longrightarrow> xcolumn y \<noteq> 1) \<and>
     columns_ok (y # xs)"
| "columns_ok xs \<longleftrightarrow> True"

text \<open>The list of characters \<open>xs\<close> reads the string \<open>s\<close>.\<close>

definition reads :: "xchar list \<Rightarrow> string \<Rightarrow> bool" where
  "reads xs s \<longleftrightarrow> map xvalue xs = map Ch s @ [Eof] \<and> columns_ok xs"

lemma encode_not_ascii:
  assumes "c \<in> set (utf8_encode u)" "0x80 \<le> u" "scalar u"
  shows "0x80 \<le> ord c"
proof -
  have "u div 262144 \<le> 4" using assms(3) div_le_mono [of u 1114111 262144] by (simp add: scalar_def)
  moreover have "(240 + x) mod 256 = 240 + x" if "x \<le> 4" for x :: nat using that by simp
  ultimately show ?thesis
    using assms(1,2) by (auto simp: utf8_encode_def encode_bytes_def split: if_splits)
qed

lemma fresh_between: "fresh sc \<Longrightarrow> between sc"
  by (simp add: fresh_def between_def)

lemma stream_sequence:
  assumes "between sc" "sc_rest sc = s @ t" "seq_run (sc_val sc) s = Some v" "\<And>c. c \<in> set s \<Longrightarrow> 0x80 \<le> ord c"
  shows "\<exists>xs sc'. char_stream sc = xs @ char_stream sc' \<and> map xvalue xs = map Ch s \<and> fresh sc' \<and>
    sc_rest sc' = t \<and> sc_val sc' = v \<and> sc_crlf sc' = sc_crlf sc"
  using assms
proof (induction s arbitrary: sc)
  case (Cons c s)
  obtain valid eoc w v1 where u: "utf8_validate (sc_val sc) c = ((valid, eoc), w, v1)" by (metis prod.exhaust)
  have "0x80 \<le> ord c" using Cons.prems(4) by simp
  then have nc: "c \<noteq> CR" "c \<noteq> LF" by auto
  have valid using Cons.prems(3) u by (auto simp: seq_run.simps(2) split: if_splits)
  have st: "char_stream sc = sc_char sc (Ch c) # char_stream (sc_next c eoc v1 (s @ t) sc)"
    using Cons.prems(1,2) u \<open>valid\<close> nc by (intro stream_char) auto
  have b: "between (sc_next c eoc v1 (s @ t) sc)"
    using Cons.prems(1,2) by (auto simp: between_def sc_next_def)
  show ?case
  proof (cases eoc)
    case True
    with Cons.prems(3) u \<open>valid\<close> have "s = []" "v1 = v" by (auto simp: seq_run.simps(2) split: if_splits)
    with st b True show ?thesis
      by (intro exI [of _ "[sc_char sc (Ch c)]"] exI [of _ "sc_next c eoc v1 (s @ t) sc"])
        (auto simp: sc_char_def sc_next_def fresh_def between_def)
  next
    case False
    with Cons.prems(3) u \<open>valid\<close> have "seq_run v1 s = Some v" by (auto simp: seq_run.simps(2))
    then obtain xs sc' where "char_stream (sc_next c eoc v1 (s @ t) sc) = xs @ char_stream sc'"
      "map xvalue xs = map Ch s" "fresh sc'" "sc_rest sc' = t" "sc_val sc' = v" "sc_crlf sc' = sc_crlf sc"
      using Cons.IH [OF b] Cons.prems(4) by (force simp: sc_next_def)
    with st show ?thesis
      by (intro exI [of _ "sc_char sc (Ch c) # xs"] exI [of _ sc']) (auto simp: sc_char_def)
  qed
qed simp

lemma columns_ok_append:
  "(\<And>x. x \<in> set xs \<Longrightarrow> \<exists>c. xvalue x = Ch c \<and> 0x80 \<le> ord c) \<Longrightarrow> columns_ok ys \<Longrightarrow> columns_ok (xs @ ys)"
proof (induction xs)
  case (Cons x xs)
  then have ih: "columns_ok (xs @ ys)" by simp
  obtain c where c: "xvalue x = Ch c" "0x80 \<le> ord c" using Cons.prems(1) by auto
  then have "c \<noteq> LF" by auto
  with c ih show ?case by (cases "xs @ ys") auto
qed simp

lemma valid_string_split:
  assumes "valid_string ts wl s" "s \<noteq> []"
  obtains u t where "s = utf8_encode u @ t" "scalar u" "codepoint_allowed ts wl u" "valid_string ts wl t"
proof -
  obtain cps where c: "s = concat (map utf8_encode cps)" "valid_utf8 ts wl cps"
    using assms(1) unfolding valid_string_def by blast
  with assms(2) obtain u us where "cps = u # us" by (cases cps) auto
  with c that [of u "concat (map utf8_encode us)"] show thesis
    by (auto simp: valid_utf8_def valid_string_def)
qed

lemma encode_hd: "scalar u \<Longrightarrow> utf8_encode u = c # t \<Longrightarrow> ord c < 0x80 \<Longrightarrow> t = [] \<and> u = ord c"
  using encode_not_ascii [of c u] by (auto simp: utf8_encode_def encode_bytes_def split: if_splits)

lemma valid_string_tl:
  assumes "valid_string ts wl (c # s)" "ord c < 0x80"
  shows "valid_string ts wl s \<and> codepoint_allowed ts wl (ord c)"
proof -
  obtain u t where u: "c # s = utf8_encode u @ t" "scalar u" "codepoint_allowed ts wl u" "valid_string ts wl t"
    by (rule valid_string_split [OF assms(1)]) simp
  then obtain e where e: "utf8_encode u = c # e" by (cases "utf8_encode u") auto
  with encode_hd [OF u(2) e assms(2)] u show ?thesis by simp
qed

lemma valid_string_drop_cr:
  "valid_string ts wl s \<Longrightarrow> valid_string ts wl (dropWhile (\<lambda>c. c = CR) s)"
proof (induction s)
  case (Cons c s)
  then show ?case using valid_string_tl [of ts wl c s] by (cases "c = CR") simp_all
qed simp

lemma valid_string_skip: "valid_string ts wl s \<Longrightarrow> valid_string ts wl (skip_newline s)"
proof -
  assume v: "valid_string ts wl s"
  show ?thesis
  proof (cases "dropWhile (\<lambda>c. c = CR) s")
    case Nil
    have "skip_newline s = []" unfolding skip_newline_def Nil by simp
    with valid_string_drop_cr [OF v, unfolded Nil] show ?thesis by simp
  next
    case (Cons c t)
    with valid_string_drop_cr [OF v] have "valid_string ts wl (c # t)" by simp
    with Cons v valid_string_tl [OF this] show ?thesis by (cases "c = LF") (simp_all add: skip_newline_def)
  qed
qed

lemma text_of_append: "CR \<notin> set s \<Longrightarrow> text_of (s @ t) = s @ text_of t"
  by (induction s) auto

lemma reads_Cons:
  assumes "reads xs s" "between sc" "char_stream sc = xs" "xvalue x = Ch c"
    "c = LF \<Longrightarrow> sc_column sc = 1" "ord c < 0x80 \<Longrightarrow> c \<noteq> LF \<Longrightarrow> sc_column sc \<noteq> 1"
  shows "reads (x # xs) (c # s)"
  using stream_hd [OF assms(2)] assms by (auto simp: reads_def)

lemma reads_stream:
  assumes "fresh sc" "sc_crlf sc" "seq_index (sc_val sc) = 0"
    "valid_string (v_types (sc_val sc)) (v_whitelist (sc_val sc)) (sc_rest sc)"
  shows "reads (char_stream sc) (text_of (sc_rest sc))"
  using assms
proof (induction "length (sc_rest sc)" arbitrary: sc rule: less_induct)
  case less
  let ?ts = "v_types (sc_val sc)" and ?wl = "v_whitelist (sc_val sc)"
  show ?case
  proof (cases "sc_rest sc = []")
    case True
    with less.prems(1) show ?thesis by (simp add: stream_end reads_def sc_char_def)
  next
    case False
    then obtain u t where r: "sc_rest sc = utf8_encode u @ t" "scalar u" "codepoint_allowed ?ts ?wl u"
      "valid_string ?ts ?wl t" by (rule valid_string_split [OF less.prems(4)])
    obtain v where v: "seq_run (sc_val sc) (utf8_encode u) = Some v" "ready (sc_val sc) v"
      using seq_run_encode [OF less.prems(3) r(2,3)] by blast
    then have v_ok: "seq_index v = 0" "v_types v = ?ts" "v_whitelist v = ?wl"
      by (simp_all add: ready_def same_rules_def)
    obtain c e where ce: "utf8_encode u = c # e" by (cases "utf8_encode u") auto
    show ?thesis
    proof (cases "u < 0x80")
      case True
      then have "e = []" using ce by (simp add: utf8_encode_def encode_bytes_def)
      with ce r(1) have rest: "sc_rest sc = c # t" by simp
      from v(1) ce \<open>e = []\<close> obtain w where u: "utf8_validate (sc_val sc) c = ((True, True), w, v)"
        by (auto simp: seq_run.simps(2) split: prod.splits if_splits)
      show ?thesis
      proof (cases "c = CR")
        case True
        let ?sc = "sc_newline v t sc"
        have f: "fresh ?sc" using less.prems(1) rest
          by (auto simp: fresh_def sc_newline_def skip_newline_def simp del: dropWhile_eq_Nil_conv)
        have "reads (char_stream ?sc) (text_of (sc_rest ?sc))"
          using less.prems v_ok f valid_string_skip [OF r(4)] skip_newline_length [of t]
          by (intro less.hyps) (auto simp: rest sc_newline_def)
        then have "reads (sc_char sc (Ch LF) # char_stream ?sc) (LF # text_of (sc_rest ?sc))"
          by (rule reads_Cons [OF _ fresh_between [OF f] refl]) (simp_all add: sc_char_def sc_newline_def)
        then show ?thesis
          using stream_cr [OF less.prems(1,2) _ u [unfolded True]] rest True by (simp add: sc_newline_def)
      next
        case nc: False
        let ?sc = "sc_next c True v t sc"
        have f: "fresh ?sc" using less.prems(1) rest by (auto simp: fresh_def sc_next_def)
        have "reads (char_stream ?sc) (text_of (sc_rest ?sc))"
          using less.prems v_ok f r(4) by (intro less.hyps) (auto simp: rest sc_next_def)
        then have "reads (sc_char sc (Ch c) # char_stream ?sc) (c # text_of (sc_rest ?sc))"
          using less.prems(1)
          by (intro reads_Cons [OF _ fresh_between [OF f] refl]) (auto simp: sc_char_def sc_next_def fresh_def)
        then show ?thesis
          using stream_char [OF fresh_between [OF less.prems(1)] rest u nc] rest nc by (simp add: sc_next_def)
      qed
    next
      case False
      have big: "0x80 \<le> ord d" if "d \<in> set (utf8_encode u)" for d
        using encode_not_ascii [OF that] False r(2) by simp
      obtain xs sc' where x: "char_stream sc = xs @ char_stream sc'" "map xvalue xs = map Ch (utf8_encode u)"
        "fresh sc'" "sc_rest sc' = t" "sc_val sc' = v" "sc_crlf sc' = sc_crlf sc"
        using stream_sequence [OF fresh_between [OF less.prems(1)] r(1) v(1) big] by blast
      have "reads (char_stream sc') (text_of t)"
        using less.hyps [of sc'] less.prems x v_ok r by (simp add: ce)
      moreover have "\<exists>c. xvalue y = Ch c \<and> 0x80 \<le> ord c" if "y \<in> set xs" for y
      proof -
        from that have "xvalue y \<in> set (map xvalue xs)" by simp
        with x(2) big show ?thesis by auto
      qed
      moreover have "CR \<notin> set (utf8_encode u)" using big [of CR] by auto
      ultimately show ?thesis
        using x r(1) by (simp add: reads_def columns_ok_append text_of_append)
    qed
  qed
qed

section \<open>Properties\<close>

text \<open>
  C25: The scanner delivers, for every valid byte string, exactly the characters of the string with each
  run of carriage returns and the line feed after it replaced by one newline, then the end of the stream;
  a character that follows a newline has column 1 and one that follows another ASCII character has not.
\<close>

theorem scanner_stream:
  assumes "utf8 s ts wl"
  shows "map xvalue (char_stream (new_scanner s (new_validator ts wl) True)) = map Ch (text_of s) @ [Eof] \<and>
    columns_ok (char_stream (new_scanner s (new_validator ts wl) True))"
proof -
  let ?sc = "new_scanner s (new_validator ts wl) True"
  have "reads (char_stream ?sc) (text_of (sc_rest ?sc))"
    using assms by (intro reads_stream) (simp_all add: fresh_def new_scanner_def new_validator_def utf8_valid_string)
  then show ?thesis by (simp add: reads_def new_scanner_def)
qed

theorem scanner_stream_witness:
  "map xvalue (char_stream (new_scanner [CHR ''a'', CR, CR, LF, CHR 0xC3, CHR 0xA9, CR] (new_validator ct_any []) True)) =
     [Ch (CHR ''a''), Ch LF, Ch (CHR 0xC3), Ch (CHR 0xA9), Ch LF, Eof]"
proof -
  have "utf8 [CHR ''a'', CR, CR, LF, CHR 0xC3, CHR 0xA9, CR] ct_any []" by code_simp
  from scanner_stream [OF this] show ?thesis by (simp add: skip_newline_def)
qed

end
