(* ===== verification/Manifest_Parser.thy ===== *)
theory Manifest_Parser
  imports Char_Scanner
begin

text \<open>
  The manifest parser of \<open>libbutl\<close> (\<open>manifest-parser.cxx\<close>). Its input is the list of extended
  characters that the scanner delivers: \<open>peek ()\<close> looks at the head, \<open>get ()\<close> drops it (the end of the
  stream stays), \<open>unget ()\<close> puts a character back. The stream positions of a name/value pair, which are
  zero unless the input is a file, and the filter function are left out.
\<close>

datatype manifest_error =
    Manifest_parsing nat nat string  \<comment> \<open>\<open>manifest_parsing\<close>: line, column, description\<close>
  | Manifest_serialization string    \<comment> \<open>\<open>manifest_serialization\<close>: description\<close>
  | Manifest_assertion

type_synonym 'a manifest_result = "manifest_error + 'a"

type_synonym input = "xchar list"

section \<open>Reading characters\<close>

definition head :: "input \<Rightarrow> xchar" where
  "head i = (case i of c # _ \<Rightarrow> c | [] \<Rightarrow> \<lparr>xvalue = Eof, xline = 0, xcolumn = 0\<rparr>)"

definition mp_peek :: "string \<Rightarrow> input \<Rightarrow> xchar manifest_result" where
  "mp_peek what i =
     (let c = head i in
      case xvalue c of
        Invalid e \<Rightarrow> Inl (Manifest_parsing (xline c) (xcolumn c) (''invalid '' @ what @ '': '' @ e))
      | _ \<Rightarrow> Inr c)"

definition mp_get :: "input \<Rightarrow> input" where
  "mp_get i = (case i of c # t \<Rightarrow> if eos c then i else t | [] \<Rightarrow> [])"

lemma mp_get_length: "length (mp_get i) \<le> length i"
  by (cases i) (simp_all add: mp_get_def)

lemma mp_get_shorter: "\<not> eos (head i) \<Longrightarrow> length (mp_get i) < length i"
  by (cases i) (simp_all add: mp_get_def head_def eos_def)

section \<open>Spaces and names\<close>

text \<open>Dropping the rest of a comment line, up to the newline or the end of the stream.\<close>

fun skip_comment :: "input \<Rightarrow> input manifest_result" where
  "skip_comment [] = Inr []"
| "skip_comment (c # i) =
     (case mp_peek ''manifest'' (c # i) of
        Inl e \<Rightarrow> Inl e
      | Inr c' \<Rightarrow> if eos c' \<or> xch c' = LF then Inr (c # i) else skip_comment i)"

lemma skip_comment_length: "skip_comment i = Inr i' \<Longrightarrow> length i' \<le> length i"
proof (induction i)
  case (Cons c i)
  then show ?case by (auto split: sum.splits if_splits intro: le_SucI)
qed simp

text \<open>The loop of \<open>skip_spaces ()\<close>, with \<open>start\<close>: the character it returns is the head of the rest.\<close>

function skip_spaces_loop :: "bool \<Rightarrow> input \<Rightarrow> input manifest_result" where
  "skip_spaces_loop start i =
     (case mp_peek ''manifest'' i of
        Inl e \<Rightarrow> Inl e
      | Inr c \<Rightarrow>
          if eos c then Inr i
          else if xch c = CHR '' '' \<or> xch c = TAB then skip_spaces_loop start (mp_get i)
          else if xch c = LF then (if \<not> start then Inr i else skip_spaces_loop start (mp_get i))
          else if xch c = CHR ''#''
          then (if \<not> start then Inr i
                else case skip_comment (mp_get i) of Inl e \<Rightarrow> Inl e | Inr i1 \<Rightarrow> skip_spaces_loop start i1)
          else Inr i)"
  by pat_completeness auto
termination
proof (relation "measure (\<lambda>(start, i). length i)", goal_cases)
  case (4 start i c i1)
  then have "length i1 \<le> length (mp_get i)" "\<not> eos (head i)"
    by (auto simp: skip_comment_length mp_peek_def Let_def split: xvalue.splits)
  then show ?case using mp_get_shorter by fastforce
qed (auto simp: mp_peek_def Let_def intro!: mp_get_shorter split: xvalue.splits)

declare skip_spaces_loop.simps [simp del]

definition skip_spaces :: "input \<Rightarrow> input manifest_result" where
  "skip_spaces i =
     (case mp_peek ''manifest'' i of
        Inl e \<Rightarrow> Inl e
      | Inr c \<Rightarrow> skip_spaces_loop (xcolumn c = 1) i)"

record manifest_name_value =
  mv_name :: string
  mv_value :: string
  name_line :: nat
  name_column :: nat
  value_line :: nat
  value_column :: nat

definition nv_empty :: "manifest_name_value \<Rightarrow> bool" where
  "nv_empty r \<longleftrightarrow> mv_name r = [] \<and> mv_value r = []"

fun parse_name_loop :: "string \<Rightarrow> input \<Rightarrow> (string \<times> input) manifest_result" where
  "parse_name_loop n [] = Inr (n, [])"
| "parse_name_loop n (x # i) =
     (case mp_peek ''manifest name'' (x # i) of
        Inl e \<Rightarrow> Inl e
      | Inr c \<Rightarrow>
          if eos c \<or> xch c = CHR '':'' \<or> xch c = CHR '' '' \<or> xch c = TAB \<or> xch c = LF then Inr (n, x # i)
          else parse_name_loop (n @ [xch c]) i)"

section \<open>Values\<close>

text \<open>
  One turn of the loop of \<open>parse_value ()\<close>: the value so far with the size of its last non-space
  character, the flag \<open>nl\<close> and the rest of the input. \<open>Stop\<close> is the \<open>break\<close> or the end of the loop.
\<close>

datatype value_step =
    Stop string nat input
  | Next bool string nat input

abbreviation peek_value :: "input \<Rightarrow> xchar manifest_result" where
  "peek_value \<equiv> mp_peek ''manifest value''"

text \<open>The character itself, at the end of the loop's body.\<close>

definition value_char :: "bool \<Rightarrow> string \<Rightarrow> nat \<Rightarrow> xchar \<Rightarrow> input \<Rightarrow> value_step" where
  "value_char ml v n c i =
     Next False (v @ [xch c])
       (if \<not> ml \<and> xch c \<noteq> CHR '' '' \<and> xch c \<noteq> TAB then length v + 1 else n) (mp_get i)"

text \<open>The newline escape sequence and the escaped backslash, after a backslash \<open>c\<close> at the head of \<open>i\<close>.\<close>

definition value_escape :: "bool \<Rightarrow> string \<Rightarrow> nat \<Rightarrow> xchar \<Rightarrow> input \<Rightarrow> value_step manifest_result" where
  "value_escape ml v n c i =
     (if xch c = CHR 0x5C
      then
        let i1 = mp_get i in
        case peek_value i1 of
          Inl e \<Rightarrow> Inl e
        | Inr c1 \<Rightarrow>
            if xch c1 = LF then Inr (Next True v n (mp_get i1))
            else if eos c1 then Inr (Next False v n i1)
            else if xch c1 = CHR 0x5C
            then
              let i2 = mp_get i1 in
              case peek_value i2 of
                Inl e \<Rightarrow> Inl e
              | Inr c2 \<Rightarrow>
                  if xch c2 = LF \<or> eos c1 then Inr (Next False (v @ [CHR 0x5C]) (length v + 1) i2)
                  else Inr (Next False (v @ [CHR 0x5C]) (length v + 1) i1)
            else Inr (value_char ml v n c i)
      else Inr (value_char ml v n c i))"

text \<open>A newline: the end of a simple value, or of a multi-line value when a backslash line follows.\<close>

definition value_newline :: "bool \<Rightarrow> string \<Rightarrow> nat \<Rightarrow> xchar \<Rightarrow> input \<Rightarrow> value_step manifest_result" where
  "value_newline ml v n c i =
     (if xch c = LF
      then
        if ml
        then
          let i1 = mp_get i in
          case peek_value i1 of
            Inl e \<Rightarrow> Inl e
          | Inr c1 \<Rightarrow>
              if xch c1 = CHR 0x5C
              then
                let i2 = mp_get i1 in
                case peek_value i2 of
                  Inl e \<Rightarrow> Inl e
                | Inr c2 \<Rightarrow>
                    if xch c2 = LF \<or> eos c2 then Inr (Stop v n i2)
                    else Inr (Next False (v @ [LF]) n i1)
              else value_escape ml v n c i
        else Inr (Stop v n i)
      else value_escape ml v n c i)"

text \<open>The special newline, and the tests that follow.\<close>

definition value_turn :: "bool \<Rightarrow> bool \<Rightarrow> string \<Rightarrow> nat \<Rightarrow> input \<Rightarrow> value_step manifest_result" where
  "value_turn ml nl v n i =
     (case peek_value i of
        Inl e \<Rightarrow> Inl e
      | Inr c \<Rightarrow>
          if eos c then Inr (Stop v n i)
          else if nl \<and> xch c = CHR 0x5C
          then
            let i1 = mp_get i in
            case peek_value i1 of
              Inl e \<Rightarrow> Inl e
            | Inr c1 \<Rightarrow>
                if xch c1 = LF \<or> eos c1
                then
                  if ml then Inr (Stop v n i1)
                  else Inr (Next False (v @ [LF]) (length v + 1) (if xch c1 = LF then mp_get i1 else i1))
                else value_newline ml v n c i
          else value_newline ml v n c i)"

lemma mp_peek_Inr: "mp_peek what i = Inr c \<Longrightarrow> c = head i"
  by (auto simp: mp_peek_def Let_def split: xvalue.splits)

lemma xch_not_eos: "xch c \<noteq> NUL \<Longrightarrow> \<not> eos c"
  by (auto simp: xch_def eos_def split: xvalue.splits)

lemma value_escape_shorter:
  assumes "value_escape ml v n (head i) i = Inr (Next nl' v' n' i')" "\<not> eos (head i)"
  shows "length i' < length i"
proof -
  have 1: "length (mp_get i) < length i" using assms(2) by (rule mp_get_shorter)
  have 2: "length (mp_get (mp_get i)) \<le> length (mp_get i)" by (rule mp_get_length)
  show ?thesis
    using assms(1) 1 2 by (auto simp: value_escape_def value_char_def Let_def split: if_splits sum.splits)
qed

lemma value_newline_shorter:
  assumes "value_newline ml v n (head i) i = Inr (Next nl' v' n' i')" "\<not> eos (head i)"
  shows "length i' < length i"
  using assms mp_get_shorter [OF assms(2)] value_escape_shorter [OF _ assms(2), of ml v n nl' v' n' i']
  by (auto simp: value_newline_def Let_def split: if_splits sum.splits)

lemma value_turn_shorter:
  assumes "value_turn ml nl v n i = Inr (Next nl' v' n' i')"
  shows "length i' < length i"
proof -
  obtain c where c: "peek_value i = Inr c" "\<not> eos c" using assms
    by (auto simp: value_turn_def split: sum.splits if_splits)
  then have h: "c = head i" "\<not> eos (head i)" using mp_peek_Inr by auto
  note s = mp_get_shorter [OF h(2)] mp_get_length [of "mp_get i"]
  show ?thesis
    using assms c h s value_newline_shorter [of ml v n i nl' v' n' i']
    by (auto simp: value_turn_def Let_def split: sum.splits if_splits)
qed

function parse_value_loop :: "bool \<Rightarrow> bool \<Rightarrow> string \<Rightarrow> nat \<Rightarrow> input \<Rightarrow> (string \<times> nat \<times> input) manifest_result" where
  "parse_value_loop ml nl v n i =
     (case value_turn ml nl v n i of
        Inl e \<Rightarrow> Inl e
      | Inr (Stop v n i) \<Rightarrow> Inr (v, n, i)
      | Inr (Next nl v n i) \<Rightarrow> parse_value_loop ml nl v n i)"
  by pat_completeness auto
termination
  by (relation "measure (\<lambda>(ml, nl, v, n, i). length i)") (auto dest: value_turn_shorter)

declare parse_value_loop.simps [simp del]

text \<open>
  \<open>parse_value ()\<close>: the value and its position. An introductor at the end of the stream leaves the
  backslash as the first character of the loop, which then ends in its first turn with an empty value.
\<close>

definition parse_value :: "input \<Rightarrow> (string \<times> xchar \<times> input) manifest_result" where
  "parse_value i =
     (case peek_value i of
        Inl e \<Rightarrow> Inl e
      | Inr c \<Rightarrow>
          if xch c = CHR 0x5C
          then
            let i1 = mp_get i in
            case peek_value i1 of
              Inl e \<Rightarrow> Inl e
            | Inr p \<Rightarrow>
                if xch p = LF
                then
                  let i2 = mp_get i1 in
                  case peek_value i2 of
                    Inl e \<Rightarrow> Inl e
                  | Inr c2 \<Rightarrow>
                      (case parse_value_loop True True [] 0 i2 of
                         Inl e \<Rightarrow> Inl e
                       | Inr (v, _, i3) \<Rightarrow> Inr (v, c2, i3))
                else if eos p then Inr ([], c, i1)
                else (case parse_value_loop False False [] 0 i of
                        Inl e \<Rightarrow> Inl e
                      | Inr (v, n, i3) \<Rightarrow> Inr (take n v, c, i3))
          else (case parse_value_loop False False [] 0 i of
                  Inl e \<Rightarrow> Inl e
                | Inr (v, n, i3) \<Rightarrow> Inr (take n v, c, i3)))"

section \<open>Pairs\<close>

datatype manifest_state = Start | Body | End

record manifest_parser =
  mp_state :: manifest_state
  mp_version :: string
  mp_input :: input

definition new_parser :: "input \<Rightarrow> manifest_parser" where
  "new_parser i = \<lparr>mp_state = Start, mp_version = [], mp_input = i\<rparr>"

definition pair_at :: "string \<Rightarrow> string \<Rightarrow> xchar \<Rightarrow> xchar \<Rightarrow> manifest_name_value" where
  "pair_at n v c d = \<lparr>mv_name = n, mv_value = v, name_line = xline c, name_column = xcolumn c,
     value_line = xline d, value_column = xcolumn d\<rparr>"

text \<open>The end of \<open>parse_next ()\<close>: whether the pair makes sense in the state of the parser.\<close>

definition accept_pair ::
  "manifest_parser \<Rightarrow> manifest_name_value \<Rightarrow> input \<Rightarrow> (manifest_name_value \<times> manifest_parser) manifest_result" where
  "accept_pair p r i =
     (if mp_state p = Start
      then
        if mv_name r \<noteq> []
        then Inl (Manifest_parsing (name_line r) (name_column r) ''format version pair expected'')
        else if mv_value r = []
        then
          if mp_version p = []
          then Inl (Manifest_parsing (value_line r) (value_column r) ''format version value expected'')
          else Inr (r\<lparr>mv_value := mp_version p\<rparr>, p\<lparr>mp_state := Body, mp_input := i\<rparr>)
        else if mv_value r \<noteq> ''1''
        then Inl (Manifest_parsing (value_line r) (value_column r) (''unsupported format version '' @ mv_value r))
        else Inr (r, p\<lparr>mp_version := mv_value r, mp_state := Body, mp_input := i\<rparr>)
      else if mv_name r = [] then Inl Manifest_assertion
      else Inr (r, p\<lparr>mp_input := i\<rparr>))"

text \<open>The value of a pair, after its colon, with the newline that ends it.\<close>

definition parse_pair_value :: "input \<Rightarrow> (string \<times> xchar \<times> input) manifest_result" where
  "parse_pair_value i =
     (case skip_spaces i of
        Inl e \<Rightarrow> Inl e
      | Inr i1 \<Rightarrow>
     (case parse_value i1 of
        Inl e \<Rightarrow> Inl e
      | Inr (v, d, i2) \<Rightarrow>
     (case mp_peek ''manifest'' i2 of
        Inl e \<Rightarrow> Inl e
      | Inr c \<Rightarrow>
          if \<not> (xch c = LF \<or> eos c) then Inl Manifest_assertion
          else Inr (v, d, if xch c = LF then mp_get i2 else i2))))"

definition colon_expected :: "xchar \<Rightarrow> manifest_error" where
  "colon_expected c =
     Manifest_parsing (xline c) (xcolumn c) ([CHR 0x27] @ '':'' @ [CHR 0x27] @ '' expected after name'')"

definition parse_next :: "manifest_parser \<Rightarrow> (manifest_name_value \<times> manifest_parser) manifest_result" where
  "parse_next p =
     (if mp_state p = End
      then Inr (pair_at [] [] (head (mp_input p)) (head (mp_input p)), p)
      else case skip_spaces (mp_input p) of
        Inl e \<Rightarrow> Inl e
      | Inr i \<Rightarrow>
     if mp_state p = Body \<and> xch (head i) = CHR '':''
     then Inr (pair_at [] [] (head i) (head i), p\<lparr>mp_state := Start, mp_input := i\<rparr>)
     else case parse_name_loop [] i of
        Inl e \<Rightarrow> Inl e
      | Inr (n, i1) \<Rightarrow>
     (case skip_spaces i1 of
        Inl e \<Rightarrow> Inl e
      | Inr i2 \<Rightarrow>
     (case mp_peek ''manifest'' i2 of
        Inl e \<Rightarrow> Inl e
      | Inr c \<Rightarrow>
     if eos c
     then (if n \<noteq> [] then Inl (colon_expected c)
           else Inr (pair_at [] [] (head i) (head i), p\<lparr>mp_state := End, mp_input := i2\<rparr>))
     else if xch c \<noteq> CHR '':'' then Inl (colon_expected c)
     else case parse_pair_value (mp_get i2) of
        Inl e \<Rightarrow> Inl e
      | Inr (v, d, i3) \<Rightarrow> accept_pair p (pair_at n v (head i) d) i3)))"

section \<open>Manifests\<close>

lemma skip_spaces_loop_length: "skip_spaces_loop start i = Inr i' \<Longrightarrow> length i' \<le> length i"
proof (induction start i rule: skip_spaces_loop.induct)
  case (1 start i)
  from 1(4) show ?case
    using 1(1-3) mp_get_length [of i] skip_comment_length [of "mp_get i"]
    by (auto simp: skip_spaces_loop.simps [of start i] split: sum.splits if_splits)
      (meson le_trans)+
qed

lemma skip_spaces_length: "skip_spaces i = Inr i' \<Longrightarrow> length i' \<le> length i"
  by (auto simp: skip_spaces_def dest: skip_spaces_loop_length split: sum.splits)

lemma parse_name_length: "parse_name_loop n i = Inr (n', i') \<Longrightarrow> length i' \<le> length i"
proof (induction i arbitrary: n)
  case (Cons c i)
  then show ?case by (auto split: sum.splits if_splits intro: le_SucI)
qed simp

lemma value_stop_length: "value_turn ml nl v n i = Inr (Stop v' n' i') \<Longrightarrow> length i' \<le> length i"
  using mp_get_length [of i] mp_get_length [of "mp_get i"]
  by (auto simp: value_turn_def value_newline_def value_escape_def value_char_def Let_def split: sum.splits if_splits)

lemma parse_value_loop_length: "parse_value_loop ml nl v n i = Inr (v', n', i') \<Longrightarrow> length i' \<le> length i"
proof (induction ml nl v n i rule: parse_value_loop.induct)
  case (1 ml nl v n i)
  then show ?case
    using value_stop_length [of ml nl v n i] value_turn_shorter [of ml nl v n i]
    by (auto simp: parse_value_loop.simps [of ml nl v n i] split: sum.splits value_step.splits)
qed

lemma parse_value_length: "parse_value i = Inr (v, d, i') \<Longrightarrow> length i' \<le> length i"
  using mp_get_length [of i] mp_get_length [of "mp_get i"]
  by (auto simp: parse_value_def Let_def dest!: parse_value_loop_length split: sum.splits if_splits)

lemma parse_pair_value_length: "parse_pair_value i = Inr (v, d, i') \<Longrightarrow> length i' \<le> length i"
  using mp_get_length
  by (auto simp: parse_pair_value_def dest!: parse_value_length skip_spaces_length split: sum.splits if_splits)
    (meson le_trans)+

lemma accept_pair_input: "accept_pair p r i = Inr (r', p') \<Longrightarrow> mp_input p' = i"
  by (auto simp: accept_pair_def split: if_splits)

lemma parse_next_shorter:
  assumes "parse_next p = Inr (nv, p')" "\<not> nv_empty nv"
  shows "length (mp_input p') < length (mp_input p)"
  using assms
  by (auto simp: parse_next_def nv_empty_def pair_at_def split: sum.splits if_splits
      dest!: mp_peek_Inr accept_pair_input skip_spaces_length parse_name_length parse_pair_value_length mp_get_shorter)

text \<open>The loop of \<open>try_parse_manifest ()\<close>.\<close>

function parse_pairs ::
  "manifest_parser \<Rightarrow> manifest_name_value list \<Rightarrow> (manifest_name_value list \<times> manifest_parser) manifest_result" where
  "parse_pairs p r =
     (case parse_next p of
        Inl e \<Rightarrow> Inl e
      | Inr (nv, p1) \<Rightarrow> if nv_empty nv then Inr (r, p1) else parse_pairs p1 (r @ [nv]))"
  by pat_completeness auto
termination
  by (relation "measure (\<lambda>(p, r). length (mp_input p))") (auto dest: parse_next_shorter)

declare parse_pairs.simps [simp del]

text \<open>\<open>None\<close>: the end of the stream, where it is allowed.\<close>

definition try_parse_manifest_eos ::
  "bool \<Rightarrow> manifest_parser \<Rightarrow> (manifest_name_value list option \<times> manifest_parser) manifest_result" where
  "try_parse_manifest_eos allow_eos p =
     (case parse_next p of
        Inl e \<Rightarrow> Inl e
      | Inr (nv, p1) \<Rightarrow>
          if nv_empty nv \<and> allow_eos then Inr (None, p1)
          else if mv_name nv \<noteq> [] \<or> nv_empty nv
          then Inl (Manifest_parsing (value_line nv) (value_column nv) ''start of manifest expected'')
          else (case parse_pairs p1 [] of
                  Inl e \<Rightarrow> Inl e
                | Inr (r, p2) \<Rightarrow> Inr (Some r, p2)))"

definition try_parse_manifest ::
  "manifest_parser \<Rightarrow> (manifest_name_value list option \<times> manifest_parser) manifest_result" where
  "try_parse_manifest p = try_parse_manifest_eos True p"

definition parse_manifest :: "manifest_parser \<Rightarrow> (manifest_name_value list \<times> manifest_parser) manifest_result" where
  "parse_manifest p =
     (case try_parse_manifest_eos False p of
        Inl e \<Rightarrow> Inl e
      | Inr (Some r, p1) \<Rightarrow> Inr (r, p1)
      | Inr (None, p1) \<Rightarrow> Inr ([], p1))"

section \<open>Comments in values\<close>

definition comment_space :: "char \<Rightarrow> bool" where
  "comment_space c \<longleftrightarrow> c = CHR '' '' \<or> c = TAB"

text \<open>The loop of \<open>split_comment ()\<close>: the value, the size up to its last non-space, and the rest.\<close>

function split_loop :: "string \<Rightarrow> nat \<Rightarrow> string \<Rightarrow> string \<times> nat \<times> string" where
  "split_loop r n [] = (r, n, [])"
| "split_loop r n (c # s) =
     (if c = CHR '';'' then (r, n, c # s)
      else if c = CHR 0x5C \<and> s \<noteq> [] \<and> hd s = CHR '';''
      then split_loop (r @ [CHR '';'']) (length r + 1) (tl s)
      else split_loop (r @ [c]) (if \<not> comment_space c then length r + 1 else n) s)"
  by pat_completeness auto
termination
  by (relation "measure (\<lambda>(r, n, s). length s)") auto

definition split_comment :: "string \<Rightarrow> string \<times> string" where
  "split_comment v =
     (case split_loop [] 0 v of (r, n, i) \<Rightarrow>
        (take n r, case i of [] \<Rightarrow> [] | _ # t \<Rightarrow> dropWhile comment_space t))"

end
