(* ===== verification/Manifest_Serializer.thy ===== *)
theory Manifest_Serializer
  imports Manifest_Parser
begin

text \<open>
  The manifest serializer of \<open>libbutl\<close> (\<open>manifest-serializer.cxx\<close>): names and values are validated and
  written to the output string, long lines being broken and values with newlines being written in the
  multi-line form. The filter function is left out.
\<close>

text \<open>The validator that the parser and the serializer use: graphic codepoints and \<open>U"\n\r\t"\<close>.\<close>

definition manifest_whitelist :: "nat list" where
  "manifest_whitelist = [0x0A, 0x0D, 0x09]"

definition manifest_validator :: utf8_validator where
  "manifest_validator = new_validator ct_graphic manifest_whitelist"

abbreviation BS :: char where "BS \<equiv> CHR 0x5C"

record manifest_serializer =
  ms_state :: manifest_state
  ms_version :: string
  ms_os :: string
  ms_long_lines :: bool

definition new_serializer :: "bool \<Rightarrow> manifest_serializer" where
  "new_serializer long = \<lparr>ms_state = Start, ms_version = [], ms_os = [], ms_long_lines = long\<rparr>"

section \<open>Names\<close>

fun write_name_loop :: "utf8_validator \<Rightarrow> bool \<Rightarrow> nat \<Rightarrow> string \<Rightarrow> nat manifest_result" where
  "write_name_loop v eoc r [] =
     (if \<not> eoc then Inl (Manifest_serialization ''invalid name: incomplete UTF-8 sequence'') else Inr r)"
| "write_name_loop v eoc r (c # s) =
     (case utf8_validate v c of ((valid, eoc1), what, v1) \<Rightarrow>
        if \<not> valid
        then Inl (Manifest_serialization (''invalid name: '' @ (case what of Some w \<Rightarrow> w | None \<Rightarrow> [])))
        else if eoc1
        then
          if c = CHR '' '' \<or> c = TAB \<or> c = CR \<or> c = LF
          then Inl (Manifest_serialization ''name contains whitespace'')
          else if c = CHR '':''
          then Inl (Manifest_serialization (''name contains '' @ [CHR 0x27] @ '':'' @ [CHR 0x27]))
          else write_name_loop v1 True (r + 1) s
        else write_name_loop v1 False r s)"

text \<open>The length of the name in codepoints and the output with it.\<close>

definition write_name :: "string \<Rightarrow> string \<Rightarrow> (nat \<times> string) manifest_result" where
  "write_name n os =
     (if n = [] then Inl (Manifest_serialization ''empty name'')
      else if hd n = CHR ''#''
      then Inl (Manifest_serialization (''name starts with '' @ [CHR 0x27] @ ''#'' @ [CHR 0x27]))
      else case write_name_loop manifest_validator False 0 n of
        Inl e \<Rightarrow> Inl e
      | Inr r \<Rightarrow> Inr (r, os @ n))"

section \<open>Values\<close>

text \<open>Whether the line is broken before the character \<open>c\<close> at offset \<open>cl\<close>, with \<open>s\<close> after it.\<close>

definition space_char :: "char \<Rightarrow> bool" where
  "space_char c \<longleftrightarrow> c = CHR '' '' \<or> c = TAB"

definition soft_break :: "char \<Rightarrow> string \<Rightarrow> nat \<Rightarrow> bool" where
  "soft_break c s cl \<longleftrightarrow>
     space_char c \<and>
     (let w = takeWhile (\<lambda>d. \<not> space_char d) s
      in cl + (1 + length w) > (if w \<noteq> s then 77 else 78)) \<and>
     cl > 57"

definition line_break :: "char \<Rightarrow> string \<Rightarrow> nat \<Rightarrow> bool" where
  "line_break c s cl \<longleftrightarrow> soft_break c s cl \<or> cl \<ge> (if s \<noteq> [] then 77 else 78)"

text \<open>
  \<open>write_value (s, n, cl)\<close>: \<open>pc\<close> is the character written last and \<open>b\<close> tells that a codepoint begins.
\<close>

fun write_chars ::
  "bool \<Rightarrow> utf8_validator \<Rightarrow> char \<Rightarrow> bool \<Rightarrow> nat \<Rightarrow> string \<Rightarrow> string \<Rightarrow> string manifest_result" where
  "write_chars long v pc b cl os [] =
     (if \<not> b then Inl (Manifest_serialization ''invalid value: incomplete UTF-8 sequence'')
      else Inr (if pc = BS then os @ [BS] else os))"
| "write_chars long v pc b cl os (c # s) =
     (case utf8_validate v c of ((valid, eoc), what, v1) \<Rightarrow>
        if \<not> valid
        then Inl (Manifest_serialization (''invalid value: '' @ (case what of Some w \<Rightarrow> w | None \<Rightarrow> [])))
        else
          let br = (pc \<noteq> BS \<and> b \<and> \<not> long \<and> line_break c s cl);
              cl1 = (if br then 0 else cl);
              os1 = (if br then os @ [BS, LF] else os)
          in write_chars long v1 c eoc (if eoc then cl1 + 1 else cl1) (os1 @ [c]) s)"

definition write_chunk :: "bool \<Rightarrow> nat \<Rightarrow> string \<Rightarrow> string \<Rightarrow> string manifest_result" where
  "write_chunk long cl os s = write_chars long manifest_validator NUL True cl os s"

definition newline_char :: "char \<Rightarrow> bool" where
  "newline_char c \<longleftrightarrow> c = CR \<or> c = LF"

text \<open>The chunks of a multi-line value, separated by newlines.\<close>

function write_lines :: "bool \<Rightarrow> string \<Rightarrow> string \<Rightarrow> string manifest_result" where
  "write_lines long os v =
     (case dropWhile (\<lambda>c. \<not> newline_char c) v of
        [] \<Rightarrow> write_chunk long 0 os v
      | p # t \<Rightarrow>
          (case write_chunk long 0 os (takeWhile (\<lambda>c. \<not> newline_char c) v) of
             Inl e \<Rightarrow> Inl e
           | Inr os1 \<Rightarrow> write_lines long (os1 @ [LF]) (if p = CR \<and> t \<noteq> [] \<and> hd t = LF then tl t else t)))"
  by pat_completeness auto
termination
proof (relation "measure (\<lambda>(long, os, v). length v)", goal_cases)
  case (2 long os v p t os1)
  have "length (p # t) \<le> length v" using 2(1) length_dropWhile_le by metis
  then show ?case by auto
qed simp

declare write_lines.simps [simp del]

text \<open>\<open>write_value (v, cl)\<close>, for a value that is not empty.\<close>

definition multi_line :: "string \<Rightarrow> nat \<Rightarrow> bool" where
  "multi_line v cl \<longleftrightarrow> cl > 39 \<or> list_ex newline_char v \<or> space_char (hd v) \<or> space_char (last v)"

definition write_value :: "bool \<Rightarrow> string \<Rightarrow> nat \<Rightarrow> string \<Rightarrow> string manifest_result" where
  "write_value long v cl os =
     (if multi_line v cl
      then (case write_lines long (os @ [BS, LF]) v of
              Inl e \<Rightarrow> Inl e
            | Inr os1 \<Rightarrow> Inr (os1 @ [LF, BS]))
      else write_chunk long cl os v)"

section \<open>Pairs\<close>

text \<open>The \<open>start\<close> and \<open>body\<close> cases of \<open>write_next ()\<close>.\<close>

definition write_start :: "string \<Rightarrow> string \<Rightarrow> manifest_serializer \<Rightarrow> manifest_serializer manifest_result" where
  "write_start n v ms =
     (if n \<noteq> [] then Inl (Manifest_serialization ''format version pair expected'')
      else if v = [] then Inr (ms\<lparr>ms_state := End\<rparr>)
      else if v \<noteq> ''1'' then Inl (Manifest_serialization (''unsupported format version '' @ v))
      else Inr (ms\<lparr>ms_os := ms_os ms @ '':'' @ (if v \<noteq> ms_version ms then '' '' @ v else []) @ [LF],
                   ms_version := v, ms_state := Body\<rparr>))"

definition write_body :: "string \<Rightarrow> string \<Rightarrow> manifest_serializer \<Rightarrow> manifest_serializer manifest_result" where
  "write_body n v ms =
     (case write_name n (ms_os ms) of
        Inl e \<Rightarrow> Inl e
      | Inr (l, os) \<Rightarrow>
          if v \<noteq> []
          then (case write_value (ms_long_lines ms) v (l + 2) (os @ '': '') of
                  Inl e \<Rightarrow> Inl e
                | Inr os1 \<Rightarrow> Inr (ms\<lparr>ms_os := os1 @ [LF]\<rparr>))
          else Inr (ms\<lparr>ms_os := os @ '':'' @ [LF]\<rparr>))"

definition write_next :: "string \<Rightarrow> string \<Rightarrow> manifest_serializer \<Rightarrow> manifest_serializer manifest_result" where
  "write_next n v ms =
     (case ms_state ms of
        Start \<Rightarrow> write_start n v ms
      | Body \<Rightarrow>
          if n = []
          then (let ms1 = ms\<lparr>ms_state := Start\<rparr> in if v \<noteq> [] then write_start n v ms1 else Inr ms1)
          else write_body n v ms
      | End \<Rightarrow> Inl (Manifest_serialization ''serialization after eos''))"

definition write_comment :: "string \<Rightarrow> manifest_serializer \<Rightarrow> manifest_serializer manifest_result" where
  "write_comment t ms =
     (if ms_state ms = End then Inl (Manifest_serialization ''serialization after eos'')
      else case utf8_length_impl t ct_graphic manifest_whitelist of
        Inl what \<Rightarrow> Inl (Manifest_serialization (''invalid comment: '' @ what))
      | Inr _ \<Rightarrow> Inr (ms\<lparr>ms_os := ms_os ms @ ''#'' @ (if t \<noteq> [] then '' '' @ t else []) @ [LF]\<rparr>))"

definition merge_comment :: "string \<Rightarrow> string \<Rightarrow> string" where
  "merge_comment v c =
     concat (map (\<lambda>d. if d = CHR '';'' then [BS, d] else [d]) v) @ (if c \<noteq> [] then ''; '' @ c else [])"

section \<open>Manifests\<close>

fun write_pairs :: "(string \<times> string) list \<Rightarrow> manifest_serializer \<Rightarrow> manifest_serializer manifest_result" where
  "write_pairs [] ms = Inr ms"
| "write_pairs ((n, v) # nvs) ms =
     (case write_next n v ms of Inl e \<Rightarrow> Inl e | Inr ms1 \<Rightarrow> write_pairs nvs ms1)"

definition serialize_manifest ::
  "(string \<times> string) list \<Rightarrow> bool \<Rightarrow> manifest_serializer \<Rightarrow> manifest_serializer manifest_result" where
  "serialize_manifest nvs fin ms =
     write_pairs ([([], ''1'')] @ nvs @ [([], [])] @ (if fin then [([], [])] else [])) ms"

end
