(* ===== verification/Manifest_Properties.thy ===== *)
theory Manifest_Properties
  imports Manifest_Serializer Char_Scanner_Properties
begin

text \<open>
  Properties of the manifest parser and serializer: what a serializer writes is read back by a parser as
  the same names and values, whatever line breaks it has put in, and no assertion of the parser can fail.
\<close>

section \<open>Reading a known text\<close>

lemma reads_Nil [simp]: "reads i [] \<Longrightarrow> eos (head i) \<and> mp_get i = i \<and> mp_peek w i = Inr (head i) \<and> xch (head i) = NUL"
  by (cases i) (auto simp: reads_def head_def mp_get_def eos_def mp_peek_def xch_def)

lemma reads_hd:
  assumes "reads i (c # s)"
  shows "\<not> eos (head i)" "xch (head i) = c" "mp_peek w i = Inr (head i)" "xvalue (head i) = Ch c"
    and "reads (mp_get i) s"
proof -
  obtain x t where i: "i = x # t" "xvalue x = Ch c" "map xvalue t = map Ch s @ [Eof]"
    using assms by (cases i) (auto simp: reads_def)
  then show "\<not> eos (head i)" "xch (head i) = c" "mp_peek w i = Inr (head i)" "xvalue (head i) = Ch c"
    by (auto simp: head_def eos_def xch_def mp_peek_def)
  have "columns_ok t" using assms i by (cases t) (auto simp: reads_def)
  with i show "reads (mp_get i) s" by (simp add: reads_def mp_get_def eos_def)
qed

lemma reads_next_column:
  assumes "reads i (c # s)"
  shows "c = LF \<Longrightarrow> xcolumn (head (mp_get i)) = 1"
    and "ord c < 0x80 \<Longrightarrow> c \<noteq> LF \<Longrightarrow> xcolumn (head (mp_get i)) \<noteq> 1"
proof -
  obtain x y t where i: "i = x # y # t" "xvalue x = Ch c"
    using assms by (cases i; cases "tl i") (auto simp: reads_def)
  with assms show "c = LF \<Longrightarrow> xcolumn (head (mp_get i)) = 1"
    "ord c < 0x80 \<Longrightarrow> c \<noteq> LF \<Longrightarrow> xcolumn (head (mp_get i)) \<noteq> 1"
    by (auto simp: reads_def mp_get_def eos_def head_def)
qed

lemma reads_not_Nil: "reads i s \<Longrightarrow> i \<noteq> []"
  by (auto simp: reads_def)

section \<open>Broken lines\<close>

text \<open>
  \<open>broken pc nb s w\<close>: the text \<open>w\<close> is the line \<open>s\<close> with escaped newlines put in, none after a backslash
  and, with \<open>nb\<close>, none at the start, and with a final backslash doubled; \<open>pc\<close> is the character before.
\<close>

inductive broken :: "char \<Rightarrow> bool \<Rightarrow> string \<Rightarrow> string \<Rightarrow> bool" where
  broken_end: "broken pc nb [] (if pc = BS then [BS] else [])"
| broken_char: "broken c False s w \<Longrightarrow> broken pc nb (c # s) (c # w)"
| broken_break: "broken c False s w \<Longrightarrow> pc \<noteq> BS \<Longrightarrow> broken pc False (c # s) (BS # LF # c # w)"

inductive_cases broken_NilE: "broken pc nb [] w"
inductive_cases broken_ConsE: "broken pc nb (c # s) w"

definition no_newline :: "string \<Rightarrow> bool" where
  "no_newline s \<longleftrightarrow> list_all (\<lambda>c. \<not> newline_char c) s"

lemma no_newline_Cons [simp]: "no_newline (c # s) \<longleftrightarrow> c \<noteq> LF \<and> c \<noteq> CR \<and> no_newline s"
  by (auto simp: no_newline_def newline_char_def)

lemma broken_BS_Cons: "broken BS nb (e # s) (d # u) \<Longrightarrow> e = d \<and> broken d False s u"
  by (erule broken_ConsE) simp_all

text \<open>After a backslash of the line comes a character that is not a newline.\<close>

lemma broken_after_BS:
  assumes "broken BS False s w" "no_newline s"
  obtains d u where "w = d # u" "d \<noteq> LF" "d = BS \<Longrightarrow> s = [] \<Longrightarrow> u = []"
  using assms that by (cases s) (auto elim!: broken_NilE broken_ConsE)

lemma broken_start:
  assumes "broken pc True s w" "no_newline s" "pc \<noteq> BS" "w @ LF # r = BS # x"
  obtains d u where "x = d # u" "d \<noteq> LF"
proof -
  from assms obtain s' w' where "s = BS # s'" "w = BS # w'" "broken BS False s' w'"
    by (cases s) (auto elim!: broken_NilE broken_ConsE)
  with assms(2,4) broken_after_BS [of s' w'] that show thesis by (metis append_Cons list.inject no_newline_Cons)
qed

section \<open>Reading a value\<close>

lemma value_loop_step:
  "value_turn ml nl v n i = Inr (Next nl' v' n' i') \<Longrightarrow> parse_value_loop ml nl v n i = parse_value_loop ml nl' v' n' i'"
  by (simp add: parse_value_loop.simps [of ml nl])

lemma value_loop_stop: "value_turn ml nl v n i = Inr (Stop v' n' i') \<Longrightarrow> parse_value_loop ml nl v n i = Inr (v', n', i')"
  by (simp add: parse_value_loop.simps)

lemma turn_plain:
  assumes "reads i (c # s)" "c \<noteq> BS" "c \<noteq> LF"
  shows "value_turn ml nl v n i = Inr (Next False (v @ [c])
    (if \<not> ml \<and> \<not> space_char c then length v + 1 else n) (mp_get i))"
  using assms reads_hd [OF assms(1)]
  by (simp add: value_turn_def value_newline_def value_escape_def value_char_def space_char_def)

lemma turn_break:
  assumes "reads i (BS # LF # s)"
  shows "value_turn ml False v n i = Inr (Next True v n (mp_get (mp_get i)))"
  using reads_hd [OF assms] reads_hd [OF reads_hd(5) [OF assms]]
  by (simp add: value_turn_def value_newline_def value_escape_def Let_def)

lemma turn_backslash:
  assumes "reads i (BS # d # s)" "d \<noteq> LF" "d \<noteq> BS"
  shows "value_turn ml nl v n i = Inr (Next False (v @ [BS]) (if \<not> ml then length v + 1 else n) (mp_get i))"
  using assms reads_hd [OF assms(1)] reads_hd [OF reads_hd(5) [OF assms(1)]]
  by (simp add: value_turn_def value_newline_def value_escape_def value_char_def Let_def)

lemma turn_two_backslashes:
  assumes "reads i (BS # BS # d # s)" "d \<noteq> LF"
  shows "value_turn ml nl v n i = Inr (Next False (v @ [BS]) (length v + 1) (mp_get i))"
  using assms reads_hd [OF assms(1)] reads_hd [OF reads_hd(5) [OF assms(1)]]
    reads_hd [OF reads_hd(5) [OF reads_hd(5) [OF assms(1)]]]
  by (simp add: value_turn_def value_newline_def value_escape_def value_char_def Let_def)

lemma turn_last_backslash:
  assumes "reads i (BS # BS # LF # s)"
  shows "value_turn ml nl v n i = Inr (Next False (v @ [BS]) (length v + 1) (mp_get (mp_get i)))"
  using assms reads_hd [OF assms(1)] reads_hd [OF reads_hd(5) [OF assms(1)]]
    reads_hd [OF reads_hd(5) [OF reads_hd(5) [OF assms(1)]]]
  by (simp add: value_turn_def value_newline_def value_escape_def value_char_def Let_def)

lemma turn_newline_flag: "reads i (LF # s) \<Longrightarrow> value_turn ml nl v n i = value_turn ml False v n i"
  using reads_hd [of i LF s] by (simp add: value_turn_def)

text \<open>
  The reader consumes a broken line up to the newline after it and has its characters; in the simple mode
  the size of a line that does not end with a space is that of the whole value.
\<close>

definition line_read :: "bool \<Rightarrow> bool \<Rightarrow> string \<Rightarrow> nat \<Rightarrow> input \<Rightarrow> string \<Rightarrow> string \<Rightarrow> bool" where
  "line_read ml nl v n i s r \<longleftrightarrow>
     (\<exists>n' i'. parse_value_loop ml nl v n i = parse_value_loop ml False (v @ s) n' i' \<and> reads i' (LF # r) \<and>
        (\<not> ml \<longrightarrow> s \<noteq> [] \<longrightarrow> \<not> space_char (last s) \<longrightarrow> n' = length (v @ s)) \<and> (s = [] \<longrightarrow> n' = n))"

lemma line_read_step:
  assumes "value_turn ml nl v n i = Inr (Next False (v @ [c]) m i')"
    and "\<not> ml \<Longrightarrow> \<not> space_char c \<Longrightarrow> m = length v + 1" "line_read ml False (v @ [c]) m i' s r"
  shows "line_read ml nl v n i (c # s) r"
  using assms value_loop_step [OF assms(1)] by (auto simp: line_read_def)

lemma line_read_end: "reads i (LF # r) \<Longrightarrow> line_read ml nl v n i [] r"
  unfolding line_read_def parse_value_loop.simps [of ml nl v n i] turn_newline_flag [of i r ml nl v n]
    parse_value_loop.simps [of ml False v n i, symmetric]
  by (intro exI [of _ n] exI [of _ i]) simp

lemma not_space_BS [simp]: "\<not> space_char BS"
  by (simp add: space_char_def)

lemma read_line:
  assumes "broken pc nb s w" "reads i (w @ LF # r)" "no_newline s" "nl \<Longrightarrow> nb" "pc \<noteq> BS \<or> s \<noteq> []"
  shows "line_read ml nl v n i s r"
  using assms
proof (induction s arbitrary: pc nb w nl v n i)
  case Nil
  then show ?case by (auto elim!: broken_NilE intro: line_read_end)
next
  case (Cons c s)
  have c: "c \<noteq> LF" "no_newline s" using Cons.prems(3) by simp_all
  have turn: "line_read ml nl v n i (c # s) r"
    if w: "broken c False s w'" and i: "reads i (c # w' @ LF # r)" for w' nl v n i
  proof (cases "c = BS")
    case False
    have "line_read ml False (v @ [c]) (if \<not> ml \<and> \<not> space_char c then length v + 1 else n) (mp_get i) s r"
      using w reads_hd(5) [OF i] c(2) False by (intro Cons.IH) auto
    then show ?thesis by (rule line_read_step [OF turn_plain [OF i False c(1)], rotated]) simp
  next
    case bs: True
    show ?thesis
    proof (cases "s = []")
      case True
      with w bs have "w' = [BS]" by (auto elim: broken_NilE)
      with i bs have i: "reads i (BS # BS # LF # r)" by simp
      have "reads (mp_get (mp_get i)) (LF # r)" using reads_hd(5) [OF reads_hd(5) [OF i]] .
      then have "line_read ml False (v @ [BS]) (length v + 1) (mp_get (mp_get i)) [] r" by (rule line_read_end)
      then show ?thesis
        unfolding bs True by (rule line_read_step [OF turn_last_backslash [OF i], rotated]) simp
    next
      case False
      obtain d u where u: "w' = d # u" "d \<noteq> LF" by (rule broken_after_BS [OF w [unfolded bs] c(2)])
      obtain s' where s': "s = d # s'" "broken d False s' u"
      proof -
        obtain e s2 where es: "s = e # s2" using False by (cases s) auto
        note b = broken_BS_Cons [OF w [unfolded bs es u(1)]]
        show thesis by (rule that [of s2]) (simp_all add: b es)
      qed
      have rest: "line_read ml False (v @ [BS]) m (mp_get i) s r" for m
        using w reads_hd(5) [OF i] c(2) False by (intro Cons.IH) auto
      show ?thesis
      proof (cases "d = BS")
        case True
        have "no_newline s'" using c(2) s'(1) by simp
        then obtain e x where "u = e # x" "e \<noteq> LF" by (rule broken_after_BS [OF s'(2) [unfolded True]])
        with i u True bs have "reads i (BS # BS # e # x @ LF # r)" by simp
        from turn_two_backslashes [OF this \<open>e \<noteq> LF\<close>] show ?thesis
          unfolding bs by (rule line_read_step [OF _ _ rest]) simp
      next
        case False
        with i u bs have "reads i (BS # d # u @ LF # r)" by simp
        from turn_backslash [OF this u(2) False] show ?thesis
          unfolding bs by (rule line_read_step [OF _ _ rest]) simp
      qed
    qed
  qed
  from Cons.prems(1) consider w' where "broken c False s w'" "w = c # w'"
    | w' where "broken c False s w'" "w = BS # LF # c # w'" "\<not> nb"
    by (auto elim: broken_ConsE)
  then show ?case
  proof cases
    case 1
    with turn [OF 1(1)] Cons.prems(2) show ?thesis by simp
  next
    case 2
    with Cons.prems(4) have "\<not> nl" by blast
    from Cons.prems(2) 2 have i: "reads i (BS # LF # c # w' @ LF # r)" by simp
    have "line_read ml True v n (mp_get (mp_get i)) (c # s) r"
      by (rule turn [OF 2(1)]) (rule reads_hd(5) [OF reads_hd(5) [OF i]])
    with value_loop_step [OF turn_break [OF i]] \<open>\<not> nl\<close> show ?thesis by (simp add: line_read_def)
  qed
qed

section \<open>What the serializer writes for a value\<close>

lemma write_chars_broken:
  "\<lbrakk>write_chars long v pc b cl os s = Inr os'; nb \<Longrightarrow> cl < 58\<rbrakk> \<Longrightarrow> \<exists>w. os' = os @ w \<and> broken pc nb s w"
proof (induction s arbitrary: v pc b cl os nb)
  case Nil
  then show ?case using broken_end [of pc nb] by (auto split: if_splits)
next
  case (Cons c s)
  obtain valid eoc w v1 where u: "utf8_validate v c = ((valid, eoc), w, v1)" by (metis prod.exhaust)
  have valid using Cons.prems(1) u by (auto split: if_splits)
  define br where "br = (pc \<noteq> BS \<and> b \<and> \<not> long \<and> line_break c s cl)"
  obtain cl2 where wr: "write_chars long v1 c eoc cl2 ((if br then os @ [BS, LF] else os) @ [c]) s = Inr os'"
    using Cons.prems(1) u \<open>valid\<close> by (simp add: Let_def br_def [symmetric])
  obtain x where x: "os' = ((if br then os @ [BS, LF] else os) @ [c]) @ x" "broken c False s x"
    using Cons.IH [OF wr, of False] by blast
  show ?case
  proof (cases br)
    case True
    then have "pc \<noteq> BS" "\<not> nb" using Cons.prems(2) by (auto simp: br_def line_break_def soft_break_def split: if_splits)
    with x True broken_break [of c s x pc] show ?thesis by simp
  next
    case False
    with x broken_char [of c s x pc nb] show ?thesis by simp
  qed
qed

text \<open>The value with its line separators, carriage returns included, turned into newlines.\<close>

function unix_lines :: "string \<Rightarrow> string" where
  "unix_lines [] = []"
| "unix_lines (c # s) =
     (if c = CR then LF # unix_lines (if s \<noteq> [] \<and> hd s = LF then tl s else s) else c # unix_lines s)"
  by pat_completeness auto
termination
  by (relation "measure length") auto

lemma unix_lines_id: "CR \<notin> set s \<Longrightarrow> unix_lines s = s"
  by (induction s) auto

lemma unix_lines_append: "no_newline s \<Longrightarrow> unix_lines (s @ t) = s @ unix_lines t"
  by (induction s) auto

lemma turn_newline:
  assumes "reads i (LF # y)" "y \<noteq> []" "\<And>x. y = BS # x \<Longrightarrow> \<exists>d z. x = d # z \<and> d \<noteq> LF"
  shows "value_turn True False v n i = Inr (Next False (v @ [LF]) n (mp_get i))"
proof -
  obtain c x where y: "y = c # x" using assms(2) by (cases y) auto
  note h = reads_hd [OF assms(1)] reads_hd [OF reads_hd(5) [OF assms(1), unfolded y]]
  show ?thesis
  proof (cases "c = BS")
    case True
    then obtain d z where d: "x = d # z" "d \<noteq> LF" using assms(3) y by auto
    from h(10) d have "reads (mp_get (mp_get i)) (d # z)" by simp
    from reads_hd [OF this] h True d show ?thesis
      by (simp add: value_turn_def value_newline_def Let_def)
  next
    case False
    with h show ?thesis
      by (simp add: value_turn_def value_newline_def value_escape_def value_char_def Let_def)
  qed
qed

lemma turn_terminator:
  assumes "reads i (LF # BS # LF # r)"
  shows "value_turn True False v n i = Inr (Stop v n (mp_get (mp_get i)))"
  using reads_hd [OF assms] reads_hd [OF reads_hd(5) [OF assms]] reads_hd [OF reads_hd(5) [OF reads_hd(5) [OF assms]]]
  by (simp add: value_turn_def value_newline_def Let_def)

lemma no_newline_takeWhile: "no_newline (takeWhile (\<lambda>c. \<not> newline_char c) s)"
  by (simp add: no_newline_def list_all_iff) (metis set_takeWhileD)

text \<open>The text of a multi-line value, and how it is read.\<close>

definition lines_read :: "string \<Rightarrow> string \<Rightarrow> bool" where
  "lines_read v w \<longleftrightarrow>
     (\<forall>nl u n i r. reads i (w @ LF # BS # LF # r) \<longrightarrow>
        (\<exists>n' i'. parse_value_loop True nl u n i = Inr (u @ unix_lines v, n', i') \<and> reads i' (LF # r))) \<and>
     (\<forall>x r. w @ LF # r = BS # x \<longrightarrow> (\<exists>d z. x = d # z \<and> d \<noteq> LF))"

lemma chunk_start:
  assumes "broken NUL True s w" "no_newline s" "w @ LF # r = BS # x"
  shows "\<exists>d z. x = d # z \<and> d \<noteq> LF"
proof -
  obtain d u where "x = d # u" "d \<noteq> LF" by (rule broken_start [OF assms(1,2) _ assms(3)]) simp
  then show ?thesis by blast
qed

lemma lines_read_last:
  assumes "broken NUL True s w" "no_newline s"
  shows "lines_read s w"
  unfolding lines_read_def
proof (intro conjI allI impI)
  fix nl u n i r assume "reads i (w @ LF # BS # LF # r)"
  then have "line_read True nl u n i s (BS # LF # r)" using assms by (intro read_line) auto
  then obtain n' i' where l: "parse_value_loop True nl u n i = parse_value_loop True False (u @ s) n' i'"
    "reads i' (LF # BS # LF # r)" by (auto simp: line_read_def)
  from value_loop_stop [OF turn_terminator [OF l(2)]] reads_hd(5) [OF reads_hd(5) [OF l(2)]] l(1) assms(2)
  show "\<exists>n' i'. parse_value_loop True nl u n i = Inr (u @ unix_lines s, n', i') \<and> reads i' (LF # r)"
    using unix_lines_append [of s "[]"] by simp
qed (rule chunk_start [OF assms])

lemma lines_read_more:
  assumes "broken NUL True s w" "no_newline s" "lines_read t w2"
    and unix: "unix_lines v = s @ LF # unix_lines t"
  shows "lines_read v (w @ LF # w2)"
  unfolding lines_read_def
proof (intro conjI allI impI)
  fix nl u n i r assume "reads i ((w @ LF # w2) @ LF # BS # LF # r)"
  then have "line_read True nl u n i s (w2 @ LF # BS # LF # r)" using assms(1,2) by (intro read_line) auto
  then obtain n' i' where l: "parse_value_loop True nl u n i = parse_value_loop True False (u @ s) n' i'"
    "reads i' (LF # w2 @ LF # BS # LF # r)" by (auto simp: line_read_def)
  have "value_turn True False (u @ s) n' i' = Inr (Next False ((u @ s) @ [LF]) n' (mp_get i'))"
    using assms(3) by (intro turn_newline [OF l(2)]) (auto simp: lines_read_def)
  with l(1) have "parse_value_loop True nl u n i = parse_value_loop True False (u @ s @ [LF]) n' (mp_get i')"
    using value_loop_step by simp
  moreover have "reads (mp_get i') (w2 @ LF # BS # LF # r)" using reads_hd(5) [OF l(2)] .
  then obtain n2 i2 where "parse_value_loop True False (u @ s @ [LF]) n' (mp_get i') =
      Inr ((u @ s @ [LF]) @ unix_lines t, n2, i2)" "reads i2 (LF # r)"
    using assms(3) unfolding lines_read_def by blast
  ultimately show "\<exists>n' i'. parse_value_loop True nl u n i = Inr (u @ unix_lines v, n', i') \<and> reads i' (LF # r)"
    using unix by simp
next
  fix x r assume "(w @ LF # w2) @ LF # r = BS # x"
  then show "\<exists>d z. x = d # z \<and> d \<noteq> LF" using chunk_start [OF assms(1,2), of "w2 @ LF # r"] by simp
qed

lemma write_lines_text: "write_lines long os v = Inr os' \<Longrightarrow> \<exists>w. os' = os @ w \<and> lines_read v w"
proof (induction long os v rule: write_lines.induct)
  case (1 long os v)
  show ?case
  proof (cases "dropWhile (\<lambda>c. \<not> newline_char c) v")
    case Nil
    then have "no_newline v" by (simp add: no_newline_def list_all_iff)
    moreover obtain w where "os' = os @ w" "broken NUL True v w"
      using 1(2) Nil write_chars_broken [of long _ NUL True 0 os v os' True]
      by (auto simp: write_lines.simps [of long os v] write_chunk_def)
    ultimately show ?thesis using lines_read_last by blast
  next
    case (Cons p t)
    let ?s = "takeWhile (\<lambda>c. \<not> newline_char c) v" and ?t = "if p = CR \<and> t \<noteq> [] \<and> hd t = LF then tl t else t"
    obtain os1 where c: "write_chunk long 0 os ?s = Inr os1" "write_lines long (os1 @ [LF]) ?t = Inr os'"
      using 1(2) Cons by (auto simp: write_lines.simps [of long os v] split: sum.splits)
    obtain w where w: "os1 = os @ w" "broken NUL True ?s w"
      using c(1) write_chars_broken [of long _ NUL True 0 os ?s os1 True] by (auto simp: write_chunk_def)
    obtain w2 where w2: "os' = (os1 @ [LF]) @ w2" "lines_read ?t w2"
      using 1(1) [OF Cons c(1) c(2)] by blast
    have v: "v = ?s @ p # t" using Cons takeWhile_dropWhile_id by metis
    have "newline_char p" using Cons hd_dropWhile [of "\<lambda>c. \<not> newline_char c" v] by auto
    then have "unix_lines (p # t) = LF # unix_lines ?t" by (auto simp: newline_char_def)
    then have "unix_lines v = ?s @ LF # unix_lines ?t"
      using v unix_lines_append [OF no_newline_takeWhile, of v "p # t"] by metis
    from lines_read_more [OF w(2) no_newline_takeWhile w2(2) this] w2(1) w(1) show ?thesis
      by (intro exI [of _ "w @ LF # w2"]) simp
  qed
qed


text \<open>How the text that \<open>write_value ()\<close> writes is read.\<close>

definition value_read :: "string \<Rightarrow> string \<Rightarrow> bool" where
  "value_read v w \<longleftrightarrow> w \<noteq> [] \<and> \<not> space_char (hd w) \<and> hd w \<noteq> LF \<and>
     (\<forall>i r. reads i (w @ LF # r) \<longrightarrow> (\<exists>d i'. parse_value i = Inr (unix_lines v, d, i') \<and> reads i' (LF # r)))"

lemma value_read_multi:
  assumes "lines_read v w"
  shows "value_read v ([BS, LF] @ w @ [LF, BS])"
proof -
  have "\<exists>d i'. parse_value i = Inr (unix_lines v, d, i') \<and> reads i' (LF # r)"
    if i: "reads i (([BS, LF] @ w @ [LF, BS]) @ LF # r)" for i r
  proof -
    from i have i0: "reads i (BS # LF # w @ LF # BS # LF # r)" by simp
    note i1 = reads_hd(5) [OF i0] note i2 = reads_hd(5) [OF i1]
    obtain n' i' where l: "parse_value_loop True True [] 0 (mp_get (mp_get i)) = Inr (unix_lines v, n', i')"
      "reads i' (LF # r)" using assms i2 unfolding lines_read_def by (metis append_Nil)
    obtain c x where "w @ LF # BS # LF # r = c # x" by (cases "w @ LF # BS # LF # r") auto
    with i2 have "peek_value (mp_get (mp_get i)) = Inr (head (mp_get (mp_get i)))"
      using reads_hd(3) by metis
    with l reads_hd [OF i0] reads_hd [OF i1] show ?thesis
      by (simp add: parse_value_def Let_def)
  qed
  then show ?thesis by (auto simp: value_read_def space_char_def)
qed

lemma broken_hd: "broken pc True (c # s) w \<Longrightarrow> \<exists>w'. w = c # w'"
  by (erule broken_ConsE) simp_all

lemma value_read_simple:
  assumes "broken NUL True v w" "no_newline v" "v \<noteq> []" "\<not> space_char (hd v)" "\<not> space_char (last v)"
  shows "value_read v w"
proof -
  obtain c s where v: "v = c # s" using assms(3) by (cases v) auto
  obtain w' where w: "w = c # w'" using broken_hd [OF assms(1) [unfolded v]] by blast
  have c: "c \<noteq> LF" using assms(2) v by simp
  have "\<exists>d i'. parse_value i = Inr (unix_lines v, d, i') \<and> reads i' (LF # r)" if i: "reads i (w @ LF # r)" for i r
  proof -
    have "line_read False False [] 0 i v r" using assms i by (intro read_line) auto
    then obtain i' where l: "parse_value_loop False False [] 0 i = parse_value_loop False False v (length v) i'"
      "reads i' (LF # r)" using assms(3,5) by (auto simp: line_read_def)
    have "value_turn False False v (length v) i' = Inr (Stop v (length v) i')"
      using reads_hd [OF l(2)] by (simp add: value_turn_def value_newline_def)
    with l(1) have loop: "parse_value_loop False False [] 0 i = Inr (v, length v, i')"
      using value_loop_stop by simp
    have u: "unix_lines v = v" using unix_lines_append [OF assms(2), of "[]"] by simp
    note i0 = i [unfolded w, simplified]
    show ?thesis
    proof (cases "c = BS")
      case False
      with reads_hd [OF i0] loop u l(2) show ?thesis by (simp add: parse_value_def)
    next
      case True
      then obtain d z where d: "w' @ LF # r = d # z" "d \<noteq> LF"
        using chunk_start [OF assms(1,2), of r "w' @ LF # r"] w by auto
      from reads_hd(5) [OF i0] d(1) have "reads (mp_get i) (d # z)" by simp
      from reads_hd [OF this] reads_hd [OF i0] loop u l(2) True d show ?thesis
        by (simp add: parse_value_def Let_def)
    qed
  qed
  with v w c assms(4) show ?thesis by (simp add: value_read_def)
qed

lemma write_value_text:
  assumes "write_value long v cl os = Inr os'" "v \<noteq> []"
  shows "\<exists>w. os' = os @ w \<and> value_read v w"
proof (cases "multi_line v cl")
  case True
  then obtain os1 where o: "write_lines long (os @ [BS, LF]) v = Inr os1" "os' = os1 @ [LF, BS]"
    using assms(1) by (auto simp: write_value_def split: sum.splits)
  obtain w where "os1 = (os @ [BS, LF]) @ w" "lines_read v w" using write_lines_text [OF o(1)] by blast
  with o(2) value_read_multi [of v w] show ?thesis by (intro exI [of _ "[BS, LF] @ w @ [LF, BS]"]) simp
next
  case False
  then have m: "cl < 58" "no_newline v" "\<not> space_char (hd v)" "\<not> space_char (last v)"
    by (auto simp: multi_line_def no_newline_def list_ex_iff list_all_iff)
  have "write_chars long manifest_validator NUL True cl os v = Inr os'"
    using assms(1) False by (simp add: write_value_def write_chunk_def)
  from write_chars_broken [OF this, of True] m(1) obtain w where "os' = os @ w" "broken NUL True v w" by blast
  with value_read_simple [OF _ m(2) assms(2) m(3,4)] show ?thesis by blast
qed

section \<open>Names\<close>

abbreviation valid_text :: "string \<Rightarrow> bool" where
  "valid_text \<equiv> valid_string ct_graphic manifest_whitelist"

definition name_char :: "char \<Rightarrow> bool" where
  "name_char c \<longleftrightarrow> c \<noteq> CHR '' '' \<and> c \<noteq> TAB \<and> c \<noteq> CR \<and> c \<noteq> LF \<and> c \<noteq> CHR '':''"

definition manifest_name :: "string \<Rightarrow> bool" where
  "manifest_name n \<longleftrightarrow> n \<noteq> [] \<and> hd n \<noteq> CHR ''#'' \<and> list_all name_char n \<and> valid_text n"

lemma not_ascii_name_char: "0x80 \<le> ord c \<Longrightarrow> name_char c"
  by (auto simp: name_char_def)

lemma name_loop_length: "write_name_loop v l r s = Inr n \<Longrightarrow> utf8_length_loop v l r s = Inr n"
  by (induction s arbitrary: v l r) (auto split: prod.splits if_splits)

lemma name_loop_seq:
  "seq_run v s = Some v' \<Longrightarrow> write_name_loop v l r (s @ t) = Inr n \<Longrightarrow> \<exists>r'. write_name_loop v' True r' t = Inr n"
  by (induction s arbitrary: v l r) (auto simp: seq_run.simps(2) split: prod.splits if_splits)

lemma name_loop_chars:
  assumes "write_name_loop v l r s = Inr n" "seq_index v = 0"
  shows "list_all name_char s"
  using assms
proof (induction "length s" arbitrary: v l r s rule: less_induct)
  case less
  show ?case
  proof (cases "s = []")
    case False
    then obtain s1 s2 v' where s: "s = s1 @ s2" "seq_run v s1 = Some v'"
      using loop_seqE [OF name_loop_length [OF less.prems(1)]] by blast
    note d = seq_run_decode [OF less.prems(2) s(2)]
    obtain r' where r': "write_name_loop v' True r' s2 = Inr n"
      using name_loop_seq [OF s(2)] less.prems(1) s(1) by blast
    have "s1 \<noteq> []" using s(2) by auto
    then have "list_all name_char s2"
      using less.hyps [of s2 v' True r'] r' d s(1) by (simp add: ready_def)
    moreover have "list_all name_char s1"
    proof (cases "v_codepoint v' < 0x80")
      case False
      with d encode_not_ascii not_ascii_name_char show ?thesis by (auto simp: list_all_iff)
    next
      case True
      then have "s1 = [char_of (v_codepoint v')]" using d by (simp add: utf8_encode_def encode_bytes_def)
      then obtain c where c: "s1 = [c]" by blast
      with s(2) obtain w where "utf8_validate v c = ((True, True), w, v')"
        by (auto simp: seq_run.simps(2) split: prod.splits if_splits)
      with less.prems(1) s(1) c show ?thesis by (auto simp: name_char_def split: if_splits)
    qed
    ultimately show ?thesis using s(1) by simp
  qed simp
qed

lemma manifest_validator_simps [simp]:
  "seq_index manifest_validator = 0" "v_types manifest_validator = ct_graphic"
  "v_whitelist manifest_validator = manifest_whitelist"
  by (simp_all add: manifest_validator_def new_validator_def)

lemma loop_valid_string:
  assumes "utf8_length_loop v False r s = Inr n" "seq_index v = 0" "s \<noteq> []"
  shows "valid_string (v_types v) (v_whitelist v) s"
  using loop_decoded [OF assms(1) _ assms(2)] assms(3) by (auto simp: valid_string_def valid_utf8_def)

lemma write_name_ok:
  assumes "write_name n os = Inr (l, os')"
  shows "manifest_name n \<and> os' = os @ n"
proof -
  from assms have n: "n \<noteq> []" "hd n \<noteq> CHR ''#''" and o: "os' = os @ n"
    and l: "write_name_loop manifest_validator False 0 n = Inr l"
    by (auto simp: write_name_def split: if_splits sum.splits)
  with name_loop_chars [OF l] loop_valid_string [OF name_loop_length [OF l]] show ?thesis
    by (simp add: manifest_name_def)
qed

section \<open>Reading pairs\<close>

lemma parse_name_reads:
  "\<lbrakk>list_all name_char n; reads i (n @ CHR '':'' # s)\<rbrakk> \<Longrightarrow>
     \<exists>i'. parse_name_loop m i = Inr (m @ n, i') \<and> reads i' (CHR '':'' # s)"
proof (induction n arbitrary: m i)
  case Nil
  with reads_hd [of i "CHR '':''" s] show ?case by (cases i) (auto simp: head_def reads_def)
next
  case (Cons c n)
  then have i: "reads i (c # n @ CHR '':'' # s)" and c: "name_char c" by simp_all
  obtain x t where xt: "i = x # t" using reads_not_Nil [OF i] by (cases i) auto
  note h = reads_hd [OF i]
  have "reads t (n @ CHR '':'' # s)" using h(1,5) xt by (simp add: mp_get_def head_def)
  with Cons.IH [of t "m @ [c]"] Cons.prems(1) h c xt show ?case
    by (auto simp: name_char_def head_def)
qed

lemma skip_nothing:
  assumes "reads i (c # s)" "\<not> space_char c"
    "xcolumn (head i) = 1 \<Longrightarrow> c \<noteq> LF \<and> c \<noteq> CHR ''#''"
  shows "skip_spaces i = Inr i"
  using assms reads_hd [OF assms(1)]
  by (auto simp: skip_spaces_def skip_spaces_loop.simps [of _ i] space_char_def)

lemma skip_one_space:
  assumes "reads i (CHR '' '' # c # s)" "\<not> space_char c" "xcolumn (head i) \<noteq> 1"
  shows "skip_spaces i = Inr (mp_get i)"
  using assms reads_hd [OF assms(1)] reads_hd [OF reads_hd(5) [OF assms(1)]]
  by (auto simp: skip_spaces_def skip_spaces_loop.simps [of _ i] skip_spaces_loop.simps [of _ "mp_get i"] space_char_def)

lemma skip_eos: "reads i [] \<Longrightarrow> skip_spaces i = Inr i"
  using reads_Nil [of i] by (auto simp: skip_spaces_def skip_spaces_loop.simps [of _ i])

text \<open>The text of a value after its colon.\<close>

definition pair_value_text :: "string \<Rightarrow> string \<Rightarrow> bool" where
  "pair_value_text v w \<longleftrightarrow> (v = [] \<and> w = []) \<or> (\<exists>u. w = '' '' @ u \<and> value_read v u)"

lemma parse_empty_value:
  assumes "reads i (LF # r)"
  shows "\<exists>d. parse_value i = Inr ([], d, i)"
proof -
  have "value_turn False False [] 0 i = Inr (Stop [] 0 i)"
    using reads_hd [OF assms] by (simp add: value_turn_def value_newline_def)
  from value_loop_stop [OF this] reads_hd [OF assms] show ?thesis
    by (simp add: parse_value_def)
qed

lemma parse_pair_value_reads:
  assumes "reads i (w @ LF # r)" "pair_value_text v w" "xcolumn (head i) \<noteq> 1"
  shows "\<exists>d i'. parse_pair_value i = Inr (unix_lines v, d, i') \<and> reads i' r \<and> xcolumn (head i') = 1"
proof -
  have "\<exists>d i1 i2. skip_spaces i = Inr i1 \<and> parse_value i1 = Inr (unix_lines v, d, i2) \<and> reads i2 (LF # r)"
  proof (cases "w = []")
    case True
    with assms(2) have v: "v = []" by (auto simp: pair_value_text_def)
    from assms(1) True have i: "reads i (LF # r)" by simp
    have "skip_spaces i = Inr i" using i assms(3) by (intro skip_nothing) (auto simp: space_char_def)
    with parse_empty_value [OF i] i v show ?thesis by auto
  next
    case False
    with assms(2) obtain u where u: "w = CHR '' '' # u" "value_read v u" by (auto simp: pair_value_text_def)
    then obtain c t where c: "u = c # t" "\<not> space_char c" by (cases u) (auto simp: value_read_def)
    from assms(1) u c have i: "reads i (CHR '' '' # c # t @ LF # r)" by simp
    have "reads (mp_get i) (u @ LF # r)" using reads_hd(5) [OF i] c by simp
    with u(2) skip_one_space [OF i c(2) assms(3)] show ?thesis unfolding value_read_def by blast
  qed
  then obtain d i1 i2 where p: "skip_spaces i = Inr i1" "parse_value i1 = Inr (unix_lines v, d, i2)"
    "reads i2 (LF # r)" by blast
  with reads_hd [OF p(3)] reads_next_column(1) [OF p(3)] show ?thesis
    by (simp add: parse_pair_value_def)
qed

lemma parse_pair:
  assumes "reads (mp_input p) (n @ CHR '':'' # w @ LF # r)" "manifest_name n" "pair_value_text v w"
    "mp_state p = Body"
  shows "\<exists>nv i'. parse_next p = Inr (nv, p\<lparr>mp_input := i'\<rparr>) \<and> mv_name nv = n \<and> mv_value nv = unix_lines v \<and>
    reads i' r \<and> xcolumn (head i') = 1"
proof -
  let ?i = "mp_input p"
  obtain c t where n: "n = c # t" using assms(2) by (cases n) (auto simp: manifest_name_def)
  with assms(2) have c: "name_char c" "c \<noteq> CHR ''#''" by (auto simp: manifest_name_def)
  have i: "reads ?i (c # t @ CHR '':'' # w @ LF # r)" using assms(1) n by simp
  have s1: "skip_spaces ?i = Inr ?i" using i c by (intro skip_nothing) (auto simp: name_char_def space_char_def)
  obtain i1 where i1: "parse_name_loop [] ?i = Inr (n, i1)" "reads i1 (CHR '':'' # w @ LF # r)"
    using parse_name_reads [of n ?i "w @ LF # r" "[]"] assms(1,2) by (auto simp: manifest_name_def)
  have s2: "skip_spaces i1 = Inr i1" using i1(2) by (intro skip_nothing) (auto simp: space_char_def)
  note h = reads_hd [OF i1(2)] and col = reads_next_column(2) [OF i1(2)]
  obtain d i' where v: "parse_pair_value (mp_get i1) = Inr (unix_lines v, d, i')" "reads i' r" "xcolumn (head i') = 1"
    using parse_pair_value_reads [OF h(5) assms(3)] col by auto
  have "xch (head ?i) \<noteq> CHR '':''" using reads_hd(2) [OF i] c by (simp add: name_char_def)
  then show ?thesis
    using s1 i1(1) s2 h v n assms(4)
    by (auto simp: parse_next_def accept_pair_def pair_at_def)
qed

section \<open>The output is valid text\<close>

lemma valid_text_chars [simp]:
  "valid_text [BS]" "valid_text [LF]" "valid_text [CHR '' '']" "valid_text [CHR '':'']" "valid_text [CHR ''#'']"
  "valid_text [CHR '';'']" "valid_text [CHR ''1'']"
  by (intro valid_string_ascii;
      simp add: codepoint_allowed_def codepoint_type_def manifest_whitelist_def ct_defs)+

lemma valid_text_Cons: "ord c < 0x80 \<Longrightarrow> valid_text (c # s) \<Longrightarrow> valid_text s"
  using valid_string_tl by blast

lemma valid_text_snoc: "valid_text s \<Longrightarrow> valid_text [c] \<Longrightarrow> valid_text (s @ [c])"
  by (rule valid_string_append)

text \<open>Writing keeps the output valid and free of carriage returns.\<close>

definition clean :: "string \<Rightarrow> bool" where
  "clean s \<longleftrightarrow> valid_text s \<and> CR \<notin> set s"

lemma clean_append: "clean s \<Longrightarrow> clean t \<Longrightarrow> clean (s @ t)"
  by (auto simp: clean_def)

lemma clean_chars [simp]: "clean [BS]" "clean [LF]" "clean [CHR '' '']" "clean [CHR '':'']" "clean [CHR ''1'']" "clean []"
  by (simp_all add: clean_def)

lemma clean_Cons: "clean [c] \<Longrightarrow> clean s \<Longrightarrow> clean (c # s)"
  using clean_append [of "[c]" s] by simp

lemma write_chars_clean:
  "\<lbrakk>write_chars long v pc b cl (out @ sq) s = Inr os'; rules_are ct_graphic manifest_whitelist v; clean out;
     pending v sq; CR \<notin> set sq; b \<longrightarrow> sq = []; no_newline s\<rbrakk> \<Longrightarrow> clean os'"
proof (induction s arbitrary: v pc b cl out sq)
  case Nil
  then show ?case using clean_append [of out "[BS]"] by (auto split: if_splits)
next
  case (Cons c s)
  obtain valid eoc w v1 where u: "utf8_validate v c = ((valid, eoc), w, v1)" by (metis prod.exhaust)
  have valid using Cons.prems(1) u by (auto split: if_splits)
  define br where "br = (pc \<noteq> BS \<and> b \<and> \<not> long \<and> line_break c s cl)"
  obtain cl2 where wr: "write_chars long v1 c eoc cl2 ((if br then (out @ sq) @ [BS, LF] else out @ sq) @ [c]) s = Inr os'"
    using Cons.prems(1) u \<open>valid\<close> by (simp add: Let_def br_def [symmetric])
  define out1 where "out1 = (if br then out @ [BS, LF] else out)"
  have o1: "(if br then (out @ sq) @ [BS, LF] else out @ sq) = out1 @ sq"
    using Cons.prems(6) by (auto simp: out1_def br_def)
  have c1: "clean out1"
    using Cons.prems(3) clean_append [of out "[BS, LF]"] clean_append [of "[BS]" "[LF]"] by (simp add: out1_def)
  have r1: "rules_are ct_graphic manifest_whitelist v1" using validate_rules [OF u Cons.prems(2)] .
  have cr: "c \<noteq> CR" "no_newline s" using Cons.prems(7) by simp_all
  show ?case
  proof (cases eoc)
    case True
    have "valid_text (sq @ [c])"
      using pending_last [OF Cons.prems(4)] u \<open>valid\<close> True Cons.prems(2) by (simp add: rules_are_def)
    then have "clean (out1 @ sq @ [c])" using c1 cr(1) Cons.prems(5) by (intro clean_append [OF c1]) (simp add: clean_def)
    moreover have "pending v1 []" using validate_state(2) [OF u True] by (rule pending_start)
    ultimately show ?thesis
      using Cons.IH [of v1 c eoc cl2 "out1 @ sq @ [c]" "[]"] wr o1 r1 cr by simp
  next
    case False
    have "pending v1 (sq @ [c])" using pending_more [OF Cons.prems(4)] u \<open>valid\<close> False by simp
    then show ?thesis
      using Cons.IH [of v1 c eoc cl2 out1 "sq @ [c]"] wr o1 r1 c1 cr Cons.prems(5) False by simp
  qed
qed

lemma write_chunk_clean:
  assumes "write_chunk long cl os s = Inr os'" "clean os" "no_newline s"
  shows "clean os'"
  using write_chars_clean [of long manifest_validator NUL True cl os "[]" s os'] assms
  by (simp add: write_chunk_def rules_are_def pending_start)

lemma write_lines_clean: "write_lines long os v = Inr os' \<Longrightarrow> clean os \<Longrightarrow> clean os'"
proof (induction long os v rule: write_lines.induct)
  case (1 long os v)
  show ?case
  proof (cases "dropWhile (\<lambda>c. \<not> newline_char c) v")
    case Nil
    then have "no_newline v" by (simp add: no_newline_def list_all_iff)
    with 1(2,3) Nil write_chunk_clean show ?thesis by (simp add: write_lines.simps [of long os v])
  next
    case (Cons p t)
    obtain os1 where c: "write_chunk long 0 os (takeWhile (\<lambda>c. \<not> newline_char c) v) = Inr os1"
      "write_lines long (os1 @ [LF]) (if p = CR \<and> t \<noteq> [] \<and> hd t = LF then tl t else t) = Inr os'"
      using 1(2) Cons by (auto simp: write_lines.simps [of long os v] split: sum.splits)
    have "clean (os1 @ [LF])"
      using write_chunk_clean [OF c(1) 1(3) no_newline_takeWhile] by (simp add: clean_append)
    then show ?thesis using 1(1) [OF Cons c] by blast
  qed
qed

lemma write_value_clean:
  assumes "write_value long v cl os = Inr os'" "clean os"
  shows "clean os'"
proof (cases "multi_line v cl")
  case True
  then obtain os1 where o: "write_lines long (os @ [BS, LF]) v = Inr os1" "os' = os1 @ [LF, BS]"
    using assms(1) by (auto simp: write_value_def split: sum.splits)
  have "clean (os @ [BS, LF])" "clean [LF, BS]" using assms(2) by (simp_all add: clean_append clean_Cons)
  with o write_lines_clean show ?thesis by (simp add: clean_append)
next
  case False
  then have "no_newline v" by (auto simp: multi_line_def no_newline_def list_ex_iff list_all_iff)
  with assms False write_chunk_clean show ?thesis by (simp add: write_value_def)
qed

section \<open>Writing pairs\<close>

definition pair_text :: "string \<Rightarrow> string \<Rightarrow> string \<Rightarrow> bool" where
  "pair_text n v t \<longleftrightarrow> (\<exists>w. t = n @ CHR '':'' # w @ [LF] \<and> manifest_name n \<and> pair_value_text v w)"

fun pairs_text :: "(string \<times> string) list \<Rightarrow> string \<Rightarrow> bool" where
  "pairs_text [] t \<longleftrightarrow> t = []"
| "pairs_text ((n, v) # nvs) t \<longleftrightarrow> (\<exists>t1 t2. t = t1 @ t2 \<and> pair_text n v t1 \<and> pairs_text nvs t2)"

lemma manifest_name_clean: "manifest_name n \<Longrightarrow> clean n"
  by (auto simp: manifest_name_def clean_def name_char_def list_all_iff)

lemma write_body_text:
  assumes "write_body n v ms = Inr ms'" "clean (ms_os ms)"
  shows "\<exists>t. ms' = ms\<lparr>ms_os := ms_os ms @ t\<rparr> \<and> pair_text n v t \<and> clean (ms_os ms @ t)"
proof -
  obtain l os where w: "write_name n (ms_os ms) = Inr (l, os)"
    using assms(1) by (auto simp: write_body_def split: sum.splits)
  have n: "manifest_name n" "os = ms_os ms @ n" using write_name_ok [OF w] by simp_all
  have os: "clean os" using assms(2) n manifest_name_clean by (simp add: clean_append)
  show ?thesis
  proof (cases "v = []")
    case True
    have "clean (os @ [CHR '':'', LF])" using os by (intro clean_append) (simp_all add: clean_Cons)
    with assms(1) w n True show ?thesis
      by (intro exI [of _ "n @ CHR '':'' # [] @ [LF]"]) (auto simp: write_body_def pair_text_def pair_value_text_def)
  next
    case False
    then obtain os1 where o: "write_value (ms_long_lines ms) v (l + 2) (os @ '': '') = Inr os1"
      "ms' = ms\<lparr>ms_os := os1 @ [LF]\<rparr>"
      using assms(1) w by (auto simp: write_body_def split: sum.splits)
    obtain u where u: "os1 = (os @ '': '') @ u" "value_read v u"
      using write_value_text [OF o(1) False] by blast
    have "clean (os @ '': '')" using os by (intro clean_append) (simp_all add: clean_Cons)
    then have "clean (os1 @ [LF])" using write_value_clean [OF o(1)] by (simp add: clean_append)
    with o u n show ?thesis
      by (intro exI [of _ "n @ CHR '':'' # (CHR '' '' # u) @ [LF]"]) (auto simp: pair_text_def pair_value_text_def)
  qed
qed

lemma write_pairs_text:
  "\<lbrakk>write_pairs nvs ms = Inr ms'; clean (ms_os ms); ms_state ms = Body; list_all (\<lambda>(n, v). n \<noteq> []) nvs\<rbrakk> \<Longrightarrow>
     \<exists>t. ms' = ms\<lparr>ms_os := ms_os ms @ t\<rparr> \<and> pairs_text nvs t \<and> clean (ms_os ms @ t)"
proof (induction nvs arbitrary: ms)
  case (Cons nv nvs)
  obtain n v where nv: "nv = (n, v)" by (cases nv)
  with Cons.prems obtain ms1 where m: "write_body n v ms = Inr ms1" "write_pairs nvs ms1 = Inr ms'"
    by (auto simp: write_next_def split: sum.splits)
  obtain t1 where t1: "ms1 = ms\<lparr>ms_os := ms_os ms @ t1\<rparr>" "pair_text n v t1" "clean (ms_os ms @ t1)"
    using write_body_text [OF m(1) Cons.prems(2)] by blast
  obtain t2 where "ms' = ms1\<lparr>ms_os := ms_os ms1 @ t2\<rparr>" "pairs_text nvs t2" "clean (ms_os ms1 @ t2)"
    using Cons.IH [OF m(2)] t1 Cons.prems by auto
  with t1 nv show ?case by (intro exI [of _ "t1 @ t2"]) auto
qed auto

section \<open>Round trip\<close>

definition pair_of :: "manifest_name_value \<Rightarrow> string \<times> string" where
  "pair_of nv = (mv_name nv, mv_value nv)"

lemma parse_end:
  assumes "reads (mp_input p) []" "mp_state p = Body"
  shows "\<exists>nv p'. parse_next p = Inr (nv, p') \<and> nv_empty nv \<and> mp_state p' = End"
proof -
  obtain x where "mp_input p = [x]" "eos x" using assms(1) by (auto simp: reads_def eos_def)
  with assms reads_Nil [OF assms(1)] skip_eos [OF assms(1)] show ?thesis
    by (auto simp: parse_next_def nv_empty_def pair_at_def head_def)
qed

lemma parse_pairs_read:
  "\<lbrakk>pairs_text nvs t; reads (mp_input p) t; mp_state p = Body\<rbrakk> \<Longrightarrow>
     \<exists>r' p'. parse_pairs p r = Inr (r @ r', p') \<and> map pair_of r' = map (\<lambda>(n, v). (n, unix_lines v)) nvs \<and>
       mp_state p' = End"
proof (induction nvs arbitrary: t p r)
  case Nil
  then show ?case using parse_end [of p] by (auto simp: parse_pairs.simps [of p r])
next
  case (Cons nv nvs)
  obtain n v where nv: "nv = (n, v)" by (cases nv)
  with Cons.prems(1) obtain w t2 where t: "t = n @ CHR '':'' # w @ LF # t2" "manifest_name n"
    "pair_value_text v w" "pairs_text nvs t2" by (auto simp: pair_text_def)
  with Cons.prems(2) have "reads (mp_input p) (n @ CHR '':'' # w @ LF # t2)" by simp
  from parse_pair [OF this t(2,3) Cons.prems(3)] obtain x i' where x: "parse_next p = Inr (x, p\<lparr>mp_input := i'\<rparr>)"
    "mv_name x = n" "mv_value x = unix_lines v" "reads i' t2" by blast
  obtain r' p' where r: "parse_pairs (p\<lparr>mp_input := i'\<rparr>) (r @ [x]) = Inr ((r @ [x]) @ r', p')"
    "map pair_of r' = map (\<lambda>(n, v). (n, unix_lines v)) nvs" "mp_state p' = End"
    using Cons.IH [OF t(4), of "p\<lparr>mp_input := i'\<rparr>" "r @ [x]"] x(4) Cons.prems(3) by auto
  have "\<not> nv_empty x" using x(2) t(2) by (simp add: nv_empty_def manifest_name_def)
  moreover have "pair_of x = (n, unix_lines v)" using x by (simp add: pair_of_def)
  ultimately show ?case
    using x(1) r nv by (intro exI [of _ "x # r'"] exI [of _ p']) (simp add: parse_pairs.simps [of p r])
qed

lemma parse_format_version:
  assumes "reads i ('': 1'' @ LF # r)" "xcolumn (head i) = 1"
  shows "\<exists>nv i'. parse_next (new_parser i) =
      Inr (nv, \<lparr>mp_state = Body, mp_version = ''1'', mp_input = i'\<rparr>) \<and>
    mv_name nv = [] \<and> mv_value nv = ''1'' \<and> reads i' r"
proof -
  have i: "reads i (CHR '':'' # '' 1'' @ LF # r)" using assms(1) by simp
  have s: "skip_spaces i = Inr i" using i by (intro skip_nothing) (auto simp: space_char_def)
  have n: "parse_name_loop [] i = Inr ([], i)"
    using reads_hd [OF i] reads_not_Nil [OF i] by (cases i) (auto simp: head_def)
  have "broken NUL True ''1'' ''1''"
    using broken_char [OF broken_end [of "CHR ''1''" False], of NUL True] by simp
  then have "value_read ''1'' ''1''" by (rule value_read_simple) (simp_all add: no_newline_def newline_char_def space_char_def)
  then have "pair_value_text ''1'' '' 1''" by (auto simp: pair_value_text_def)
  from parse_pair_value_reads [OF reads_hd(5) [OF i] this] reads_next_column(2) [OF i]
  obtain d i' where "parse_pair_value (mp_get i) = Inr (''1'', d, i')" "reads i' r" by auto
  with s n reads_hd [OF i] show ?thesis
    by (auto simp: parse_next_def new_parser_def accept_pair_def pair_at_def)
qed

text \<open>The characters that the scanner of a manifest parser delivers for a byte string.\<close>

definition manifest_input :: "string \<Rightarrow> input" where
  "manifest_input s = char_stream (new_scanner s manifest_validator True)"

lemma text_of_id: "CR \<notin> set s \<Longrightarrow> text_of s = s"
  using text_of_append [of s "[]"] by simp

lemma manifest_input_reads:
  assumes "clean s"
  shows "reads (manifest_input s) s" and "xcolumn (head (manifest_input s)) = 1"
proof -
  let ?sc = "new_scanner s manifest_validator True"
  have f: "fresh ?sc" by (simp add: fresh_def new_scanner_def)
  have "reads (char_stream ?sc) (text_of (sc_rest ?sc))"
    using assms f by (intro reads_stream) (simp_all add: new_scanner_def clean_def)
  then show "reads (manifest_input s) s"
    using assms text_of_id by (simp add: manifest_input_def new_scanner_def clean_def)
  show "xcolumn (head (manifest_input s)) = 1"
    using stream_hd [OF fresh_between [OF f]] by (auto simp: manifest_input_def head_def new_scanner_def)
qed

lemma write_pairs_append:
  "write_pairs (a @ b) ms = (case write_pairs a ms of Inl e \<Rightarrow> Inl e | Inr ms1 \<Rightarrow> write_pairs b ms1)"
  by (induction a arbitrary: ms) (auto split: sum.splits)

lemma serialized_text:
  assumes "serialize_manifest nvs fin (new_serializer long) = Inr ms" "list_all (\<lambda>(n, v). n \<noteq> []) nvs"
  shows "\<exists>t. ms_os ms = '': 1'' @ LF # t \<and> pairs_text nvs t \<and> clean (ms_os ms)"
proof -
  let ?s = "new_serializer long"
  have start: "write_next [] ''1'' ?s = Inr (?s\<lparr>ms_os := '': 1'' @ [LF], ms_version := ''1'', ms_state := Body\<rparr>)"
    by (simp add: write_next_def write_start_def new_serializer_def)
  obtain ms1 where w: "write_pairs nvs (?s\<lparr>ms_os := '': 1'' @ [LF], ms_version := ''1'', ms_state := Body\<rparr>) = Inr ms1"
    "write_pairs ([([], [])] @ (if fin then [([], [])] else [])) ms1 = Inr ms"
    using assms(1) by (auto simp: serialize_manifest_def start write_pairs_append split: sum.splits)
  have "clean ('': 1'' @ [LF])" by (simp add: clean_Cons)
  then obtain t where t: "ms_os ms1 = ('': 1'' @ [LF]) @ t" "ms_state ms1 = Body"
    "pairs_text nvs t" "clean (('': 1'' @ [LF]) @ t)"
    using write_pairs_text [OF w(1)] assms(2) by auto
  have "ms_os ms = ms_os ms1"
    using w(2) t(2) by (auto simp: write_next_def write_start_def Let_def split: if_splits)
  with t show ?thesis by auto
qed

section \<open>Properties\<close>

text \<open>
  C4: Whatever names and values a manifest serializer accepts, a manifest parser reads back from the
  text: the same names in the same order with the same values, except that the carriage returns of a
  value come back as newlines; line breaking, with or without long lines, never changes a value.
\<close>

theorem manifest_roundtrip:
  assumes "serialize_manifest nvs fin (new_serializer long) = Inr ms" "list_all (\<lambda>(n, v). n \<noteq> []) nvs"
  shows "\<exists>r p. parse_manifest (new_parser (manifest_input (ms_os ms))) = Inr (r, p) \<and>
    map pair_of r = map (\<lambda>(n, v). (n, unix_lines v)) nvs \<and> mp_state p = End"
proof -
  obtain t where t: "ms_os ms = '': 1'' @ LF # t" "pairs_text nvs t" "clean (ms_os ms)"
    using serialized_text [OF assms] by blast
  note i = manifest_input_reads [OF t(3)]
  obtain nv i' where v: "parse_next (new_parser (manifest_input (ms_os ms))) =
      Inr (nv, \<lparr>mp_state = Body, mp_version = ''1'', mp_input = i'\<rparr>)" "mv_name nv = []" "mv_value nv = ''1''" "reads i' t"
    using parse_format_version [OF i(1) [unfolded t(1)] i(2) [unfolded t(1)]] unfolding t(1) by blast
  obtain r p where "parse_pairs \<lparr>mp_state = Body, mp_version = ''1'', mp_input = i'\<rparr> [] = Inr (r, p)"
    "map pair_of r = map (\<lambda>(n, v). (n, unix_lines v)) nvs" "mp_state p = End"
    using parse_pairs_read [OF t(2), of "\<lparr>mp_state = Body, mp_version = ''1'', mp_input = i'\<rparr>" "[]"] v(4) by auto
  with v show ?thesis
    by (simp add: parse_manifest_def try_parse_manifest_eos_def nv_empty_def)
qed

theorem manifest_roundtrip_witness:
  "\<exists>ms r p. serialize_manifest [(''a'', [CHR ''b'', LF, BS])] True (new_serializer False) = Inr ms \<and>
     parse_manifest (new_parser (manifest_input (ms_os ms))) = Inr (r, p) \<and> map pair_of r = [(''a'', [CHR ''b'', LF, BS])]"
proof -
  have "\<not> isl (serialize_manifest [(''a'', [CHR ''b'', LF, BS])] True (new_serializer False))"
    by code_simp
  then obtain ms where m: "serialize_manifest [(''a'', [CHR ''b'', LF, BS])] True (new_serializer False) = Inr ms"
    by (cases "serialize_manifest [(''a'', [CHR ''b'', LF, BS])] True (new_serializer False)") auto
  from manifest_roundtrip [OF m] show ?thesis using m by auto
qed

end
