(* ===== verification/Manifest_Safety.thy ===== *)
theory Manifest_Safety
  imports Manifest_Properties
begin

text \<open>
  The manifest parser on arbitrary input: no assertion of it fails for any byte string, and a client that
  keeps asking for the next pair gets an error or the end of the stream. Splitting undoes merging of a
  value and its comment.
\<close>

section \<open>Newlines and columns\<close>

text \<open>A character after a newline has column 1, also on input that turns out to be invalid.\<close>

fun lf_ok :: "input \<Rightarrow> bool" where
  "lf_ok (x # y # xs) \<longleftrightarrow> (xch x = LF \<longrightarrow> xcolumn y = 1) \<and> lf_ok (y # xs)"
| "lf_ok xs \<longleftrightarrow> True"

definition plain :: "char_scanner \<Rightarrow> bool" where
  "plain sc \<longleftrightarrow> sc_ungetb sc = [] \<and> sc_unpeek sc = None"

lemma plain_column: "plain sc \<Longrightarrow> xcolumn (fst (sc_peek sc)) = sc_column sc"
  by (auto simp: sc_peek_def plain_def sc_char_def sc_validate_def Let_def split: list.splits prod.splits)

lemma plain_hd: "plain sc \<Longrightarrow> \<exists>x xs. char_stream sc = x # xs \<and> xcolumn x = sc_column sc"
  using plain_column [of sc] by (auto simp: char_stream.simps [of sc] split: prod.splits)

lemma sc_validate_ungetb: "sc_validate sc b = (valid, what, sc1) \<Longrightarrow> sc_ungetb sc1 = sc_ungetb sc"
  by (auto simp: sc_validate_def split: prod.splits if_splits)

lemma plain_snd_peek: "plain sc \<Longrightarrow> sc_ungetb (snd (sc_peek sc)) = []"
proof (cases "sc_rest sc")
  case (Cons b t)
  obtain valid what sc1 where v: "sc_validate sc b = (valid, what, sc1)" by (metis prod_cases3)
  assume "plain sc"
  with Cons v sc_validate_ungetb [OF v] show ?thesis by (simp add: sc_peek_def plain_def Let_def)
qed (simp add: sc_peek_def plain_def)

lemma sc_peek_ungetb: "plain sc \<Longrightarrow> sc_peek sc = (c, sc1) \<Longrightarrow> sc_ungetb sc1 = []"
  using plain_snd_peek [of sc] by simp

lemma sc_get_plain:
  assumes "sc_ungetb sc = []" "\<not> eos c"
  shows "plain (sc_get c sc)" and "xch c = LF \<Longrightarrow> sc_column (sc_get c sc) = 1"
  using assms by (auto simp: sc_get_def plain_def Let_def)

lemma stream_lf_ok: "plain sc \<Longrightarrow> lf_ok (char_stream sc)"
proof (induction sc rule: char_stream.induct)
  case (1 sc)
  obtain c sc1 where p: "sc_peek sc = (c, sc1)" by (cases "sc_peek sc")
  show ?case
  proof (cases "eos c \<or> invalid c")
    case True
    with p show ?thesis by (simp add: char_stream.simps [of sc])
  next
    case False
    note g = sc_get_plain [OF sc_peek_ungetb [OF 1(2) p], of c]
    have "lf_ok (char_stream (sc_get c sc1))" using 1(1) [OF p [symmetric]] False g(1) by simp
    moreover obtain x xs where "char_stream (sc_get c sc1) = x # xs" "xcolumn x = sc_column (sc_get c sc1)"
      using plain_hd g(1) False by blast
    ultimately show ?thesis
      using p False g(2) by (simp add: char_stream.simps [of sc])
  qed
qed

lemma manifest_input_lf: "lf_ok (manifest_input s)" "xcolumn (head (manifest_input s)) = 1"
proof -
  let ?sc = "new_scanner s manifest_validator True"
  have "plain ?sc" by (simp add: plain_def new_scanner_def)
  from stream_lf_ok [OF this] plain_hd [OF this]
  show "lf_ok (manifest_input s)" "xcolumn (head (manifest_input s)) = 1"
    by (auto simp: manifest_input_def head_def new_scanner_def)
qed

section \<open>What the parts of the parser keep\<close>

lemma lf_ok_get [simp]: "lf_ok i \<Longrightarrow> lf_ok (mp_get i)"
  by (cases i; cases "tl i") (auto simp: mp_get_def)

lemma lf_ok_tl: "lf_ok (c # i) \<Longrightarrow> lf_ok i"
  by (cases i) auto

lemma get_after_newline: "lf_ok i \<Longrightarrow> xch (head i) = LF \<Longrightarrow> mp_get i \<noteq> [] \<Longrightarrow> xcolumn (head (mp_get i)) = 1"
  by (cases i; cases "tl i") (auto simp: mp_get_def head_def eos_def xch_def split: if_splits xvalue.splits)

lemma mp_peek_no_assert [simp]: "mp_peek w i \<noteq> Inl Manifest_assertion"
  by (auto simp: mp_peek_def Let_def split: xvalue.splits)

text \<open>A result that is not an assertion failure and that keeps the columns of the rest of the input.\<close>

definition keeps :: "('a \<Rightarrow> input) \<Rightarrow> 'a manifest_result \<Rightarrow> bool" where
  "keeps f r \<longleftrightarrow> r \<noteq> Inl Manifest_assertion \<and> (\<forall>x. r = Inr x \<longrightarrow> lf_ok (f x))"

lemma keeps_simps [simp]:
  "keeps f (Inr x) \<longleftrightarrow> lf_ok (f x)" "keeps f (Inl e) \<longleftrightarrow> e \<noteq> Manifest_assertion"
  by (auto simp: keeps_def)

lemma skip_comment_keeps: "lf_ok i \<Longrightarrow> keeps id (skip_comment i)"
  by (induction i) (auto dest: lf_ok_tl split: sum.splits)

lemma skip_spaces_loop_keeps: "lf_ok i \<Longrightarrow> keeps id (skip_spaces_loop start i)"
proof (induction start i rule: skip_spaces_loop.induct)
  case (1 start i)
  then show ?case
    using skip_comment_keeps [of "mp_get i"]
    by (auto simp: skip_spaces_loop.simps [of start i] split: sum.splits)
qed

lemma skip_spaces_keeps: "lf_ok i \<Longrightarrow> keeps id (skip_spaces i)"
  using skip_spaces_loop_keeps by (auto simp: skip_spaces_def split: sum.splits)

lemma parse_name_keeps: "lf_ok i \<Longrightarrow> keeps snd (parse_name_loop n i)"
  by (induction i arbitrary: n) (auto dest: lf_ok_tl split: sum.splits)

definition step_input :: "value_step \<Rightarrow> input" where
  "step_input s = (case s of Stop v n i \<Rightarrow> i | Next nl v n i \<Rightarrow> i)"

lemma value_turn_keeps: "lf_ok i \<Longrightarrow> keeps step_input (value_turn ml nl v n i)"
  by (auto simp: value_turn_def value_newline_def value_escape_def value_char_def Let_def step_input_def
      split: sum.splits)

text \<open>A value ends before a newline or at the end of the stream.\<close>

definition at_end :: "input \<Rightarrow> bool" where
  "at_end i \<longleftrightarrow> xch (head i) = LF \<or> eos (head i)"

lemma value_stop_end: "value_turn ml nl v n i = Inr (Stop v' n' i') \<Longrightarrow> at_end i'"
  by (auto simp: value_turn_def value_newline_def value_escape_def value_char_def Let_def at_end_def
      split: sum.splits if_splits dest!: mp_peek_Inr)

lemma parse_value_loop_keeps:
  "lf_ok i \<Longrightarrow> keeps (\<lambda>x. snd (snd x)) (parse_value_loop ml nl v n i) \<and>
     (\<forall>v' n' i'. parse_value_loop ml nl v n i = Inr (v', n', i') \<longrightarrow> at_end i')"
proof (induction ml nl v n i rule: parse_value_loop.induct)
  case (1 ml nl v n i)
  then show ?case
    using value_turn_keeps [OF 1(2), of ml nl v n]
    by (auto simp: parse_value_loop.simps [of ml nl v n i] step_input_def
        dest: value_stop_end split: sum.splits value_step.splits)
qed

lemma value_loop_no_assert [simp]: "lf_ok i \<Longrightarrow> parse_value_loop ml nl v n i \<noteq> Inl Manifest_assertion"
  using parse_value_loop_keeps [of i ml nl v n] by (auto simp: keeps_def)

lemma value_loop_rest:
  "parse_value_loop ml nl v n i = Inr (v', n', i') \<Longrightarrow> lf_ok i \<Longrightarrow> lf_ok i' \<and> at_end i'"
  using parse_value_loop_keeps [of i ml nl v n] by (auto simp: keeps_def)

lemma parse_value_no_assert [simp]: "lf_ok i \<Longrightarrow> parse_value i \<noteq> Inl Manifest_assertion"
  by (auto simp: parse_value_def Let_def split: sum.splits)

lemma parse_value_rest:
  assumes "parse_value i = Inr (v, d, i')" "lf_ok i"
  shows "lf_ok i' \<and> at_end i'"
  using assms
  by (auto simp: parse_value_def Let_def at_end_def dest!: mp_peek_Inr dest: value_loop_rest [unfolded at_end_def]
      split: sum.splits if_splits)

lemma skip_spaces_no_assert [simp]: "lf_ok i \<Longrightarrow> skip_spaces i \<noteq> Inl Manifest_assertion"
  and skip_spaces_rest: "skip_spaces i = Inr i' \<Longrightarrow> lf_ok i \<Longrightarrow> lf_ok i'"
  using skip_spaces_keeps [of i] by (auto simp: keeps_def)

lemma parse_name_no_assert [simp]: "lf_ok i \<Longrightarrow> parse_name_loop n i \<noteq> Inl Manifest_assertion"
  and parse_name_rest: "parse_name_loop n i = Inr (n', i') \<Longrightarrow> lf_ok i \<Longrightarrow> lf_ok i'"
  using parse_name_keeps [of i n] by (auto simp: keeps_def)

section \<open>Pairs\<close>

text \<open>Where the next pair begins: at the start of a line or at the end of the stream.\<close>

definition at_line :: "input \<Rightarrow> bool" where
  "at_line i \<longleftrightarrow> eos (head i) \<or> xcolumn (head i) = 1"

lemma pair_value_no_assert [simp]: "lf_ok i \<Longrightarrow> parse_pair_value i \<noteq> Inl Manifest_assertion"
proof -
  assume i: "lf_ok i"
  show ?thesis
  proof (cases "skip_spaces i")
    case (Inr i1)
    from skip_spaces_rest [OF this i] have i1: "lf_ok i1" .
    show ?thesis
    proof (cases "parse_value i1")
      case v: (Inr x)
      obtain v d i2 where x: "x = (v, d, i2)" by (metis prod_cases3)
      have "at_end i2" using parse_value_rest [OF v [unfolded x] i1] by simp
      with Inr v x show ?thesis
        by (auto simp: parse_pair_value_def at_end_def dest!: mp_peek_Inr split: sum.splits)
    qed (use Inr i1 in \<open>auto simp: parse_pair_value_def\<close>)
  qed (use i in \<open>auto simp: parse_pair_value_def\<close>)
qed

lemma pair_value_rest:
  assumes "parse_pair_value i = Inr (v, d, i')" "lf_ok i"
  shows "lf_ok i' \<and> at_line i'"
proof -
  obtain i1 i2 where i: "skip_spaces i = Inr i1" "parse_value i1 = Inr (v, d, i2)"
    and e: "i' = (if xch (head i2) = LF then mp_get i2 else i2)" "xch (head i2) = LF \<or> eos (head i2)"
    using assms(1) by (auto simp: parse_pair_value_def dest!: mp_peek_Inr split: sum.splits if_splits)
  have "lf_ok i2" using parse_value_rest [OF i(2)] skip_spaces_rest [OF i(1) assms(2)] by simp
  with e show ?thesis
    using get_after_newline [of i2] by (cases "mp_get i2 = []") (auto simp: at_line_def head_def eos_def)
qed

lemma skip_spaces_loop_start:
  "skip_spaces_loop True i = Inr i' \<Longrightarrow> eos (head i') \<or> xch (head i') \<notin> {CHR '' '', TAB, LF}"
proof (induction "True" i rule: skip_spaces_loop.induct)
  case (1 i)
  then show ?case
    by (auto simp: skip_spaces_loop.simps [of True i] dest!: mp_peek_Inr split: sum.splits if_splits)
qed

lemma skip_spaces_line:
  assumes "skip_spaces i = Inr i'" "at_line i"
  shows "eos (head i') \<or> xch (head i') \<notin> {CHR '' '', TAB, LF}"
proof -
  obtain start where s: "skip_spaces_loop start i = Inr i'" "start \<or> eos (head i)"
    using assms by (auto simp: skip_spaces_def at_line_def dest!: mp_peek_Inr split: sum.splits)
  show ?thesis
  proof (cases start)
    case True with s(1) skip_spaces_loop_start show ?thesis by simp
  next
    case False
    with s show ?thesis
      by (auto simp: skip_spaces_loop.simps [of False i] dest!: mp_peek_Inr split: sum.splits if_splits)
  qed
qed

lemma parse_name_nonempty: "parse_name_loop n i = Inr (n', i') \<Longrightarrow> n \<noteq> [] \<Longrightarrow> n' \<noteq> []"
  by (induction i arbitrary: n) (auto split: sum.splits if_splits)

lemma parse_name_empty:
  assumes "parse_name_loop [] i = Inr ([], i')"
  shows "i' = i \<and> (eos (head i) \<or> xch (head i) \<in> {CHR '':'', CHR '' '', TAB, LF})"
  using assms
  by (cases i) (auto simp: head_def eos_def dest: mp_peek_Inr parse_name_nonempty split: sum.splits if_splits)

lemma skip_spaces_at_eos: "skip_spaces i = Inr i' \<Longrightarrow> eos (head i) \<Longrightarrow> i' = i"
  by (auto simp: skip_spaces_def skip_spaces_loop.simps [of _ i] dest!: mp_peek_Inr split: sum.splits if_splits)

definition parser_ok :: "manifest_parser \<Rightarrow> bool" where
  "parser_ok p \<longleftrightarrow> lf_ok (mp_input p) \<and> (mp_state p = Body \<longrightarrow> at_line (mp_input p))"

lemma accept_pair_no_assert [simp]: "mp_state p = Start \<or> mv_name r \<noteq> [] \<Longrightarrow> accept_pair p r i \<noteq> Inl Manifest_assertion"
  by (auto simp: accept_pair_def)

lemma accept_pair_rest: "accept_pair p r i = Inr (r', p') \<Longrightarrow> lf_ok i \<Longrightarrow> at_line i \<Longrightarrow> parser_ok p'"
  by (auto simp: accept_pair_def parser_ok_def split: if_splits)

lemma pair_at_name [simp]: "mv_name (pair_at n v c d) = n"
  by (simp add: pair_at_def)

lemma parse_next_ok:
  assumes "parser_ok p"
  shows "parse_next p \<noteq> Inl Manifest_assertion \<and> (\<forall>nv p'. parse_next p = Inr (nv, p') \<longrightarrow> parser_ok p')"
proof (cases "mp_state p = End")
  case True
  with assms show ?thesis by (simp add: parse_next_def)
next
  case st: False
  have l: "lf_ok (mp_input p)" "mp_state p = Body \<Longrightarrow> at_line (mp_input p)"
    using assms by (auto simp: parser_ok_def)
  show ?thesis
  proof (cases "skip_spaces (mp_input p)")
    case (Inl e)
    with st l show ?thesis by (auto simp: parse_next_def)
  next
    case s1: (Inr i)
    with l have i: "lf_ok i" by (auto dest: skip_spaces_rest)
    show ?thesis
    proof (cases "parse_name_loop [] i")
      case (Inl e)
      with s1 st i show ?thesis by (auto simp: parse_next_def parser_ok_def)
    next
      case nm: (Inr y)
      obtain n i1 where y: "y = (n, i1)" by (cases y)
      with nm i have i1: "lf_ok i1" by (auto dest: parse_name_rest)
      show ?thesis
      proof (cases "skip_spaces i1")
        case (Inl e)
        with s1 st i nm y i1 show ?thesis by (auto simp: parse_next_def parser_ok_def)
      next
        case s2: (Inr i2)
        with i1 have i2: "lf_ok i2" by (auto dest: skip_spaces_rest)
        have named: "n \<noteq> []" if "mp_state p = Body" "xch (head i) \<noteq> CHR '':''" "\<not> eos (head i2)"
          using that s1 s2 nm y l(2) skip_spaces_line [OF s1] parse_name_empty [of i i1] skip_spaces_at_eos [of i1 i2]
          by auto
        have st2: "mp_state p = Start \<or> mp_state p = Body" using st by (cases "mp_state p") auto
        have ends: "parser_ok (p\<lparr>mp_state := End, mp_input := i2\<rparr>)"
          "parser_ok (p\<lparr>mp_state := Start, mp_input := i\<rparr>)"
          using i i2 by (auto simp: parser_ok_def)
        show ?thesis
          using s1 st i nm y i1 s2 i2 named st2 ends
          by (auto simp: parse_next_def colon_expected_def
              dest!: mp_peek_Inr dest: pair_value_rest accept_pair_rest split: sum.splits if_splits)
      qed
    qed
  qed
qed

section \<open>Calls of the client\<close>

text \<open>A client that calls \<open>next ()\<close> \<open>n\<close> times.\<close>

fun next_calls :: "nat \<Rightarrow> manifest_parser \<Rightarrow> manifest_parser manifest_result" where
  "next_calls 0 p = Inr p"
| "next_calls (Suc n) p = (case parse_next p of Inl e \<Rightarrow> Inl e | Inr (nv, p1) \<Rightarrow> next_calls n p1)"

lemma next_calls_ok: "parser_ok p \<Longrightarrow> next_calls n p \<noteq> Inl Manifest_assertion"
proof (induction n arbitrary: p)
  case (Suc n)
  then show ?case using parse_next_ok [OF Suc.prems] by (auto split: sum.splits)
qed simp

lemma parse_pairs_ok: "parser_ok p \<Longrightarrow> parse_pairs p r \<noteq> Inl Manifest_assertion"
proof (induction p r rule: parse_pairs.induct)
  case (1 p r)
  then show ?case
    using parse_next_ok [OF 1(2)] by (auto simp: parse_pairs.simps [of p r] split: sum.splits)
qed

lemma parse_manifest_ok:
  assumes "parser_ok p"
  shows "try_parse_manifest_eos allow_eos p \<noteq> Inl Manifest_assertion"
proof (cases "parse_next p")
  case (Inl e)
  with parse_next_ok [OF assms] show ?thesis by (simp add: try_parse_manifest_eos_def)
next
  case (Inr x)
  obtain nv p1 where x: "x = (nv, p1)" by (cases x)
  with Inr parse_next_ok [OF assms] have "parser_ok p1" by simp
  from parse_pairs_ok [OF this, of "[]"] Inr x show ?thesis
    by (auto simp: try_parse_manifest_eos_def split: sum.splits)
qed

lemma new_parser_ok: "parser_ok (new_parser (manifest_input s))"
  using manifest_input_lf by (simp add: parser_ok_def new_parser_def)

text \<open>
  C13: On any bytes whatsoever, however often the client asks for the next pair, no assertion of the
  manifest parser fails: a value always ends at a newline or at the end of the stream, and inside a
  manifest a pair with an empty name never reaches the end of \<open>parse_next ()\<close>. Neither does
  \<open>try_parse_manifest ()\<close> fail with one.
\<close>

theorem manifest_never_asserts:
  "next_calls n (new_parser (manifest_input s)) \<noteq> Inl Manifest_assertion \<and>
   try_parse_manifest_eos allow_eos (new_parser (manifest_input s)) \<noteq> Inl Manifest_assertion"
  using next_calls_ok [OF new_parser_ok] parse_manifest_ok [OF new_parser_ok] by simp

definition calls_left :: "manifest_parser \<Rightarrow> nat" where
  "calls_left p = 2 * length (mp_input p) + (if mp_state p = Body then 1 else 0)"

lemma accept_pair_nonempty: "accept_pair p r i = Inr (r', p') \<Longrightarrow> \<not> nv_empty r'"
  by (auto simp: accept_pair_def nv_empty_def split: if_splits)

lemma parse_next_empty:
  assumes "parse_next p = Inr (nv, p')" "nv_empty nv"
  shows "mp_state p' = End \<or> mp_state p = Body \<and> mp_state p' = Start \<and> length (mp_input p') \<le> length (mp_input p)"
  using assms
  by (auto simp: parse_next_def split: sum.splits if_splits dest: skip_spaces_length accept_pair_nonempty)

lemma calls_left_next:
  assumes "parse_next p = Inr (nv, p')"
  shows "mp_state p' = End \<or> calls_left p' < calls_left p"
proof (cases "nv_empty nv")
  case True
  from parse_next_empty [OF assms this] show ?thesis by (auto simp: calls_left_def)
next
  case False
  from parse_next_shorter [OF assms this] show ?thesis by (auto simp: calls_left_def)
qed

lemma next_calls_reach: "\<exists>n \<le> calls_left p + 1. case next_calls n p of Inl e \<Rightarrow> True | Inr p' \<Rightarrow> mp_state p' = End"
proof (induction "calls_left p" arbitrary: p rule: less_induct)
  case less
  show ?case
  proof (cases "parse_next p")
    case (Inl e)
    then show ?thesis by (intro exI [of _ 1]) simp
  next
    case (Inr x)
    obtain nv p1 where x: "x = (nv, p1)" by (cases x)
    show ?thesis
    proof (cases "mp_state p1 = End")
      case True
      with Inr x show ?thesis by (intro exI [of _ 1]) simp
    next
      case False
      with calls_left_next Inr x have l: "calls_left p1 < calls_left p" by blast
      from less [OF this] obtain n where n: "n \<le> calls_left p1 + 1"
        "case next_calls n p1 of Inl e \<Rightarrow> True | Inr p' \<Rightarrow> mp_state p' = End" by blast
      with Inr x l show ?thesis by (intro exI [of _ "Suc n"]) simp
    qed
  qed
qed

text \<open>
  C23: A client that keeps calling \<open>next ()\<close> gets an error or reaches the end of the stream, with at most
  two calls for every character of the input and one more, whatever the bytes of the stream are.
\<close>

theorem manifest_calls_end:
  "\<exists>n \<le> 2 * length (manifest_input s) + 1.
     case next_calls n (new_parser (manifest_input s)) of Inl e \<Rightarrow> True | Inr p \<Rightarrow> mp_state p = End"
  using next_calls_reach [of "new_parser (manifest_input s)"] by (simp add: calls_left_def new_parser_def)

section \<open>Values with comments\<close>

definition trim_right :: "string \<Rightarrow> string" where
  "trim_right s = rev (dropWhile comment_space (rev s))"

definition escape_comment :: "string \<Rightarrow> string" where
  "escape_comment v = concat (map (\<lambda>d. if d = CHR '';'' then [BS, d] else [d]) v)"

lemma trim_right_snoc [simp]: "trim_right (s @ [c]) = (if comment_space c then trim_right s else s @ [c])"
  by (simp add: trim_right_def)

lemma trim_right_length: "length (trim_right s) \<le> length s"
  using length_dropWhile_le [of comment_space "rev s"] by (simp add: trim_right_def)

lemma take_trim_right: "take (length (trim_right s)) s = trim_right s"
  by (induction s rule: rev_induct) (auto simp: trim_right_length, simp add: trim_right_def)

lemma escape_comment_simps [simp]:
  "escape_comment [] = []"
  "escape_comment (c # v) = (if c = CHR '';'' then [BS, c] else [c]) @ escape_comment v"
  by (simp_all add: escape_comment_def)

lemma not_comment_space [simp]: "\<not> comment_space CHR '';''" "\<not> comment_space BS"
  by (simp_all add: comment_space_def)

lemma escape_comment_hd: "escape_comment v @ t \<noteq> [] \<Longrightarrow> hd (escape_comment v @ t) = CHR '';'' \<Longrightarrow> v = [] \<and> hd t = CHR '';''"
  by (cases v) (auto split: if_splits)

lemma split_loop_plain:
  assumes "\<not> c = CHR '';''" "\<not> (c = BS \<and> u \<noteq> [] \<and> hd u = CHR '';'')"
  shows "split_loop r n (c # u) = split_loop (r @ [c]) (if \<not> comment_space c then length r + 1 else n) u"
  using assms by (simp only: split_loop.simps(2) if_False)

lemma split_loop_escape:
  assumes "t = [] \<or> hd t = CHR '';''" "v = [] \<or> last v \<noteq> BS \<or> t = []" "n = length (trim_right r)"
  shows "split_loop r n (escape_comment v @ t) = (r @ v, length (trim_right (r @ v)), t)"
  using assms(2,3)
proof (induction v arbitrary: r n)
  case Nil
  with assms(1) show ?case by (cases t) auto
next
  case (Cons c v)
  have ih: "split_loop (r @ [c]) (length (trim_right (r @ [c]))) (escape_comment v @ t) =
      ((r @ [c]) @ v, length (trim_right ((r @ [c]) @ v)), t)"
    using Cons.prems(1) by (intro Cons.IH) (auto split: if_splits)
  show ?case
  proof (cases "c = CHR '';''")
    case True
    with ih show ?thesis by simp
  next
    case False
    have "\<not> (c = BS \<and> escape_comment v @ t \<noteq> [] \<and> hd (escape_comment v @ t) = CHR '';'')"
    proof
      assume a: "c = BS \<and> escape_comment v @ t \<noteq> [] \<and> hd (escape_comment v @ t) = CHR '';''"
      then have "v = []" using escape_comment_hd [of v t] by blast
      with a Cons.prems(1) show False by simp
    qed
    from split_loop_plain [OF False this, of r n] Cons.prems(2) False
    have "split_loop r n (escape_comment (c # v) @ t) =
        split_loop (r @ [c]) (length (trim_right (r @ [c]))) (escape_comment v @ t)" by simp
    with ih show ?thesis by simp
  qed
qed

text \<open>
  Splitting undoes merging: the value and the comment merged into one string by \<open>merge_comment ()\<close> are
  given back by \<open>split_comment ()\<close>, semicolons of the value included, up to the spaces that end the value
  and that start the comment. A value with a comment must not end in a backslash.
\<close>

lemma comment_roundtrip:
  assumes "v = [] \<or> last v \<noteq> BS \<or> c = []"
  shows "split_comment (merge_comment v c) = (trim_right v, dropWhile comment_space c)"
proof -
  let ?t = "if c \<noteq> [] then ''; '' @ c else []"
  have m: "merge_comment v c = escape_comment v @ ?t" by (simp add: merge_comment_def escape_comment_def)
  have "split_loop [] 0 (escape_comment v @ ?t) = ([] @ v, length (trim_right ([] @ v)), ?t)"
    using assms by (intro split_loop_escape) (auto simp: trim_right_def)
  with m show ?thesis by (auto simp: split_comment_def take_trim_right comment_space_def)
qed

lemma comment_roundtrip_witness:
  "split_comment (merge_comment ''a;b '' '' note'') = (''a;b'', ''note'')"
  using comment_roundtrip [of "''a;b ''" "'' note''"] by (simp add: trim_right_def comment_space_def)

text \<open>
  The backslash that ends a value escapes the semicolon that \<open>merge_comment ()\<close> puts after it: the comment
  is lost and becomes a part of the value.
\<close>

lemma comment_lost_after_backslash:
  "split_comment (merge_comment (''dir'' @ [BS]) ''note'') = (''dir; note'', [])"
  by (simp add: split_comment_def merge_comment_def comment_space_def)

end
