(* ===== verification/Phase_Mutex.thy ===== *)
theory Phase_Mutex
  imports Butl_Prelude
begin

text \<open>
  The phase mutex of \<open>libbuild2\<close> (\<open>run_phase_mutex\<close> in \<open>context.cxx\<close>), with the threads that use it. A
  thread's state says where in \<open>lock ()\<close>, \<open>unlock ()\<close> or \<open>relock ()\<close> it is; every critical section
  under \<open>m_\<close> is one step, and so are the calls on the load mutex \<open>lm_\<close> and \<open>notify_all ()\<close>, which
  is called after \<open>m_\<close> has been released. The scheduler calls around the waits do not change the mutex.
\<close>

section \<open>State\<close>

datatype run_phase = Load | Match | Execute

datatype thread =
    Idle                              \<comment> \<open>outside the mutex\<close>
  | Asleep run_phase                  \<comment> \<open>in \<open>v->wait (l)\<close>\<close>
  | Woken run_phase                   \<comment> \<open>notified, about to test the phase\<close>
  | Passed run_phase bool             \<comment> \<open>out of the critical section of \<open>lock ()\<close>, with \<open>r\<close>\<close>
  | Inside run_phase bool             \<comment> \<open>\<open>lock ()\<close> returned \<open>r\<close>\<close>
  | Leaving run_phase                 \<comment> \<open>in \<open>unlock ()\<close>, before its critical section\<close>
  | Notifying run_phase               \<comment> \<open>in \<open>unlock ()\<close>, before \<open>v->notify_all ()\<close>\<close>
  | Switching run_phase run_phase     \<comment> \<open>in \<open>relock ()\<close>, before its critical section\<close>
  | Switched run_phase bool           \<comment> \<open>in \<open>relock ()\<close>, before \<open>v->notify_all ()\<close>\<close>

record phase_mutex =
  pm_phase :: run_phase               \<comment> \<open>\<open>ctx_.phase\<close>\<close>
  pm_fail :: bool
  pm_lc :: nat
  pm_mc :: nat
  pm_ec :: nat
  pm_lm :: "nat option"               \<comment> \<open>the thread that owns \<open>lm_\<close>\<close>
  pm_threads :: "thread list"

definition new_phase_mutex :: "nat \<Rightarrow> phase_mutex" where
  "new_phase_mutex n =
     \<lparr>pm_phase = Load, pm_fail = False, pm_lc = 0, pm_mc = 0, pm_ec = 0, pm_lm = None,
      pm_threads = replicate n Idle\<rparr>"

definition counter :: "phase_mutex \<Rightarrow> run_phase \<Rightarrow> nat" where
  "counter s p = (case p of Load \<Rightarrow> pm_lc s | Match \<Rightarrow> pm_mc s | Execute \<Rightarrow> pm_ec s)"

definition increment :: "run_phase \<Rightarrow> phase_mutex \<Rightarrow> phase_mutex" where
  "increment p s =
     (case p of
        Load \<Rightarrow> s\<lparr>pm_lc := pm_lc s + 1\<rparr>
      | Match \<Rightarrow> s\<lparr>pm_mc := pm_mc s + 1\<rparr>
      | Execute \<Rightarrow> s\<lparr>pm_ec := pm_ec s + 1\<rparr>)"

definition decrement :: "run_phase \<Rightarrow> phase_mutex \<Rightarrow> phase_mutex" where
  "decrement p s =
     (case p of
        Load \<Rightarrow> s\<lparr>pm_lc := pm_lc s - 1\<rparr>
      | Match \<Rightarrow> s\<lparr>pm_mc := pm_mc s - 1\<rparr>
      | Execute \<Rightarrow> s\<lparr>pm_ec := pm_ec s - 1\<rparr>)"

definition set_thread :: "nat \<Rightarrow> thread \<Rightarrow> phase_mutex \<Rightarrow> phase_mutex" where
  "set_thread t th s = s\<lparr>pm_threads := (pm_threads s)[t := th]\<rparr>"

section \<open>Locking\<close>

text \<open>The critical section of \<open>lock (p)\<close>.\<close>

definition lock_section :: "run_phase \<Rightarrow> nat \<Rightarrow> phase_mutex \<Rightarrow> phase_mutex" where
  "lock_section p t s =
     (let u = (pm_lc s = 0 \<and> pm_mc s = 0 \<and> pm_ec s = 0); s = increment p s in
      if u then set_thread t (Passed p (\<not> pm_fail s)) (s\<lparr>pm_phase := p\<rparr>)
      else if pm_phase s \<noteq> p then set_thread t (Asleep p) s
      else set_thread t (Passed p (\<not> pm_fail s)) s)"

text \<open>The test of the waiting loops of \<open>lock (p)\<close> and \<open>relock (o, p)\<close> after a wakeup.\<close>

definition wait_test :: "run_phase \<Rightarrow> nat \<Rightarrow> phase_mutex \<Rightarrow> phase_mutex" where
  "wait_test p t s =
     (if pm_phase s \<noteq> p then set_thread t (Asleep p) s
      else set_thread t (Passed p (\<not> pm_fail s)) s)"

text \<open>The end of \<open>lock (p)\<close> and \<open>relock (o, p)\<close>; \<open>None\<close> when \<open>lm_.lock ()\<close> blocks.\<close>

definition enter_phase :: "run_phase \<Rightarrow> bool \<Rightarrow> nat \<Rightarrow> phase_mutex \<Rightarrow> phase_mutex option" where
  "enter_phase p r t s =
     (if p = Load
      then if pm_lm s = None then Some (set_thread t (Inside p (\<not> pm_fail s)) (s\<lparr>pm_lm := Some t\<rparr>)) else None
      else Some (set_thread t (Inside p r) s))"

section \<open>Unlocking\<close>

definition unlock_enter :: "run_phase \<Rightarrow> nat \<Rightarrow> phase_mutex \<Rightarrow> phase_mutex" where
  "unlock_enter p t s = set_thread t (Leaving p) (if p = Load then s\<lparr>pm_lm := None\<rparr> else s)"

text \<open>The new phase and the condition variable to notify.\<close>

definition pick_phase :: "phase_mutex \<Rightarrow> run_phase \<times> run_phase option" where
  "pick_phase s =
     (if pm_lc s \<noteq> 0 then (Load, Some Load)
      else if pm_mc s \<noteq> 0 then (Match, Some Match)
      else if pm_ec s \<noteq> 0 then (Execute, Some Execute)
      else (Load, None))"

definition unlock_section :: "run_phase \<Rightarrow> nat \<Rightarrow> phase_mutex \<Rightarrow> phase_mutex" where
  "unlock_section p t s =
     (let s = decrement p s in
      if counter s p = 0
      then (case pick_phase s of (q, v) \<Rightarrow>
              set_thread t (case v of Some w \<Rightarrow> Notifying w | None \<Rightarrow> Idle) (s\<lparr>pm_phase := q\<rparr>))
      else set_thread t Idle s)"

definition wake :: "run_phase \<Rightarrow> thread \<Rightarrow> thread" where
  "wake p th = (if th = Asleep p then Woken p else th)"

definition notify_all :: "run_phase \<Rightarrow> phase_mutex \<Rightarrow> phase_mutex" where
  "notify_all p s = s\<lparr>pm_threads := map (wake p) (pm_threads s)\<rparr>"

section \<open>Switching\<close>

definition relock_enter :: "run_phase \<Rightarrow> run_phase \<Rightarrow> nat \<Rightarrow> phase_mutex \<Rightarrow> phase_mutex" where
  "relock_enter p n t s = set_thread t (Switching p n) (if p = Load then s\<lparr>pm_lm := None\<rparr> else s)"

definition relock_section :: "run_phase \<Rightarrow> run_phase \<Rightarrow> nat \<Rightarrow> phase_mutex \<Rightarrow> phase_mutex" where
  "relock_section p n t s =
     (let s1 = decrement p s;
          u = (counter s1 p = 0);
          v = (counter s1 n \<noteq> 0 \<or> \<not> u);
          s2 = increment n s1
      in if u
         then set_thread t (if v then Switched n (\<not> pm_fail s2) else Passed n (\<not> pm_fail s2)) (s2\<lparr>pm_phase := n\<rparr>)
         else wait_test n t s2)"

section \<open>Steps\<close>

text \<open>What a thread in the middle of a call does next; \<open>None\<close> when it is not in a call or blocks.\<close>

definition thread_step :: "nat \<Rightarrow> phase_mutex \<Rightarrow> phase_mutex option" where
  "thread_step t s =
     (case pm_threads s ! t of
        Idle \<Rightarrow> None
      | Asleep p \<Rightarrow> None
      | Woken p \<Rightarrow> Some (wait_test p t s)
      | Passed p r \<Rightarrow> enter_phase p r t s
      | Inside p r \<Rightarrow> None
      | Leaving p \<Rightarrow> Some (unlock_section p t s)
      | Notifying p \<Rightarrow> Some (set_thread t Idle (notify_all p s))
      | Switching p n \<Rightarrow> Some (relock_section p n t s)
      | Switched p r \<Rightarrow> Some (set_thread t (Passed p r) (notify_all p s)))"

inductive inner_step :: "phase_mutex \<Rightarrow> phase_mutex \<Rightarrow> bool" where
  inner: "t < length (pm_threads s) \<Longrightarrow> thread_step t s = Some s' \<Longrightarrow> inner_step s s'"

text \<open>
  The calls of the clients \<open>phase_lock\<close>, \<open>phase_unlock\<close> and \<open>phase_switch\<close>, which lock outside a phase,
  unlock the phase they hold, and switch from \<open>ctx.phase\<close> to another one. A load that failed is marked
  before its \<open>relock ()\<close>. Condition variables may wake up spuriously.
\<close>

inductive step :: "phase_mutex \<Rightarrow> phase_mutex \<Rightarrow> bool" where
  inner: "inner_step s s' \<Longrightarrow> step s s'"
| lock: "t < length (pm_threads s) \<Longrightarrow> pm_threads s ! t = Idle \<Longrightarrow> step s (lock_section p t s)"
| unlock: "t < length (pm_threads s) \<Longrightarrow> pm_threads s ! t = Inside p r \<Longrightarrow> step s (unlock_enter p t s)"
| relock: "t < length (pm_threads s) \<Longrightarrow> pm_threads s ! t = Inside p r \<Longrightarrow> pm_phase s \<noteq> n \<Longrightarrow>
    step s (relock_enter (pm_phase s) n t s)"
| fail_load: "t < length (pm_threads s) \<Longrightarrow> pm_threads s ! t = Inside Load r \<Longrightarrow> step s (s\<lparr>pm_fail := True\<rparr>)"
| spurious: "t < length (pm_threads s) \<Longrightarrow> pm_threads s ! t = Asleep p \<Longrightarrow> step s (set_thread t (Woken p) s)"

definition reachable :: "phase_mutex \<Rightarrow> bool" where
  "reachable s \<longleftrightarrow> (\<exists>n. step\<^sup>*\<^sup>* (new_phase_mutex n) s)"

end
