(* ===== verification/Step_System.thy ===== *)
theory Step_System
  imports Butl_Prelude
begin

text \<open>
  The contracts of a step relation: an invariant that holds at the start and that every step keeps, and a
  weight that every step of a part of the system brings down, so that this part comes to rest.
\<close>

locale invariant_system =
  fixes start :: "'s \<Rightarrow> bool"
    and step :: "'s \<Rightarrow> 's \<Rightarrow> bool"
    and inv :: "'s \<Rightarrow> bool"
  assumes start_inv: "start s \<Longrightarrow> inv s"
    and step_inv: "inv s \<Longrightarrow> step s s' \<Longrightarrow> inv s'"
begin

lemma steps_inv: "step\<^sup>*\<^sup>* s s' \<Longrightarrow> inv s \<Longrightarrow> inv s'"
  by (induction rule: rtranclp_induct) (auto intro: step_inv)

lemma reach_inv: "start s \<Longrightarrow> step\<^sup>*\<^sup>* s s' \<Longrightarrow> inv s'"
  using steps_inv start_inv by blast

end

locale settling_system = invariant_system +
  fixes inner :: "'s \<Rightarrow> 's \<Rightarrow> bool"
    and weight :: "'s \<Rightarrow> nat"
  assumes inner_step: "inner s s' \<Longrightarrow> step s s'"
    and inner_weight: "inv s \<Longrightarrow> inner s s' \<Longrightarrow> weight s' < weight s"
begin

lemma inner_bound: "(inner ^^ n) s s' \<Longrightarrow> inv s \<Longrightarrow> inv s' \<and> n + weight s' \<le> weight s"
proof (induction n arbitrary: s')
  case (Suc n)
  then obtain u where u: "(inner ^^ n) s u" "inner u s'" by auto
  with Suc have "inv u" "n + weight u \<le> weight s" by auto
  moreover from this u(2) have "inv s'" "weight s' < weight u" using step_inv inner_step inner_weight by blast+
  ultimately show ?case by simp
qed simp

lemma settles: "inv s \<Longrightarrow> \<exists>n s'. n \<le> weight s \<and> (inner ^^ n) s s' \<and> inv s' \<and> (\<nexists>s''. inner s' s'')"
proof (induction "weight s" arbitrary: s rule: less_induct)
  case less
  show ?case
  proof (cases "\<exists>u. inner s u")
    case False
    with less.prems show ?thesis by (intro exI [of _ 0] exI [of _ s]) simp
  next
    case True
    then obtain u where u: "inner s u" by blast
    with less.prems have i: "inv u" "weight u < weight s" using step_inv inner_step inner_weight by blast+
    obtain n s' where n: "n \<le> weight u" "(inner ^^ n) u s'" "inv s'" "\<nexists>s''. inner s' s''"
      using less.hyps [OF i(2,1)] by blast
    have "(inner ^^ Suc n) s s'" using u n(2) by (rule relpowp_Suc_I2)
    with n i(2) show ?thesis by (intro exI [of _ "Suc n"] exI [of _ s']) simp
  qed
qed

end

end
