(* ===== verification/Phase_Mutex_Properties.thy ===== *)
theory Phase_Mutex_Properties
  imports Phase_Mutex Step_System
begin

text \<open>
  The phase mutex keeps the phases apart: the threads in a phase are all in the phase of the context, and at
  most one of them is in the load phase. No wakeup is lost: when nobody is in a phase, the calls in progress
  go on until somebody is. After a failed load nobody is let into another phase as if it had succeeded.
\<close>

section \<open>Counters\<close>

lemma all_phases: "(\<forall>p. P p) \<longleftrightarrow> P Load \<and> P Match \<and> P Execute"
  by (metis run_phase.exhaust)

lemma counter_increment [simp]: "counter (increment p s) q = counter s q + (if p = q then 1 else 0)"
  by (cases p; cases q) (simp_all add: counter_def increment_def)

lemma counter_decrement [simp]: "counter (decrement p s) q = counter s q - (if p = q then 1 else 0)"
  by (cases p; cases q) (simp_all add: counter_def decrement_def)

lemma counter_update [simp]:
  "counter (s\<lparr>pm_phase := q\<rparr>) p = counter s p" "counter (s\<lparr>pm_lm := l\<rparr>) p = counter s p"
  "counter (s\<lparr>pm_fail := f\<rparr>) p = counter s p" "counter (s\<lparr>pm_threads := ths\<rparr>) p = counter s p"
  "counter (set_thread t th s) p = counter s p"
  by (cases p; simp add: counter_def set_thread_def)+

lemma increment_fields [simp]:
  "pm_phase (increment p s) = pm_phase s" "pm_fail (increment p s) = pm_fail s"
  "pm_lm (increment p s) = pm_lm s" "pm_threads (increment p s) = pm_threads s"
  "pm_phase (decrement p s) = pm_phase s" "pm_fail (decrement p s) = pm_fail s"
  "pm_lm (decrement p s) = pm_lm s" "pm_threads (decrement p s) = pm_threads s"
  by (cases p; simp add: increment_def decrement_def)+

lemma set_thread_fields [simp]:
  "pm_phase (set_thread t th s) = pm_phase s" "pm_fail (set_thread t th s) = pm_fail s"
  "pm_lm (set_thread t th s) = pm_lm s" "pm_threads (set_thread t th s) = (pm_threads s)[t := th]"
  by (simp_all add: set_thread_def)

lemma notify_all_fields [simp]:
  "pm_phase (notify_all p s) = pm_phase s" "pm_fail (notify_all p s) = pm_fail s"
  "pm_lm (notify_all p s) = pm_lm s" "pm_threads (notify_all p s) = map (wake p) (pm_threads s)"
  "counter (notify_all p s) q = counter s q"
  by (simp_all add: notify_all_def)

lemma unlocked_counters: "(pm_lc s = 0 \<and> pm_mc s = 0 \<and> pm_ec s = 0) \<longleftrightarrow> (\<forall>p. counter s p = 0)"
  by (simp add: all_phases counter_def)

text \<open>The phase whose counter counts the thread.\<close>

definition occupies :: "thread \<Rightarrow> run_phase \<Rightarrow> bool" where
  "occupies th p \<longleftrightarrow>
     (case th of
        Idle \<Rightarrow> False | Asleep q \<Rightarrow> q = p | Woken q \<Rightarrow> q = p | Passed q r \<Rightarrow> q = p | Inside q r \<Rightarrow> q = p
      | Leaving q \<Rightarrow> q = p | Notifying q \<Rightarrow> False | Switching q n \<Rightarrow> q = p | Switched q r \<Rightarrow> q = p)"

text \<open>The phase that the thread has got.\<close>

definition active :: "thread \<Rightarrow> run_phase \<Rightarrow> bool" where
  "active th p \<longleftrightarrow>
     (case th of
        Passed q r \<Rightarrow> q = p | Inside q r \<Rightarrow> q = p | Leaving q \<Rightarrow> q = p | Switching q n \<Rightarrow> q = p
      | Switched q r \<Rightarrow> q = p | _ \<Rightarrow> False)"

definition announces :: "thread \<Rightarrow> run_phase \<Rightarrow> bool" where
  "announces th p \<longleftrightarrow> (case th of Notifying q \<Rightarrow> q = p | Switched q r \<Rightarrow> q = p | _ \<Rightarrow> False)"

definition let_in :: "thread \<Rightarrow> run_phase \<Rightarrow> bool" where
  "let_in th p \<longleftrightarrow> th = Passed p True \<or> th = Inside p True \<or> th = Switched p True"

lemmas thread_views = occupies_def active_def announces_def let_in_def

definition threads_in :: "run_phase \<Rightarrow> thread list \<Rightarrow> nat" where
  "threads_in p ths = length (filter (\<lambda>th. occupies th p) ths)"

lemma threads_in_update:
  "t < length ths \<Longrightarrow>
     threads_in p (ths[t := th]) + of_bool (occupies (ths ! t) p) = threads_in p ths + of_bool (occupies th p)"
proof (induction ths arbitrary: t)
  case (Cons a ths)
  then show ?case by (cases t) (auto simp: threads_in_def)
qed simp

lemma threads_in_pos: "t < length ths \<Longrightarrow> occupies (ths ! t) p \<Longrightarrow> threads_in p ths \<noteq> 0"
  by (auto simp: threads_in_def filter_empty_conv)

lemma threads_in_zero: "threads_in p ths = 0 \<longleftrightarrow> (\<forall>th \<in> set ths. \<not> occupies th p)"
  by (auto simp: threads_in_def filter_empty_conv)

lemma threads_in_wake [simp]: "threads_in p (map (wake q) ths) = threads_in p ths"
  by (induction ths) (auto simp: threads_in_def wake_def occupies_def)

section \<open>The invariant\<close>

definition counted :: "phase_mutex \<Rightarrow> bool" where
  "counted s \<longleftrightarrow> (\<forall>p. counter s p = threads_in p (pm_threads s))"

definition phase_held :: "phase_mutex \<Rightarrow> bool" where
  "phase_held s \<longleftrightarrow> (\<forall>i < length (pm_threads s). \<forall>p. active (pm_threads s ! i) p \<longrightarrow> pm_phase s = p)"

definition phase_used :: "phase_mutex \<Rightarrow> bool" where
  "phase_used s \<longleftrightarrow> counter s (pm_phase s) = 0 \<longrightarrow> (\<forall>p. counter s p = 0) \<and> pm_phase s = Load"

definition awaited :: "phase_mutex \<Rightarrow> bool" where
  "awaited s \<longleftrightarrow>
     (\<forall>i < length (pm_threads s). pm_threads s ! i = Asleep (pm_phase s) \<longrightarrow>
        (\<exists>j < length (pm_threads s). announces (pm_threads s ! j) (pm_phase s)))"

definition load_owned :: "phase_mutex \<Rightarrow> bool" where
  "load_owned s \<longleftrightarrow>
     (\<forall>t. pm_lm s = Some t \<longleftrightarrow> t < length (pm_threads s) \<and> (\<exists>r. pm_threads s ! t = Inside Load r))"

definition fail_seen :: "phase_mutex \<Rightarrow> bool" where
  "fail_seen s \<longleftrightarrow>
     (pm_fail s \<longrightarrow> (\<forall>i < length (pm_threads s). \<forall>p. let_in (pm_threads s ! i) p \<longrightarrow> p = Load))"

definition mutex_inv :: "phase_mutex \<Rightarrow> bool" where
  "mutex_inv s \<longleftrightarrow> counted s \<and> phase_held s \<and> phase_used s \<and> awaited s \<and> load_owned s \<and> fail_seen s"

lemma mutex_inv_new: "mutex_inv (new_phase_mutex n)"
proof -
  have "threads_in p (replicate n Idle) = 0" for p by (simp add: threads_in_def occupies_def)
  then show ?thesis
    by (auto simp: mutex_inv_def new_phase_mutex_def counted_def phase_held_def phase_used_def awaited_def
        load_owned_def fail_seen_def thread_views counter_def split: run_phase.split)
qed

text \<open>A thread that moves from one state to another, with no other change.\<close>

lemma counted_move:
  assumes "counted s" "t < length (pm_threads s)"
    "\<And>p. counter s' p + of_bool (occupies (pm_threads s ! t) p) = counter s p + of_bool (occupies th p)"
    "pm_threads s' = (pm_threads s)[t := th]"
  shows "counted s'"
  unfolding counted_def
proof
  fix p
  show "counter s' p = threads_in p (pm_threads s')"
    using assms(1) assms(3) [of p] threads_in_update [OF assms(2), of p th] assms(4) by (simp add: counted_def)
qed

lemma counted_pos: "counted s \<Longrightarrow> t < length (pm_threads s) \<Longrightarrow> occupies (pm_threads s ! t) p \<Longrightarrow> counter s p \<noteq> 0"
  by (simp add: counted_def threads_in_pos)

lemma counted_zero: "counted s \<Longrightarrow> counter s p = 0 \<Longrightarrow> i < length (pm_threads s) \<Longrightarrow> \<not> occupies (pm_threads s ! i) p"
  using counted_pos by blast

lemma load_owned_move:
  assumes "load_owned s" "t < length (pm_threads s)" "pm_lm s' = pm_lm s" "pm_threads s' = (pm_threads s)[t := th]"
    "\<forall>r. pm_threads s ! t \<noteq> Inside Load r" "\<forall>r. th \<noteq> Inside Load r"
  shows "load_owned s'"
  using assms by (auto simp: load_owned_def nth_list_update split: if_splits)

text \<open>A move within the phase: the counters follow, and no announcement gets lost.\<close>

lemma inv_move:
  assumes inv: "mutex_inv s" "t < length (pm_threads s)"
    and ths: "pm_threads s' = (pm_threads s)[t := th]"
    and same: "pm_phase s' = pm_phase s" "pm_fail s' = pm_fail s"
    and cnt: "\<And>p. counter s' p + of_bool (occupies (pm_threads s ! t) p) = counter s p + of_bool (occupies th p)"
    and act: "\<And>p. active th p \<Longrightarrow> pm_phase s = p"
    and ann: "announces (pm_threads s ! t) (pm_phase s) \<Longrightarrow> announces th (pm_phase s)" "th \<noteq> Asleep (pm_phase s)"
    and ltn: "\<And>p. let_in th p \<Longrightarrow> pm_fail s \<Longrightarrow> p = Load"
    and rest: "phase_used s'" "load_owned s'"
  shows "mutex_inv s'"
proof -
  have i: "counted s" "phase_held s" "awaited s" "fail_seen s" using inv(1) by (simp_all add: mutex_inv_def)
  have "counted s'" using counted_move [OF i(1) inv(2) cnt ths] .
  moreover have "phase_held s'"
    using i(2) act inv(2) by (auto simp: phase_held_def ths same nth_list_update split: if_splits)
  moreover have "awaited s'"
    unfolding awaited_def ths same
  proof (intro allI impI)
    fix k assume k: "k < length ((pm_threads s)[t := th])" "(pm_threads s)[t := th] ! k = Asleep (pm_phase s)"
    with ann(2) have "k \<noteq> t" by auto
    with k i(3) obtain j where j: "j < length (pm_threads s)" "announces (pm_threads s ! j) (pm_phase s)"
      by (auto simp: awaited_def)
    with ann(1) show "\<exists>j < length ((pm_threads s)[t := th]). announces ((pm_threads s)[t := th] ! j) (pm_phase s)"
      by (intro exI [of _ j]) (use inv(2) in \<open>auto simp: nth_list_update\<close>)
  qed
  moreover have "fail_seen s'"
    using i(4) ltn inv(2) by (auto simp: fail_seen_def ths same nth_list_update split: if_splits)
  ultimately show ?thesis using rest by (simp add: mutex_inv_def)
qed

text \<open>A move into another phase by the only thread that was in a phase.\<close>

lemma inv_switch:
  assumes inv: "mutex_inv s" "t < length (pm_threads s)"
    and ths: "pm_threads s' = (pm_threads s)[t := th]" and same: "pm_fail s' = pm_fail s"
    and cnt: "\<And>p. counter s' p + of_bool (occupies (pm_threads s ! t) p) = counter s p + of_bool (occupies th p)"
    and alone: "\<And>i p. i < length (pm_threads s) \<Longrightarrow> i \<noteq> t \<Longrightarrow> \<not> active (pm_threads s ! i) p"
    and act: "\<And>p. active th p \<Longrightarrow> pm_phase s' = p"
    and ann: "\<And>i. i < length (pm_threads s) \<Longrightarrow> i \<noteq> t \<Longrightarrow> pm_threads s ! i = Asleep (pm_phase s') \<Longrightarrow>
      announces th (pm_phase s')" "th \<noteq> Asleep (pm_phase s')"
    and ltn: "\<And>p. let_in th p \<Longrightarrow> pm_fail s \<Longrightarrow> p = Load"
    and rest: "phase_used s'" "load_owned s'"
  shows "mutex_inv s'"
proof -
  have i: "counted s" "fail_seen s" using inv(1) by (simp_all add: mutex_inv_def)
  have "counted s'" using counted_move [OF i(1) inv(2) cnt ths] .
  moreover have "phase_held s'"
    using act alone inv(2) by (auto simp: phase_held_def ths nth_list_update split: if_splits)
  moreover have "awaited s'"
    unfolding awaited_def ths
  proof (intro allI impI)
    fix k assume k: "k < length ((pm_threads s)[t := th])" "(pm_threads s)[t := th] ! k = Asleep (pm_phase s')"
    with ann(2) have "k \<noteq> t" by auto
    with k have "announces th (pm_phase s')" by (intro ann(1) [of k]) auto
    with inv(2) show "\<exists>j < length ((pm_threads s)[t := th]). announces ((pm_threads s)[t := th] ! j) (pm_phase s')"
      by (intro exI [of _ t]) auto
  qed
  moreover have "fail_seen s'"
    using i(2) ltn inv(2) by (auto simp: fail_seen_def ths same nth_list_update split: if_splits)
  ultimately show ?thesis using rest by (simp add: mutex_inv_def)
qed

section \<open>The steps keep the invariant\<close>

lemma phase_used_same:
  "phase_used s \<Longrightarrow> pm_phase s' = pm_phase s \<Longrightarrow> (\<And>p. counter s' p = counter s p) \<Longrightarrow> phase_used s'"
  by (simp add: phase_used_def)

lemma inv_parts:
  assumes "mutex_inv s"
  shows "counted s" "phase_held s" "phase_used s" "awaited s" "load_owned s" "fail_seen s"
  using assms by (simp_all add: mutex_inv_def)

lemma heldD: "mutex_inv s \<Longrightarrow> t < length (pm_threads s) \<Longrightarrow> active (pm_threads s ! t) p \<Longrightarrow> pm_phase s = p"
  by (auto simp: mutex_inv_def phase_held_def)

lemma failD: "mutex_inv s \<Longrightarrow> pm_fail s \<Longrightarrow> t < length (pm_threads s) \<Longrightarrow> let_in (pm_threads s ! t) p \<Longrightarrow> p = Load"
  by (auto simp: mutex_inv_def fail_seen_def)

lemma wait_test_inv:
  assumes "mutex_inv s" "t < length (pm_threads s)" "pm_threads s ! t = Woken p"
  shows "mutex_inv (wait_test p t s)"
proof (cases "pm_phase s = p")
  case True
  show ?thesis
  proof (rule inv_move [OF assms(1,2), where th = "Passed p (\<not> pm_fail s)"])
    show "phase_used (wait_test p t s)"
      using inv_parts(3) [OF assms(1)] by (rule phase_used_same) (simp_all add: wait_test_def)
    show "load_owned (wait_test p t s)"
      using inv_parts(5) [OF assms(1)] assms(2)
      by (rule load_owned_move [where t = t]) (auto simp: wait_test_def assms(3) True)
  qed (use True in \<open>auto simp: wait_test_def assms(3) thread_views\<close>)
next
  case False
  show ?thesis
  proof (rule inv_move [OF assms(1,2), where th = "Asleep p"])
    show "phase_used (wait_test p t s)"
      using inv_parts(3) [OF assms(1)] by (rule phase_used_same) (simp_all add: wait_test_def)
    show "load_owned (wait_test p t s)"
      using inv_parts(5) [OF assms(1)] assms(2)
      by (rule load_owned_move [where t = t]) (auto simp: wait_test_def assms(3) False)
  qed (use False in \<open>auto simp: wait_test_def assms(3) thread_views\<close>)
qed

lemma spurious_inv:
  assumes "mutex_inv s" "t < length (pm_threads s)" "pm_threads s ! t = Asleep p"
  shows "mutex_inv (set_thread t (Woken p) s)"
proof (rule inv_move [OF assms(1,2), where th = "Woken p"])
  show "phase_used (set_thread t (Woken p) s)"
    using inv_parts(3) [OF assms(1)] by (rule phase_used_same) simp_all
  show "load_owned (set_thread t (Woken p) s)"
    using inv_parts(5) [OF assms(1)] assms(2) by (rule load_owned_move [where t = t]) (auto simp: assms(3))
qed (auto simp: assms(3) thread_views)

lemma enter_phase_inv:
  assumes inv: "mutex_inv s" "t < length (pm_threads s)" and th: "pm_threads s ! t = Passed p r"
    and e: "enter_phase p r t s = Some s'"
  shows "mutex_inv s'"
proof -
  have p: "pm_phase s = p" using heldD [OF inv, of p] th by (simp add: active_def)
  let ?th = "Inside p (if p = Load then \<not> pm_fail s else r)"
  have s': "s' = set_thread t ?th (if p = Load then s\<lparr>pm_lm := Some t\<rparr> else s)" and l: "p = Load \<Longrightarrow> pm_lm s = None"
    using e by (auto simp: enter_phase_def split: if_splits)
  show ?thesis
  proof (rule inv_move [OF inv, where th = ?th])
    show "phase_used s'" using inv_parts(3) [OF inv(1)] by (rule phase_used_same) (simp_all add: s')
    show "load_owned s'"
    proof (cases "p = Load")
      case True
      have "\<not> (u < length (pm_threads s) \<and> (\<exists>r. pm_threads s ! u = Inside Load r))" for u
        using spec [OF inv_parts(5) [OF inv(1), unfolded load_owned_def], of u] l [OF True] by simp
      with inv(2) True show ?thesis by (auto simp: load_owned_def s' nth_list_update split: if_splits)
    next
      case False
      show ?thesis
        by (rule load_owned_move [OF inv_parts(5) [OF inv(1)] inv(2)]) (auto simp: s' th False)
    qed
  qed (use failD [OF inv(1) _ inv(2), of p] p in \<open>auto simp: s' th thread_views split: if_splits\<close>)
qed

lemma active_occupies: "active th p \<Longrightarrow> occupies th p"
  by (auto simp: active_def occupies_def split: thread.splits)

lemma let_in_active: "let_in th p \<Longrightarrow> active th p"
  by (auto simp: active_def let_in_def)

lemma load_owned_release:
  assumes "load_owned s" "t < length (pm_threads s)" "pm_threads s ! t = Inside Load r" "\<forall>r. th \<noteq> Inside Load r"
  shows "load_owned (set_thread t th (s\<lparr>pm_lm := None\<rparr>))"
proof -
  have u: "u = t" if "u < length (pm_threads s)" "pm_threads s ! u = Inside Load r'" for u r'
  proof -
    have "pm_lm s = Some u" "pm_lm s = Some t" using assms that unfolding load_owned_def by blast+
    then show ?thesis by simp
  qed
  show ?thesis
    using assms(2,4) u by (auto simp: load_owned_def nth_list_update split: if_splits)
qed

lemma leave_load_owned:
  assumes inv: "mutex_inv s" "t < length (pm_threads s)" and th: "pm_threads s ! t = Inside p r"
    and n: "\<forall>r. th \<noteq> Inside Load r"
  shows "load_owned (set_thread t th (if p = Load then s\<lparr>pm_lm := None\<rparr> else s))"
proof (cases "p = Load")
  case True
  with load_owned_release [OF inv_parts(5) [OF inv(1)] inv(2) _ n] th show ?thesis by simp
next
  case False
  with load_owned_move [OF inv_parts(5) [OF inv(1)] inv(2), where th = th] th n show ?thesis by simp
qed

lemma unlock_enter_inv:
  assumes inv: "mutex_inv s" "t < length (pm_threads s)" and th: "pm_threads s ! t = Inside p r"
  shows "mutex_inv (unlock_enter p t s)"
proof -
  have p: "pm_phase s = p" using heldD [OF inv, of p] th by (simp add: active_def)
  show ?thesis
  proof (rule inv_move [OF inv, where th = "Leaving p"])
    show "phase_used (unlock_enter p t s)"
      using inv_parts(3) [OF inv(1)] by (rule phase_used_same) (simp_all add: unlock_enter_def)
    show "load_owned (unlock_enter p t s)"
      unfolding unlock_enter_def by (rule leave_load_owned [OF inv th]) simp
  qed (auto simp: unlock_enter_def th thread_views p)
qed

lemma relock_enter_inv:
  assumes inv: "mutex_inv s" "t < length (pm_threads s)" and th: "pm_threads s ! t = Inside p r"
  shows "mutex_inv (relock_enter (pm_phase s) n t s)"
proof -
  have p: "pm_phase s = p" using heldD [OF inv, of p] th by (simp add: active_def)
  show ?thesis unfolding p
  proof (rule inv_move [OF inv, where th = "Switching p n"])
    show "phase_used (relock_enter p n t s)"
      using inv_parts(3) [OF inv(1)] by (rule phase_used_same) (simp_all add: relock_enter_def)
    show "load_owned (relock_enter p n t s)"
      unfolding relock_enter_def by (rule leave_load_owned [OF inv th]) simp
  qed (auto simp: relock_enter_def th thread_views p)
qed

lemma fail_load_inv:
  assumes inv: "mutex_inv s" "t < length (pm_threads s)" and th: "pm_threads s ! t = Inside Load r"
  shows "mutex_inv (s\<lparr>pm_fail := True\<rparr>)"
proof -
  have p: "pm_phase s = Load" using heldD [OF inv, of Load] th by (simp add: active_def)
  have "fail_seen (s\<lparr>pm_fail := True\<rparr>)"
    using inv_parts(2) [OF inv(1)] p by (auto simp: fail_seen_def phase_held_def dest!: let_in_active)
  with inv_parts [OF inv(1)] show ?thesis
    by (simp add: mutex_inv_def counted_def phase_held_def phase_used_def awaited_def load_owned_def)
qed

lemma wake_simps [simp]:
  "active (wake q th) p = active th p" "announces (wake q th) p = announces th p"
  "let_in (wake q th) p = let_in th p" "wake q th = Inside p r \<longleftrightarrow> th = Inside p r"
  "wake q th = Asleep p \<longleftrightarrow> th = Asleep p \<and> p \<noteq> q"
  by (auto simp: wake_def thread_views)

lemma notify_inv:
  assumes inv: "mutex_inv s" "t < length (pm_threads s)"
    and ann: "\<And>q. announces (pm_threads s ! t) q \<longleftrightarrow> q = p"
    and occ: "\<And>q. occupies th q = occupies (pm_threads s ! t) q"
    and act: "\<And>q. active th q \<Longrightarrow> active (pm_threads s ! t) q" "\<And>q. let_in th q \<Longrightarrow> let_in (pm_threads s ! t) q"
    and th: "\<And>q. th \<noteq> Asleep q" "\<forall>r. th \<noteq> Inside Load r" "\<forall>r. pm_threads s ! t \<noteq> Inside Load r"
  shows "mutex_inv (set_thread t th (notify_all p s))"
proof -
  let ?ths = "(map (wake p) (pm_threads s))[t := th]" and ?s = "set_thread t th (notify_all p s)"
  note i = inv_parts [OF inv(1)]
  have f: "pm_threads ?s = ?ths" "pm_phase ?s = pm_phase s" "pm_fail ?s = pm_fail s" "pm_lm ?s = pm_lm s"
    "\<And>q. counter ?s q = counter s q" by simp_all
  have "threads_in q ?ths = threads_in q (pm_threads s)" for q
  proof -
    have "occupies (map (wake p) (pm_threads s) ! t) q = occupies (pm_threads s ! t) q"
      using inv(2) by (auto simp: wake_def occupies_def)
    with threads_in_update [of t "map (wake p) (pm_threads s)" q th] inv(2) occ [of q] show ?thesis by simp
  qed
  then have "counted ?s" using i(1) by (simp add: counted_def f)
  moreover have "phase_held ?s"
    using i(2) inv(2) act by (auto simp: phase_held_def f nth_list_update split: if_splits)
  moreover have "phase_used ?s" using i(3) by (rule phase_used_same) (simp_all add: f)
  moreover have "awaited ?s"
    unfolding awaited_def f
  proof (intro allI impI)
    fix k assume k: "k < length ?ths" "?ths ! k = Asleep (pm_phase s)"
    with th(1) have "k \<noteq> t" by auto
    with k have k': "pm_threads s ! k = Asleep (pm_phase s)" "pm_phase s \<noteq> p" by auto
    with i(4) k(1) obtain j where j: "j < length (pm_threads s)" "announces (pm_threads s ! j) (pm_phase s)"
      by (auto simp: awaited_def)
    with ann k'(2) have "j \<noteq> t" by auto
    with j show "\<exists>j < length ?ths. announces (?ths ! j) (pm_phase s)" by (intro exI [of _ j]) auto
  qed
  moreover have "load_owned ?s"
    using i(5) inv(2) th(2,3) by (auto simp: load_owned_def f nth_list_update split: if_splits)
  moreover have "fail_seen ?s"
    using i(6) inv(2) act by (auto simp: fail_seen_def f nth_list_update split: if_splits)
  ultimately show ?thesis by (simp add: mutex_inv_def)
qed

lemma only_occupant:
  assumes "mutex_inv s" "t < length (pm_threads s)" "occupies (pm_threads s ! t) (pm_phase s)"
    "counter s (pm_phase s) = 1" "i < length (pm_threads s)" "i \<noteq> t"
  shows "\<not> active (pm_threads s ! i) p"
proof
  assume a: "active (pm_threads s ! i) p"
  have "pm_phase s = p" using heldD [OF assms(1,5) a] .
  with active_occupies [OF a] have o: "occupies ((pm_threads s)[t := Idle] ! i) (pm_phase s)" using assms(6) by simp
  have "threads_in (pm_phase s) ((pm_threads s)[t := Idle]) = 0"
    using threads_in_update [OF assms(2), of "pm_phase s" Idle] inv_parts(1) [OF assms(1)] assms(3,4)
    by (simp add: counted_def occupies_def)
  with threads_in_pos [OF _ o] assms(5) show False by simp
qed

lemma lock_section_inv:
  assumes inv: "mutex_inv s" "t < length (pm_threads s)" and th: "pm_threads s ! t = Idle"
  shows "mutex_inv (lock_section p t s)"
proof -
  note i = inv_parts [OF inv(1)]
  consider (unlocked) "\<forall>q. counter s q = 0" | (other) "\<not> (\<forall>q. counter s q = 0)" "pm_phase s \<noteq> p"
    | (same) "\<not> (\<forall>q. counter s q = 0)" "pm_phase s = p" by blast
  then show ?thesis
  proof cases
    case unlocked
    then have s': "lock_section p t s = set_thread t (Passed p (\<not> pm_fail s)) (increment p s\<lparr>pm_phase := p\<rparr>)"
      by (simp add: lock_section_def unlocked_counters)
    have z: "\<not> occupies (pm_threads s ! k) q" if "k < length (pm_threads s)" for k q
      using counted_zero [OF i(1) _ that] unlocked by simp
    show ?thesis
    proof (rule inv_switch [OF inv, where th = "Passed p (\<not> pm_fail s)"])
      show "\<not> active (pm_threads s ! k) q" if "k < length (pm_threads s)" for k q
        using z [OF that] active_occupies by blast
      show "announces (Passed p (\<not> pm_fail s)) (pm_phase (lock_section p t s))"
        if "k < length (pm_threads s)" "pm_threads s ! k = Asleep (pm_phase (lock_section p t s))" for k
        using z [OF that(1), of "pm_phase (lock_section p t s)"] that(2) by (simp add: occupies_def)
      show "load_owned (lock_section p t s)"
        by (rule load_owned_move [OF i(5) inv(2), where th = "Passed p (\<not> pm_fail s)"]) (simp_all add: s' th)
    qed (auto simp: s' th thread_views phase_used_def)
  next
    case other
    have u: "(pm_lc s = 0 \<and> pm_mc s = 0 \<and> pm_ec s = 0) = False" using other(1) unfolding unlocked_counters by blast
    have s': "lock_section p t s = set_thread t (Asleep p) (increment p s)"
      using other(2) by (simp add: lock_section_def Let_def u)
    show ?thesis
    proof (rule inv_move [OF inv, where th = "Asleep p"])
      show "load_owned (lock_section p t s)"
        by (rule load_owned_move [OF i(5) inv(2), where th = "Asleep p"]) (simp_all add: s' th)
      show "phase_used (lock_section p t s)"
        using other i(3) by (auto simp: s' phase_used_def)
    qed (use other in \<open>auto simp: s' th thread_views\<close>)
  next
    case same
    have u: "(pm_lc s = 0 \<and> pm_mc s = 0 \<and> pm_ec s = 0) = False" using same(1) unfolding unlocked_counters by blast
    have s': "lock_section p t s = set_thread t (Passed p (\<not> pm_fail s)) (increment p s)"
      using same(2) by (simp add: lock_section_def Let_def u)
    show ?thesis
    proof (rule inv_move [OF inv, where th = "Passed p (\<not> pm_fail s)"])
      show "load_owned (lock_section p t s)"
        by (rule load_owned_move [OF i(5) inv(2), where th = "Passed p (\<not> pm_fail s)"]) (simp_all add: s' th)
      show "phase_used (lock_section p t s)"
        using same by (auto simp: s' phase_used_def)
    qed (use same in \<open>auto simp: s' th thread_views\<close>)
  qed
qed

text \<open>The last thread of the phase leaves it: the new phase is the one of the waiters that are notified.\<close>

lemma pick_phase_cases:
  obtains (waiters) q where "pick_phase s = (q, Some q)" "counter s q \<noteq> 0"
    | (nobody) "pick_phase s = (Load, None)" "\<forall>q. counter s q = 0"
  unfolding pick_phase_def by (cases "pm_lc s = 0"; cases "pm_mc s = 0"; cases "pm_ec s = 0")
    (auto simp: all_phases counter_def)

lemma decrement_counts:
  assumes "counted s" "t < length (pm_threads s)" "\<And>q. occupies (pm_threads s ! t) q \<longleftrightarrow> q = p"
  shows "counter (decrement p s) q = threads_in q ((pm_threads s)[t := Idle])"
  using threads_in_update [OF assms(2), of q Idle] assms(1,3) by (auto simp: counted_def occupies_def)

lemma decrement_zero:
  assumes "counted s" "t < length (pm_threads s)" "\<And>q. occupies (pm_threads s ! t) q \<longleftrightarrow> q = p"
    "counter (decrement p s) q = 0" "k < length (pm_threads s)" "k \<noteq> t"
  shows "\<not> occupies (pm_threads s ! k) q"
  using threads_in_pos [of k "(pm_threads s)[t := Idle]" q] decrement_counts [OF assms(1-3), of q] assms(4-6) by auto

lemma unlock_section_inv:
  assumes inv: "mutex_inv s" "t < length (pm_threads s)" and th: "pm_threads s ! t = Leaving p"
  shows "mutex_inv (unlock_section p t s)"
proof -
  note i = inv_parts [OF inv(1)]
  have p: "pm_phase s = p" using heldD [OF inv, of p] th by (simp add: active_def)
  have o: "occupies (pm_threads s ! t) p" by (simp add: th occupies_def)
  have c: "counter s p \<noteq> 0" using counted_pos [OF i(1) inv(2) o] .
  show ?thesis
  proof (cases "counter s p = 1")
    case False
    then have s': "unlock_section p t s = set_thread t Idle (decrement p s)"
      using c by (simp add: unlock_section_def)
    show ?thesis
    proof (rule inv_move [OF inv, where th = Idle])
      show "load_owned (unlock_section p t s)"
        by (rule load_owned_move [OF i(5) inv(2), where th = Idle]) (simp_all add: s' th)
    qed (use c False p in \<open>auto simp: s' th thread_views phase_used_def\<close>)
  next
    case True
    have alone: "\<not> active (pm_threads s ! k) q" if "k < length (pm_threads s)" "k \<noteq> t" for k q
      using only_occupant [OF inv _ _ that] o p True by simp
    show ?thesis
    proof (cases rule: pick_phase_cases [of "decrement p s"])
      case (waiters q)
      with True have s': "unlock_section p t s = set_thread t (Notifying q) (decrement p s\<lparr>pm_phase := q\<rparr>)"
        by (simp add: unlock_section_def)
      show ?thesis
      proof (rule inv_switch [OF inv, where th = "Notifying q"])
        show "load_owned (unlock_section p t s)"
          by (rule load_owned_move [OF i(5) inv(2), where th = "Notifying q"]) (simp_all add: s' th)
        show "phase_used (unlock_section p t s)" using waiters(2) by (auto simp: s' phase_used_def)
      qed (use c alone in \<open>auto simp: s' th thread_views\<close>)
    next
      case nobody
      with True have s': "unlock_section p t s = set_thread t Idle (decrement p s\<lparr>pm_phase := Load\<rparr>)"
        by (simp add: unlock_section_def)
      show ?thesis
      proof (rule inv_switch [OF inv, where th = Idle])
        show "announces Idle (pm_phase (unlock_section p t s))"
          if "k < length (pm_threads s)" "k \<noteq> t" "pm_threads s ! k = Asleep (pm_phase (unlock_section p t s))" for k
          using decrement_zero [OF i(1) inv(2) _ spec [OF nobody(2), of Load] that(1,2)] that(3) th
          by (simp add: s' occupies_def eq_commute)
        show "load_owned (unlock_section p t s)"
          by (rule load_owned_move [OF i(5) inv(2), where th = Idle]) (simp_all add: s' th)
        show "phase_used (unlock_section p t s)" using nobody(2) by (auto simp: s' phase_used_def)
      qed (use c alone in \<open>auto simp: s' th thread_views\<close>)
    qed
  qed
qed

lemma relock_section_inv:
  assumes inv: "mutex_inv s" "t < length (pm_threads s)" and th: "pm_threads s ! t = Switching p n"
  shows "mutex_inv (relock_section p n t s)"
proof -
  note i = inv_parts [OF inv(1)]
  have p: "pm_phase s = p" using heldD [OF inv, of p] th by (simp add: active_def)
  have o: "occupies (pm_threads s ! t) q \<longleftrightarrow> q = p" for q by (auto simp: th occupies_def)
  have c: "counter s p \<noteq> 0" using counted_pos [OF i(1) inv(2)] o by simp
  show ?thesis
  proof (cases "counter s p = 1")
    case True
    define v where "v \<longleftrightarrow> counter (decrement p s) n \<noteq> 0"
    let ?th = "if v then Switched n (\<not> pm_fail s) else Passed n (\<not> pm_fail s)"
    have s': "relock_section p n t s = set_thread t ?th (increment n (decrement p s)\<lparr>pm_phase := n\<rparr>)"
      using True unfolding relock_section_def Let_def v_def by simp
    show ?thesis
    proof (rule inv_switch [OF inv, where th = ?th])
      show "\<not> active (pm_threads s ! k) q" if "k < length (pm_threads s)" "k \<noteq> t" for k q
        using only_occupant [OF inv _ _ that] o p True by simp
      show "announces ?th (pm_phase (relock_section p n t s))"
        if "k < length (pm_threads s)" "k \<noteq> t" "pm_threads s ! k = Asleep (pm_phase (relock_section p n t s))" for k
      proof -
        have "v" using decrement_zero [OF i(1) inv(2) o _ that(1,2), of n] that(3)
          by (auto simp: s' v_def occupies_def simp del: counter_decrement)
        then show ?thesis by (simp add: s' announces_def)
      qed
      show "load_owned (relock_section p n t s)"
        by (rule load_owned_move [OF i(5) inv(2), where th = ?th]) (simp_all add: s' th)
    qed (use c in \<open>auto simp: s' th thread_views phase_used_def split: if_splits\<close>)
  next
    case False
    let ?th = "if p = n then Passed n (\<not> pm_fail s) else Asleep n"
    have s': "relock_section p n t s = set_thread t ?th (increment n (decrement p s))"
      using False c p by (auto simp: relock_section_def wait_test_def)
    show ?thesis
    proof (rule inv_move [OF inv, where th = ?th])
      show "load_owned (relock_section p n t s)"
        by (rule load_owned_move [OF i(5) inv(2), where th = ?th]) (simp_all add: s' th)
    qed (use c False p in \<open>auto simp: s' th thread_views phase_used_def split: if_splits\<close>)
  qed
qed

lemma inner_step_inv:
  assumes "mutex_inv s" "inner_step s s'"
  shows "mutex_inv s'"
proof -
  obtain t where inner: "mutex_inv s" "t < length (pm_threads s)" "thread_step t s = Some s'"
    using assms by (auto elim: inner_step.cases)
  show ?thesis
  proof (cases "pm_threads s ! t")
    case (Woken p)
    with inner wait_test_inv [of s t p] show ?thesis by (simp add: thread_step_def)
  next
    case (Passed p r)
    with inner enter_phase_inv [of s t p r s'] show ?thesis by (simp add: thread_step_def)
  next
    case (Leaving p)
    with inner unlock_section_inv [of s t p] show ?thesis by (simp add: thread_step_def)
  next
    case (Notifying p)
    with inner notify_inv [of s t p Idle] show ?thesis by (auto simp: thread_step_def thread_views)
  next
    case (Switching p n)
    with inner relock_section_inv [of s t p n] show ?thesis by (simp add: thread_step_def)
  next
    case (Switched p r)
    with inner notify_inv [of s t p "Passed p r"] show ?thesis by (auto simp: thread_step_def thread_views)
  qed (use inner in \<open>auto simp: thread_step_def\<close>)
qed

lemma step_inv: "mutex_inv s \<Longrightarrow> step s s' \<Longrightarrow> mutex_inv s'"
  by (erule step.cases)
    (auto intro: inner_step_inv lock_section_inv unlock_enter_inv relock_enter_inv fail_load_inv spurious_inv)

section \<open>Coming to rest\<close>

fun thread_weight :: "nat \<Rightarrow> thread \<Rightarrow> nat" where
  "thread_weight n (Woken p) = 2"
| "thread_weight n (Passed p r) = 1"
| "thread_weight n (Notifying p) = 2 * n + 1"
| "thread_weight n (Leaving p) = 2 * n + 2"
| "thread_weight n (Switched p r) = 2 * n + 2"
| "thread_weight n (Switching p q) = 2 * n + 3"
| "thread_weight n th = 0"

definition weight_of :: "nat \<Rightarrow> thread list \<Rightarrow> nat" where
  "weight_of n ths = sum_list (map (thread_weight n) ths)"

definition mutex_weight :: "phase_mutex \<Rightarrow> nat" where
  "mutex_weight s = weight_of (length (pm_threads s)) (pm_threads s)"

lemma weight_of_update:
  "t < length ths \<Longrightarrow> weight_of n (ths[t := th]) + thread_weight n (ths ! t) = weight_of n ths + thread_weight n th"
proof (induction ths arbitrary: t)
  case (Cons a ths)
  then show ?case by (cases t) (auto simp: weight_of_def)
qed simp

lemma weight_of_wake: "weight_of n (map (wake p) ths) \<le> weight_of n ths + 2 * length ths"
  by (induction ths) (auto simp: weight_of_def wake_def)

lemma weight_of_bound: "weight_of n ths \<le> (2 * n + 3) * length ths"
proof (induction ths)
  case (Cons th ths)
  moreover have "thread_weight n th \<le> 2 * n + 3" by (cases th) auto
  ultimately show ?case by (simp add: weight_of_def)
qed (simp add: weight_of_def)

lemma weight_move:
  assumes "t < length (pm_threads s)" "pm_threads s' = (pm_threads s)[t := th]"
    "thread_weight (length (pm_threads s)) th < thread_weight (length (pm_threads s)) (pm_threads s ! t)"
  shows "mutex_weight s' < mutex_weight s"
  using weight_of_update [OF assms(1), of "length (pm_threads s)" th] assms(2,3) by (simp add: mutex_weight_def)

lemma weight_notify:
  assumes "t < length (pm_threads s)"
    "thread_weight (length (pm_threads s)) th + 2 * length (pm_threads s) <
       thread_weight (length (pm_threads s)) (pm_threads s ! t)" "wake p (pm_threads s ! t) = pm_threads s ! t"
  shows "mutex_weight (set_thread t th (notify_all p s)) < mutex_weight s"
  using weight_of_update [of t "map (wake p) (pm_threads s)" "length (pm_threads s)" th] assms
    weight_of_wake [of "length (pm_threads s)" p "pm_threads s"] by (simp add: mutex_weight_def)

lemma thread_step_weight:
  assumes "t < length (pm_threads s)" "thread_step t s = Some s'"
  shows "mutex_weight s' < mutex_weight s"
proof (cases "pm_threads s ! t")
  case (Woken p)
  with assms show ?thesis
    by (intro weight_move [OF assms(1), where th = "if pm_phase s \<noteq> p then Asleep p else Passed p (\<not> pm_fail s)"])
      (auto simp: thread_step_def wait_test_def)
next
  case (Passed p r)
  with assms show ?thesis
    by (intro weight_move [OF assms(1), where th = "Inside p (if p = Load then \<not> pm_fail s else r)"])
      (auto simp: thread_step_def enter_phase_def split: if_splits)
next
  case (Leaving p)
  with assms show ?thesis
    by (intro weight_move [OF assms(1), where th = "pm_threads s' ! t"])
      (auto simp: thread_step_def unlock_section_def Let_def split: prod.splits option.splits if_splits)
next
  case (Notifying p)
  with assms weight_notify [OF assms(1), of Idle p] show ?thesis by (auto simp: thread_step_def wake_def)
next
  case (Switching p n)
  with assms show ?thesis
    by (intro weight_move [OF assms(1), where th = "pm_threads s' ! t"])
      (auto simp: thread_step_def relock_section_def wait_test_def Let_def split: if_splits)
next
  case (Switched p r)
  with assms weight_notify [OF assms(1), of "Passed p r" p] show ?thesis by (auto simp: thread_step_def wake_def)
qed (use assms in \<open>auto simp: thread_step_def\<close>)

lemma inner_step_weight: "inner_step s s' \<Longrightarrow> mutex_weight s' < mutex_weight s"
  by (auto elim!: inner_step.cases intro: thread_step_weight)

interpretation pm: settling_system "\<lambda>s. \<exists>n. s = new_phase_mutex n" step mutex_inv inner_step mutex_weight
  by unfold_locales (auto intro: mutex_inv_new step_inv step.inner inner_step_weight)

lemma reachable_inv: "reachable s \<Longrightarrow> mutex_inv s"
  using pm.reach_inv by (auto simp: reachable_def)

text \<open>What the threads do when no call in progress can go on.\<close>

definition at_rest :: "phase_mutex \<Rightarrow> thread \<Rightarrow> bool" where
  "at_rest s th \<longleftrightarrow>
     (case th of
        Idle \<Rightarrow> True
      | Inside p r \<Rightarrow> pm_phase s = p
      | Asleep p \<Rightarrow> pm_phase s \<noteq> p
      | Passed p r \<Rightarrow> p = Load \<and> pm_lm s \<noteq> None
      | _ \<Rightarrow> False)"

lemma rest_threads:
  assumes inv: "mutex_inv s" and stop: "\<nexists>s'. inner_step s s'" and t: "t < length (pm_threads s)"
  shows "at_rest s (pm_threads s ! t)"
proof -
  have n: "thread_step k s = None" if "k < length (pm_threads s)" for k
    using stop that inner_step.inner by (cases "thread_step k s") auto
  have quiet: "\<not> announces (pm_threads s ! k) p" if "k < length (pm_threads s)" for k p
    using n [OF that] by (cases "pm_threads s ! k") (auto simp: thread_step_def announces_def)
  show ?thesis
  proof (cases "pm_threads s ! t")
    case (Asleep p)
    with quiet t inv_parts(4) [OF inv] show ?thesis by (auto simp: at_rest_def awaited_def)
  next
    case (Inside p r)
    with heldD [OF inv t, of p] show ?thesis by (simp add: at_rest_def active_def)
  qed (use n [OF t] in \<open>auto simp: at_rest_def thread_step_def enter_phase_def split: if_splits\<close>)
qed

lemma rest_inside:
  assumes inv: "mutex_inv s" and stop: "\<nexists>s'. inner_step s s'"
    and t: "t < length (pm_threads s)" "pm_threads s ! t \<noteq> Idle"
  shows "\<exists>th \<in> set (pm_threads s). \<exists>r. th = Inside (pm_phase s) r"
proof -
  note i = inv_parts [OF inv]
  have load: "\<exists>th \<in> set (pm_threads s). \<exists>r. th = Inside (pm_phase s) r" if l: "pm_lm s \<noteq> None"
  proof -
    obtain u r where u: "u < length (pm_threads s)" "pm_threads s ! u = Inside Load r"
      using i(5) l by (auto simp: load_owned_def)
    with heldD [OF inv u(1), of Load] have "pm_threads s ! u = Inside (pm_phase s) r" by (simp add: active_def)
    with nth_mem [OF u(1)] show ?thesis by metis
  qed
  have occ: "occupies (pm_threads s ! t) p \<Longrightarrow> counter s (pm_phase s) \<noteq> 0" for p
    using counted_pos [OF i(1) t(1)] i(3) by (auto simp: phase_used_def)
  have "counter s (pm_phase s) \<noteq> 0"
    using rest_threads [OF inv stop t(1)] t(2) occ by (cases "pm_threads s ! t") (auto simp: at_rest_def occupies_def)
  then obtain th where th: "th \<in> set (pm_threads s)" "occupies th (pm_phase s)"
    using i(1) threads_in_zero [of "pm_phase s" "pm_threads s"] unfolding counted_def by auto
  then have "at_rest s th" using rest_threads [OF inv stop] by (auto simp: in_set_conv_nth)
  with th(2) have "(\<exists>r. th = Inside (pm_phase s) r) \<or> pm_lm s \<noteq> None"
    by (cases th) (auto simp: at_rest_def occupies_def)
  with th(1) load show ?thesis by blast
qed

section \<open>What the mutex guarantees\<close>

text \<open>
  C2: Whatever the threads do, the threads that \<open>lock ()\<close> or \<open>relock ()\<close> let into a phase are all in the
  same phase, the one of the context, and at most one of them is in the load phase.
\<close>

theorem phase_exclusion:
  assumes "reachable s" "i < length (pm_threads s)" "j < length (pm_threads s)"
    "pm_threads s ! i = Inside p r" "pm_threads s ! j = Inside q r'"
  shows "p = pm_phase s \<and> q = pm_phase s \<and> (p = Load \<longrightarrow> i = j)"
proof -
  have inv: "mutex_inv s" using assms(1) by (rule reachable_inv)
  have p: "pm_phase s = p" "pm_phase s = q"
    using heldD [OF inv assms(2), of p] heldD [OF inv assms(3), of q] assms(4,5) by (simp_all add: active_def)
  moreover have "i = j" if "p = Load"
  proof -
    have "pm_lm s = Some i" "pm_lm s = Some j"
      using inv_parts(5) [OF inv] assms(2-5) p that by (auto simp: load_owned_def)
    then show ?thesis by simp
  qed
  ultimately show ?thesis by simp
qed

lemma step_reachable: "reachable s \<Longrightarrow> step s s' \<Longrightarrow> reachable s'"
  unfolding reachable_def by (blast intro: rtranclp.rtrancl_into_rtrancl)

lemma new_reachable: "reachable (new_phase_mutex n)"
  unfolding reachable_def by blast

lemma thread_step_reachable:
  "reachable s \<Longrightarrow> t < length (pm_threads s) \<Longrightarrow> thread_step t s = Some s' \<Longrightarrow> reachable s'"
  by (rule step_reachable [OF _ step.inner [OF inner_step.inner]])

text \<open>Two threads in the match phase, and a failed load with another thread that waits.\<close>

lemma two_in_match: "reachable \<lparr>pm_phase = Match, pm_fail = False, pm_lc = 0, pm_mc = 2, pm_ec = 0, pm_lm = None,
    pm_threads = [Inside Match True, Inside Match True]\<rparr>"
proof -
  have e: "lock_section Match 0 (new_phase_mutex 2) =
      \<lparr>pm_phase = Match, pm_fail = False, pm_lc = 0, pm_mc = 1, pm_ec = 0, pm_lm = None, pm_threads = [Passed Match True, Idle]\<rparr>"
    "thread_step 0 \<lparr>pm_phase = Match, pm_fail = False, pm_lc = 0, pm_mc = 1, pm_ec = 0, pm_lm = None, pm_threads = [Passed Match True, Idle]\<rparr> = Some
      \<lparr>pm_phase = Match, pm_fail = False, pm_lc = 0, pm_mc = 1, pm_ec = 0, pm_lm = None, pm_threads = [Inside Match True, Idle]\<rparr>"
    "lock_section Match 1 \<lparr>pm_phase = Match, pm_fail = False, pm_lc = 0, pm_mc = 1, pm_ec = 0, pm_lm = None, pm_threads = [Inside Match True, Idle]\<rparr> =
      \<lparr>pm_phase = Match, pm_fail = False, pm_lc = 0, pm_mc = 2, pm_ec = 0, pm_lm = None, pm_threads = [Inside Match True, Passed Match True]\<rparr>"
    "thread_step 1 \<lparr>pm_phase = Match, pm_fail = False, pm_lc = 0, pm_mc = 2, pm_ec = 0, pm_lm = None, pm_threads = [Inside Match True, Passed Match True]\<rparr> = Some
      \<lparr>pm_phase = Match, pm_fail = False, pm_lc = 0, pm_mc = 2, pm_ec = 0, pm_lm = None, pm_threads = [Inside Match True, Inside Match True]\<rparr>"
    by code_simp+
  have "reachable (lock_section Match 0 (new_phase_mutex 2))"
    by (rule step_reachable [OF new_reachable step.lock]) (simp_all add: new_phase_mutex_def)
  from thread_step_reachable [OF this [unfolded e(1)] _ e(2)]
  have "reachable (lock_section Match 1 \<lparr>pm_phase = Match, pm_fail = False, pm_lc = 0, pm_mc = 1, pm_ec = 0, pm_lm = None, pm_threads = [Inside Match True, Idle]\<rparr>)"
    by (intro step_reachable [OF _ step.lock]) simp_all
  from thread_step_reachable [OF this [unfolded e(3)] _ e(4)] show ?thesis by simp
qed

lemma failed_load: "reachable \<lparr>pm_phase = Load, pm_fail = True, pm_lc = 2, pm_mc = 0, pm_ec = 0, pm_lm = None, pm_threads = [Leaving Load, Passed Load True]\<rparr>"
proof -
  have e: "lock_section Load 0 (new_phase_mutex 2) =
      \<lparr>pm_phase = Load, pm_fail = False, pm_lc = 1, pm_mc = 0, pm_ec = 0, pm_lm = None, pm_threads = [Passed Load True, Idle]\<rparr>"
    "thread_step 0 \<lparr>pm_phase = Load, pm_fail = False, pm_lc = 1, pm_mc = 0, pm_ec = 0, pm_lm = None, pm_threads = [Passed Load True, Idle]\<rparr> = Some
      \<lparr>pm_phase = Load, pm_fail = False, pm_lc = 1, pm_mc = 0, pm_ec = 0, pm_lm = Some 0, pm_threads = [Inside Load True, Idle]\<rparr>"
    "lock_section Load 1 \<lparr>pm_phase = Load, pm_fail = False, pm_lc = 1, pm_mc = 0, pm_ec = 0, pm_lm = Some 0, pm_threads = [Inside Load True, Idle]\<rparr> =
      \<lparr>pm_phase = Load, pm_fail = False, pm_lc = 2, pm_mc = 0, pm_ec = 0, pm_lm = Some 0, pm_threads = [Inside Load True, Passed Load True]\<rparr>"
    "unlock_enter Load 0 \<lparr>pm_phase = Load, pm_fail = True, pm_lc = 2, pm_mc = 0, pm_ec = 0, pm_lm = Some 0, pm_threads = [Inside Load True, Passed Load True]\<rparr> =
      \<lparr>pm_phase = Load, pm_fail = True, pm_lc = 2, pm_mc = 0, pm_ec = 0, pm_lm = None, pm_threads = [Leaving Load, Passed Load True]\<rparr>"
    by code_simp+
  have "reachable (lock_section Load 0 (new_phase_mutex 2))"
    by (rule step_reachable [OF new_reachable step.lock]) (simp_all add: new_phase_mutex_def)
  from thread_step_reachable [OF this [unfolded e(1)] _ e(2)]
  have "reachable (lock_section Load 1 \<lparr>pm_phase = Load, pm_fail = False, pm_lc = 1, pm_mc = 0, pm_ec = 0, pm_lm = Some 0, pm_threads = [Inside Load True, Idle]\<rparr>)"
    by (intro step_reachable [OF _ step.lock]) simp_all
  from step_reachable [OF this [unfolded e(3)] step.fail_load [where t = 0 and r = True]]
  have "reachable \<lparr>pm_phase = Load, pm_fail = True, pm_lc = 2, pm_mc = 0, pm_ec = 0, pm_lm = Some 0, pm_threads = [Inside Load True, Passed Load True]\<rparr>" by simp
  from step_reachable [OF this step.unlock [where t = 0 and p = Load and r = True]] show ?thesis
    by (simp add: e(4))
qed

theorem phase_exclusion_witness:
  "Match = pm_phase \<lparr>pm_phase = Match, pm_fail = False, pm_lc = 0, pm_mc = 2, pm_ec = 0, pm_lm = None,
     pm_threads = [Inside Match True, Inside Match True]\<rparr>"
  using phase_exclusion [OF two_in_match, of 0 1 Match True Match True] by simp

text \<open>
  C7: No wakeup is lost. From every reachable state, every run of the calls in progress, in whatever order the
  threads go on and with no new calls, has a bounded number of steps; and whenever no call can go on, either nobody
  uses the mutex or some thread is in the phase, and every thread that waits, waits for another phase or for the
  thread in the load phase. Such a state is reached, as every run that has not come to it can be continued.
\<close>

theorem phase_progress:
  assumes "reachable s"
  shows "(\<forall>n s'. (inner_step ^^ n) s s' \<longrightarrow>
      n \<le> (2 * length (pm_threads s) + 3) * length (pm_threads s) \<and>
      ((\<nexists>s''. inner_step s' s'') \<longrightarrow>
        (\<forall>th \<in> set (pm_threads s'). at_rest s' th) \<and>
        ((\<forall>th \<in> set (pm_threads s'). th = Idle) \<or>
         (\<exists>th \<in> set (pm_threads s'). \<exists>r. th = Inside (pm_phase s') r)))) \<and>
    (\<exists>n s'. (inner_step ^^ n) s s' \<and> (\<nexists>s''. inner_step s' s''))"
proof (intro conjI allI impI)
  note inv = reachable_inv [OF assms]
  fix n s' assume n: "(inner_step ^^ n) s s'"
  from pm.inner_bound [OF n inv] show "n \<le> (2 * length (pm_threads s) + 3) * length (pm_threads s)"
    using weight_of_bound [of "length (pm_threads s)" "pm_threads s"] by (simp add: mutex_weight_def)
  assume stop: "\<nexists>s''. inner_step s' s''"
  have inv': "mutex_inv s'" using pm.inner_bound [OF n inv] by blast
  show "\<forall>th \<in> set (pm_threads s'). at_rest s' th"
    using rest_threads [OF inv' stop] by (auto simp: in_set_conv_nth)
  show "(\<forall>th \<in> set (pm_threads s'). th = Idle) \<or> (\<exists>th \<in> set (pm_threads s'). \<exists>r. th = Inside (pm_phase s') r)"
    using rest_inside [OF inv' stop] by (metis in_set_conv_nth)
qed (use pm.settles [OF reachable_inv [OF assms]] in blast)

text \<open>A thread leaves the load phase while another one waits for the match phase: it is woken and gets in.\<close>

definition handover :: "thread list \<Rightarrow> run_phase \<Rightarrow> nat \<Rightarrow> phase_mutex" where
  "handover ths p lc = \<lparr>pm_phase = p, pm_fail = False, pm_lc = lc, pm_mc = 1, pm_ec = 0, pm_lm = None, pm_threads = ths\<rparr>"

lemma handover_reachable: "reachable (handover [Leaving Load, Asleep Match] Load 1)"
proof -
  have e: "lock_section Load 0 (new_phase_mutex 2) =
      \<lparr>pm_phase = Load, pm_fail = False, pm_lc = 1, pm_mc = 0, pm_ec = 0, pm_lm = None, pm_threads = [Passed Load True, Idle]\<rparr>"
    "thread_step 0 \<lparr>pm_phase = Load, pm_fail = False, pm_lc = 1, pm_mc = 0, pm_ec = 0, pm_lm = None, pm_threads = [Passed Load True, Idle]\<rparr> = Some
      \<lparr>pm_phase = Load, pm_fail = False, pm_lc = 1, pm_mc = 0, pm_ec = 0, pm_lm = Some 0, pm_threads = [Inside Load True, Idle]\<rparr>"
    "lock_section Match 1 \<lparr>pm_phase = Load, pm_fail = False, pm_lc = 1, pm_mc = 0, pm_ec = 0, pm_lm = Some 0, pm_threads = [Inside Load True, Idle]\<rparr> =
      \<lparr>pm_phase = Load, pm_fail = False, pm_lc = 1, pm_mc = 1, pm_ec = 0, pm_lm = Some 0, pm_threads = [Inside Load True, Asleep Match]\<rparr>"
    "unlock_enter Load 0 \<lparr>pm_phase = Load, pm_fail = False, pm_lc = 1, pm_mc = 1, pm_ec = 0, pm_lm = Some 0, pm_threads = [Inside Load True, Asleep Match]\<rparr> =
      handover [Leaving Load, Asleep Match] Load 1"
    by code_simp+
  have "reachable (lock_section Load 0 (new_phase_mutex 2))"
    by (rule step_reachable [OF new_reachable step.lock]) (simp_all add: new_phase_mutex_def)
  from thread_step_reachable [OF this [unfolded e(1)] _ e(2)]
  have "reachable (lock_section Match 1 \<lparr>pm_phase = Load, pm_fail = False, pm_lc = 1, pm_mc = 0, pm_ec = 0, pm_lm = Some 0, pm_threads = [Inside Load True, Idle]\<rparr>)"
    by (intro step_reachable [OF _ step.lock]) simp_all
  from step_reachable [OF this [unfolded e(3)] step.unlock [where t = 0 and p = Load and r = True], unfolded e(4)]
  show ?thesis by simp
qed

lemma handover_run: "(inner_step ^^ 4) (handover [Leaving Load, Asleep Match] Load 1) (handover [Idle, Inside Match True] Match 0)"
proof -
  have e: "thread_step 0 (handover [Leaving Load, Asleep Match] Load 1) = Some (handover [Notifying Match, Asleep Match] Match 0)"
    "thread_step 0 (handover [Notifying Match, Asleep Match] Match 0) = Some (handover [Idle, Woken Match] Match 0)"
    "thread_step 1 (handover [Idle, Woken Match] Match 0) = Some (handover [Idle, Passed Match True] Match 0)"
    "thread_step 1 (handover [Idle, Passed Match True] Match 0) = Some (handover [Idle, Inside Match True] Match 0)"
    by code_simp+
  have l: "length (pm_threads (handover [x, y] p lc)) = 2" for x y p lc by (simp add: handover_def)
  note st = inner_step.inner [OF _ e(1)] inner_step.inner [OF _ e(2)] inner_step.inner [OF _ e(3)] inner_step.inner [OF _ e(4)]
  show ?thesis using st l by (auto simp: numeral_eq_Suc intro!: relcomppI)
qed

theorem phase_progress_witness:
  "(inner_step ^^ 4) (handover [Leaving Load, Asleep Match] Load 1) (handover [Idle, Inside Match True] Match 0) \<and>
   (\<nexists>s''. inner_step (handover [Idle, Inside Match True] Match 0) s'') \<and>
   at_rest (handover [Idle, Inside Match True] Match 0) Idle \<and>
   at_rest (handover [Idle, Inside Match True] Match 0) (Inside Match True)"
proof -
  have "t = 0 \<or> t = 1 \<Longrightarrow> thread_step t (handover [Idle, Inside Match True] Match 0) = None" for t
    by (auto simp: thread_step_def handover_def)
  then have stop: "\<nexists>s''. inner_step (handover [Idle, Inside Match True] Match 0) s''"
    by (auto elim!: inner_step.cases simp: handover_def less_2_cases_iff numeral_2_eq_2 less_Suc_eq)
  moreover have "set (pm_threads (handover [Idle, Inside Match True] Match 0)) = {Idle, Inside Match True}"
    by (simp add: handover_def)
  ultimately show ?thesis using phase_progress [OF handover_reachable] handover_run by (metis insertCI)
qed

text \<open>A thread gets into a phase only at the end of \<open>lock ()\<close> or \<open>relock ()\<close>.\<close>

lemma inner_step_inside:
  assumes "inner_step s s'" "t < length (pm_threads s)" "pm_threads s' ! t = Inside p r"
    "\<forall>p r. pm_threads s ! t \<noteq> Inside p r"
  shows "\<exists>q. pm_threads s ! t = Passed p q \<and> r = (if p = Load then \<not> pm_fail s else q)"
proof -
  obtain u where u: "u < length (pm_threads s)" "thread_step u s = Some s'" using assms(1) by (auto elim: inner_step.cases)
  show ?thesis
  proof (cases "pm_threads s ! u")
    case (Passed p' q)
    with u assms(2-4) show ?thesis
      by (cases "t = u") (auto simp: thread_step_def enter_phase_def split: if_splits)
  next
    case (Woken q)
    with u assms(2-4) show ?thesis by (cases "t = u") (auto simp: thread_step_def wait_test_def split: if_splits)
  next
    case (Leaving q)
    with u assms(2-4) show ?thesis
      by (cases "t = u")
        (auto simp: thread_step_def unlock_section_def Let_def split: prod.splits option.splits if_splits)
  next
    case (Notifying q)
    with u assms(2-4) show ?thesis by (cases "t = u") (auto simp: thread_step_def)
  next
    case (Switching q n)
    with u assms(2-4) show ?thesis
      by (cases "t = u") (auto simp: thread_step_def relock_section_def wait_test_def Let_def split: if_splits)
  next
    case (Switched q b)
    with u assms(2-4) show ?thesis by (cases "t = u") (auto simp: thread_step_def)
  qed (use u in \<open>auto simp: thread_step_def\<close>)
qed

lemma step_inside:
  assumes "step s s'" "t < length (pm_threads s)" "pm_threads s' ! t = Inside p r"
    "\<forall>p r. pm_threads s ! t \<noteq> Inside p r"
  shows "\<exists>q. pm_threads s ! t = Passed p q \<and> r = (if p = Load then \<not> pm_fail s else q)"
  using assms(1)
proof cases
  case inner
  with inner_step_inside assms(2-4) show ?thesis by blast
next
  case (lock u q)
  with assms(2-4) show ?thesis
    by (cases "t = u") (auto simp: lock_section_def Let_def split: if_splits)
next
  case (unlock u q b)
  with assms(2-4) show ?thesis by (cases "t = u") (auto simp: unlock_enter_def split: if_splits)
next
  case (relock u q b n)
  with assms(2-4) show ?thesis by (cases "t = u") (auto simp: relock_enter_def split: if_splits)
next
  case (fail_load u b)
  with assms(2-4) show ?thesis by auto
next
  case (spurious u q)
  with assms(2-4) show ?thesis by (cases "t = u") auto
qed

text \<open>
  C17: Once a load has failed, every thread that gets into a phase, whichever it waited for and whenever it
  began to wait, is told so: \<open>lock ()\<close> or \<open>relock ()\<close> returns \<open>false\<close> to it.
\<close>

theorem failed_load_refused:
  assumes "reachable s" "pm_fail s" "step s s'" "t < length (pm_threads s)"
    "\<forall>p r. pm_threads s ! t \<noteq> Inside p r" "pm_threads s' ! t = Inside p r"
  shows "\<not> r"
proof -
  obtain q where q: "pm_threads s ! t = Passed p q" "r = (if p = Load then \<not> pm_fail s else q)"
    using step_inside [OF assms(3,4,6,5)] by blast
  have "\<not> q" if "p \<noteq> Load"
    using failD [OF reachable_inv [OF assms(1)] assms(2,4), of p] q(1) that by (auto simp: let_in_def)
  with q(2) assms(2) show ?thesis by auto
qed

theorem failed_load_refused_witness:
  "pm_threads (the (thread_step 1 \<lparr>pm_phase = Load, pm_fail = True, pm_lc = 2, pm_mc = 0, pm_ec = 0, pm_lm = None, pm_threads = [Leaving Load, Passed Load True]\<rparr>)) ! 1 \<noteq> Inside Load True"
proof
  assume i: "pm_threads (the (thread_step 1 \<lparr>pm_phase = Load, pm_fail = True, pm_lc = 2, pm_mc = 0, pm_ec = 0, pm_lm = None, pm_threads = [Leaving Load, Passed Load True]\<rparr>)) ! 1 = Inside Load True"
  have "step \<lparr>pm_phase = Load, pm_fail = True, pm_lc = 2, pm_mc = 0, pm_ec = 0, pm_lm = None, pm_threads = [Leaving Load, Passed Load True]\<rparr> (the (thread_step 1 \<lparr>pm_phase = Load, pm_fail = True, pm_lc = 2, pm_mc = 0, pm_ec = 0, pm_lm = None, pm_threads = [Leaving Load, Passed Load True]\<rparr>))"
    by (intro step.inner inner_step.inner [where t = 1]) (simp_all add: thread_step_def enter_phase_def)
  from failed_load_refused [OF failed_load _ this _ _ i] show False by (auto simp: nth_Cons')
qed

text \<open>
  C24: The three counters are the numbers of the threads that are in a phase or wait for it, and a phase that
  nobody is in or waits for is the current one only when the mutex is unlocked, and then it is the load phase.
\<close>

theorem phase_counters:
  assumes "reachable s"
  shows "counter s p = length (filter (\<lambda>th. occupies th p) (pm_threads s)) \<and>
    (counter s (pm_phase s) = 0 \<longrightarrow> pm_lc s = 0 \<and> pm_mc s = 0 \<and> pm_ec s = 0 \<and> pm_phase s = Load)"
proof -
  note i = inv_parts [OF reachable_inv [OF assms]]
  have "counter s p = length (filter (\<lambda>th. occupies th p) (pm_threads s))"
    using i(1) by (simp add: counted_def threads_in_def)
  moreover have "pm_lc s = 0 \<and> pm_mc s = 0 \<and> pm_ec s = 0 \<and> pm_phase s = Load" if "counter s (pm_phase s) = 0"
    using i(3) that unlocked_counters [of s] by (simp add: phase_used_def)
  ultimately show ?thesis by simp
qed

theorem phase_counters_witness:
  "counter \<lparr>pm_phase = Match, pm_fail = False, pm_lc = 0, pm_mc = 2, pm_ec = 0, pm_lm = None,
     pm_threads = [Inside Match True, Inside Match True]\<rparr> Match =
   length (filter (\<lambda>th. occupies th Match) [Inside Match True, Inside Match True])"
  using phase_counters [OF two_in_match, of Match] by simp

end
