(* ===== verification/Path_Pattern.thy ===== *)
theory Path_Pattern
  imports Butl_Prelude
begin

text \<open>
  Wildcard patterns for names of filesystem entries (\<open>libbutl/path-pattern.cxx\<close> and \<open>.ixx\<close>, POSIX). Ranges
  of iterators are strings: the pattern and the name not yet matched. A failed assertion, and reading past the
  end of a range, is \<open>None\<close>. Matching of paths with recursive wildcards goes through the filesystem search
  and is left out.
\<close>

section \<open>Terms\<close>

datatype path_pattern_term_type = Literal | Question | Star | Bracket

record path_pattern_term =
  pt_type :: path_pattern_term_type
  pt_text :: string                     \<comment> \<open>from \<open>begin\<close> to \<open>end\<close>\<close>

definition get_literal :: "path_pattern_term \<Rightarrow> char option" where
  "get_literal pt = (if pt_type pt = Literal then Some (hd (pt_text pt)) else None)"

text \<open>
  The bracket expression at the \<open>[\<close> before \<open>t\<close>: the characters up to and including the closing bracket,
  and what follows. It is not empty, and a bracket is literal if it is the first character.
\<close>

definition bracket_body :: "string \<Rightarrow> string \<Rightarrow> (string \<times> string) option" where
  "bracket_body pre b =
     (case b of
        [] \<Rightarrow> None
      | x # v \<Rightarrow>
          (case dropWhile (\<lambda>d. d \<noteq> CHR '']'') v of
             [] \<Rightarrow> None
           | _ # w \<Rightarrow> Some (pre @ x # takeWhile (\<lambda>d. d \<noteq> CHR '']'') v @ [CHR '']''], w)))"

definition bracket_expression :: "string \<Rightarrow> (string \<times> string) option" where
  "bracket_expression t =
     (case t of
        [] \<Rightarrow> None
      | c # u \<Rightarrow> if c = CHR ''!'' then bracket_body [c] u else bracket_body [] t)"

text \<open>\<open>path_pattern_iterator::next ()\<close>: the next term and the rest of the pattern; \<open>None\<close> at the end.\<close>

definition single_term :: "path_pattern_term_type \<Rightarrow> char \<Rightarrow> path_pattern_term" where
  "single_term ty c = \<lparr>pt_type = ty, pt_text = [c]\<rparr>"

definition next_term :: "string \<Rightarrow> (path_pattern_term \<times> string) option" where
  "next_term p =
     (case p of
        [] \<Rightarrow> None
      | c # t \<Rightarrow>
          if c = CHR ''?'' then Some (single_term Question c, t)
          else if c = CHR ''*'' then Some (single_term Star c, t)
          else if c = CHR ''[''
          then (case bracket_expression t of
                  Some (b, w) \<Rightarrow> Some (\<lparr>pt_type = Bracket, pt_text = c # b\<rparr>, w)
                | None \<Rightarrow> Some (single_term Literal c, t))
          else Some (single_term Literal c, t))"

lemma bracket_body_length: "bracket_body pre b = Some (r, w) \<Longrightarrow> length w < length b"
proof -
  assume "bracket_body pre b = Some (r, w)"
  then obtain x v y where b: "b = x # v" "dropWhile (\<lambda>d. d \<noteq> CHR '']'') v = y # w"
    by (auto simp: bracket_body_def split: list.splits)
  with length_dropWhile_le [of "\<lambda>d. d \<noteq> CHR '']''" v] show ?thesis by simp
qed

lemma bracket_expression_length: "bracket_expression t = Some (b, w) \<Longrightarrow> length w < length t"
  by (auto simp: bracket_expression_def dest: bracket_body_length split: list.splits if_splits)

lemma next_term_length: "next_term p = Some (pt, q) \<Longrightarrow> length q < length p"
  by (auto simp: next_term_def dest: bracket_expression_length split: list.splits if_splits option.splits)

section \<open>Matching a character\<close>

definition char_match :: "char \<Rightarrow> char \<Rightarrow> bool" where
  "char_match c pc \<longleftrightarrow> c = pc"

text \<open>The value of a \<open>char\<close>, which is signed.\<close>

definition char_value :: "char \<Rightarrow> int" where
  "char_value c = (if ord c < 128 then int (ord c) else int (ord c) - 256)"

text \<open>
  The loop of \<open>match_bracket ()\<close> from the character \<open>bc\<close> on; \<open>prev\<close> is the character before it, \<open>None\<close> at
  the start of the expression.
\<close>

fun bracket_loop :: "char \<Rightarrow> char option \<Rightarrow> string \<Rightarrow> bool" where
  "bracket_loop c prev [] = False"
| "bracket_loop c prev (bc # xs) =
     (case (prev, xs) of
        (Some a, b # ys) \<Rightarrow>
          if bc = CHR ''-''
          then (char_value c > char_value a \<and> char_value c \<le> char_value b) \<or> bracket_loop c (Some b) ys
          else char_match c bc \<or> bracket_loop c (Some bc) xs
      | _ \<Rightarrow> char_match c bc \<or> bracket_loop c (Some bc) xs)"

definition match_bracket :: "char \<Rightarrow> path_pattern_term \<Rightarrow> bool option" where
  "match_bracket c pt =
     (if pt_type pt \<noteq> Bracket then None
      else
        let i = butlast (tl (pt_text pt)) in
        if i = [] then None
        else let invert = (hd i = CHR ''!''); i1 = (if invert then tl i else i)
             in Some (bracket_loop c None i1 \<noteq> invert))"

definition match_char_term :: "char \<Rightarrow> path_pattern_term \<Rightarrow> bool option" where
  "match_char_term c pt =
     (case pt_type pt of
        Star \<Rightarrow> Some True
      | Question \<Rightarrow> Some True
      | Bracket \<Rightarrow> match_bracket c pt
      | Literal \<Rightarrow> (case get_literal pt of None \<Rightarrow> None | Some l \<Rightarrow> Some (char_match c l)))"

section \<open>Patterns without brackets\<close>

text \<open>
  The loops that match characters until a star, the end of the pattern or the end of the name: what is left
  of the two, or \<open>None\<close> on a mismatch. The suffix is matched on the reversed strings.
\<close>

fun match_run :: "string \<Rightarrow> string \<Rightarrow> (string \<times> string) option" where
  "match_run (pc # p) (c # n) =
     (if pc = CHR ''*'' then Some (pc # p, c # n)
      else if \<not> char_match c pc \<and> pc \<noteq> CHR ''?'' then None
      else match_run p n)"
| "match_run p n = Some (p, n)"

text \<open>The loop over the parts of the name that the star may match.\<close>

fun backtrack :: "(string \<Rightarrow> bool option) \<Rightarrow> string \<Rightarrow> bool option" where
  "backtrack f n =
     (case f n of
        None \<Rightarrow> None
      | Some True \<Rightarrow> Some True
      | Some False \<Rightarrow> (case n of [] \<Rightarrow> Some False | _ # t \<Rightarrow> backtrack f t))"

declare backtrack.simps [simp del]

lemma backtrack_cong [fundef_cong]: "n = n' \<Longrightarrow> (\<And>m. f m = g m) \<Longrightarrow> backtrack f n = backtrack g n'"
proof -
  assume "n = n'" "\<And>m. f m = g m"
  then have "f = g" by auto
  with \<open>n = n'\<close> show ?thesis by simp
qed

lemma match_run_suffix: "match_run p n = Some (p', n') \<Longrightarrow> length p' \<le> length p"
  by (induction p n rule: match_run.induct) (auto split: if_splits)

function match_no_brackets :: "string \<Rightarrow> string \<Rightarrow> bool option" where
  "match_no_brackets p n =
     (case match_run (rev p) (rev n) of
        None \<Rightarrow> Some False
      | Some (rp, rn) \<Rightarrow>
          if rp = [] then Some (rn = [])
          else if hd rp \<noteq> CHR ''*'' then (if rn = [] then Some False else None)
          else (case match_run (rev rp) (rev rn) of
                  None \<Rightarrow> Some False
                | Some (p1, n1) \<Rightarrow>
                    if p1 = [] then None
                    else if hd p1 \<noteq> CHR ''*'' then (if n1 = [] then Some False else None)
                    else if tl p1 = [] then Some True
                    else backtrack (match_no_brackets (tl p1)) n1))"
  by pat_completeness auto
termination
proof (relation "measure (\<lambda>(p, n). length p)", goal_cases)
  case (2 p n x rp rn y p1 n1 m)
  then have "length rp \<le> length p" "length p1 \<le> length rp" "p1 \<noteq> []"
    using match_run_suffix [of "rev p" "rev n"] match_run_suffix [of "rev rp" "rev rn"] by auto
  then show ?case by (cases p1) auto
qed simp

declare match_no_brackets.simps [simp del]

section \<open>Patterns\<close>

text \<open>The loop over the terms of the prefix, and the rest of the two at its end.\<close>

function match_terms :: "string \<Rightarrow> string \<Rightarrow> (string \<times> string) option option" where
  "match_terms p n =
     (case next_term p of
        None \<Rightarrow> Some (Some (p, n))
      | Some (pt, q) \<Rightarrow>
          if pt_type pt = Star \<or> n = [] then Some (Some (p, n))
          else (case match_char_term (hd n) pt of
                  None \<Rightarrow> None
                | Some False \<Rightarrow> Some None
                | Some True \<Rightarrow> match_terms q (tl n)))"
  by pat_completeness auto
termination
  by (relation "measure (\<lambda>(p, n). length p)") (auto dest: next_term_length)

declare match_terms.simps [simp del]

lemma match_terms_length: "match_terms p n = Some (Some (p', n')) \<Longrightarrow> length p' \<le> length p"
proof (induction p n rule: match_terms.induct)
  case (1 p n)
  then show ?case
    using next_term_length [of p]
    by (auto simp: match_terms.simps [of p n] split: option.splits if_splits bool.splits) (meson le_trans less_imp_le)+
qed

function match_pattern :: "string \<Rightarrow> string \<Rightarrow> bool option" where
  "match_pattern p n =
     (if CHR ''['' \<notin> set p then match_no_brackets p n
      else case match_terms p n of
        None \<Rightarrow> None
      | Some None \<Rightarrow> Some False
      | Some (Some (p1, n1)) \<Rightarrow>
          (case next_term p1 of
             None \<Rightarrow> Some (n1 = [])
           | Some (pt, q) \<Rightarrow>
               if pt_type pt \<noteq> Star then (if n1 = [] then Some False else None)
               else if q = [] then Some True
               else backtrack (match_pattern q) n1))"
  by pat_completeness auto
termination
proof (relation "measure (\<lambda>(p, n). length p)", goal_cases)
  case (2 p n x y p1 n1 z pt q m)
  then show ?case
    using match_terms_length [of p n p1 n1] next_term_length [of p1 pt q] by auto
qed simp

declare match_pattern.simps [simp del]

text \<open>\<open>path_match (name, pattern)\<close>: both or none end with a separator.\<close>

definition is_separator :: "char \<Rightarrow> bool" where
  "is_separator c \<longleftrightarrow> c = CHR ''/''"

definition path_match :: "string \<Rightarrow> string \<Rightarrow> bool option" where
  "path_match name pattern =
     (let pd = (pattern \<noteq> [] \<and> is_separator (last pattern)); nd = (name \<noteq> [] \<and> is_separator (last name)) in
      if pd \<noteq> nd then Some False
      else if pd then match_pattern (butlast pattern) (butlast name)
      else match_pattern pattern name)"

section \<open>Kinds of patterns\<close>

text \<open>Whether a name contains wildcards, and \<open>sn\<close> stars in a row, \<open>n\<close> of which have been seen.\<close>

function path_pattern :: "string \<Rightarrow> bool" where
  "path_pattern s =
     (case next_term s of
        None \<Rightarrow> False
      | Some (pt, t) \<Rightarrow> pt_type pt \<noteq> Literal \<or> path_pattern t)"
  by pat_completeness auto
termination
  by (relation "measure length") (auto dest: next_term_length)

declare path_pattern.simps [simp del]

function stars_loop :: "nat \<Rightarrow> nat \<Rightarrow> string \<Rightarrow> bool" where
  "stars_loop sn n s =
     (case next_term s of
        None \<Rightarrow> False
      | Some (pt, t) \<Rightarrow>
          if pt_type pt = Star then (n + 1 = sn \<or> stars_loop sn (n + 1) t)
          else stars_loop sn 0 t)"
  by pat_completeness auto
termination
  by (relation "measure (\<lambda>(sn, n, s). length s)") (auto dest: next_term_length)

declare stars_loop.simps [simp del]

definition path_pattern_recursive :: "string \<Rightarrow> bool" where
  "path_pattern_recursive s = stars_loop 2 0 s"

definition path_pattern_self_matching :: "string \<Rightarrow> bool" where
  "path_pattern_self_matching s = stars_loop 3 0 s"

end
