(* ===== verification/Path_Pattern_Properties.thy ===== *)
theory Path_Pattern_Properties
  imports Path_Pattern "HOL-Library.Sublist"
begin

text \<open>
  Matching a name with a pattern is what the terms of the pattern say: the matching by prefix, suffix and
  backtracking is equivalent to the language of the pattern, and no assertion of it fails. A pattern without
  wildcards matches itself only.
\<close>

section \<open>The language of a pattern\<close>

function pattern_terms :: "string \<Rightarrow> path_pattern_term list" where
  "pattern_terms p = (case next_term p of None \<Rightarrow> [] | Some (pt, q) \<Rightarrow> pt # pattern_terms q)"
  by pat_completeness auto
termination
  by (relation "measure length") (auto dest: next_term_length)

declare pattern_terms.simps [simp del]

lemma pattern_terms_next: "next_term p = Some (pt, q) \<Longrightarrow> pattern_terms p = pt # pattern_terms q"
  by (simp add: pattern_terms.simps [of p])

lemma pattern_terms_end: "next_term p = None \<longleftrightarrow> pattern_terms p = []"
  by (simp add: pattern_terms.simps [of p] split: option.splits)

lemma split_Cons: "(\<exists>x y. a # n = x @ y \<and> P x y) \<longleftrightarrow> P [] (a # n) \<or> (\<exists>x y. n = x @ y \<and> P (a # x) y)"
  by (auto simp: Cons_eq_append_conv)

text \<open>The strings that a term stands for; the characters of a bracket expression are those of \<open>match_bracket ()\<close>.\<close>

definition term_language :: "path_pattern_term \<Rightarrow> string \<Rightarrow> bool" where
  "term_language pt x \<longleftrightarrow>
     (case pt_type pt of
        Star \<Rightarrow> True
      | _ \<Rightarrow> \<exists>c. x = [c] \<and> match_char_term c pt = Some True)"

primrec language :: "path_pattern_term list \<Rightarrow> string \<Rightarrow> bool" where
  "language [] n \<longleftrightarrow> n = []"
| "language (pt # pts) n \<longleftrightarrow> (\<exists>x y. n = x @ y \<and> term_language pt x \<and> language pts y)"

lemma language_append: "language (ps @ qs) n \<longleftrightarrow> (\<exists>x y. n = x @ y \<and> language ps x \<and> language qs y)"
proof (induction ps arbitrary: n)
  case (Cons p ps)
  then show ?case by (auto simp: Cons_eq_append_conv) (metis append.assoc)+
qed simp

lemma language_star: "pt_type pt = Star \<Longrightarrow> language (pt # pts) n \<longleftrightarrow> (\<exists>x y. n = x @ y \<and> language pts y)"
  by (simp add: term_language_def)

lemma language_single: "pt_type pt \<noteq> Star \<Longrightarrow>
    language (pt # pts) n \<longleftrightarrow> n \<noteq> [] \<and> match_char_term (hd n) pt = Some True \<and> language pts (tl n)"
  by (cases n; cases "pt_type pt") (auto simp: term_language_def split_Cons)

text \<open>Terms of the iterator: brackets are never empty, so matching a character cannot fail.\<close>

lemma bracket_text: "bracket_expression t = Some (b, w) \<Longrightarrow> butlast b \<noteq> [] \<and> (hd (butlast b) = CHR ''!'' \<longrightarrow> tl (butlast b) \<noteq> [])"
  by (auto simp: bracket_expression_def bracket_body_def butlast_append split: list.splits if_splits)

lemma match_char_term_total: "next_term p = Some (pt, q) \<Longrightarrow> \<exists>b. match_char_term c pt = Some b"
  using bracket_text
  by (auto simp: next_term_def match_char_term_def match_bracket_def get_literal_def single_term_def Let_def
      split: list.splits if_splits option.splits)

section \<open>Backtracking\<close>

lemma backtrack_some:
  assumes "\<And>x y. n = x @ y \<Longrightarrow> f y = Some (g y)"
  shows "backtrack f n = Some (\<exists>x y. n = x @ y \<and> g y)"
  using assms
proof (induction n)
  case Nil
  then have "f [] = Some (g [])" by simp
  then show ?case by (simp add: backtrack.simps [of f "[]"] split: bool.split)
next
  case (Cons c n)
  have f: "f (c # n) = Some (g (c # n))" using Cons.prems [of "[]"] by simp
  have "backtrack f n = Some (\<exists>x y. n = x @ y \<and> g y)"
    by (rule Cons.IH) (use Cons.prems in \<open>metis append_Cons\<close>)
  moreover have "(\<exists>x y. c # n = x @ y \<and> g y) \<longleftrightarrow> g (c # n) \<or> (\<exists>x y. n = x @ y \<and> g y)"
    by (auto simp: Cons_eq_append_conv)
  ultimately show ?case by (simp add: backtrack.simps [of f "c # n"] f split: bool.split)
qed

section \<open>Patterns without brackets\<close>

text \<open>The language of a pattern in which every character is a term.\<close>

fun wild :: "string \<Rightarrow> string \<Rightarrow> bool" where
  "wild [] n \<longleftrightarrow> n = []"
| "wild (pc # p) n \<longleftrightarrow>
     (if pc = CHR ''*'' then \<exists>x y. n = x @ y \<and> wild p y
      else n \<noteq> [] \<and> (hd n = pc \<or> pc = CHR ''?'') \<and> wild p (tl n))"

lemma next_term_plain: "c \<noteq> CHR ''['' \<Longrightarrow> next_term (c # p) =
    Some (single_term (if c = CHR ''?'' then Question else if c = CHR ''*'' then Star else Literal) c, p)"
  by (simp add: next_term_def)

lemma wild_language: "CHR ''['' \<notin> set p \<Longrightarrow> language (pattern_terms p) n \<longleftrightarrow> wild p n"
proof (induction p arbitrary: n)
  case Nil
  then show ?case by (simp add: pattern_terms.simps [of "[]"] next_term_def)
next
  case (Cons c p)
  then have t: "pattern_terms (c # p) =
      single_term (if c = CHR ''?'' then Question else if c = CHR ''*'' then Star else Literal) c # pattern_terms p"
    by (intro pattern_terms_next next_term_plain) auto
  have ih: "language (pattern_terms p) m \<longleftrightarrow> wild p m" for m using Cons by auto
  show ?case
  proof (cases "c = CHR ''*''")
    case True
    then show ?thesis unfolding t by (subst language_star) (auto simp: single_term_def ih)
  next
    case False
    then show ?thesis unfolding t
      by (subst language_single) (auto simp: single_term_def ih match_char_term_def get_literal_def char_match_def)
  qed
qed

lemma wild_append: "wild (p @ q) n \<longleftrightarrow> (\<exists>x y. n = x @ y \<and> wild p x \<and> wild q y)"
proof (induction p arbitrary: n)
  case (Cons c p)
  show ?case
  proof (cases "c = CHR ''*''")
    case True
    then show ?thesis by (auto simp: Cons.IH) (metis append.assoc)+
  next
    case False
    then show ?thesis by (cases n) (auto simp: Cons.IH split_Cons)
  qed
qed simp

lemma wild_single: "wild [c] n \<longleftrightarrow> c = CHR ''*'' \<or> (\<exists>d. n = [d] \<and> (d = c \<or> c = CHR ''?''))"
  by (cases n; cases "tl n") auto

lemma wild_rev: "wild (rev p) (rev n) \<longleftrightarrow> wild p n"
proof (induction p arbitrary: n)
  case (Cons c p)
  have "wild (rev (c # p)) (rev n) \<longleftrightarrow> (\<exists>x y. rev n = x @ y \<and> wild (rev p) x \<and> wild [c] y)"
    by (simp only: rev.simps wild_append)
  also have "\<dots> \<longleftrightarrow> (\<exists>x y. n = y @ x \<and> wild (rev p) (rev x) \<and> wild [c] (rev y))"
    by (metis rev_append rev_rev_ident)
  also have "\<dots> \<longleftrightarrow> (\<exists>x y. n = y @ x \<and> wild [c] y \<and> wild p x)"
    unfolding Cons.IH wild_single by (metis rev_rev_ident rev_singleton_conv)
  also have "\<dots> \<longleftrightarrow> wild ([c] @ p) n" unfolding wild_append by blast
  finally show ?case by simp
qed simp

lemma match_run_none: "match_run p n = None \<Longrightarrow> \<not> wild p n"
  by (induction p n rule: match_run.induct) (auto simp: char_match_def split: if_splits)

lemma match_run_some:
  "match_run p n = Some (p', n') \<Longrightarrow>
     (wild p n \<longleftrightarrow> wild p' n') \<and> (p' = [] \<or> hd p' = CHR ''*'' \<or> n' = []) \<and>
     (\<exists>a. p = a @ p' \<and> CHR ''*'' \<notin> set a)"
proof (induction p n rule: match_run.induct)
  case (1 pc p c n)
  show ?case
  proof (cases "pc = CHR ''*''")
    case True
    with 1(2) show ?thesis by (intro conjI exI [of _ "[]"]) auto
  next
    case False
    with 1(2) have m: "char_match c pc \<or> pc = CHR ''?''" "match_run p n = Some (p', n')" by (auto split: if_splits)
    with False 1(1) obtain a where "wild p n \<longleftrightarrow> wild p' n'" "p' = [] \<or> hd p' = CHR ''*'' \<or> n' = []"
      "p = a @ p'" "CHR ''*'' \<notin> set a" by auto
    with False m(1) show ?thesis by (intro conjI exI [of _ "pc # a"]) (auto simp: char_match_def)
  qed
qed auto

lemma wild_empty: "wild p [] \<longleftrightarrow> (\<forall>c \<in> set p. c = CHR ''*'')"
  by (induction p) auto

lemma wild_unmatched: "p \<noteq> [] \<Longrightarrow> hd p \<noteq> CHR ''*'' \<Longrightarrow> \<not> wild p []"
  by (cases p) auto

lemma wild_hd_star: "wild (CHR ''*'' # p) n \<longleftrightarrow> (\<exists>x y. n = x @ y \<and> wild p y)"
  by simp

lemma match_no_brackets_wild: "match_no_brackets p n = Some (wild p n)"
proof (induction "length p" arbitrary: p n rule: less_induct)
  case less
  show ?case
  proof (cases "match_run (rev p) (rev n)")
    case None
    with match_run_none [OF None] show ?thesis by (simp add: match_no_brackets.simps [of p n] wild_rev)
  next
    case (Some x)
    obtain rp rn where x: "x = (rp, rn)" by (cases x)
    note s = match_run_some [OF Some [unfolded x]]
    have w: "wild p n \<longleftrightarrow> wild (rev rp) (rev rn)" using s wild_rev [of p n] wild_rev [of "rev rp" "rev rn"] by simp
    have eq: "match_no_brackets p n =
        (if rp = [] then Some (rn = [])
         else if hd rp \<noteq> CHR ''*'' then (if rn = [] then Some False else None)
         else case match_run (rev rp) (rev rn) of
           None \<Rightarrow> Some False
         | Some (p1, n1) \<Rightarrow>
             if p1 = [] then None
             else if hd p1 \<noteq> CHR ''*'' then (if n1 = [] then Some False else None)
             else if tl p1 = [] then Some True
             else backtrack (match_no_brackets (tl p1)) n1)"
      using Some x by (simp add: match_no_brackets.simps [of p n])
    consider (ended) "rp = []" | (unmatched) "rp \<noteq> []" "hd rp \<noteq> CHR ''*''" | (star) "rp \<noteq> []" "hd rp = CHR ''*''"
      by blast
    then show ?thesis
    proof cases
      case ended
      with eq w show ?thesis by simp
    next
      case unmatched
      then have "rn = []" using s by blast
      with unmatched eq w wild_rev [of rp "[]"] wild_unmatched [OF unmatched] show ?thesis by simp
    next
      case star
      show ?thesis
      proof (cases "match_run (rev rp) (rev rn)")
        case None
        with eq star w match_run_none [OF None] show ?thesis by simp
      next
        case (Some y)
        obtain p1 n1 where y: "y = (p1, n1)" by (cases y)
        note t = match_run_some [OF Some [unfolded y]]
        have "last (rev rp) = CHR ''*''" using star by (simp add: last_rev)
        with t star(1) have p1: "p1 \<noteq> []" by (metis append_Nil2 last_in_set rev_is_Nil_conv)
        have w1: "wild p n \<longleftrightarrow> wild p1 n1" using w t by simp
        show ?thesis
        proof (cases "hd p1 = CHR ''*''")
          case False
          with t p1 have "n1 = []" by blast
          with False eq star Some y p1 w1 wild_unmatched [OF p1 False] show ?thesis by simp
        next
          case True
          then have c: "p1 = CHR ''*'' # tl p1" using p1 by (cases p1) auto
          have "length p1 \<le> length p"
            using match_run_suffix [OF \<open>match_run (rev p) (rev n) = Some x\<close> [unfolded x]]
              match_run_suffix [OF Some [unfolded y]] by simp
          then have "length (tl p1) < length p" using p1 by (cases p1) auto
          then have "match_no_brackets (tl p1) m = Some (wild (tl p1) m)" for m by (rule less)
          then have b: "backtrack (match_no_brackets (tl p1)) n1 = Some (\<exists>x y. n1 = x @ y \<and> wild (tl p1) y)"
            by (intro backtrack_some)
          have "wild p n \<longleftrightarrow> (\<exists>x y. n1 = x @ y \<and> wild (tl p1) y)"
            unfolding w1 by (subst c) (rule wild_hd_star)
          with True eq star Some y p1 b show ?thesis by auto
        qed
      qed
    qed
  qed
qed

section \<open>Patterns\<close>

lemma match_terms_language:
  "\<exists>r. match_terms p n = Some r \<and>
     (case r of
        None \<Rightarrow> \<not> language (pattern_terms p) n
      | Some (p', n') \<Rightarrow> (language (pattern_terms p) n \<longleftrightarrow> language (pattern_terms p') n') \<and>
          (\<forall>pt q. next_term p' = Some (pt, q) \<and> pt_type pt \<noteq> Star \<longrightarrow> n' = []))"
proof (induction p n rule: match_terms.induct)
  case (1 p n)
  show ?case
  proof (cases "next_term p")
    case None
    then show ?thesis by (simp add: match_terms.simps [of p n])
  next
    case (Some x)
    obtain pt q where x: "x = (pt, q)" by (cases x)
    with Some have t: "pattern_terms p = pt # pattern_terms q" by (simp add: pattern_terms_next)
    show ?thesis
    proof (cases "pt_type pt = Star \<or> n = []")
      case True
      with Some x show ?thesis by (auto simp: match_terms.simps [of p n])
    next
      case False
      obtain b where b: "match_char_term (hd n) pt = Some b" using match_char_term_total Some x by blast
      with False have l: "language (pattern_terms p) n \<longleftrightarrow> b \<and> language (pattern_terms q) (tl n)"
        unfolding t by (subst language_single) auto
      show ?thesis
      proof (cases b)
        case True
        with b have m: "match_terms p n = match_terms q (tl n)"
          using Some x False by (simp add: match_terms.simps [of p n])
        from l True have l': "language (pattern_terms p) n = language (pattern_terms q) (tl n)" by simp
        from True have "b = True" by simp
        from 1 [OF Some x [symmetric] False b this] show ?thesis unfolding m l' .
      next
        case f: False
        with b Some x False l show ?thesis by (simp add: match_terms.simps [of p n])
      qed
    qed
  qed
qed

lemma language_empty_single: "pt_type pt \<noteq> Star \<Longrightarrow> \<not> language (pt # pts) []"
  by (subst language_single) auto

lemma match_pattern_language: "match_pattern p n = Some (language (pattern_terms p) n)"
proof (induction "length p" arbitrary: p n rule: less_induct)
  case less
  show ?case
  proof (cases "CHR ''['' \<in> set p")
    case False
    then show ?thesis by (simp add: match_pattern.simps [of p n] match_no_brackets_wild wild_language)
  next
    case True
    obtain r where r: "match_terms p n = Some r"
      "case r of None \<Rightarrow> \<not> language (pattern_terms p) n
       | Some (p', n') \<Rightarrow> (language (pattern_terms p) n \<longleftrightarrow> language (pattern_terms p') n') \<and>
          (\<forall>pt q. next_term p' = Some (pt, q) \<and> pt_type pt \<noteq> Star \<longrightarrow> n' = [])"
      using match_terms_language by blast
    show ?thesis
    proof (cases r)
      case None
      with True r show ?thesis by (simp add: match_pattern.simps [of p n])
    next
      case (Some x)
      obtain p1 n1 where x: "x = (p1, n1)" by (cases x)
      with Some r have l: "language (pattern_terms p) n \<longleftrightarrow> language (pattern_terms p1) n1"
        "\<And>pt q. next_term p1 = Some (pt, q) \<Longrightarrow> pt_type pt \<noteq> Star \<Longrightarrow> n1 = []" by auto
      have eq: "match_pattern p n =
          (case next_term p1 of
             None \<Rightarrow> Some (n1 = [])
           | Some (pt, q) \<Rightarrow>
               if pt_type pt \<noteq> Star then (if n1 = [] then Some False else None)
               else if q = [] then Some True
               else backtrack (match_pattern q) n1)"
        using True r(1) Some x by (simp add: match_pattern.simps [of p n])
      show ?thesis
      proof (cases "next_term p1")
        case None
        with eq l(1) show ?thesis by (simp add: pattern_terms.simps [of p1])
      next
        case (Some y)
        obtain pt q where y: "next_term p1 = Some (pt, q)" using Some by (cases y) auto
        note t = pattern_terms_next [OF y]
        show ?thesis
        proof (cases "pt_type pt = Star")
          case False
          with l(2) [OF y] language_empty_single [OF False] eq y l(1) t show ?thesis by simp
        next
          case True
          have "length q < length p"
            using next_term_length [OF y] match_terms_length [of p n p1 n1] r(1) \<open>r = Some x\<close> x by simp
          then have "match_pattern q m = Some (language (pattern_terms q) m)" for m by (rule less)
          then have b: "backtrack (match_pattern q) n1 = Some (\<exists>x y. n1 = x @ y \<and> language (pattern_terms q) y)"
            by (intro backtrack_some)
          have lp: "language (pattern_terms p) n \<longleftrightarrow> (\<exists>x y. n1 = x @ y \<and> language (pattern_terms q) y)"
            unfolding l(1) t by (rule language_star [OF True])
          have e: "\<exists>x y. n1 = x @ y \<and> language (pattern_terms q) y" if "q = []"
            using that by (auto simp: pattern_terms.simps [of "[]"] next_term_def)
          show ?thesis unfolding lp using True e by (auto simp: eq y b)
        qed
      qed
    qed
  qed
qed

text \<open>The language of a name pattern: both ends of the strings must agree on the directory separator.\<close>

definition ends_with_separator :: "string \<Rightarrow> bool" where
  "ends_with_separator s \<longleftrightarrow> s \<noteq> [] \<and> last s = CHR ''/''"

definition without_separator :: "string \<Rightarrow> string" where
  "without_separator s = (if ends_with_separator s then butlast s else s)"

text \<open>
  C11: Matching a name with a wildcard pattern never fails an assertion and is true exactly for the names in
  the language of the pattern, term by term, whatever way it was computed: by anchoring a prefix and a suffix
  and backtracking over the stars, or term by term when the pattern has brackets.
\<close>

theorem path_match_exact:
  "path_match name pattern =
     Some (ends_with_separator name = ends_with_separator pattern \<and>
           language (pattern_terms (without_separator pattern)) (without_separator name))"
  by (auto simp: path_match_def ends_with_separator_def without_separator_def is_separator_def Let_def
      match_pattern_language)

section \<open>Patterns without wildcards\<close>

lemma bracket_body_append:
  assumes "bracket_body pre b = Some (r, w)"
  shows "bracket_body pre (b @ u) = Some (r, w @ u)"
proof -
  obtain x v where bx: "b = x # v" using assms by (cases b) (simp_all add: bracket_body_def)
  obtain y z where d: "dropWhile (\<lambda>d. d \<noteq> CHR '']'') v = y # z"
  proof (cases "dropWhile (\<lambda>d. d \<noteq> CHR '']'') v")
    case Nil
    have "bracket_body pre b = None" by (simp only: bracket_body_def bx list.case Nil)
    with assms show thesis by simp
  qed (rule that)
  with assms bx have b: "b = x # v" "dropWhile (\<lambda>d. d \<noteq> CHR '']'') v = y # w"
    "r = pre @ x # takeWhile (\<lambda>d. d \<noteq> CHR '']'') v @ [CHR '']'']"
    by (simp_all add: bracket_body_def)
  have "dropWhile (\<lambda>d. d \<noteq> CHR '']'') v = []" if "CHR '']'' \<notin> set v"
    using that by (simp add: dropWhile_eq_Nil_conv) metis
  with b(2) have "CHR '']'' \<in> set v" by auto
  then have "takeWhile (\<lambda>d. d \<noteq> CHR '']'') (v @ u) = takeWhile (\<lambda>d. d \<noteq> CHR '']'') v"
    "dropWhile (\<lambda>d. d \<noteq> CHR '']'') (v @ u) = dropWhile (\<lambda>d. d \<noteq> CHR '']'') v @ u"
    by (auto intro: takeWhile_append1 dropWhile_append1)
  with b show ?thesis by (simp add: bracket_body_def)
qed

lemma bracket_expression_append: "bracket_expression t = Some (b, w) \<Longrightarrow> bracket_expression (t @ u) = Some (b, w @ u)"
  by (auto simp: bracket_expression_def dest: bracket_body_append split: list.splits if_splits)

lemma next_term_append:
  assumes "next_term s = Some (pt, q)"
  shows "next_term (s @ t) = Some (pt, q @ t) \<or> (\<exists>pt' q'. next_term (s @ t) = Some (pt', q') \<and> pt_type pt' \<noteq> Literal)"
  using assms bracket_expression_append
  by (cases s) (auto simp: next_term_def single_term_def split: if_splits option.splits)

lemma path_pattern_append: "path_pattern s \<Longrightarrow> path_pattern (s @ t)"
proof (induction s rule: path_pattern.induct)
  case (1 s)
  then obtain pt q where n: "next_term s = Some (pt, q)" "pt_type pt \<noteq> Literal \<or> path_pattern q"
    by (auto simp: path_pattern.simps [of s] split: option.splits)
  with 1(1) [OF n(1) refl] next_term_append [OF n(1), of t] show ?case
    by (auto simp: path_pattern.simps [of "s @ t"])
qed

lemma literal_term: "next_term p = Some (pt, q) \<Longrightarrow> pt_type pt = Literal \<Longrightarrow> p = hd p # q \<and> pt = single_term Literal (hd p)"
  by (auto simp: next_term_def single_term_def split: list.splits if_splits option.splits)

lemma literal_language: "\<not> path_pattern p \<Longrightarrow> language (pattern_terms p) n \<longleftrightarrow> n = p"
proof (induction p arbitrary: n rule: path_pattern.induct)
  case (1 p)
  show ?case
  proof (cases "next_term p")
    case None
    then have "p = []" by (auto simp: next_term_def split: list.splits if_splits option.splits)
    with None pattern_terms_end [of p] show ?thesis by simp
  next
    case (Some x)
    obtain pt q where x: "next_term p = Some (pt, q)" using Some by (cases x) auto
    with 1(2) have q: "pt_type pt = Literal" "\<not> path_pattern q" by (auto simp: path_pattern.simps [of p])
    from literal_term [OF x q(1)] obtain d where p: "p = d # q" "pt = single_term Literal d" by metis
    have m: "match_char_term c pt = Some (c = d)" for c
      by (subst p(2)) (simp add: match_char_term_def get_literal_def single_term_def char_match_def)
    have "language (pattern_terms p) n \<longleftrightarrow> n \<noteq> [] \<and> hd n = d \<and> tl n = q"
      unfolding pattern_terms_next [OF x] using q 1(1) [OF x refl q(2)] by (subst language_single) (auto simp: m)
    also have "\<dots> \<longleftrightarrow> n = p" unfolding p(1) by (cases n) auto
    finally show ?thesis .
  qed
qed

text \<open>
  C37: A pattern in which no wildcard is recognized matches the name that is spelled like it and no other,
  also when it contains brackets that do not form a bracket expression.
\<close>

theorem literal_pattern_match:
  assumes "\<not> path_pattern pattern"
  shows "path_match name pattern = Some (name = pattern)"
proof (cases "ends_with_separator pattern")
  case False
  then show ?thesis
    using literal_language [OF assms] by (auto simp: path_match_exact without_separator_def)
next
  case True
  then obtain p where p: "pattern = p @ ''/''"
    by (metis append_butlast_last_id ends_with_separator_def)
  then have w: "without_separator pattern = p" by (simp add: without_separator_def ends_with_separator_def)
  have "\<not> path_pattern p" using path_pattern_append [of p "''/''"] p assms by blast
  note l = literal_language [OF this]
  show ?thesis
  proof (cases "ends_with_separator name")
    case nt: True
    then obtain n where n: "name = n @ ''/''" by (metis append_butlast_last_id ends_with_separator_def)
    then have "without_separator name = n" by (simp add: without_separator_def ends_with_separator_def)
    with nt True l w p n show ?thesis by (simp add: path_match_exact)
  next
    case False
    with True have "name \<noteq> pattern" by auto
    with False True show ?thesis by (simp add: path_match_exact)
  qed
qed

theorem literal_pattern_match_witness:
  "path_match ''a[b'' ''a[b'' = Some True"
proof -
  have "\<not> path_pattern ''a[b''" by code_simp
  from literal_pattern_match [OF this] show ?thesis by simp
qed

section \<open>Consecutive stars\<close>

fun star_run :: "nat \<Rightarrow> nat \<Rightarrow> path_pattern_term_type list \<Rightarrow> bool" where
  "star_run sn n [] \<longleftrightarrow> False"
| "star_run sn n (t # ts) \<longleftrightarrow> (if t = Star then n + 1 = sn \<or> star_run sn (n + 1) ts else star_run sn 0 ts)"

lemma stars_loop_run: "stars_loop sn n s \<longleftrightarrow> star_run sn n (map pt_type (pattern_terms s))"
proof (induction sn n s rule: stars_loop.induct)
  case (1 sn n s)
  show ?case
  proof (cases "next_term s")
    case None
    then show ?thesis by (simp add: stars_loop.simps [of sn n s] pattern_terms.simps [of s])
  next
    case (Some x)
    obtain pt q where x: "next_term s = Some (pt, q)" using Some by (cases x) auto
    show ?thesis
    proof (cases "pt_type pt = Star")
      case True
      with 1(1) [OF x refl True] x show ?thesis
        by (simp add: stars_loop.simps [of sn n s] pattern_terms_next [OF x])
    next
      case False
      with 1(2) [OF x refl False] x show ?thesis
        by (simp add: stars_loop.simps [of sn n s] pattern_terms_next [OF x])
    qed
  qed
qed

lemma stars_not_across:
  assumes "t \<noteq> a" "n < sn"
  shows "sublist (replicate sn a) (replicate n a @ t # ts) \<longleftrightarrow> sublist (replicate sn a) ts"
proof
  assume "sublist (replicate sn a) (replicate n a @ t # ts)"
  then consider "sublist (replicate sn a) (replicate n a)" | "sublist (replicate sn a) (t # ts)"
    | xs ys where "replicate sn a = xs @ ys" "suffix xs (replicate n a)" "prefix ys (t # ts)"
    by (auto simp: sublist_append)
  then show "sublist (replicate sn a) ts"
  proof cases
    case 1
    with sublist_length_le [OF 1] assms(2) show ?thesis by simp
  next
    case 2
    with assms show ?thesis by (cases sn) (auto simp: sublist_Cons_right)
  next
    case 3
    have "ys = []"
    proof (rule ccontr)
      assume "ys \<noteq> []"
      with 3(3) have "t \<in> set ys" by (cases ys) auto
      then have "t \<in> set (replicate sn a)" using 3(1) by simp
      with assms(1) show False by (simp split: if_splits)
    qed
    with 3(1) have "length xs = sn" by (metis append_Nil2 length_replicate)
    moreover have "length xs \<le> n" using suffix_length_le [OF 3(2)] by simp
    ultimately show ?thesis using assms(2) by simp
  qed
next
  assume "sublist (replicate sn a) ts"
  then show "sublist (replicate sn a) (replicate n a @ t # ts)"
    by (simp add: sublist_append sublist_Cons_right)
qed

lemma star_run_sublist:
  "n < sn \<Longrightarrow> star_run sn n ts \<longleftrightarrow> sublist (replicate sn Star) (replicate n Star @ ts)"
proof (induction ts arbitrary: n)
  case Nil
  have "\<not> sublist (replicate sn Star) (replicate n Star)"
    using sublist_length_le [of "replicate sn Star" "replicate n Star"] Nil by auto
  then show ?case by simp
next
  case (Cons t ts)
  show ?case
  proof (cases "t = Star")
    case True
    have r: "replicate n Star @ t # ts = replicate (n + 1) Star @ ts"
      using True by (simp add: replicate_app_Cons_same)
    show ?thesis
    proof (cases "n + 1 = sn")
      case True
      then show ?thesis unfolding r using \<open>t = Star\<close> by (simp add: sublist_append)
    next
      case False
      with Cons.prems Cons.IH [of "n + 1"] True show ?thesis unfolding r by simp
    qed
  next
    case False
    with stars_not_across [OF False Cons.prems] Cons.IH [of 0] Cons.prems show ?thesis by simp
  qed
qed

text \<open>
  A name is a recursive pattern when two of its terms in a row are stars, and self-matching when three
  are; stars inside bracket expressions do not count.
\<close>

lemma recursive_pattern_exact:
  "(path_pattern_recursive s \<longleftrightarrow> sublist [Star, Star] (map pt_type (pattern_terms s))) \<and>
   (path_pattern_self_matching s \<longleftrightarrow> sublist [Star, Star, Star] (map pt_type (pattern_terms s)))"
  using star_run_sublist [of 0 2] star_run_sublist [of 0 3]
  by (simp add: path_pattern_recursive_def path_pattern_self_matching_def stars_loop_run numeral_2_eq_2 numeral_3_eq_3)

end
