(* ===== verification/Path.thy ===== *)
theory Path
  imports Path_Pattern
begin

text \<open>
  Filesystem paths of \<open>libbutl\<close> (\<open>path.mxx\<close>, \<open>path.ixx\<close> and \<open>path.txx\<close>, POSIX): the stored string
  and the trailing separator, the traits, decomposition, combination, and the lexical operations
  \<open>normalize ()\<close> and \<open>relative ()\<close>. Functions of the operating system and Windows are left out.
\<close>

datatype path_error = Invalid_path string | Path_assertion

type_synonym 'a path_result = "path_error + 'a"

section \<open>Traits\<close>

definition find_separator :: "string \<Rightarrow> nat option" where
  "find_separator s =
     (let k = length (takeWhile (\<lambda>c. \<not> is_separator c) s) in if k < length s then Some k else None)"

definition rfind_separator :: "string \<Rightarrow> nat option" where
  "rfind_separator s = (case dropWhile (\<lambda>c. \<not> is_separator c) (rev s) of [] \<Rightarrow> None | _ # t \<Rightarrow> Some (length t))"

definition tr_absolute :: "string \<Rightarrow> bool" where
  "tr_absolute s \<longleftrightarrow> s \<noteq> [] \<and> is_separator (hd s)"

definition tr_current :: "string \<Rightarrow> bool" where
  "tr_current s \<longleftrightarrow> s = ''.''"

definition tr_parent :: "string \<Rightarrow> bool" where
  "tr_parent s \<longleftrightarrow> s = ''..''"

definition tr_root :: "string \<Rightarrow> bool" where
  "tr_root s \<longleftrightarrow> length s = 1 \<and> is_separator (hd s)"

text \<open>
  The loop of \<open>normalized ()\<close>: the component read so far and the rest. Only canonical separators exist.
\<close>

fun normalized_loop :: "string \<Rightarrow> string \<Rightarrow> bool" where
  "normalized_loop c [] \<longleftrightarrow> \<not> (tr_parent c \<or> tr_current c)"
| "normalized_loop c (d # s) \<longleftrightarrow>
     (if is_separator d
      then \<not> (s \<noteq> [] \<and> is_separator (hd s)) \<and> \<not> (tr_parent c \<or> tr_current c) \<and> normalized_loop [] s
      else normalized_loop (c @ [d]) s)"

definition tr_normalized :: "string \<Rightarrow> bool" where
  "tr_normalized s \<longleftrightarrow> normalized_loop [] s"

text \<open>The position of the dot of the extension.\<close>

definition find_extension :: "string \<Rightarrow> nat option" where
  "find_extension s =
     (case dropWhile (\<lambda>c. c \<noteq> CHR ''.'' \<and> \<not> is_separator c) (rev s) of
        [] \<Rightarrow> None
      | c # t \<Rightarrow>
          if c = CHR ''.'' \<and> t \<noteq> [] \<and> \<not> is_separator (hd t) \<and> length t + 1 \<noteq> length s
          then Some (length t) else None)"

section \<open>Storage\<close>

record path =
  path_str :: string   \<comment> \<open>\<open>path_\<close>\<close>
  path_tsep :: int     \<comment> \<open>\<open>tsep_\<close>\<close>

definition path_data :: "string \<Rightarrow> int \<Rightarrow> path" where
  "path_data s ts = \<lparr>path_str = s, path_tsep = (if s = [] then 0 else ts)\<rparr>"

definition empty_path :: path where
  "empty_path = \<lparr>path_str = [], path_tsep = 0\<rparr>"

text \<open>\<open>_init ()\<close>\<close>

definition data_init :: "string \<Rightarrow> path" where
  "data_init s =
     (if s \<noteq> [] \<and> is_separator (last s)
      then (if length s = 1 then \<lparr>path_str = s, path_tsep = -1\<rparr> else \<lparr>path_str = butlast s, path_tsep = 1\<rparr>)
      else \<lparr>path_str = s, path_tsep = 0\<rparr>)"

text \<open>\<open>any_path_kind::init ()\<close> and \<open>dir_path_kind::init ()\<close>\<close>

definition path_init :: "string \<Rightarrow> bool \<Rightarrow> path" where
  "path_init s exact =
     (let t = rev (dropWhile is_separator (rev s)); k = length s - length t in
      if k \<noteq> 0
      then if exact \<and> k > 1 then empty_path
           else if t = [] then path_data (take 1 s) (-1)
           else path_data t 1
      else path_data t 0)"

definition dir_cast :: "path \<Rightarrow> path" where
  "dir_cast p = (if path_str p \<noteq> [] \<and> path_tsep p = 0 then p\<lparr>path_tsep := 1\<rparr> else p)"

definition dir_path_init :: "string \<Rightarrow> bool \<Rightarrow> path" where
  "dir_path_init s exact =
     (if exact \<and> s \<noteq> [] \<and> \<not> is_separator (last s) then empty_path
      else dir_cast (path_init s exact))"

definition path_size :: "path \<Rightarrow> nat" where
  "path_size p = (if path_tsep p < 0 then length (path_str p) - 1 else length (path_str p))"

definition representation :: "path \<Rightarrow> string" where
  "representation p = (if path_tsep p > 0 then path_str p @ ''/'' else path_str p)"

definition path_absolute :: "path \<Rightarrow> bool" where
  "path_absolute p \<longleftrightarrow> tr_absolute (path_str p)"

definition path_root :: "path \<Rightarrow> bool" where
  "path_root p \<longleftrightarrow> tr_root (path_str p)"

definition path_normalized :: "path \<Rightarrow> bool" where
  "path_normalized p \<longleftrightarrow> path_tsep p \<le> 1 \<and> tr_normalized (path_str p)"

text \<open>For the root \<open>_size () - 1\<close> is \<open>npos\<close>, so the whole string is searched.\<close>

definition path_simple :: "path \<Rightarrow> bool" where
  "path_simple p \<longleftrightarrow>
     path_str p = [] \<or>
     rfind_separator (if path_size p = 0 then path_str p else take (path_size p) (path_str p)) = None"

section \<open>Parts of paths\<close>

definition last_separator :: "path \<Rightarrow> nat option" where
  "last_separator p = (if path_size p \<noteq> 0 then rfind_separator (take (path_size p) (path_str p)) else None)"

definition path_leaf :: "path \<Rightarrow> path" where
  "path_leaf p =
     (case last_separator p of Some k \<Rightarrow> path_data (drop (k + 1) (path_str p)) (path_tsep p) | None \<Rightarrow> p)"

definition path_directory :: "path \<Rightarrow> path" where
  "path_directory p =
     (case last_separator p of Some k \<Rightarrow> data_init (take (k + 1) (path_str p)) | None \<Rightarrow> empty_path)"

definition path_base :: "path \<Rightarrow> path" where
  "path_base p =
     (case find_extension (path_str p) of Some k \<Rightarrow> path_data (take k (path_str p)) (path_tsep p) | None \<Rightarrow> p)"

definition path_extension :: "path \<Rightarrow> string" where
  "path_extension p =
     (case find_extension (path_str p) of Some k \<Rightarrow> drop (k + 1) (path_str p) | None \<Rightarrow> [])"

definition path_sub :: "path \<Rightarrow> path \<Rightarrow> bool" where
  "path_sub p q \<longleftrightarrow>
     (let ps = path_str q; pn = length ps; s = path_str p; n = length s in
      pn = 0 \<or>
      (n \<ge> pn \<and> take pn s = ps \<and> (is_separator (last ps) \<or> n = pn \<or> is_separator (s ! pn))))"

definition path_sup :: "path \<Rightarrow> path \<Rightarrow> bool" where
  "path_sup p q \<longleftrightarrow>
     (let ps = path_str q; pn = length ps; s = path_str p; n = length s in
      pn = 0 \<or>
      (n \<ge> pn \<and> drop (n - pn) s = ps \<and> (n = pn \<or> is_separator (s ! (n - pn - 1)))))"

text \<open>\<open>leaf (d)\<close> and \<open>directory (l)\<close>\<close>

definition path_leaf_of :: "path \<Rightarrow> path \<Rightarrow> path path_result" where
  "path_leaf_of p d =
     (let dn = length (path_str d); s = path_str p in
      if dn = 0 then Inr p
      else if \<not> path_sub p d then Inl (Invalid_path s)
      else let dn = (if path_tsep d > 0 \<and> dn < length s then dn + 1 else dn)
           in Inr (path_data (drop dn s) (path_tsep p)))"

definition path_directory_of :: "path \<Rightarrow> path \<Rightarrow> path path_result" where
  "path_directory_of p l =
     (let ln = length (path_str l); s = path_str p in
      if ln = 0 then (if path_tsep p = 0 then Inl (Invalid_path s) else Inr (path_data s (path_tsep p)))
      else if \<not> path_sup p l then Inl (Invalid_path s)
      else Inr (data_init (take (length s - ln) s)))"

section \<open>Combining\<close>

definition combine_impl :: "path \<Rightarrow> string \<Rightarrow> int \<Rightarrow> path" where
  "combine_impl p r rts =
     \<lparr>path_str =
        path_str p @ (if path_tsep p = 0 then (if path_str p \<noteq> [] then ''/'' else [])
                      else if path_tsep p = -1 then [] else ''/'') @ r,
      path_tsep = rts\<rparr>"

text \<open>\<open>operator/= (r)\<close> for a path, and for a component as a string, which a directory path casts.\<close>

definition combine :: "path \<Rightarrow> path \<Rightarrow> path path_result" where
  "combine p r =
     (if path_absolute r \<and> path_str p \<noteq> [] then Inl (Invalid_path (path_str r))
      else Inr (if path_str r \<noteq> [] then combine_impl p (path_str r) (path_tsep r) else p))"

definition combine_component :: "bool \<Rightarrow> path \<Rightarrow> string \<Rightarrow> path path_result" where
  "combine_component dir p r =
     (if r = [] then Inr p
      else if find_separator r \<noteq> None then Inl (Invalid_path r)
      else Inr (let q = combine_impl p r 0 in if dir then dir_cast q else q))"

section \<open>Normalizing\<close>

text \<open>The components, which may be separated by several separators.\<close>

function split_path :: "string \<Rightarrow> string list" where
  "split_path s =
     (case dropWhile (\<lambda>c. \<not> is_separator c) s of
        [] \<Rightarrow> [takeWhile (\<lambda>c. \<not> is_separator c) s]
      | _ # t \<Rightarrow>
          takeWhile (\<lambda>c. \<not> is_separator c) s #
            (if dropWhile is_separator t = [] then [] else split_path (dropWhile is_separator t)))"
  by pat_completeness auto
termination
proof (relation "measure length", goal_cases)
  case (2 s c t)
  have "length (c # t) \<le> length s" using 2(1) length_dropWhile_le by metis
  with length_dropWhile_le [of is_separator t] show ?case by simp
qed simp

declare split_path.simps [simp del]

text \<open>Collapsing \<open>.\<close> and \<open>..\<close>; the result is kept in reverse, its last component first.\<close>

fun collapse :: "bool \<Rightarrow> string list \<Rightarrow> string list \<Rightarrow> string list option" where
  "collapse ab r [] = Some (rev r)"
| "collapse ab r (c # cs) =
     (if tr_current c then collapse ab r cs
      else if tr_parent c \<and> r \<noteq> [] \<and> \<not> tr_parent (hd r)
      then (if ab \<and> length r = 1 then None else collapse ab (tl r) cs)
      else collapse ab (c # r) cs)"

fun join_path :: "string list \<Rightarrow> string" where
  "join_path [] = []"
| "join_path [c] = c"
| "join_path (c # cs) = c @ ''/'' @ join_path cs"

text \<open>The trailing separator of the result.\<close>

definition finish_path :: "bool \<Rightarrow> bool \<Rightarrow> bool \<Rightarrow> string \<Rightarrow> path" where
  "finish_path ab cur_empty tsep s =
     (if tsep
      then (if s = []
            then (if ab then \<lparr>path_str = ''/'', path_tsep = -1\<rparr>
                  else if \<not> cur_empty then \<lparr>path_str = ''.'', path_tsep = 1\<rparr>
                  else \<lparr>path_str = [], path_tsep = 0\<rparr>)
            else \<lparr>path_str = s, path_tsep = 1\<rparr>)
      else \<lparr>path_str = s, path_tsep = 0\<rparr>)"

text \<open>Without a file system that is case-insensitive, \<open>actual\<close> is only asserted to be for an absolute path.\<close>

definition normalize :: "bool \<Rightarrow> bool \<Rightarrow> path \<Rightarrow> path path_result" where
  "normalize actual cur_empty p =
     (if path_str p = [] then Inr p
      else
        let ab = path_absolute p in
        if actual \<and> \<not> ab then Inl Path_assertion
        else
          let ps = split_path (take (path_size p) (path_str p));
              tsep = (path_tsep p \<noteq> 0 \<or> tr_current (last ps) \<or> tr_parent (last ps))
          in case collapse ab [] ps of
               None \<Rightarrow> Inl (Invalid_path (path_str p))
             | Some r \<Rightarrow> Inr (finish_path ab cur_empty tsep (join_path r)))"

section \<open>Relative paths\<close>

lemma rfind_separator_split:
  assumes "rfind_separator s = Some k"
  shows "k < length s \<and> is_separator (s ! k)"
proof -
  obtain c t where d: "dropWhile (\<lambda>c. \<not> is_separator c) (rev s) = c # t" "k = length t"
    using assms by (auto simp: rfind_separator_def split: list.splits)
  obtain u where u: "rev s = u @ c # t" using d(1) by (metis takeWhile_dropWhile_id)
  have "is_separator c" using d(1) hd_dropWhile [of "\<lambda>c. \<not> is_separator c" "rev s"] by simp
  moreover have "s = rev t @ c # rev u" using arg_cong [OF u, of rev] by simp
  ultimately show ?thesis using d(2) by (simp add: nth_append)
qed

lemma path_directory_shorter:
  assumes "path_str p \<noteq> []" "\<not> path_root p"
  shows "length (path_str (path_directory p)) < length (path_str p)"
proof (cases "last_separator p")
  case None
  with assms(1) show ?thesis by (simp add: path_directory_def empty_path_def)
next
  case (Some k)
  then have k: "k < length (path_str p)" "is_separator (path_str p ! k)"
    using rfind_separator_split [of "take (path_size p) (path_str p)" k]
    by (auto simp: last_separator_def path_size_def split: if_splits)
  with Some show ?thesis
  proof (cases "length (path_str p) = 1")
    case True
    with k have "path_root p" by (cases "path_str p") (auto simp: path_root_def tr_root_def)
    with assms(2) show ?thesis by simp
  next
    case False
    have "last (take (k + 1) (path_str p)) = path_str p ! k" using k(1) by (simp add: take_Suc_conv_app_nth)
    with Some k False show ?thesis by (auto simp: path_directory_def data_init_def)
  qed
qed

function relative_loop :: "path \<Rightarrow> path \<Rightarrow> path \<Rightarrow> (path \<times> path) path_result" where
  "relative_loop p d r =
     (if path_sub p d then Inr (r, d)
      else case combine_component True r ''..'' of
        Inl e \<Rightarrow> Inl e
      | Inr r1 \<Rightarrow>
          if path_root d then Inl (Invalid_path (path_str p))
          else relative_loop p (path_directory d) r1)"
  by pat_completeness auto
termination
  by (relation "measure (\<lambda>(p, d, r). length (path_str d))")
    (auto simp: path_sub_def Let_def intro: path_directory_shorter)

declare relative_loop.simps [simp del]

definition path_relative :: "path \<Rightarrow> path \<Rightarrow> path path_result" where
  "path_relative p d =
     (case relative_loop p d empty_path of
        Inl e \<Rightarrow> Inl e
      | Inr (r, d1) \<Rightarrow>
          (case path_leaf_of p d1 of Inl e \<Rightarrow> Inl e | Inr l \<Rightarrow> combine r l))"

end
