(* ===== verification/Path_Properties.thy ===== *)
theory Path_Properties
  imports Path "HOL-Library.Sublist"
begin

text \<open>
  Paths as lists of components: the operations on the strings are the operations on the lists. Normalizing
  keeps the place that the path leads to, and a relative path leads from the directory to the path.
\<close>

section \<open>Components\<close>

definition no_separator :: "string \<Rightarrow> bool" where
  "no_separator c \<longleftrightarrow> (\<forall>d \<in> set c. \<not> is_separator d)"

definition component :: "string \<Rightarrow> bool" where
  "component c \<longleftrightarrow> c \<noteq> [] \<and> no_separator c"

lemma separator_char [simp]: "is_separator CHR ''/''"
  by (simp add: is_separator_def)

lemma no_separator_simps [simp]:
  "no_separator []" "no_separator (d # c) \<longleftrightarrow> \<not> is_separator d \<and> no_separator c"
  "no_separator (c @ c') \<longleftrightarrow> no_separator c \<and> no_separator c'"
  by (auto simp: no_separator_def)

lemma component_hd_last: "component c \<Longrightarrow> \<not> is_separator (hd c) \<and> \<not> is_separator (last c)"
  by (auto simp: component_def no_separator_def)

text \<open>The components, each followed by a separator.\<close>

definition dirs :: "string list \<Rightarrow> string" where
  "dirs cs = concat (map (\<lambda>c. c @ ''/'') cs)"

lemma dirs_simps [simp]: "dirs [] = []" "dirs (c # cs) = c @ ''/'' @ dirs cs" "dirs (cs @ cs') = dirs cs @ dirs cs'"
  by (simp_all add: dirs_def)

definition root_of :: "bool \<Rightarrow> string" where
  "root_of a = (if a then ''/'' else [])"

definition str_of :: "bool \<Rightarrow> string list \<Rightarrow> string" where
  "str_of a cs = root_of a @ (if cs = [] then [] else dirs (butlast cs) @ last cs)"

lemma str_of_simps [simp]:
  "str_of a [] = root_of a" "str_of a (cs @ [c]) = root_of a @ dirs cs @ c"
  by (simp_all add: str_of_def)

lemma str_of_single [simp]: "str_of a [c] = root_of a @ c"
  by (simp add: str_of_def)

lemma str_of_dirs: "cs \<noteq> [] \<Longrightarrow> str_of a cs @ ''/'' = root_of a @ dirs cs"
  by (cases cs rule: rev_cases) simp_all

lemma join_path_dirs: "cs \<noteq> [] \<Longrightarrow> join_path cs @ ''/'' = dirs cs"
  by (induction cs rule: join_path.induct) simp_all

lemma join_path_str: "join_path cs = str_of False cs"
proof (cases "cs = []")
  case False
  then have "join_path cs @ ''/'' = str_of False cs @ ''/''"
    using join_path_dirs [of cs] str_of_dirs [of cs False] by (metis append_Nil root_of_def)
  then show ?thesis by simp
qed (simp add: root_of_def)

lemma join_path_root: "join_path ([] # cs) = (if cs = [] then [] else str_of True cs)"
  by (cases cs) (simp_all add: join_path_str str_of_def root_of_def)

text \<open>A path in canonical form, with the components \<open>cs\<close> and maybe a trailing separator.\<close>

definition mk_path :: "bool \<Rightarrow> string list \<Rightarrow> bool \<Rightarrow> path" where
  "mk_path a cs dir =
     \<lparr>path_str = str_of a cs, path_tsep = (if cs = [] then (if a then -1 else 0) else if dir then 1 else 0)\<rparr>"

lemma mk_path_fields [simp]:
  "path_str (mk_path a cs dir) = str_of a cs"
  "path_tsep (mk_path a cs dir) = (if cs = [] then (if a then -1 else 0) else if dir then 1 else 0)"
  by (simp_all add: mk_path_def)

definition components :: "string list \<Rightarrow> bool" where
  "components cs \<longleftrightarrow> (\<forall>c \<in> set cs. component c)"

lemma components_simps [simp]:
  "components []" "components (c # cs) \<longleftrightarrow> component c \<and> components cs"
  "components (cs @ cs') \<longleftrightarrow> components cs \<and> components cs'"
  by (auto simp: components_def)

lemma str_of_empty: "components cs \<Longrightarrow> str_of a cs = [] \<longleftrightarrow> \<not> a \<and> cs = []"
  by (cases cs rule: rev_cases) (auto simp: root_of_def component_def)

lemma str_of_last: "components cs \<Longrightarrow> cs \<noteq> [] \<Longrightarrow> \<not> is_separator (last (str_of a cs))"
  by (cases cs rule: rev_cases) (auto simp: component_def no_separator_def)

lemma str_of_hd: "components cs \<Longrightarrow> str_of a cs \<noteq> [] \<Longrightarrow> is_separator (hd (str_of a cs)) = a"
proof (cases a)
  case False
  assume cs: "components cs" "str_of a cs \<noteq> []"
  with False obtain c ds where "cs = c # ds" by (cases cs) (auto simp: root_of_def)
  with False cs show ?thesis
    by (cases ds rule: rev_cases) (auto simp: str_of_def root_of_def component_def hd_append no_separator_def)
qed (simp add: str_of_def root_of_def)

lemma mk_path_absolute [simp]: "components cs \<Longrightarrow> path_absolute (mk_path a cs dir) = a"
  using str_of_hd [of cs a] str_of_empty [of cs a] by (auto simp: path_absolute_def tr_absolute_def)

lemma mk_path_size: "components cs \<Longrightarrow> take (path_size (mk_path a cs dir)) (str_of a cs) = (if cs = [] then [] else str_of a cs)"
  by (auto simp: path_size_def root_of_def)

lemma mk_path_root [simp]: "components cs \<Longrightarrow> path_root (mk_path a cs dir) \<longleftrightarrow> a \<and> cs = []"
proof (cases cs rule: rev_cases)
  case (snoc bs c)
  assume "components cs"
  then have "str_of a cs = [] \<or> length (str_of a cs) \<noteq> 1 \<or> \<not> is_separator (hd (str_of a cs))"
    using str_of_hd [of cs a] str_of_last [of cs a] snoc by (cases "str_of a cs") auto
  with snoc show ?thesis by (auto simp: path_root_def tr_root_def)
qed (auto simp: path_root_def tr_root_def root_of_def)

section \<open>Directories and leaves\<close>

lemma rfind_separator_last:
  assumes "no_separator c"
  shows "rfind_separator (u @ ''/'' @ c) = Some (length u)" "rfind_separator c = None"
proof -
  have d: "dropWhile (\<lambda>c. \<not> is_separator c) (rev c @ v) = dropWhile (\<lambda>c. \<not> is_separator c) v" for v
    by (rule dropWhile_append2) (use assms in \<open>auto simp: no_separator_def\<close>)
  show "rfind_separator (u @ ''/'' @ c) = Some (length u)"
    using d [of "CHR ''/'' # rev u"] by (simp add: rfind_separator_def)
  have "dropWhile (\<lambda>c. \<not> is_separator c) (rev c) = []" using d [of "[]"] by simp
  then show "rfind_separator c = None" by (simp only: rfind_separator_def list.case)
qed

lemma dirs_last: "cs \<noteq> [] \<Longrightarrow> \<exists>u. dirs cs = u @ ''/'' \<and> u = str_of False cs"
  using str_of_dirs [of cs False] by (simp add: root_of_def)

lemma last_separator_none: "component c \<Longrightarrow> last_separator (mk_path False [c] dir) = None"
  using rfind_separator_last(2) [of c] by (simp add: last_separator_def path_size_def str_of_def root_of_def component_def)

lemma last_separator_some:
  assumes "components (bs @ [c])" "root_of a @ dirs bs \<noteq> []"
  obtains k where "last_separator (mk_path a (bs @ [c]) dir) = Some k" "Suc k = length (root_of a @ dirs bs)"
proof -
  have c: "no_separator c" "c \<noteq> []" using assms(1) by (auto simp: component_def)
  obtain u where u: "root_of a @ dirs bs = u @ ''/''"
  proof (cases "bs = []")
    case False
    with dirs_last [OF False] that [of "root_of a @ str_of False bs"] show thesis by auto
  qed (use that [of "[]"] assms(2) in \<open>auto simp: root_of_def split: if_splits\<close>)
  have "last_separator (mk_path a (bs @ [c]) dir) = rfind_separator ((root_of a @ dirs bs) @ c)"
    using c(2) by (simp add: last_separator_def path_size_def)
  also have "\<dots> = Some (length u)" unfolding u using rfind_separator_last(1) [OF c(1), of u] by simp
  finally show thesis using that u by simp
qed

lemma root_dirs_empty: "root_of a @ dirs bs = [] \<longleftrightarrow> \<not> a \<and> bs = []"
  by (cases bs) (auto simp: root_of_def)

lemma str_of_snoc: "str_of a (bs @ [c]) = (root_of a @ dirs bs) @ c"
  by simp

lemma data_init_dirs:
  assumes "components bs" "root_of a @ dirs bs \<noteq> []"
  shows "data_init (root_of a @ dirs bs) = mk_path a bs True"
proof (cases "bs = []")
  case True
  with assms(2) show ?thesis by (simp add: data_init_def mk_path_def root_of_def split: if_splits)
next
  case False
  have s: "root_of a @ dirs bs = str_of a bs @ ''/''" using str_of_dirs [OF False] by simp
  have "str_of a bs \<noteq> []" using str_of_empty [of bs a] assms(1) False by simp
  with False show ?thesis unfolding s by (simp add: data_init_def mk_path_def)
qed

lemma directory_mk:
  assumes "components (bs @ [c])"
  shows "path_directory (mk_path a (bs @ [c]) dir) = mk_path a bs True"
proof (cases "root_of a @ dirs bs = []")
  case True
  then have "\<not> a" "bs = []" using root_dirs_empty [of a bs] by simp_all
  with assms show ?thesis
    using last_separator_none [of c dir] by (simp add: path_directory_def empty_path_def mk_path_def root_of_def)
next
  case False
  obtain k where k: "last_separator (mk_path a (bs @ [c]) dir) = Some k" "Suc k = length (root_of a @ dirs bs)"
    using last_separator_some [OF assms False] by blast
  have "take (Suc k) (str_of a (bs @ [c])) = root_of a @ dirs bs" unfolding str_of_snoc k(2) by simp
  with k(1) data_init_dirs [of bs a] False assms show ?thesis
    by (simp add: path_directory_def del: str_of_simps)
qed

lemma leaf_mk:
  assumes "components (bs @ [c])"
  shows "path_leaf (mk_path a (bs @ [c]) dir) = mk_path False [c] dir"
proof (cases "root_of a @ dirs bs = []")
  case True
  then have "\<not> a" "bs = []" using root_dirs_empty [of a bs] by simp_all
  with assms show ?thesis using last_separator_none [of c dir] by (simp add: path_leaf_def)
next
  case False
  obtain k where k: "last_separator (mk_path a (bs @ [c]) dir) = Some k" "Suc k = length (root_of a @ dirs bs)"
    using last_separator_some [OF assms False] by blast
  have "drop (Suc k) (str_of a (bs @ [c])) = c" unfolding str_of_snoc k(2) by simp
  with k(1) assms show ?thesis
    by (simp add: path_leaf_def path_data_def mk_path_def component_def str_of_def root_of_def del: str_of_simps)
qed

text \<open>
  A path in canonical form is its directory combined with its leaf, and the leaf keeps the trailing
  separator.
\<close>

lemma directory_leaf_roundtrip:
  assumes "components (bs @ [c])"
  shows "combine (path_directory (mk_path a (bs @ [c]) dir)) (path_leaf (mk_path a (bs @ [c]) dir)) =
    Inr (mk_path a (bs @ [c]) dir)"
proof -
  have c: "component c" "components bs" "components [c]" using assms by simp_all
  have "\<not> path_absolute (mk_path False [c] dir)" using mk_path_absolute [OF c(3)] by simp
  moreover have "combine_impl (mk_path a bs True) c (path_tsep (mk_path False [c] dir)) = mk_path a (bs @ [c]) dir"
    using str_of_dirs [of bs a] c(1)
    by (cases "bs = []") (auto simp: combine_impl_def mk_path_def root_of_def component_def str_of_empty [OF c(2)])
  ultimately show ?thesis
    using c(1) unfolding directory_mk [OF assms] leaf_mk [OF assms]
    by (simp add: combine_def component_def str_of_def root_of_def)
qed

lemma directory_leaf_roundtrip_witness:
  "combine (mk_path True [''usr''] True) (mk_path False [''lib''] False) = Inr (mk_path True [''usr'', ''lib''] False)"
proof -
  have "components ([''usr''] @ [''lib''])" by code_simp
  from directory_leaf_roundtrip [OF this, of True False]
  show ?thesis unfolding directory_mk [OF \<open>components ([''usr''] @ [''lib''])\<close>] leaf_mk [OF \<open>components ([''usr''] @ [''lib''])\<close>]
    by simp
qed

section \<open>Sub-paths\<close>

lemma prefix_component:
  assumes "no_separator c" "no_separator d"
  shows "prefix (d @ ''/'' @ u) (c @ ''/'' @ v) \<longleftrightarrow> d = c \<and> prefix u v"
  using assms
proof (induction d arbitrary: c)
  case Nil
  then show ?case by (cases c) auto
next
  case (Cons x d)
  then show ?case by (cases c) auto
qed

lemma prefix_dirs: "components cs \<Longrightarrow> components ds \<Longrightarrow> prefix (dirs ds) (dirs cs) \<longleftrightarrow> prefix ds cs"
proof (induction ds arbitrary: cs)
  case (Cons d ds)
  show ?case
  proof (cases cs)
    case (Cons c es)
    with Cons.prems Cons.IH [of es] prefix_component [of c d "dirs ds" "dirs es"] show ?thesis
      by (simp add: component_def)
  qed simp
qed simp

lemma prefix_with_separator:
  assumes "ps \<noteq> []" "\<not> is_separator (last ps)"
  shows "(length s \<ge> length ps \<and> take (length ps) s = ps \<and>
      (is_separator (last ps) \<or> length s = length ps \<or> is_separator (s ! length ps))) \<longleftrightarrow>
    prefix (ps @ ''/'') (s @ ''/'')"
proof -
  have "prefix (ps @ ''/'') (s @ ''/'') \<longleftrightarrow> (\<exists>t. s @ ''/'' = ps @ CHR ''/'' # t)"
    by (auto simp: prefix_def)
  also have "\<dots> \<longleftrightarrow> s = ps \<or> (\<exists>t. s = ps @ CHR ''/'' # t)"
  proof
    assume "\<exists>t. s @ ''/'' = ps @ CHR ''/'' # t"
    then obtain t where t: "s @ ''/'' = ps @ CHR ''/'' # t" by blast
    show "s = ps \<or> (\<exists>t. s = ps @ CHR ''/'' # t)"
      using t by (cases t rule: rev_cases) auto
  qed auto
  also have "\<dots> \<longleftrightarrow> length s \<ge> length ps \<and> take (length ps) s = ps \<and> (length s = length ps \<or> s ! length ps = CHR ''/'')"
  proof
    assume l: "length s \<ge> length ps \<and> take (length ps) s = ps \<and> (length s = length ps \<or> s ! length ps = CHR ''/'')"
    then have s: "s = ps @ drop (length ps) s" by (metis append_take_drop_id)
    show "s = ps \<or> (\<exists>t. s = ps @ CHR ''/'' # t)"
    proof (cases "length s = length ps")
      case False
      with l have "drop (length ps) s = CHR ''/'' # drop (Suc (length ps)) s"
        by (metis Cons_nth_drop_Suc le_neq_implies_less)
      with s show ?thesis by metis
    qed (use s in simp)
  qed auto
  finally show ?thesis using assms(2) by (simp add: is_separator_def)
qed

lemma sub_mk:
  assumes "components cs" "components ds"
  shows "path_sub (mk_path a cs x) (mk_path a ds y) \<longleftrightarrow> prefix ds cs"
proof (cases "ds = []")
  case True
  have "a \<Longrightarrow> length (str_of a cs) \<ge> 1 \<and> take 1 (str_of a cs) = ''/''" by (simp add: str_of_def root_of_def)
  with True show ?thesis by (auto simp: path_sub_def Let_def root_of_def)
next
  case False
  have d: "str_of a ds \<noteq> []" "\<not> is_separator (last (str_of a ds))"
    using str_of_empty [OF assms(2), of a] str_of_last [OF assms(2) False, of a] False by simp_all
  have "path_sub (mk_path a cs x) (mk_path a ds y) \<longleftrightarrow> prefix (str_of a ds @ ''/'') (str_of a cs @ ''/'')"
    using prefix_with_separator [OF d, of "str_of a cs"] d(1) by (simp add: path_sub_def Let_def)
  also have "\<dots> \<longleftrightarrow> prefix ds cs"
  proof (cases "cs = []")
    case True
    have "length (dirs ds) \<ge> 2" using False assms(2) by (cases ds) (auto simp: component_def Suc_le_eq)
    then have "\<not> prefix (root_of a @ dirs ds) (root_of a @ ''/'')"
      using prefix_length_le [of "root_of a @ dirs ds" "root_of a @ ''/''"] by auto
    with True False str_of_dirs [OF False] show ?thesis by simp
  next
    case c: False
    have "prefix (root_of a @ dirs ds) (root_of a @ dirs cs) \<longleftrightarrow> prefix (dirs ds) (dirs cs)" by simp
    with prefix_dirs [OF assms] str_of_dirs [OF False] str_of_dirs [OF c] show ?thesis by simp
  qed
  finally show ?thesis .
qed

lemma leaf_of_mk:
  assumes "components cs" "components ds" "prefix ds cs"
  shows "path_leaf_of (mk_path a cs x) (mk_path a ds True) =
    Inr (if ds = [] \<and> \<not> a then mk_path a cs x else mk_path False (drop (length ds) cs) x)"
proof (cases "ds = []")
  case True
  show ?thesis
  proof (cases a)
    case True
    with \<open>ds = []\<close> sub_mk [OF assms(1,2), of a x True] assms(3) show ?thesis
      by (auto simp: path_leaf_of_def path_data_def mk_path_def root_of_def str_of_def str_of_empty)
        (metis append_is_Nil_conv last_in_set assms(1) components_def component_def)+
  next
    case False
    with \<open>ds = []\<close> show ?thesis by (simp add: path_leaf_of_def root_of_def)
  qed
next
  case False
  then obtain es where cs: "cs = ds @ es" using assms(3) by (auto simp: prefix_def)
  have d: "str_of a ds \<noteq> []" using str_of_empty [OF assms(2), of a] False by simp
  have sub: "path_sub (mk_path a cs x) (mk_path a ds True)" using sub_mk [OF assms(1,2)] assms(3) by simp
  show ?thesis
  proof (cases "es = []")
    case True
    with cs d sub False show ?thesis by (simp add: path_leaf_of_def path_data_def mk_path_def root_of_def)
  next
    case e: False
    then have s: "str_of a cs = (str_of a ds @ ''/'') @ str_of False es"
      using str_of_dirs [OF False, of a] cs by (cases es rule: rev_cases) (simp_all add: root_of_def flip: append_assoc)
    have "str_of False es \<noteq> []" using str_of_empty [of es False] assms(1) cs e by simp
    then have dr: "drop (length (str_of a ds) + 1) (str_of a cs) = str_of False es"
      "length (str_of a ds) + 1 < length (str_of a cs)" by (simp_all add: s)
    then show ?thesis
      using cs d sub False e \<open>str_of False es \<noteq> []\<close>
      by (simp add: path_leaf_of_def Let_def path_data_def mk_path_def)
  qed
qed

lemma combine_mk:
  assumes "components ds" "components es"
  shows "combine (mk_path a ds True) (mk_path False es x) =
    Inr (if ds = [] \<and> \<not> a \<and> es = [] then mk_path a ds True else mk_path a (ds @ es) (if es = [] then True else x))"
proof (cases "es = []")
  case True
  then show ?thesis using mk_path_absolute [of "[]" False x] by (simp add: combine_def root_of_def)
next
  case False
  have e: "str_of False es \<noteq> []" using str_of_empty [OF assms(2), of False] False by simp
  have "combine_impl (mk_path a ds True) (str_of False es) (path_tsep (mk_path False es x)) = mk_path a (ds @ es) x"
  proof (cases "ds = []")
    case True
    with False show ?thesis by (simp add: combine_impl_def mk_path_def root_of_def str_of_def)
  next
    case d: False
    have s: "str_of a (ds @ es) = str_of a ds @ ''/'' @ str_of False es"
      using str_of_dirs [OF d, of a] False by (cases es rule: rev_cases) (simp_all add: root_of_def flip: append_assoc)
    with False d str_of_empty [OF assms(1), of a] show ?thesis by (simp add: combine_impl_def mk_path_def)
  qed
  then show ?thesis using e False assms(2) by (simp add: combine_def)
qed

section \<open>Splitting into components\<close>

lemma take_component: "no_separator c \<Longrightarrow> takeWhile (\<lambda>d. \<not> is_separator d) (c @ CHR ''/'' # t) = c"
  "no_separator c \<Longrightarrow> dropWhile (\<lambda>d. \<not> is_separator d) (c @ CHR ''/'' # t) = CHR ''/'' # t"
  "no_separator c \<Longrightarrow> takeWhile (\<lambda>d. \<not> is_separator d) c = c"
  "no_separator c \<Longrightarrow> dropWhile (\<lambda>d. \<not> is_separator d) c = []"
  by (simp_all add: no_separator_def takeWhile_append2 dropWhile_append2)

lemma split_last: "no_separator c \<Longrightarrow> split_path c = [c]"
  by (simp add: split_path.simps [of c] take_component)

lemma split_first:
  assumes "no_separator c" "t \<noteq> []" "\<not> is_separator (hd t)"
  shows "split_path (c @ ''/'' @ t) = c # split_path t"
proof -
  have "dropWhile is_separator t = t" "dropWhile is_separator t \<noteq> []" using assms(2,3) by (cases t; simp)+
  then show ?thesis
    by (simp only: split_path.simps [of "c @ CHR ''/'' # t"] append.simps take_component [OF assms(1)] list.case if_False)
qed

lemma split_str: "components cs \<Longrightarrow> cs \<noteq> [] \<Longrightarrow> split_path (str_of False cs) = cs"
proof (induction cs)
  case (Cons c cs)
  show ?case
  proof (cases "cs = []")
    case True
    with Cons.prems split_last [of c] show ?thesis by (simp add: component_def root_of_def)
  next
    case False
    have s: "str_of False (c # cs) = c @ ''/'' @ str_of False cs" using False by (simp add: str_of_def root_of_def)
    have "str_of False cs \<noteq> []" "\<not> is_separator (hd (str_of False cs))"
      using str_of_empty [of cs False] str_of_hd [of cs False] Cons.prems False by auto
    with split_first [of c "str_of False cs"] s Cons False show ?thesis by (simp add: component_def)
  qed
qed simp

lemma split_mk:
  assumes "components cs" "a \<or> cs \<noteq> []"
  shows "split_path (take (path_size (mk_path a cs dir)) (str_of a cs)) = (if a then [[]] else []) @ cs"
proof (cases "cs = []")
  case True
  with assms(2) split_last [of "[]"] show ?thesis by (simp add: path_size_def root_of_def)
next
  case False
  show ?thesis
  proof (cases a)
    case True
    have "str_of False cs \<noteq> []" "\<not> is_separator (hd (str_of False cs))"
      using str_of_empty [of cs False] str_of_hd [of cs False] assms(1) False by auto
    with True False split_first [of "[]" "str_of False cs"] split_str [OF assms(1) False] show ?thesis
      unfolding mk_path_size [OF assms(1)] by (simp add: str_of_def root_of_def)
  next
    case f: False
    with False split_str [OF assms(1) False] show ?thesis unfolding mk_path_size [OF assms(1)] by simp
  qed
qed

text \<open>What splitting any string gives: components, the first of which is empty at a separator.\<close>

lemma split_components:
  "\<exists>c cs. split_path s = c # cs \<and> no_separator c \<and> components cs \<and> (c = [] \<longleftrightarrow> s = [] \<or> is_separator (hd s))"
proof (induction s rule: split_path.induct)
  case (1 s)
  let ?c = "takeWhile (\<lambda>c. \<not> is_separator c) s" and ?d = "dropWhile (\<lambda>c. \<not> is_separator c) s"
  have c: "no_separator ?c" by (auto simp: no_separator_def dest: set_takeWhileD)
  have e: "?c = [] \<longleftrightarrow> s = [] \<or> is_separator (hd s)" by (cases s) auto
  show ?case
  proof (cases ?d)
    case Nil
    have "split_path s = [?c]" by (subst split_path.simps) (simp only: Nil list.case)
    with c e show ?thesis by simp
  next
    case (Cons x t)
    have s: "split_path s = ?c # (if dropWhile is_separator t = [] then [] else split_path (dropWhile is_separator t))"
      by (subst split_path.simps) (simp only: Cons list.case)
    show ?thesis
    proof (cases "dropWhile is_separator t = []")
      case True
      with s c e show ?thesis by simp
    next
      case False
      obtain b bs where b: "split_path (dropWhile is_separator t) = b # bs" "no_separator b" "components bs"
        "b = [] \<longleftrightarrow> dropWhile is_separator t = [] \<or> is_separator (hd (dropWhile is_separator t))"
        using 1 [OF Cons False] by blast
      have "\<not> is_separator (hd (dropWhile is_separator t))" using hd_dropWhile [OF False] .
      with b False have "components (b # bs)" by (simp add: component_def)
      with s c e b(1) False show ?thesis by auto
    qed
  qed
qed

section \<open>Collapsing\<close>

definition dot_free :: "string list \<Rightarrow> bool" where
  "dot_free cs \<longleftrightarrow> (\<forall>c \<in> set cs. \<not> tr_current c \<and> \<not> tr_parent c)"

lemma dot_free_simps [simp]:
  "dot_free []" "dot_free (c # cs) \<longleftrightarrow> \<not> tr_current c \<and> \<not> tr_parent c \<and> dot_free cs"
  "dot_free (cs @ cs') \<longleftrightarrow> dot_free cs \<and> dot_free cs'"
  by (auto simp: dot_free_def)

lemma tr_dots [simp]: "\<not> tr_current ''..''" "tr_parent ''..''" "\<not> tr_current []" "\<not> tr_parent []" "\<not> tr_parent ''.''"
  by (simp_all add: tr_current_def tr_parent_def)

lemma collapse_push: "dot_free cs \<Longrightarrow> collapse ab r (cs @ t) = collapse ab (rev cs @ r) t"
  by (induction cs arbitrary: r) simp_all

lemma collapse_root: "collapse True [] ([] # cs) = collapse True [[]] cs"
  by simp

lemma collapse_pop:
  "dot_free es \<Longrightarrow> (ab \<longrightarrow> r \<noteq> []) \<Longrightarrow> collapse ab (rev es @ r) (replicate (length es) ''..'' @ t) = collapse ab r t"
proof (induction es rule: rev_induct)
  case (snoc e es)
  then show ?case by (cases "rev es @ r") auto
qed simp

lemma str_of_root: "ds \<noteq> [] \<Longrightarrow> str_of False ([] # ds) = str_of True ds"
  by (simp add: str_of_def root_of_def)

lemma normalize_split:
  assumes "components cs" "a \<or> cs \<noteq> []"
  shows "normalize False ce (mk_path a cs dir) =
    (case collapse a [] ((if a then [[]] else []) @ cs) of
       None \<Rightarrow> Inl (Invalid_path (str_of a cs))
     | Some r \<Rightarrow> Inr (finish_path a ce (cs = [] \<or> dir \<or> tr_current (last cs) \<or> tr_parent (last cs)) (join_path r)))"
proof -
  have ne: "str_of a cs \<noteq> []" using assms(2) str_of_empty [OF assms(1)] by auto
  have l: "last ((if a then [[]] else []) @ cs) = (if cs = [] then [] else last cs)"
    using assms(2) by auto
  have t: "(path_tsep (mk_path a cs dir) \<noteq> 0 \<or> tr_current (if cs = [] then [] else last cs) \<or>
      tr_parent (if cs = [] then [] else last cs)) \<longleftrightarrow> (cs = [] \<or> dir \<or> tr_current (last cs) \<or> tr_parent (last cs))"
    using assms(2) by auto
  show ?thesis
    by (simp only: normalize_def mk_path_fields(1) ne if_False Let_def split_mk [OF assms] l t
        mk_path_absolute [OF assms(1)] simp_thms)
qed

lemma join_path_canonical: "join_path ((if a then [[]] else []) @ ds) = (if ds = [] then [] else str_of a ds)"
  by (cases a) (auto simp: join_path_str root_of_def str_of_root)

lemma finish_mk:
  assumes "components ds" "ds = [] \<Longrightarrow> tsep"
  shows "finish_path a True tsep (if ds = [] then [] else str_of a ds) = mk_path a ds tsep"
  using assms str_of_empty [OF assms(1), of a] by (auto simp: finish_path_def mk_path_def root_of_def)

lemma normalize_mk:
  assumes "components cs" "a \<or> cs \<noteq> []"
    and "collapse a [] ((if a then [[]] else []) @ cs) = Some ((if a then [[]] else []) @ ds)" "components ds"
    and "ds = [] \<Longrightarrow> dir \<or> cs = [] \<or> tr_current (last cs) \<or> tr_parent (last cs)"
  shows "normalize False True (mk_path a cs dir) =
    Inr (mk_path a ds (cs = [] \<or> dir \<or> tr_current (last cs) \<or> tr_parent (last cs)))"
  unfolding normalize_split [OF assms(1,2)] assms(3) option.case join_path_canonical
  by (subst finish_mk [OF assms(4)]) (use assms(5) in auto)

section \<open>Relative paths\<close>

lemma sup_component: "component ''..''"
  by (simp add: component_def is_separator_def)

lemma replicate_components [simp]: "components (replicate k ''..'')"
  using sup_component by (auto simp: components_def)

lemma combine_up: "combine_component True (mk_path False (replicate k ''..'') True) ''..'' =
    Inr (mk_path False (replicate (Suc k) ''..'') True)"
proof -
  have n: "find_separator ''..'' = None" by code_simp
  have "dir_cast (combine_impl (mk_path False (replicate k ''..'') True) ''..'' 0) =
      mk_path False (replicate (Suc k) ''..'') True"
  proof (cases k)
    case 0
    then show ?thesis by (simp add: combine_impl_def dir_cast_def mk_path_def root_of_def)
  next
    case (Suc j)
    have r: "replicate (Suc k) ''..'' = replicate k ''..'' @ [''..'']" by (simp add: replicate_append_same)
    have "str_of False (replicate (Suc k) ''..'') = str_of False (replicate k ''..'') @ ''/..''"
    proof -
      have "str_of False (replicate k ''..'') @ ''/'' = dirs (replicate k ''..'')"
        using str_of_dirs [of "replicate k ''..''" False] Suc by (simp only: root_of_def if_False append_Nil) simp
      then have "dirs (replicate k ''..'') @ ''..'' = str_of False (replicate k ''..'') @ ''/..''"
        by (metis append.assoc append_Cons append_Nil)
      then show ?thesis unfolding r by (simp only: str_of_simps(2) root_of_def if_False append_Nil)
    qed
    with Suc str_of_empty [of "replicate k ''..''" False] show ?thesis
      by (auto simp: combine_impl_def dir_cast_def mk_path_def)
  qed
  with n show ?thesis by (simp add: combine_component_def Let_def)
qed

lemma relative_loop_mk:
  assumes "components cs" "components ds"
  shows "\<exists>es. prefix es ds \<and> prefix es cs \<and>
    relative_loop (mk_path a cs x) (mk_path a ds True) (mk_path False (replicate k ''..'') True) =
      Inr (mk_path False (replicate (k + (length ds - length es)) ''..'') True, mk_path a es True)"
  using assms(2)
proof (induction ds arbitrary: k rule: rev_induct)
  case Nil
  have "path_sub (mk_path a cs x) (mk_path a [] True)" using sub_mk [OF assms(1), of "[]"] by simp
  then show ?case by (intro exI [of _ "[]"]) (simp add: relative_loop.simps)
next
  case (snoc d ds)
  have dd: "components (ds @ [d])" using snoc.prems .
  show ?case
  proof (cases "prefix (ds @ [d]) cs")
    case True
    then have "path_sub (mk_path a cs x) (mk_path a (ds @ [d]) True)" using sub_mk [OF assms(1) dd] by simp
    with True show ?thesis by (intro exI [of _ "ds @ [d]"]) (simp add: relative_loop.simps)
  next
    case False
    then have n: "\<not> path_sub (mk_path a cs x) (mk_path a (ds @ [d]) True)" using sub_mk [OF assms(1) dd] by simp
    obtain es where es: "prefix es ds" "prefix es cs"
      "relative_loop (mk_path a cs x) (mk_path a ds True) (mk_path False (replicate (Suc k) ''..'') True) =
        Inr (mk_path False (replicate (Suc k + (length ds - length es)) ''..'') True, mk_path a es True)"
      using snoc.IH [of "Suc k"] dd by auto
    have r: "\<not> path_root (mk_path a (ds @ [d]) True)" using mk_path_root [OF dd] by simp
    have "relative_loop (mk_path a cs x) (mk_path a (ds @ [d]) True) (mk_path False (replicate k ''..'') True) =
        relative_loop (mk_path a cs x) (mk_path a ds True) (mk_path False (replicate (Suc k) ''..'') True)"
      using n r combine_up [of k] directory_mk [OF dd] by (simp add: relative_loop.simps [of _ "mk_path a (ds @ [d]) True"])
    with es show ?thesis
      using prefix_length_le [OF es(1)] by (intro exI [of _ es]) (auto simp: Suc_diff_le)
  qed
qed

text \<open>Down from the common part, up again and down to the other path.\<close>

lemma collapse_detour:
  assumes "dot_free es" "dot_free us" "dot_free vs"
  shows "collapse a [] ((if a then [[]] else []) @ (es @ us) @ replicate (length us) ''..'' @ vs) =
    Some ((if a then [[]] else []) @ es @ vs)"
proof -
  let ?pre = "if a then [[]] else []" and ?up = "replicate (length us) ''..''"
  have "collapse a [] (?pre @ (es @ us) @ ?up @ vs) = collapse a (rev ?pre) ((es @ us) @ ?up @ vs)" by simp
  also have "\<dots> = collapse a (rev us @ rev es @ rev ?pre) (?up @ vs)"
    using collapse_push [of "es @ us" a "rev ?pre" "?up @ vs"] assms by simp
  also have "\<dots> = collapse a (rev es @ rev ?pre) vs"
    using collapse_pop [of us a "rev es @ rev ?pre" vs] assms(2) by simp
  also have "\<dots> = Some (?pre @ es @ vs)"
    using collapse_push [of vs a "rev es @ rev ?pre" "[]"] assms(3) by (auto split: if_splits)
  finally show ?thesis .
qed

lemma normalize_detour:
  assumes "components (es @ us @ vs)" "dot_free es" "dot_free us" "dot_free vs" "a \<or> es @ us @ vs \<noteq> []"
  shows "normalize False True (mk_path a ((es @ us) @ replicate (length us) ''..'' @ vs) (vs = [] \<or> x)) =
    Inr (mk_path a (es @ vs) (vs = [] \<or> x))"
proof -
  let ?cs = "(es @ us) @ replicate (length us) ''..'' @ vs"
  have c: "components ?cs" "components (es @ vs)" using assms(1) by simp_all
  have n: "a \<or> ?cs \<noteq> []" using assms(5) by auto
  have "normalize False True (mk_path a ?cs (vs = [] \<or> x)) =
      Inr (mk_path a (es @ vs) (?cs = [] \<or> (vs = [] \<or> x) \<or> tr_current (last ?cs) \<or> tr_parent (last ?cs)))"
    by (rule normalize_mk [OF c(1) n collapse_detour [OF assms(2-4)] c(2)]) simp
  moreover have "\<not> tr_current (last vs) \<and> \<not> tr_parent (last vs)" if "vs \<noteq> []"
    using assms(4) that by (auto simp: dot_free_def)
  ultimately show ?thesis by (cases "vs = []") auto
qed

text \<open>
  C31: For two paths with components other than \<open>.\<close> and \<open>..\<close>, both absolute or both relative, of which the second has
  a trailing separator, the path relative to that directory leads from the directory to the first path:
  \<open>relative ()\<close> succeeds with a relative path, and the directory combined with it normalizes to the first path. The
  trailing separator is the one of the first path, too, unless that is the directory or one above it. (With no trailing
  separator, or with \<open>..\<close> in the directory, the call may throw, see \<open>relative_to_file\<close> and \<open>relative_to_parent\<close>.)
\<close>

theorem relative_leads_back:
  assumes "components cs" "components ds" "dot_free cs" "dot_free ds"
  shows "\<exists>q r t. path_relative (mk_path a cs x) (mk_path a ds True) = Inr q \<and> \<not> path_absolute q \<and>
    combine (mk_path a ds True) q = Inr r \<and> normalize False True r = Inr (mk_path a cs t) \<and>
    (\<not> prefix cs ds \<longrightarrow> t = x)"
proof -
  obtain es where es: "prefix es ds" "prefix es cs"
    "relative_loop (mk_path a cs x) (mk_path a ds True) empty_path =
      Inr (mk_path False (replicate (length ds - length es) ''..'') True, mk_path a es True)"
    using relative_loop_mk [OF assms(1,2), of a x 0] by (auto simp: mk_path_def empty_path_def root_of_def)
  then obtain us vs where u: "ds = es @ us" "cs = es @ vs" by (auto simp: prefix_def)
  then have c: "components es" "components vs" "dot_free es" "dot_free us" "dot_free vs" using assms by simp_all
  let ?up = "replicate (length us) ''..''" and ?t = "vs = [] \<or> x"
  let ?q = "mk_path False (?up @ vs) ?t"
  have lf: "path_leaf_of (mk_path a cs x) (mk_path a es True) = Inr (mk_path False vs x)"
    using leaf_of_mk [OF assms(1) c(1) es(2)] u by (cases "es = [] \<and> \<not> a") auto
  have "combine (mk_path False ?up True) (mk_path False vs x) = Inr ?q"
    using combine_mk [of ?up vs False x] c(2) by (auto split: if_splits)
  then have q: "path_relative (mk_path a cs x) (mk_path a ds True) = Inr ?q"
    using es(3) lf u by (simp add: path_relative_def)
  have na: "\<not> path_absolute ?q" using mk_path_absolute [of "?up @ vs" False] c(2) by simp
  show ?thesis
  proof (cases "a \<or> ds @ vs \<noteq> []")
    case False
    then have "combine (mk_path a ds True) ?q = Inr (mk_path a ds True)" "cs = []" "ds = []" "us = []"
      using combine_mk [of ds "?up @ vs" a ?t] u by simp_all
    with q na False show ?thesis
      by (intro exI [of _ ?q] exI [of _ "mk_path a ds True"] exI [of _ x]) (auto simp: normalize_def root_of_def mk_path_def)
  next
    case True
    have "combine (mk_path a ds True) ?q = Inr (mk_path a (ds @ ?up @ vs) ?t)"
      using combine_mk [of ds "?up @ vs" a ?t] assms(2) c(2) u True by (auto simp: mk_path_def)
    moreover have "normalize False True (mk_path a (ds @ ?up @ vs) ?t) = Inr (mk_path a cs ?t)"
      using normalize_detour [of es us vs a x] assms(1,2) c(3-5) u True by simp
    moreover have "\<not> prefix cs ds \<longrightarrow> ?t = x" using u by auto
    ultimately show ?thesis using q na by blast
  qed
qed

theorem relative_leads_back_witness:
  "\<exists>r. combine (mk_path True [''usr'', ''lib''] True) (mk_path False [''..'', ''bin'', ''ld''] False) = Inr r \<and>
    normalize False True r = Inr (mk_path True [''usr'', ''bin'', ''ld''] False)"
proof -
  have h: "components [''usr'', ''bin'', ''ld'']" "components [''usr'', ''lib'']"
    "dot_free [''usr'', ''bin'', ''ld'']" "dot_free [''usr'', ''lib'']"
    by code_simp+
  have q: "path_relative (mk_path True [''usr'', ''bin'', ''ld''] False) (mk_path True [''usr'', ''lib''] True) =
    Inr (mk_path False [''..'', ''bin'', ''ld''] False)" by code_simp
  with relative_leads_back [OF h, of True False] show ?thesis by auto
qed

section \<open>The place that a path leads to\<close>

text \<open>
  From the directory \<open>st\<close>, given by the names from the innermost one outwards, the components lead up and
  down; above the root there is nothing. Symbolic links are not considered.
\<close>

fun walk :: "string list \<Rightarrow> string list \<Rightarrow> string list" where
  "walk st [] = st"
| "walk st (c # cs) =
     (if c = [] \<or> tr_current c then walk st cs else if tr_parent c then walk (tl st) cs else walk (c # st) cs)"

lemma walk_append [simp]: "walk st (cs @ cs') = walk (walk st cs) cs'"
  by (induction cs arbitrary: st) simp_all

definition path_components :: "path \<Rightarrow> string list" where
  "path_components p = split_path (take (path_size p) (path_str p))"

definition place :: "string list \<Rightarrow> path \<Rightarrow> string list" where
  "place st p = walk (if path_absolute p then [] else st) (path_components p)"

text \<open>The list of components in canonical form: \<open>..\<close> only at the start of a relative path.\<close>

definition canonical :: "bool \<Rightarrow> string list \<Rightarrow> bool" where
  "canonical a ds \<longleftrightarrow> components ds \<and> (\<exists>k es. ds = replicate k ''..'' @ es \<and> dot_free es \<and> (a \<longrightarrow> k = 0))"

definition root_part :: "bool \<Rightarrow> string list" where
  "root_part a = (if a then [[]] else [])"

lemma canonical_push:
  assumes "canonical a ds" "component c" "\<not> tr_current c" "\<not> tr_parent c"
  shows "canonical a (ds @ [c])"
proof -
  obtain k es where e: "ds = replicate k ''..'' @ es" "dot_free es" "a \<longrightarrow> k = 0" "components ds"
    using assms(1) unfolding canonical_def by blast
  with assms(2-4) show ?thesis
    unfolding canonical_def by (intro conjI exI [of _ k] exI [of _ "es @ [c]"]) auto
qed

lemma canonical_pop:
  assumes "canonical a (ds @ [d])" "\<not> tr_parent d"
  shows "canonical a ds \<and> d \<noteq> [] \<and> \<not> tr_current d"
proof -
  obtain k es where e: "ds @ [d] = replicate k ''..'' @ es" "dot_free es" "a \<longrightarrow> k = 0" "components (ds @ [d])"
    using assms(1) unfolding canonical_def by blast
  have "es \<noteq> []"
  proof
    assume "es = []"
    with e(1) have "d \<in> set (replicate k ''..'')" by (metis append_Nil2 in_set_conv_decomp)
    with assms(2) show False by (simp split: if_splits)
  qed
  then obtain fs where "es = fs @ [d]" "ds = replicate k ''..'' @ fs" using e(1) by (cases es rule: rev_cases) auto
  with e show ?thesis by (auto simp: canonical_def component_def)
qed

lemma canonical_up:
  assumes "canonical a ds" "ds \<noteq> [] \<longrightarrow> tr_parent (last ds)" "\<not> a"
  shows "canonical a (ds @ [''..''])"
proof -
  obtain k es where e: "ds = replicate k ''..'' @ es" "dot_free es" "components ds"
    using assms(1) unfolding canonical_def by blast
  have "es = []" using assms(2) e by (cases es rule: rev_cases) auto
  then have "ds @ [''..''] = replicate (Suc k) ''..'' @ []" using e(1) by (simp add: replicate_append_same)
  moreover have "components (ds @ [''..''])" using e(3) sup_component by simp
  ultimately show ?thesis unfolding canonical_def using assms(3) by (metis dot_free_simps(1))
qed

lemma collapse_canonical:
  "components cs \<Longrightarrow> canonical a ds \<Longrightarrow> collapse a (rev (root_part a @ ds)) cs = Some t \<Longrightarrow>
     \<exists>es. t = root_part a @ es \<and> canonical a es \<and> (\<forall>st. walk st es = walk (walk st ds) cs) \<and>
       (es = [] \<longrightarrow> cs = [] \<and> ds = [] \<or> cs \<noteq> [] \<and> (tr_current (last cs) \<or> tr_parent (last cs)))"
proof (induction cs arbitrary: ds)
  case Nil
  then show ?case by (intro exI [of _ ds]) auto
next
  case (Cons c cs)
  let ?r = "rev (root_part a @ ds)"
  have cc: "component c" "components cs" using Cons.prems(1) by simp_all
  show ?case
  proof (cases "tr_current c")
    case True
    with Cons.prems(3) have "collapse a ?r cs = Some t" by simp
    from Cons.IH [OF cc(2) Cons.prems(2) this] True show ?thesis by auto
  next
    case nc: False
    show ?thesis
    proof (cases "tr_parent c \<and> ?r \<noteq> [] \<and> \<not> tr_parent (hd ?r)")
      case True
      with nc Cons.prems(3) have p: "\<not> (a \<and> length ?r = 1)" "collapse a (tl ?r) cs = Some t"
        by (auto split: if_splits)
      have "ds \<noteq> []" using True p(1) by (auto simp: root_part_def split: if_splits)
      then obtain bs b where b: "ds = bs @ [b]" by (cases ds rule: rev_cases) auto
      with True have nb: "\<not> tr_parent b" by simp
      note cp = canonical_pop [OF Cons.prems(2) [unfolded b] nb]
      have "collapse a (rev (root_part a @ bs)) cs = Some t" using p(2) b by simp
      from Cons.IH [OF cc(2) _ this] cp obtain es where es: "t = root_part a @ es" "canonical a es"
        "\<forall>st. walk st es = walk (walk st bs) cs"
        "es = [] \<longrightarrow> cs = [] \<and> bs = [] \<or> cs \<noteq> [] \<and> (tr_current (last cs) \<or> tr_parent (last cs))" by blast
      have "walk (walk st ds) (c # cs) = walk (walk st bs) cs" for st
        using b nb cp nc True cc(1) by (simp add: component_def)
      with es True show ?thesis by (intro exI [of _ es]) auto
    next
      case False
      then have pp: "tr_parent c \<Longrightarrow> \<not> a \<and> (ds \<noteq> [] \<longrightarrow> tr_parent (last ds))"
        using Cons.prems(2)
        by (cases ds rule: rev_cases) (auto simp: root_part_def canonical_def split: if_splits)
      have "collapse a (rev (root_part a @ ds @ [c])) cs = Some t" using False nc Cons.prems(3) by auto
      moreover have "canonical a (ds @ [c])"
      proof (cases "tr_parent c")
        case True
        with canonical_up [OF Cons.prems(2)] pp show ?thesis by (simp add: tr_parent_def)
      next
        case False
        with canonical_push [OF Cons.prems(2) cc(1) nc] show ?thesis by simp
      qed
      ultimately obtain es where es: "t = root_part a @ es" "canonical a es"
        "\<forall>st. walk st es = walk (walk st (ds @ [c])) cs"
        "es = [] \<longrightarrow> cs = [] \<and> ds @ [c] = [] \<or> cs \<noteq> [] \<and> (tr_current (last cs) \<or> tr_parent (last cs))"
        using Cons.IH [OF cc(2), of "ds @ [c]"] by blast
      have "walk (walk st (ds @ [c])) cs = walk (walk st ds) (c # cs)" for st by simp
      with es show ?thesis by (intro exI [of _ es]) auto
    qed
  qed
qed

lemma collapse_ups: "collapse False (replicate j ''..'') (replicate k ''..'' @ t) = collapse False (replicate (k + j) ''..'') t"
proof (induction k arbitrary: j)
  case (Suc k)
  have "collapse False (replicate j ''..'') (''..'' # replicate k ''..'' @ t) =
      collapse False (replicate (Suc j) ''..'') (replicate k ''..'' @ t)"
    by (cases j) simp_all
  with Suc [of "Suc j"] show ?case by simp
qed simp

lemma collapse_id:
  assumes "canonical a ds"
  shows "collapse a [] (root_part a @ ds) = Some (root_part a @ ds)"
proof -
  obtain k es where e: "ds = replicate k ''..'' @ es" "dot_free es" "a \<longrightarrow> k = 0"
    using assms by (auto simp: canonical_def)
  show ?thesis
  proof (cases a)
    case True
    with e collapse_push [of es a "[[]]" "[]"] show ?thesis by (simp add: root_part_def)
  next
    case False
    with e collapse_ups [of 0 k es] collapse_push [of es False "replicate k ''..''" "[]"] show ?thesis
      by (simp add: root_part_def)
  qed
qed

text \<open>What initialization establishes: a separator at the end only in the root directory.\<close>

definition path_valid :: "path \<Rightarrow> bool" where
  "path_valid p \<longleftrightarrow>
     path_str p = [] \<and> path_tsep p = 0 \<or>
     path_str p = ''/'' \<and> path_tsep p = -1 \<or>
     path_str p \<noteq> [] \<and> \<not> is_separator (last (path_str p)) \<and> path_tsep p \<in> {0, 1}"

lemma split_absolute:
  assumes "s \<noteq> []" "\<not> is_separator (last s)" "is_separator (hd s)"
  shows "split_path s \<noteq> [[]]"
proof
  assume e: "split_path s = [[]]"
  obtain x t where s: "s = x # t" "is_separator x" using assms(1,3) by (cases s) auto
  then have "split_path s = [] # (if dropWhile is_separator t = [] then [] else split_path (dropWhile is_separator t))"
    by (simp add: split_path.simps [of "x # t"])
  with e have "if dropWhile is_separator t = [] then True else split_path (dropWhile is_separator t) = []"
    by (simp split: if_splits)
  then have "\<forall>d \<in> set t. is_separator d"
    using split_components [of "dropWhile is_separator t"] by (auto split: if_splits)
  with s have "\<forall>d \<in> set s. is_separator d" by simp
  with assms(1,2) show False using last_in_set by blast
qed

lemma valid_components:
  assumes "path_valid p" "path_str p \<noteq> []"
  shows "\<exists>cs. path_components p = root_part (path_absolute p) @ cs \<and> components cs \<and>
    (cs = [] \<longrightarrow> path_absolute p \<and> path_tsep p = -1)"
proof (cases "path_tsep p = -1")
  case True
  with assms have "path_str p = ''/''" by (auto simp: path_valid_def)
  with True show ?thesis
    using split_last [of "[]"]
    by (intro exI [of _ "[]"]) (simp add: path_components_def path_size_def path_absolute_def tr_absolute_def root_part_def)
next
  case False
  with assms have v: "path_str p \<noteq> []" "\<not> is_separator (last (path_str p))" "path_tsep p \<in> {0, 1}"
    by (auto simp: path_valid_def)
  then have c: "path_components p = split_path (path_str p)" by (auto simp: path_components_def path_size_def)
  obtain b bs where b: "split_path (path_str p) = b # bs" "no_separator b" "components bs"
    "b = [] \<longleftrightarrow> path_str p = [] \<or> is_separator (hd (path_str p))"
    using split_components by blast
  show ?thesis
  proof (cases "path_absolute p")
    case True
    with v(1) have "is_separator (hd (path_str p))" by (simp add: path_absolute_def tr_absolute_def)
    with split_absolute [OF v(1,2)] b c True show ?thesis
      by (intro exI [of _ bs]) (auto simp: root_part_def)
  next
    case False
    with v(1) b have "component b" by (simp add: path_absolute_def tr_absolute_def component_def)
    with b c False show ?thesis by (intro exI [of _ "b # bs"]) (simp add: root_part_def)
  qed
qed

lemma collapse_last:
  "\<not> tr_current c \<Longrightarrow> \<not> tr_parent c \<Longrightarrow> collapse a r (cs @ [c]) = Some t \<Longrightarrow> t \<noteq> [] \<and> last t = c"
  by (induction cs arbitrary: r) (auto split: if_splits)

lemma place_mk: "components ds \<Longrightarrow> place st (mk_path a ds dir) = walk (if a then [] else st) ds"
proof (cases "a \<or> ds \<noteq> []")
  case True
  assume "components ds"
  with split_mk [OF this True, of dir] show ?thesis by (simp add: place_def path_components_def)
next
  case False
  assume c: "components ds"
  with False split_last [of "[]"] mk_path_absolute [OF c, of a dir] show ?thesis
    by (simp add: place_def path_components_def root_of_def)
qed

lemma normalized_loop_component:
  "no_separator c \<Longrightarrow> normalized_loop b (c @ CHR ''/'' # t) \<longleftrightarrow>
     \<not> (t \<noteq> [] \<and> is_separator (hd t)) \<and> \<not> (tr_parent (b @ c) \<or> tr_current (b @ c)) \<and> normalized_loop [] t"
  "no_separator c \<Longrightarrow> normalized_loop b c \<longleftrightarrow> \<not> (tr_parent (b @ c) \<or> tr_current (b @ c))"
  by (induction c arbitrary: b) auto

lemma normalized_components: "components ds \<Longrightarrow> dot_free ds \<Longrightarrow> tr_normalized (str_of False ds)"
proof (induction ds)
  case Nil
  then show ?case by (simp add: tr_normalized_def root_of_def)
next
  case (Cons d ds)
  show ?case
  proof (cases "ds = []")
    case True
    with Cons.prems normalized_loop_component(2) [of d "[]"] show ?thesis
      by (simp add: tr_normalized_def root_of_def component_def)
  next
    case False
    have s: "str_of False (d # ds) = d @ CHR ''/'' # str_of False ds" using False by (simp add: str_of_def root_of_def)
    have "\<not> is_separator (hd (str_of False ds))" "str_of False ds \<noteq> []"
      using str_of_hd [of ds False] str_of_empty [of ds False] Cons.prems False by auto
    with Cons s normalized_loop_component(1) [of d "[]" "str_of False ds"] show ?thesis
      by (simp add: tr_normalized_def component_def)
  qed
qed

lemma normalized_mk:
  assumes "components ds" "dot_free ds"
  shows "path_normalized (mk_path a ds dir)"
proof (cases "a \<and> ds \<noteq> []")
  case True
  have "\<not> is_separator (hd (str_of False ds))" "str_of False ds \<noteq> []"
    using str_of_hd [of ds False] str_of_empty [of ds False] assms(1) True by auto
  with True normalized_components [OF assms] show ?thesis
    by (simp add: path_normalized_def tr_normalized_def str_of_def root_of_def)
next
  case False
  with normalized_components [OF assms] show ?thesis
    by (auto simp: path_normalized_def tr_normalized_def root_of_def)
qed

text \<open>The three forms of the result of \<open>normalize ()\<close>.\<close>

lemma normalize_result:
  assumes "path_valid p" "path_str p \<noteq> []" "normalize actual ce p = Inr q"
  obtains es where "canonical (path_absolute p) es" "place st p = walk (if path_absolute p then [] else st) es"
    "q = mk_path (path_absolute p) es (path_tsep q = 1)" "path_absolute p \<or> es \<noteq> [] \<or> ce"
    "es \<noteq> [] \<and> (tr_current (last es) \<or> tr_parent (last es)) \<longrightarrow> path_tsep q = 1"
  | "\<not> path_absolute p" "place st p = st" "q = mk_path False [''.''] True" "\<not> ce"
proof -
  let ?a = "path_absolute p"
  obtain cs where cs: "path_components p = root_part ?a @ cs" "components cs"
    "cs = [] \<longrightarrow> ?a \<and> path_tsep p = -1" using valid_components [OF assms(1,2)] by blast
  let ?ts = "path_tsep p \<noteq> 0 \<or> tr_current (last (root_part ?a @ cs)) \<or> tr_parent (last (root_part ?a @ cs))"
  have "normalize actual ce p =
      (if actual \<and> \<not> ?a then Inl Path_assertion
       else case collapse ?a [] (root_part ?a @ cs) of
         None \<Rightarrow> Inl (Invalid_path (path_str p))
       | Some r \<Rightarrow> Inr (finish_path ?a ce ?ts (join_path r)))"
    using assms(2) by (simp only: normalize_def Let_def cs(1) [unfolded path_components_def] if_False)
  with assms(3) obtain t where t: "collapse ?a [] (root_part ?a @ cs) = Some t" "q = finish_path ?a ce ?ts (join_path t)"
    by (auto split: if_splits option.splits)
  have "collapse ?a (rev (root_part ?a @ [])) cs = Some t" using t(1) by (auto simp: root_part_def split: if_splits)
  moreover have "canonical ?a []" by (simp add: canonical_def)
  ultimately obtain es where es: "t = root_part ?a @ es" "canonical ?a es" "\<forall>st. walk st es = walk (walk st []) cs"
    "es = [] \<longrightarrow> cs = [] \<and> [] = [] \<or> cs \<noteq> [] \<and> (tr_current (last cs) \<or> tr_parent (last cs))"
    using collapse_canonical [OF cs(2), of ?a "[]" t] by blast
  have comp: "components es" using es(2) by (simp add: canonical_def)
  have pl: "place st p = walk (if ?a then [] else st) es"
    using cs(1) es(3) by (simp add: place_def root_part_def)
  have dots: "?ts" if "es = [] \<or> tr_current (last es) \<or> tr_parent (last es)"
  proof (cases "cs = []")
    case True
    with cs(3) show ?thesis by simp
  next
    case False
    then obtain bs c where c: "cs = bs @ [c]" by (cases cs rule: rev_cases) auto
    show ?thesis
    proof (cases "tr_current c \<or> tr_parent c")
      case True
      with c show ?thesis by simp
    next
      case f: False
      with collapse_last [of c ?a "[]" "root_part ?a @ bs" t] t(1) c have "t \<noteq> [] \<and> last t = c" by simp
      moreover have "c \<noteq> []" using cs(2) c by (simp add: component_def)
      ultimately have "es \<noteq> [] \<and> last es = c" using es(1) by (auto simp: root_part_def split: if_splits)
      with f that show ?thesis by simp
    qed
  qed
  have q: "q = finish_path ?a ce ?ts (if es = [] then [] else str_of ?a es)"
    using t(2) es(1) join_path_canonical [of ?a es] by (simp add: root_part_def)
  show thesis
  proof (cases "es = [] \<and> \<not> ?a")
    case False
    then have "q = mk_path ?a es ?ts"
      using q dots str_of_empty [OF comp, of ?a] by (auto simp: finish_path_def mk_path_def root_of_def)
    moreover have "path_tsep q = 1 \<longleftrightarrow> es \<noteq> [] \<and> ?ts" using \<open>q = mk_path ?a es ?ts\<close> by auto
    ultimately show thesis
      using that(1) [OF es(2) pl] False dots by (auto simp: mk_path_def)
  next
    case True
    then have qq: "q = (if ce then mk_path False [] True else mk_path False [''.''] True)"
      using q dots by (auto simp: finish_path_def mk_path_def root_of_def)
    show thesis
    proof (cases ce)
      case True
      then show thesis using that(1) [OF es(2) pl] qq \<open>es = [] \<and> \<not> ?a\<close> by (auto simp: mk_path_def)
    next
      case False
      then show thesis using that(2) qq pl \<open>es = [] \<and> \<not> ?a\<close> by simp
    qed
  qed
qed

lemma normalize_dot: "normalize False False (mk_path False [''.''] True) = Inr (mk_path False [''.''] True)"
  by code_simp

lemma normalize_canonical:
  assumes "canonical a es" "a \<or> es \<noteq> [] \<or> ce" "actual \<longrightarrow> a"
    "es \<noteq> [] \<and> (tr_current (last es) \<or> tr_parent (last es)) \<longrightarrow> dir"
  shows "normalize actual ce (mk_path a es dir) = Inr (mk_path a es dir)"
proof (cases "a \<or> es \<noteq> []")
  case False
  then show ?thesis by (simp add: normalize_def root_of_def)
next
  case True
  have c: "components es" using assms(1) by (simp add: canonical_def)
  have act: "normalize actual ce (mk_path a es dir) = normalize False ce (mk_path a es dir)"
    using assms(3) mk_path_absolute [OF c, of a dir] by (auto simp: normalize_def)
  have "normalize False ce (mk_path a es dir) =
      Inr (finish_path a ce (es = [] \<or> dir \<or> tr_current (last es) \<or> tr_parent (last es))
        (join_path (root_part a @ es)))"
    using normalize_split [OF c True, of ce dir] collapse_id [OF assms(1)] by (simp add: root_part_def)
  also have "\<dots> = Inr (finish_path a ce (es = [] \<or> dir) (if es = [] then [] else str_of a es))"
    using assms(4) join_path_canonical [of a es] by (cases "es = []") (auto simp: root_part_def)
  also have "\<dots> = Inr (mk_path a es dir)"
    using True str_of_empty [OF c, of a] by (auto simp: finish_path_def mk_path_def root_of_def)
  finally show ?thesis unfolding act .
qed

lemma mk_path_valid:
  assumes "components es"
  shows "path_valid (mk_path a es dir)"
proof (cases es rule: rev_cases)
  case Nil
  then show ?thesis by (simp add: path_valid_def root_of_def)
next
  case (snoc cs c)
  with assms have "c \<noteq> []" "no_separator c" by (simp_all add: component_def)
  then have "\<not> is_separator (last c)" by (simp add: no_separator_def)
  with snoc \<open>c \<noteq> []\<close> show ?thesis by (auto simp: path_valid_def)
qed

text \<open>
  C18: Normalizing a valid path keeps the place that the path leads to, from every directory, and whether the path is
  absolute. The result is a valid path in canonical form: the leading \<open>..\<close> components that a relative path cannot do
  without, followed by components other than \<open>.\<close> and \<open>..\<close>; only a relative path that leads nowhere else becomes
  \<open>./\<close>, unless it is to become empty. Normalizing again changes nothing, and an absolute path is then normalized in
  the sense of \<open>normalized ()\<close>.
\<close>

theorem normalize_sound:
  assumes "path_valid p" "normalize actual cur_empty p = Inr q"
  shows "place st q = place st p \<and> path_absolute q = path_absolute p \<and> path_valid q \<and>
    ((\<exists>es dir. canonical (path_absolute p) es \<and> q = mk_path (path_absolute p) es dir) \<or>
     \<not> path_absolute p \<and> \<not> cur_empty \<and> q = mk_path False [''.''] True) \<and>
    normalize actual cur_empty q = Inr q \<and> (path_absolute p \<longrightarrow> path_normalized q)"
proof (cases "path_str p = []")
  case True
  then have e: "q = p" "\<not> path_absolute p" using assms(2) by (auto simp: normalize_def path_absolute_def tr_absolute_def)
  have "p = mk_path False [] True" using True assms(1) by (simp add: path_valid_def mk_path_def root_of_def)
  moreover have "canonical False []" by (simp add: canonical_def)
  ultimately have "canonical (path_absolute p) [] \<and> p = mk_path (path_absolute p) [] True" using e(2) by simp
  with assms show ?thesis unfolding e(1) using e(2) by auto
next
  case False
  have act: "actual \<longrightarrow> path_absolute p" using assms(2) False by (auto simp: normalize_def Let_def split: if_splits)
  from assms(1) False assms(2) show ?thesis
  proof (cases rule: normalize_result [where st = st])
    case (1 es)
    then have c: "components es" by (simp add: canonical_def)
    have "place st q = place st p" using place_mk [OF c, of st "path_absolute p"] 1(2,3) by metis
    moreover have "path_absolute q = path_absolute p" using mk_path_absolute [OF c] 1(3) by metis
    moreover have "path_valid q" using mk_path_valid [OF c] 1(3) by metis
    moreover have "normalize actual cur_empty q = Inr q"
      using normalize_canonical [OF 1(1,4) act 1(5)] 1(3) by metis
    moreover have "path_normalized q" if "path_absolute p"
    proof -
      have "dot_free es" using 1(1) that by (auto simp: canonical_def)
      with normalized_mk [OF c] 1(3) show ?thesis by metis
    qed
    ultimately show ?thesis using 1(1,3) by blast
  next
    case 2
    have d: "components [''.'']" by (simp add: component_def is_separator_def)
    have "place st q = st" using place_mk [OF d, of st False True] 2(1,3) by (simp add: tr_current_def)
    with 2 act normalize_dot mk_path_absolute [OF d, of False True] mk_path_valid [OF d, of False True] show ?thesis by simp
  qed
qed

theorem normalize_sound_witness:
  "place [''home''] (mk_path True [''usr'', ''lib''] False) = place [''home''] \<lparr>path_str = ''/usr/./bin/..//lib'', path_tsep = 0\<rparr>"
proof -
  have n: "normalize False False \<lparr>path_str = ''/usr/./bin/..//lib'', path_tsep = 0\<rparr> = Inr (mk_path True [''usr'', ''lib''] False)"
    by code_simp
  show ?thesis using normalize_sound [OF _ n, of "[''home'']"] by (simp add: path_valid_def is_separator_def)
qed

text \<open>How far above the root the components lead, starting \<open>d\<close> directories below it.\<close>

fun escapes :: "nat \<Rightarrow> string list \<Rightarrow> bool" where
  "escapes d [] \<longleftrightarrow> False"
| "escapes d (c # cs) \<longleftrightarrow>
     (if c = [] \<or> tr_current c then escapes d cs
      else if tr_parent c then d = 0 \<or> escapes (d - 1) cs
      else escapes (d + 1) cs)"

lemma collapse_escapes:
  "components cs \<Longrightarrow> dot_free ds \<Longrightarrow> collapse True (rev ds @ [[]]) cs = None \<longleftrightarrow> escapes (length ds) cs"
proof (induction cs arbitrary: ds)
  case (Cons c cs)
  then have c: "component c" "components cs" by simp_all
  show ?case
  proof (cases "tr_current c \<or> tr_parent c")
    case False
    with Cons.IH [OF c(2), of "ds @ [c]"] Cons.prems(2) c(1) show ?thesis by (auto simp: component_def)
  next
    case True
    show ?thesis
    proof (cases ds rule: rev_cases)
      case Nil
      with True Cons.IH [OF c(2), of "[]"] c(1) show ?thesis by (auto simp: component_def)
    next
      case (snoc bs b)
      with True Cons.IH [OF c(2), of bs] Cons.IH [OF c(2), of ds] Cons.prems(2) c(1) show ?thesis
        by (auto simp: component_def)
    qed
  qed
qed simp

lemma collapse_relative: "collapse False r cs \<noteq> None"
  by (induction cs arbitrary: r) auto

text \<open>
  C33: Normalizing fails exactly when the path is absolute and leads above the root directory on its way; a
  relative path always normalizes.
\<close>

theorem normalize_error:
  assumes "path_valid p"
  shows "(\<exists>e. normalize False cur_empty p = Inl e) \<longleftrightarrow> path_absolute p \<and> escapes 0 (path_components p)"
proof (cases "path_str p = []")
  case True
  then show ?thesis by (simp add: normalize_def path_absolute_def tr_absolute_def)
next
  case False
  let ?a = "path_absolute p"
  obtain cs where cs: "path_components p = root_part ?a @ cs" "components cs" using valid_components [OF assms False] by blast
  have "(\<exists>e. normalize False cur_empty p = Inl e) \<longleftrightarrow> collapse ?a [] (root_part ?a @ cs) = None"
    using False cs(1) by (auto simp: normalize_def path_components_def Let_def split: option.splits)
  also have "\<dots> \<longleftrightarrow> ?a \<and> escapes 0 cs"
    using collapse_escapes [OF cs(2), of "[]"] collapse_relative [of "[]" cs] by (cases ?a) (auto simp: root_part_def)
  finally show ?thesis by (auto simp: cs(1) root_part_def)
qed

theorem normalize_error_witness:
  "(\<exists>e. normalize False False \<lparr>path_str = ''/usr/../..'', path_tsep = 0\<rparr> = Inl e) \<longleftrightarrow>
   path_absolute \<lparr>path_str = ''/usr/../..'', path_tsep = 0\<rparr> \<and>
   escapes 0 (path_components \<lparr>path_str = ''/usr/../..'', path_tsep = 0\<rparr>)"
  by (rule normalize_error) (simp add: path_valid_def is_separator_def)

section \<open>Initialization\<close>

lemma dropWhile_rev_last: "dropWhile is_separator (rev s) = rev t \<Longrightarrow> t \<noteq> [] \<Longrightarrow> \<not> is_separator (last t)"
  by (metis hd_dropWhile hd_rev rev_is_Nil_conv)

lemma path_init_valid: "path_valid (path_init s exact)"
proof -
  let ?t = "rev (dropWhile is_separator (rev s))"
  have l: "?t \<noteq> [] \<Longrightarrow> \<not> is_separator (last ?t)" by (rule dropWhile_rev_last [of s]) simp_all
  have z: "take 1 s = ''/''" if "s \<noteq> []" "?t = []"
    using that by (cases s) (auto simp: dropWhile_eq_Nil_conv is_separator_def)
  show ?thesis
    using l z by (cases "s = []") (auto simp: path_init_def path_valid_def path_data_def empty_path_def Let_def)
qed

text \<open>
  A valid path is what its representation initializes, exactly, both as a path and, if it has a
  trailing separator, as a directory path.
\<close>

lemma representation_roundtrip:
  assumes "path_valid p"
  shows "path_init (representation p) True = p \<and> (path_tsep p \<noteq> 0 \<longrightarrow> dir_path_init (representation p) True = p)"
proof -
  consider "path_str p = []" "path_tsep p = 0" | "path_str p = ''/''" "path_tsep p = -1"
    | "path_str p \<noteq> []" "\<not> is_separator (last (path_str p))" "path_tsep p = 0 \<or> path_tsep p = 1"
    using assms by (auto simp: path_valid_def)
  then show ?thesis
  proof cases
    case 1
    then show ?thesis by (cases p) (simp add: representation_def path_init_def path_data_def)
  next
    case 2
    then show ?thesis
      by (cases p) (simp add: representation_def path_init_def path_data_def dir_path_init_def dir_cast_def)
  next
    case 3
    then have d: "dropWhile is_separator (rev (path_str p)) = rev (path_str p)"
      by (cases "path_str p" rule: rev_cases) auto
    have "path_init (representation p) True = p"
      using 3 d by (cases p) (auto simp: representation_def path_init_def path_data_def Let_def)
    with 3 show ?thesis by (auto simp: dir_path_init_def dir_cast_def representation_def)
  qed
qed

lemma representation_roundtrip_witness:
  "path_init (representation \<lparr>path_str = ''usr/lib'', path_tsep = 1\<rparr>) True = \<lparr>path_str = ''usr/lib'', path_tsep = 1\<rparr>"
  using representation_roundtrip [of "\<lparr>path_str = ''usr/lib'', path_tsep = 1\<rparr>"]
  by (simp add: path_valid_def is_separator_def)

section \<open>Extensions and directories without a leaf\<close>

text \<open>The string of a path is its base, the dot and its extension, which has no other dot or separator.\<close>

lemma base_extension:
  assumes "find_extension (path_str p) = Some k"
  shows "path_str p = path_str (path_base p) @ ''.'' @ path_extension p"
    and "\<forall>c \<in> set (path_extension p). c \<noteq> CHR ''.'' \<and> \<not> is_separator c" and "path_str (path_base p) \<noteq> []"
proof -
  let ?s = "path_str p" and ?P = "\<lambda>c. c \<noteq> CHR ''.'' \<and> \<not> is_separator c"
  obtain t where t: "dropWhile ?P (rev ?s) = CHR ''.'' # t" "t \<noteq> []" "k = length t"
    using assms by (auto simp: find_extension_def split: list.splits if_splits)
  obtain u where r: "rev ?s = u @ CHR ''.'' # t" and u: "\<forall>c \<in> set u. ?P c"
    using takeWhile_dropWhile_id [of ?P "rev ?s"] t(1) set_takeWhileD [of _ ?P "rev ?s"] by metis
  have s: "?s = rev t @ CHR ''.'' # rev u" using arg_cong [OF r, of rev] by simp
  have "take k ?s = rev t" "drop (k + 1) ?s = rev u" unfolding t(3) by (subst s; simp)+
  with assms have b: "path_str (path_base p) = rev t" "path_extension p = rev u"
    by (simp_all add: path_base_def path_data_def path_extension_def)
  show "path_str p = path_str (path_base p) @ ''.'' @ path_extension p" using s b by simp
  show "\<forall>c \<in> set (path_extension p). ?P c" using b u by simp
  show "path_str (path_base p) \<noteq> []" using b t(2) by simp
qed

lemma nth_before_append: "w \<noteq> [] \<Longrightarrow> (w @ e) ! (length w - 1) = last w"
  by (cases w rule: rev_cases) simp_all

lemma directory_of_mk:
  assumes "components ds" "components es" "es \<noteq> []"
  shows "path_directory_of (mk_path a (ds @ es) x) (mk_path False es x) = Inr (mk_path a ds True)"
proof -
  let ?w = "root_of a @ dirs ds" and ?e = "str_of False es"
  have e: "?e \<noteq> []" using str_of_empty [OF assms(2), of False] assms(3) by simp
  have s: "str_of a (ds @ es) = ?w @ ?e"
    using assms(3) by (cases es rule: rev_cases) (simp_all add: root_of_def flip: append_assoc)
  have l: "?w = [] \<or> is_separator (last ?w)"
    using dirs_last [of ds] by (cases "ds = []") (auto simp: root_of_def)
  have "path_sup (mk_path a (ds @ es) x) (mk_path False es x)"
  proof (cases "?w = []")
    case True
    then show ?thesis unfolding path_sup_def mk_path_fields(1) s Let_def by simp
  next
    case False
    have n: "length (?w @ ?e) - length ?e - 1 = length ?w - 1" by simp
    from False l nth_before_append [OF False, of ?e] show ?thesis
      unfolding path_sup_def mk_path_fields(1) s Let_def n by simp
  qed
  moreover have "data_init (take (length (str_of a (ds @ es)) - length ?e) (str_of a (ds @ es))) = mk_path a ds True"
  proof (cases "?w = []")
    case True
    with root_dirs_empty [of a ds] show ?thesis unfolding s by (simp add: data_init_def mk_path_def root_of_def)
  next
    case False
    with data_init_dirs [OF assms(1)] show ?thesis unfolding s by simp
  qed
  ultimately show ?thesis using e by (simp add: path_directory_of_def Let_def)
qed

section \<open>Where the code differs from its documentation\<close>

text \<open>The root directory should be simple.\<close>

lemma root_not_simple: "\<not> path_simple (path_init ''/'' False)"
  by code_simp

text \<open>A base that leads above the starting directory: the result does not lead from the base to the path.\<close>

lemma relative_to_parent:
  "path_relative (path_init ''foo'' False) (dir_path_init ''../bar'' False) = Inr (path_init ''../../foo'' False)"
  by code_simp

text \<open>A base without a trailing separator: the result is an absolute path.\<close>

lemma relative_to_file:
  "path_relative (path_init ''foo/bar'' False) (path_init ''foo'' False) = Inr (path_init ''/bar'' False)"
  by code_simp

text \<open>Two separators in a row: the directory has a trailing separator in the string.\<close>

lemma directory_double_separator:
  "path_directory (path_init ''foo//bar'' False) = \<lparr>path_str = ''foo/'', path_tsep = 1\<rparr>"
  by code_simp

end
