(* ===== verification/Depdb.thy ===== *)
theory Depdb
  imports Butl_Prelude
begin

text \<open>
  The dependency database of \<open>libbuild2\<close> (\<open>depdb.hxx\<close> and \<open>depdb.cxx\<close>): the file as a string, the position of
  the input stream, and in the write mode the characters that are still in the buffer of the output
  stream. A failed assertion is \<open>None\<close>. Errors of the operating system end the process, which may
  leave any part of the buffer in the file.
\<close>

abbreviation "newline \<equiv> CHR 0x0A"
abbreviation "end_marker \<equiv> CHR 0x00"

datatype db_state = Reading | At_eof | Writing

record depdb =
  dd_state :: db_state
  dd_file :: string           \<comment> \<open>what the file holds\<close>
  dd_get :: nat               \<comment> \<open>\<open>buf_->tellg ()\<close> when reading\<close>
  dd_put :: nat               \<comment> \<open>the file position when writing\<close>
  dd_out :: string            \<comment> \<open>the buffer of the output stream\<close>
  dd_pos :: nat               \<comment> \<open>\<open>pos_\<close>, the start of the last returned line\<close>
  dd_mtime :: "nat option"    \<comment> \<open>\<open>mtime\<close>, \<open>None\<close> when unknown\<close>
  dd_touch :: bool

section \<open>Switching to writing\<close>

definition change :: "bool \<Rightarrow> depdb \<Rightarrow> depdb option" where
  "change trunc d =
     (if dd_state d = Writing then None
      else Some (d\<lparr>dd_file := (if trunc then take (dd_pos d) (dd_file d) else dd_file d),
                  dd_put := dd_pos d, dd_out := [], dd_state := Writing, dd_mtime := None\<rparr>))"

text \<open>The first \<open>n\<close> characters of the buffer reach the file.\<close>

definition commit :: "nat \<Rightarrow> depdb \<Rightarrow> depdb" where
  "commit n d =
     (let s = take n (dd_out d) in
      d\<lparr>dd_file := take (dd_put d) (dd_file d) @ s @ drop (dd_put d + length s) (dd_file d),
        dd_put := dd_put d + length s, dd_out := drop n (dd_out d)\<rparr>)"

section \<open>Reading\<close>

text \<open>\<open>read_ ()\<close> and \<open>read ()\<close>\<close>

definition read_next :: "depdb \<Rightarrow> (string option \<times> depdb) option" where
  "read_next d0 =
     (let d = d0\<lparr>dd_pos := dd_get d0\<rparr>; s = drop (dd_get d0) (dd_file d0); l = takeWhile (\<lambda>c. c \<noteq> newline) s in
      if dd_state d = At_eof then Some (None, d)
      else
        (case drop (length l + 1) s of
           [] \<Rightarrow> map_option (Pair None) (change True d)
         | c # _ \<Rightarrow>
             let d = d\<lparr>dd_get := dd_get d + length l + 1\<rparr> in
             Some (Some l, if c = end_marker then d\<lparr>dd_state := At_eof\<rparr> else d)))"

definition read_line :: "depdb \<Rightarrow> (string option \<times> depdb) option" where
  "read_line d = (if dd_state d = Writing then Some (None, d) else read_next d)"

definition more :: "depdb \<Rightarrow> bool" where
  "more d \<longleftrightarrow> dd_state d = Reading"

definition reading :: "depdb \<Rightarrow> bool" where
  "reading d \<longleftrightarrow> dd_state d \<noteq> Writing"

definition writing :: "depdb \<Rightarrow> bool" where
  "writing d \<longleftrightarrow> dd_state d = Writing"

text \<open>The loop of \<open>skip ()\<close>: how many characters it takes to get past the end marker.\<close>

fun skip_loop :: "string \<Rightarrow> nat option" where
  "skip_loop (c # d # s) =
     (if c = newline
      then if d = end_marker then Some 2 else map_option (\<lambda>n. n + 2) (skip_loop s)
      else map_option (\<lambda>n. n + 1) (skip_loop (d # s)))"
| "skip_loop _ = None"

definition skip :: "depdb \<Rightarrow> (bool \<times> depdb) option" where
  "skip d0 =
     (if dd_state d0 = At_eof then Some (True, d0)
      else if dd_state d0 \<noteq> Reading then None
      else
        let d = d0\<lparr>dd_pos := dd_get d0\<rparr> in
        (case skip_loop (drop (dd_get d) (dd_file d)) of
           Some n \<Rightarrow> Some (True, d\<lparr>dd_get := dd_get d + n, dd_state := At_eof\<rparr>)
         | None \<Rightarrow> map_option (Pair False) (change True d)))"

section \<open>Writing\<close>

definition put_text :: "string \<Rightarrow> depdb \<Rightarrow> depdb" where
  "put_text s d = d\<lparr>dd_out := dd_out d @ s\<rparr>"

definition write_mode :: "depdb \<Rightarrow> depdb option" where
  "write_mode d = (if dd_state d \<noteq> Writing then change True d else Some d)"

definition write_text :: "string \<Rightarrow> bool \<Rightarrow> depdb \<Rightarrow> depdb option" where
  "write_text s nl d = map_option (put_text (s @ (if nl then [newline] else []))) (write_mode d)"

definition write_char :: "char \<Rightarrow> bool \<Rightarrow> depdb \<Rightarrow> depdb option" where
  "write_char c nl d = map_option (put_text (c # (if nl then [newline] else []))) (write_mode d)"

definition expect_line :: "string \<Rightarrow> depdb \<Rightarrow> (string option \<times> depdb) option" where
  "expect_line v d =
     (case read_line d of
        None \<Rightarrow> None
      | Some (l, d1) \<Rightarrow>
          if l \<noteq> Some v then map_option (Pair l) (write_text v True d1) else Some (None, d1))"

definition flush :: "depdb \<Rightarrow> depdb" where
  "flush d = (if dd_state d = Writing then commit (length (dd_out d)) d else d)"

section \<open>Opening and closing\<close>

text \<open>The file, if it exists, with its modification time.\<close>

definition depdb_open :: "(string \<times> nat) option \<Rightarrow> depdb option" where
  "depdb_open f =
     (case f of
        None \<Rightarrow>
          write_char CHR ''1'' True
            \<lparr>dd_state = Writing, dd_file = [], dd_get = 0, dd_put = 0, dd_out = [], dd_pos = 0,
             dd_mtime = None, dd_touch = False\<rparr>
      | Some (s, mt) \<Rightarrow>
          (case read_line
                  \<lparr>dd_state = Reading, dd_file = s, dd_get = 0, dd_put = 0, dd_out = [], dd_pos = 0,
                   dd_mtime = Some mt, dd_touch = False\<rparr> of
             None \<Rightarrow> None
           | Some (l, d) \<Rightarrow> if l \<noteq> Some ''1'' then write_char CHR ''1'' True d else Some d))"

definition put_end :: "depdb \<Rightarrow> depdb" where
  "put_end d = (let d = put_text [end_marker] d in commit (length (dd_out d)) d)"

definition close :: "depdb \<Rightarrow> depdb option" where
  "close d =
     (if dd_state d = At_eof
      then if \<not> dd_touch d then Some d
           else map_option put_end (change False (d\<lparr>dd_pos := dd_get d\<rparr>))
      else if dd_state d \<noteq> Writing
      then map_option put_end (change True (d\<lparr>dd_pos := dd_get d\<rparr>))
      else Some (put_end d))"

text \<open>The check of the modification times of the target, if it exists, and of the closed database.\<close>

datatype mtime_error = No_target | Backwards

definition check_mtimes :: "nat option \<Rightarrow> nat \<Rightarrow> mtime_error option" where
  "check_mtimes t_mt d_mt =
     (case t_mt of None \<Rightarrow> Some No_target | Some t \<Rightarrow> if d_mt > t then Some Backwards else None)"

definition check_mtime :: "bool \<Rightarrow> depdb \<Rightarrow> nat option \<Rightarrow> nat \<Rightarrow> mtime_error option" where
  "check_mtime enabled d t_mt d_mt =
     (if dd_state d = Writing \<and> enabled then check_mtimes t_mt d_mt else None)"

section \<open>Sessions\<close>

text \<open>The calls that a rule makes between opening and closing the database.\<close>

datatype db_call =
    Read_line
  | Expect_line string
  | Write_text string bool
  | Write_char char bool
  | Overwrite                 \<comment> \<open>\<open>write ()\<close>\<close>
  | Skip
  | Flush
  | Touch bool

fun db_step :: "db_call \<Rightarrow> depdb \<Rightarrow> depdb option" where
  "db_step Read_line d = map_option snd (read_line d)"
| "db_step (Expect_line v) d = map_option snd (expect_line v d)"
| "db_step (Write_text s nl) d = write_text s nl d"
| "db_step (Write_char c nl) d = write_char c nl d"
| "db_step Overwrite d = write_mode d"
| "db_step Skip d = map_option snd (skip d)"
| "db_step Flush d = Some (flush d)"
| "db_step (Touch b) d = Some (d\<lparr>dd_touch := b\<rparr>)"

fun db_run :: "db_call list \<Rightarrow> depdb \<Rightarrow> depdb option" where
  "db_run [] d = Some d"
| "db_run (c # cs) d = (case db_step c d of None \<Rightarrow> None | Some d1 \<Rightarrow> db_run cs d1)"

text \<open>Reading to the end: the lines, and the database after that.\<close>

lemma read_line_progress:
  assumes "read_line d = Some (Some l, d1)"
  shows "dd_file d1 = dd_file d \<and> dd_get d < dd_get d1 \<and> dd_get d1 < length (dd_file d)"
proof -
  let ?l = "takeWhile (\<lambda>c. c \<noteq> newline) (drop (dd_get d) (dd_file d))"
  obtain c t where t: "drop (length ?l + 1) (drop (dd_get d) (dd_file d)) = c # t"
    using assms by (auto simp: read_line_def read_next_def Let_def split: if_splits list.splits)
  have "dd_get d + length ?l + 1 < length (dd_file d)"
    using arg_cong [OF t, of length] by simp
  with assms t show ?thesis
    by (auto simp: read_line_def read_next_def Let_def split: if_splits)
qed

function read_all :: "depdb \<Rightarrow> string list \<times> depdb" where
  "read_all d =
     (case read_line d of
        Some (Some l, d1) \<Rightarrow> (case read_all d1 of (ls, e) \<Rightarrow> (l # ls, e))
      | Some (None, d1) \<Rightarrow> ([], d1)
      | None \<Rightarrow> ([], d))"
  by pat_completeness auto
termination
  by (relation "measure (\<lambda>d. length (dd_file d) - dd_get d)") (auto dest!: read_line_progress)

declare read_all.simps [simp del]

text \<open>What may be in the file when the process dies: some of the buffer has been written.\<close>

definition crash_image :: "depdb \<Rightarrow> nat \<Rightarrow> string" where
  "crash_image d n = dd_file (if dd_state d = Writing then commit n d else d)"

end
