(* ===== verification/Depdb_Properties.thy ===== *)
theory Depdb_Properties
  imports Depdb "HOL-Library.Sublist"
begin

text \<open>
  The dependency database survives interruptions: after a crash in the middle of writing the next session
  reads lines of the new contents only, in order, and then finds out that the database is not valid. What a
  session has read and written is what the next one reads, once the database has been closed.
\<close>

section \<open>Texts\<close>

text \<open>No line starts with the end marker; \<open>b\<close> tells whether the text starts a line.\<close>

fun marker_free :: "bool \<Rightarrow> string \<Rightarrow> bool" where
  "marker_free b [] \<longleftrightarrow> True"
| "marker_free b (c # s) \<longleftrightarrow> \<not> (b \<and> c = end_marker) \<and> marker_free (c = newline) s"

fun ends_line :: "bool \<Rightarrow> string \<Rightarrow> bool" where
  "ends_line b [] \<longleftrightarrow> b"
| "ends_line b (c # s) \<longleftrightarrow> ends_line (c = newline) s"

text \<open>What is before the end marker.\<close>

fun before_marker :: "bool \<Rightarrow> string \<Rightarrow> string" where
  "before_marker b [] = []"
| "before_marker b (c # s) = (if b \<and> c = end_marker then [] else c # before_marker (c = newline) s)"

definition good_text :: "string \<Rightarrow> bool" where
  "good_text s \<longleftrightarrow> marker_free True s \<and> ends_line True s"

lemma marker_free_append [simp]: "marker_free b (s @ t) \<longleftrightarrow> marker_free b s \<and> marker_free (ends_line b s) t"
  by (induction s arbitrary: b) auto

lemma ends_line_append [simp]: "ends_line b (s @ t) = ends_line (ends_line b s) t"
  by (induction s arbitrary: b) auto

lemma before_marker_append:
  "before_marker b (s @ t) = (if marker_free b s then s @ before_marker (ends_line b s) t else before_marker b s)"
  by (induction s arbitrary: b) auto

lemma before_marker_good: "\<not> marker_free b s \<Longrightarrow> marker_free b (before_marker b s) \<and> ends_line b (before_marker b s)"
  by (induction s arbitrary: b) auto

lemma before_marker_free: "marker_free b s \<Longrightarrow> before_marker b s = s"
  by (induction s arbitrary: b) auto

lemma marker_split: "\<not> marker_free b s \<Longrightarrow> \<exists>u. s = before_marker b s @ end_marker # u"
  by (induction s arbitrary: b) auto

lemma marker_free_plain: "end_marker \<notin> set s \<Longrightarrow> marker_free b s"
  by (induction s arbitrary: b) auto

lemma ends_line_plain: "newline \<notin> set l \<Longrightarrow> l \<noteq> [] \<Longrightarrow> \<not> ends_line b l"
  by (induction l arbitrary: b) (auto split: if_splits, metis ends_line.simps(1) ends_line.simps(2) neq_Nil_conv)

text \<open>The complete lines of a text.\<close>

function lines_of :: "string \<Rightarrow> string list" where
  "lines_of s =
     (case dropWhile (\<lambda>c. c \<noteq> newline) s of
        [] \<Rightarrow> [] | _ # t \<Rightarrow> takeWhile (\<lambda>c. c \<noteq> newline) s # lines_of t)"
  by pat_completeness auto
termination
proof (relation "measure length", goal_cases)
  case (2 s c t)
  with length_dropWhile_le [of "\<lambda>c. c \<noteq> newline" s] show ?case by simp
qed simp

declare lines_of.simps [simp del]

text \<open>The lines that a reader gets, and whether it then finds the end marker.\<close>

function db_lines :: "string \<Rightarrow> string list \<times> bool" where
  "db_lines s =
     (case dropWhile (\<lambda>c. c \<noteq> newline) s of
        [] \<Rightarrow> ([], False)
      | _ # t \<Rightarrow>
          (case t of
             [] \<Rightarrow> ([], False)
           | c # _ \<Rightarrow>
               if c = end_marker then ([takeWhile (\<lambda>c. c \<noteq> newline) s], True)
               else (case db_lines t of (ls, b) \<Rightarrow> (takeWhile (\<lambda>c. c \<noteq> newline) s # ls, b))))"
  by pat_completeness auto
termination
proof (relation "measure length", goal_cases)
  case (2 s c t d u)
  with length_dropWhile_le [of "\<lambda>c. c \<noteq> newline" s] show ?case by simp
qed simp

declare db_lines.simps [simp del]

lemma split_line: "newline \<notin> set l \<Longrightarrow> takeWhile (\<lambda>c. c \<noteq> newline) (l @ newline # t) = l"
  "newline \<notin> set l \<Longrightarrow> dropWhile (\<lambda>c. c \<noteq> newline) (l @ newline # t) = newline # t"
  by (induction l) auto

lemma no_line: "newline \<notin> set s \<Longrightarrow> dropWhile (\<lambda>c. c \<noteq> newline) s = []"
  by auto

lemma lines_of_line [simp]: "newline \<notin> set l \<Longrightarrow> lines_of (l @ newline # t) = l # lines_of t"
  by (subst lines_of.simps) (simp add: split_line)

lemma lines_of_none: "newline \<notin> set s \<Longrightarrow> lines_of s = []"
  by (subst lines_of.simps) (simp add: no_line)

lemma db_lines_none: "newline \<notin> set s \<Longrightarrow> db_lines s = ([], False)"
  by (subst db_lines.simps) (simp add: no_line)

lemma db_lines_line:
  "newline \<notin> set l \<Longrightarrow> db_lines (l @ newline # t) =
     (case t of [] \<Rightarrow> ([], False)
      | c # _ \<Rightarrow> if c = end_marker then ([l], True) else (case db_lines t of (ls, b) \<Rightarrow> (l # ls, b)))"
  by (subst db_lines.simps) (simp only: split_line list.case not_False_eq_True)

lemma line_cases:
  obtains (none) "newline \<notin> set s" | (line) l t where "s = l @ newline # t" "newline \<notin> set l"
  by (cases "newline \<in> set s") (auto dest: split_list_first)

lemma line_induct [case_names none line]:
  assumes "\<And>s. newline \<notin> set s \<Longrightarrow> P s" "\<And>l t. newline \<notin> set l \<Longrightarrow> P t \<Longrightarrow> P (l @ newline # t)"
  shows "P s"
proof (induction "length s" arbitrary: s rule: less_induct)
  case less
  show ?case
  proof (cases s rule: line_cases)
    case none
    then show ?thesis by (rule assms(1))
  next
    case (line l t)
    with less have "P t" by simp
    with line assms(2) show ?thesis by simp
  qed
qed

lemma db_lines_good:
  assumes "good_text s" "s \<noteq> []"
  shows "db_lines (s @ end_marker # u) = (lines_of s, True)"
  using assms
proof (induction s rule: line_induct)
  case (none s)
  then show ?case using ends_line_plain [of s True] by (auto simp: good_text_def)
next
  case (line l t)
  show ?case
  proof (cases t)
    case Nil
    with line.hyps show ?thesis by (simp add: db_lines_line lines_of_none)
  next
    case (Cons c v)
    then have "good_text t" "c \<noteq> end_marker" using line.prems by (auto simp: good_text_def)
    with line.IH Cons have "db_lines (t @ end_marker # u) = (lines_of t, True)" by simp
    with line.hyps(1) Cons \<open>c \<noteq> end_marker\<close> show ?thesis by (simp add: db_lines_line)
  qed
qed

lemma db_lines_free:
  assumes "marker_free True s"
  shows "\<not> snd (db_lines s) \<and> prefix (fst (db_lines s)) (lines_of s)"
  using assms
proof (induction s rule: line_induct)
  case (none s)
  then show ?case by (simp add: db_lines_none)
next
  case (line l t)
  have "marker_free True t" using line.prems by simp
  with line show ?case by (cases t) (auto simp: db_lines_line split: prod.splits)
qed

lemma lines_of_append: "prefix (lines_of s) (lines_of (s @ t))"
proof (induction s rule: line_induct)
  case (none s)
  then show ?case by (simp add: lines_of_none)
next
  case (line l u)
  then show ?case by simp
qed

lemma lines_of_plain: "newline \<notin> set l \<Longrightarrow> ends_line True s \<Longrightarrow> lines_of (s @ l @ [newline]) = lines_of s @ [l]"
proof (induction s rule: line_induct)
  case (none s)
  then have "s = []" using ends_line_plain [of s True] by auto
  with none show ?case by (simp add: lines_of_none)
next
  case (line m t)
  then show ?case by simp
qed

section \<open>What a reader gets\<close>

lemma read_next_reading:
  assumes "dd_state d = Reading"
  shows "newline \<notin> set (drop (dd_get d) (dd_file d)) \<Longrightarrow>
      read_line d = map_option (Pair None) (change True (d\<lparr>dd_pos := dd_get d\<rparr>))"
    "newline \<notin> set l \<Longrightarrow> drop (dd_get d) (dd_file d) = l @ newline # t \<Longrightarrow>
      read_line d =
        (case t of
           [] \<Rightarrow> map_option (Pair None) (change True (d\<lparr>dd_pos := dd_get d\<rparr>))
         | c # _ \<Rightarrow>
             let e = d\<lparr>dd_pos := dd_get d, dd_get := dd_get d + length l + 1\<rparr> in
             Some (Some l, if c = end_marker then e\<lparr>dd_state := At_eof\<rparr> else e))"
proof -
  assume n: "newline \<notin> set (drop (dd_get d) (dd_file d))"
  have w: "takeWhile (\<lambda>c. c \<noteq> newline) (drop (dd_get d) (dd_file d)) = drop (dd_get d) (dd_file d)" using n by auto
  from assms show "read_line d = map_option (Pair None) (change True (d\<lparr>dd_pos := dd_get d\<rparr>))"
    unfolding read_line_def read_next_def Let_def w by simp
next
  assume n: "newline \<notin> set l" "drop (dd_get d) (dd_file d) = l @ newline # t"
  with assms show "read_line d =
        (case t of
           [] \<Rightarrow> map_option (Pair None) (change True (d\<lparr>dd_pos := dd_get d\<rparr>))
         | c # _ \<Rightarrow>
             let e = d\<lparr>dd_pos := dd_get d, dd_get := dd_get d + length l + 1\<rparr> in
             Some (Some l, if c = end_marker then e\<lparr>dd_state := At_eof\<rparr> else e))"
    unfolding read_line_def read_next_def Let_def n(2) split_line [OF n(1)] by (cases t) simp_all
qed

lemma change_some: "dd_state d \<noteq> Writing \<Longrightarrow> \<exists>e. change b d = Some e \<and> dd_state e = Writing"
  by (simp add: change_def)

lemma read_all_writing: "dd_state d = Writing \<Longrightarrow> read_all d = ([], d)"
  by (simp add: read_all.simps [of d] read_line_def)

lemma read_all_eof: "dd_state d = At_eof \<Longrightarrow> read_all d = ([], d\<lparr>dd_pos := dd_get d\<rparr>)"
  by (simp add: read_all.simps [of d] read_line_def read_next_def)

definition same_file :: "depdb \<Rightarrow> depdb \<Rightarrow> bool" where
  "same_file d e \<longleftrightarrow> dd_file e = dd_file d \<and> dd_mtime e = dd_mtime d \<and> dd_touch e = dd_touch d"

lemma read_all_lines:
  "dd_state d = Reading \<Longrightarrow> \<exists>e. read_all d = (fst (db_lines (drop (dd_get d) (dd_file d))), e) \<and>
     (if snd (db_lines (drop (dd_get d) (dd_file d))) then dd_state e = At_eof \<and> same_file d e else dd_state e = Writing)"
proof (induction d rule: read_all.induct)
  case (1 d)
  let ?s = "drop (dd_get d) (dd_file d)"
  note rd = read_next_reading [OF "1.prems"]
  have w: ?case if "db_lines ?s = ([], False)" "read_line d = map_option (Pair None) (change True (d\<lparr>dd_pos := dd_get d\<rparr>))"
    using that "1.prems" change_some [of "d\<lparr>dd_pos := dd_get d\<rparr>" True] by (auto simp: read_all.simps [of d])
  show ?case
  proof (cases ?s rule: line_cases)
    case none
    with w rd(1) db_lines_none show ?thesis by simp
  next
    case (line l t)
    show ?thesis
    proof (cases t)
      case Nil
      with w rd(2) [OF line(2,1)] line show ?thesis by (simp add: db_lines_line)
    next
      case (Cons c v)
      let ?e = "d\<lparr>dd_pos := dd_get d, dd_get := dd_get d + length l + 1\<rparr>"
      have dr: "drop (dd_get d + length l + 1) (dd_file d) = t"
        using arg_cong [OF line(1), of "drop (length l + 1)"] by (simp add: add_ac)
      show ?thesis
      proof (cases "c = end_marker")
        case True
        with rd(2) [OF line(2,1)] Cons have "read_line d = Some (Some l, ?e\<lparr>dd_state := At_eof\<rparr>)" by simp
        with True Cons line show ?thesis
          by (simp add: read_all.simps [of d] read_all_eof db_lines_line same_file_def)
      next
        case False
        with rd(2) [OF line(2,1)] Cons have r: "read_line d = Some (Some l, ?e)" by simp
        obtain e where e: "read_all ?e = (fst (db_lines t), e)"
          "if snd (db_lines t) then dd_state e = At_eof \<and> same_file ?e e else dd_state e = Writing"
          using "1.IH" [OF r refl refl] "1.prems" dr by auto
        with False Cons line r show ?thesis
          by (auto simp: read_all.simps [of d] db_lines_line same_file_def split: prod.splits if_splits)
      qed
    qed
  qed
qed

text \<open>A new session on a file.\<close>

lemma open_lines:
  "\<exists>d e. depdb_open (Some (s, mt)) = Some d \<and> read_all d = (ls, e) \<and>
     ls = (case fst (db_lines s) of [] \<Rightarrow> [] | l # ls \<Rightarrow> if l = ''1'' then ls else []) \<and>
     (if (\<exists>ls. db_lines s = (''1'' # ls, True)) then dd_state e = At_eof \<and> dd_file e = s \<and> dd_mtime e = Some mt
      else dd_state e = Writing)"
  if "ls = (case fst (db_lines s) of [] \<Rightarrow> [] | l # ls \<Rightarrow> if l = ''1'' then ls else [])"
proof -
  let ?d = "\<lparr>dd_state = Reading, dd_file = s, dd_get = 0, dd_put = 0, dd_out = [], dd_pos = 0,
     dd_mtime = Some mt, dd_touch = False\<rparr>"
  have r: "dd_state ?d = Reading" "drop (dd_get ?d) (dd_file ?d) = s" by simp_all
  have a: "read_all ?d = (case read_line ?d of
        Some (Some l, d1) \<Rightarrow> (case read_all d1 of (ls, e) \<Rightarrow> (l # ls, e))
      | Some (None, d1) \<Rightarrow> ([], d1) | None \<Rightarrow> ([], ?d))" by (rule read_all.simps)
  obtain e where e: "read_all ?d = (fst (db_lines s), e)"
    "if snd (db_lines s) then dd_state e = At_eof \<and> same_file ?d e else dd_state e = Writing"
    using read_all_lines [OF r(1)] r(2) by auto
  have nn: "read_line ?d \<noteq> None"
    using change_some [of ?d True] by (auto simp: read_line_def read_next_def Let_def change_def split: list.splits if_splits)
  obtain m d1 where d1: "read_line ?d = Some (m, d1)" using nn by auto
  have w: "\<exists>d2. write_char CHR ''1'' True d1 = Some d2 \<and> dd_state d2 = Writing"
    by (cases "dd_state d1 = Writing") (simp_all add: write_char_def write_mode_def change_def put_text_def)
  show ?thesis
  proof (cases "m = Some ''1''")
    case True
    with a e d1 that show ?thesis
      by (cases "db_lines s"; cases "read_all d1") (auto simp: depdb_open_def same_file_def split: if_splits)
  next
    case False
    with a e d1 have "fst (db_lines s) = [] \<or> (\<exists>l ls. fst (db_lines s) = l # ls \<and> l \<noteq> ''1'')"
      by (cases m; cases "read_all d1") auto
    with w False d1 that show ?thesis
      by (cases "db_lines s") (auto simp: depdb_open_def read_all_writing)
  qed
qed

section \<open>The invariant of a session\<close>

text \<open>
  The calls that a client may make: after \<open>skip ()\<close> it does not read, and it writes no end markers.
\<close>

fun calls_ok :: "bool \<Rightarrow> db_call list \<Rightarrow> bool" where
  "calls_ok b [] \<longleftrightarrow> True"
| "calls_ok b (Read_line # cs) \<longleftrightarrow> \<not> b \<and> calls_ok b cs"
| "calls_ok b (Expect_line v # cs) \<longleftrightarrow> \<not> b \<and> end_marker \<notin> set v \<and> calls_ok b cs"
| "calls_ok b (Write_text s nl # cs) \<longleftrightarrow> end_marker \<notin> set s \<and> calls_ok b cs"
| "calls_ok b (Write_char c nl # cs) \<longleftrightarrow> c \<noteq> end_marker \<and> calls_ok b cs"
| "calls_ok b (Skip # cs) \<longleftrightarrow> calls_ok True cs"
| "calls_ok b (_ # cs) \<longleftrightarrow> calls_ok b cs"

text \<open>Between two lines that have been read, or after \<open>skip ()\<close>.\<close>

definition at_line :: "depdb \<Rightarrow> bool" where
  "at_line d \<longleftrightarrow>
     good_text (take (dd_get d) (dd_file d)) \<and> dd_get d < length (dd_file d) \<and>
     (dd_file d ! dd_get d = end_marker \<longleftrightarrow> dd_state d = At_eof)"

definition session_inv :: "bool \<Rightarrow> (string \<times> nat) option \<Rightarrow> depdb \<Rightarrow> bool" where
  "session_inv b f d \<longleftrightarrow>
     (if dd_state d = Writing
      then dd_put d = length (dd_file d) \<and> marker_free True (dd_file d @ dd_out d)
      else f = Some (dd_file d, the (dd_mtime d)) \<and> dd_mtime d \<noteq> None \<and>
        dd_pos d \<le> dd_get d \<and> dd_get d \<le> length (dd_file d) \<and> good_text (take (dd_pos d) (dd_file d)) \<and>
        (at_line d \<or> b \<and> dd_state d = At_eof \<and> \<not> marker_free True (take (dd_get d) (dd_file d))))"

lemma session_inv_writing [simp]:
  "dd_state d = Writing \<Longrightarrow>
     session_inv b f d \<longleftrightarrow> dd_put d = length (dd_file d) \<and> marker_free True (dd_file d @ dd_out d)"
  by (simp add: session_inv_def)

lemma change_inv:
  "dd_state d \<noteq> Writing \<Longrightarrow> dd_pos d \<le> length (dd_file d) \<Longrightarrow> good_text (take (dd_pos d) (dd_file d)) \<Longrightarrow>
     change True d = Some e \<Longrightarrow> dd_state e = Writing \<and> session_inv b f e"
  by (auto simp: change_def good_text_def)

lemma write_mode_inv:
  "session_inv b f d \<Longrightarrow> \<exists>e. write_mode d = Some e \<and> dd_state e = Writing \<and> session_inv b f e"
  using change_some [of d True] change_inv [of d _ b f]
  by (cases "dd_state d = Writing") (auto simp: write_mode_def session_inv_def [of b f d])

lemma put_text_inv:
  "session_inv b f d \<Longrightarrow> dd_state d = Writing \<Longrightarrow> end_marker \<notin> set s \<Longrightarrow> session_inv b f (put_text s d)"
  by (simp add: put_text_def marker_free_plain flip: append_assoc)

lemma write_text_inv:
  assumes "session_inv b f d" "end_marker \<notin> set s"
  shows "\<exists>e. write_text s nl d = Some e \<and> dd_state e = Writing \<and> session_inv b f e"
proof -
  obtain e where "write_mode d = Some e" "dd_state e = Writing" "session_inv b f e"
    using write_mode_inv [OF assms(1)] by blast
  with put_text_inv [of b f e "s @ (if nl then [newline] else [])"] assms(2) show ?thesis
    by (auto simp: write_text_def put_text_def)
qed

lemma write_char_text: "write_char c nl d = write_text [c] nl d"
  by (simp add: write_char_def write_text_def)

lemma commit_text: "dd_put d = length (dd_file d) \<Longrightarrow>
    dd_file (commit n d) @ dd_out (commit n d) = dd_file d @ dd_out d \<and> dd_put (commit n d) = length (dd_file (commit n d))"
  by (simp add: commit_def Let_def)

lemma commit_state [simp]: "dd_state (commit n d) = dd_state d"
  by (simp add: commit_def Let_def)

lemma flush_inv: "session_inv b f d \<Longrightarrow> session_inv b f (flush d)"
  using commit_text [of d "length (dd_out d)"]
  by (cases "dd_state d = Writing") (simp_all add: flush_def del: marker_free_append)

lemma first_line_free: "newline \<notin> set l \<Longrightarrow> (l @ [newline]) ! 0 \<noteq> end_marker \<Longrightarrow> marker_free True (l @ [newline])"
proof (cases l)
  case (Cons c m)
  have "newline \<notin> set m \<Longrightarrow> marker_free False (m @ [newline])" for m by (induction m) auto
  with Cons show "newline \<notin> set l \<Longrightarrow> (l @ [newline]) ! 0 \<noteq> end_marker \<Longrightarrow> ?thesis" by auto
qed simp

lemma read_step:
  assumes "dd_state d = Reading" "at_line d"
  obtains (fail) e where "read_line d = Some (None, e)" "change True (d\<lparr>dd_pos := dd_get d\<rparr>) = Some e"
  | (got) l e where "read_line d = Some (Some l, e)" "dd_state e \<noteq> Writing" "at_line e" "same_file d e"
      "dd_pos e = dd_get d" "newline \<notin> set l"
      "take (dd_get e) (dd_file d) = take (dd_get d) (dd_file d) @ l @ [newline]"
proof -
  let ?s = "drop (dd_get d) (dd_file d)"
  obtain e where e: "change True (d\<lparr>dd_pos := dd_get d\<rparr>) = Some e"
    using change_some [of "d\<lparr>dd_pos := dd_get d\<rparr>"] assms(1) by auto
  note rd = read_next_reading [OF assms(1)]
  show thesis
  proof (cases ?s rule: line_cases)
    case none
    with rd(1) e fail show ?thesis by simp
  next
    case (line l t)
    show ?thesis
    proof (cases t)
      case Nil
      with rd(2) [OF line(2,1)] e fail show ?thesis by simp
    next
      case (Cons c v)
      let ?e = "d\<lparr>dd_pos := dd_get d, dd_get := dd_get d + length l + 1\<rparr>"
      let ?r = "if c = end_marker then ?e\<lparr>dd_state := At_eof\<rparr> else ?e"
      have r: "read_line d = Some (Some l, ?r)" using rd(2) [OF line(2,1)] Cons by (simp add: Let_def)
      have f: "dd_file d = take (dd_get d) (dd_file d) @ l @ newline # c # v"
        using line(1) Cons append_take_drop_id [of "dd_get d" "dd_file d"] by simp
      have n: "dd_get d < length (dd_file d)" using assms(2) by (simp add: at_line_def)
      have tk: "take (dd_get d + length l + 1) (dd_file d) = take (dd_get d) (dd_file d) @ l @ [newline]"
        using n by (subst f) simp
      have c: "dd_file d ! (dd_get d + length l + 1) = c"
        using n by (subst f) (simp add: nth_append)
      have ln: "dd_get d + length l + 1 < length (dd_file d)"
        using arg_cong [OF f, of length] n by simp
      have "(l @ [newline]) ! 0 = dd_file d ! dd_get d"
        using arg_cong [OF line(1), of "\<lambda>s. s ! 0"] n by (cases l) simp_all
      then have "marker_free True (l @ [newline])"
        using assms line(2) by (intro first_line_free) (auto simp: at_line_def)
      then have g: "good_text (take (dd_get d) (dd_file d) @ l @ [newline])"
        using assms(2) by (auto simp: at_line_def good_text_def)
      have "at_line ?r" using g tk c ln assms(1) by (simp add: at_line_def)
      then show ?thesis
        using r tk line(2) assms(1) by (intro got [of l ?r]) (auto simp: same_file_def)
    qed
  qed
qed

lemma read_line_inv:
  assumes "session_inv False f d"
  shows "\<exists>r e. read_line d = Some (r, e) \<and> session_inv False f e"
proof (cases "dd_state d")
  case Reading
  then have a: "at_line d" using assms by (simp add: session_inv_def)
  show ?thesis
  proof (cases rule: read_step [OF Reading a])
    case (1 e)
    with change_inv [of "d\<lparr>dd_pos := dd_get d\<rparr>" e] Reading a show ?thesis by (auto simp: at_line_def)
  next
    case (2 l e)
    have "good_text (take (dd_get d) (dd_file d))" "dd_get d < length (dd_file d)" using a by (simp_all add: at_line_def)
    moreover have "dd_get d \<le> dd_get e"
      using arg_cong [OF 2(7), of length] \<open>dd_get d < length (dd_file d)\<close> by simp
    ultimately show ?thesis
      using 2 assms Reading by (auto simp: session_inv_def same_file_def at_line_def)
  qed
next
  case At_eof
  with assms show ?thesis by (auto simp: read_line_def read_next_def session_inv_def at_line_def)
next
  case Writing
  with assms show ?thesis by (simp add: read_line_def)
qed

lemma skip_loop_marker: "skip_loop s = Some n \<Longrightarrow> n \<le> length s \<and> (\<exists>u. take n s = u @ [newline, end_marker])"
proof (induction s arbitrary: n rule: skip_loop.induct)
  case (1 c d s)
  show ?case
  proof (cases "c = newline")
    case True
    show ?thesis
    proof (cases "d = end_marker")
      case False
      with True 1(3) obtain m where m: "skip_loop s = Some m" "n = m + 2" by auto
      with 1(1) [OF True False m(1)] obtain u where "m \<le> length s" "take m s = u @ [newline, end_marker]" by auto
      with m show ?thesis by (auto intro: exI [of _ "c # d # u"])
    qed (use True 1(3) in auto)
  next
    case False
    with 1(3) obtain m where m: "skip_loop (d # s) = Some m" "n = m + 1" by auto
    with 1(2) [OF False m(1)] obtain u where "m \<le> length (d # s)" "take m (d # s) = u @ [newline, end_marker]" by auto
    with m show ?thesis by (auto intro: exI [of _ "c # u"])
  qed
qed simp_all

lemma skip_inv:
  assumes "session_inv b f d" "skip d = Some (r, e)"
  shows "session_inv True f e"
proof (cases "dd_state d")
  case Reading
  let ?d = "d\<lparr>dd_pos := dd_get d\<rparr>"
  have a: "at_line d" using assms(1) Reading by (simp add: session_inv_def)
  show ?thesis
  proof (cases "skip_loop (drop (dd_get d) (dd_file d))")
    case None
    with assms(2) Reading have "change True ?d = Some e" by (auto simp: skip_def)
    with change_inv [of ?d e] Reading a show ?thesis by (auto simp: at_line_def)
  next
    case (Some n)
    obtain u where u: "n \<le> length (dd_file d) - dd_get d" "take n (drop (dd_get d) (dd_file d)) = u @ [newline, end_marker]"
      using skip_loop_marker [OF Some] by auto
    have e: "e = ?d\<lparr>dd_get := dd_get d + n, dd_state := At_eof\<rparr>" using assms(2) Some Reading by (simp add: skip_def)
    have "\<not> marker_free True (take (dd_get d + n) (dd_file d))"
      by (simp add: take_add u(2))
    with u(1) e a assms(1) Reading show ?thesis by (auto simp: session_inv_def at_line_def)
  qed
next
  case At_eof
  with assms show ?thesis by (auto simp: skip_def session_inv_def)
next
  case Writing
  with assms show ?thesis by (simp add: skip_def)
qed

lemma session_inv_mono: "session_inv b f d \<Longrightarrow> session_inv True f d"
  by (auto simp: session_inv_def)

lemma touch_inv: "session_inv b f d \<Longrightarrow> session_inv b f (d\<lparr>dd_touch := t\<rparr>)"
  by (auto simp: session_inv_def at_line_def)

lemma expect_inv:
  assumes "session_inv False f d" "end_marker \<notin> set v"
  shows "\<exists>r e. expect_line v d = Some (r, e) \<and> session_inv False f e"
proof -
  obtain r e where r: "read_line d = Some (r, e)" "session_inv False f e" using read_line_inv [OF assms(1)] by blast
  with write_text_inv [OF r(2) assms(2), of True] show ?thesis by (auto simp: expect_line_def)
qed

lemma db_step_inv:
  assumes "session_inv b f d" "calls_ok b (c # cs)" "db_step c d = Some e"
  shows "\<exists>b. session_inv b f e \<and> calls_ok b cs"
proof (cases c)
  case Read_line
  with assms read_line_inv [of f d] show ?thesis by (auto simp: map_option_case split: option.splits)
next
  case (Expect_line v)
  with assms expect_inv [of f d v] show ?thesis by (auto simp: map_option_case split: option.splits)
next
  case (Write_text t nl)
  with assms write_text_inv [of b f d t nl] show ?thesis by auto
next
  case (Write_char ch nl)
  with assms write_text_inv [of b f d "[ch]" nl] show ?thesis by (auto simp: write_char_text)
next
  case Overwrite
  with assms write_mode_inv [of b f d] show ?thesis by auto
next
  case Skip
  with assms skip_inv [of b f d] show ?thesis by (auto simp: map_option_case split: option.splits)
next
  case Flush
  with assms flush_inv [of b f d] show ?thesis by auto
next
  case (Touch t)
  with assms touch_inv [of b f d t] show ?thesis by auto
qed

lemma db_run_inv:
  "session_inv b f d \<Longrightarrow> calls_ok b cs \<Longrightarrow> db_run cs d = Some e \<Longrightarrow> session_inv True f e"
proof (induction cs arbitrary: b d)
  case Nil
  then show ?case using session_inv_mono by simp
next
  case (Cons c cs)
  then obtain d1 where d1: "db_step c d = Some d1" "db_run cs d1 = Some e" by (auto split: option.splits)
  with db_step_inv [OF Cons.prems(1,2) d1(1)] Cons.IH show ?case by blast
qed

lemma open_inv: "\<exists>d. depdb_open f = Some d \<and> session_inv False f d"
proof (cases f)
  case None
  then show ?thesis by (simp add: depdb_open_def write_char_def write_mode_def put_text_def)
next
  case (Some p)
  obtain s mt where f: "f = Some (s, mt)" using Some by (cases p) simp
  let ?d = "\<lparr>dd_state = Reading, dd_file = s, dd_get = 0, dd_put = 0, dd_out = [], dd_pos = 0,
     dd_mtime = Some mt, dd_touch = False\<rparr>"
  show ?thesis
  proof (cases "s \<noteq> [] \<and> s ! 0 \<noteq> end_marker")
    case True
    then have "session_inv False f ?d" by (auto simp: session_inv_def at_line_def good_text_def f)
    then obtain r e where r: "read_line ?d = Some (r, e)" "session_inv False f e" using read_line_inv by blast
    with write_text_inv [OF r(2), of "''1''" True] f show ?thesis
      by (auto simp: depdb_open_def write_char_text)
  next
    case False
    have "\<exists>r e. read_line ?d = Some (r, e) \<and> r \<noteq> Some ''1'' \<and> (session_inv False f e \<and> dd_state e = Writing \<or>
        dd_state e \<noteq> Writing \<and> dd_pos e = 0)"
    proof (cases s rule: line_cases)
      case none
      with read_next_reading(1) [of ?d] show ?thesis by (auto simp: change_def)
    next
      case (line l t)
      with False have "l = [] \<or> hd l = end_marker" by (cases l) auto
      with line read_next_reading(2) [of ?d l t] show ?thesis
        by (cases t) (auto simp: change_def Let_def)
    qed
    then obtain r e where r: "read_line ?d = Some (r, e)" "r \<noteq> Some ''1''"
      "session_inv False f e \<and> dd_state e = Writing \<or> dd_state e \<noteq> Writing \<and> dd_pos e = 0" by blast
    have "\<exists>e1. write_mode e = Some e1 \<and> dd_state e1 = Writing \<and> session_inv False f e1"
      using r(3) write_mode_inv [of False f e] by (auto simp: write_mode_def change_def)
    then obtain e1 where "write_mode e = Some e1" "dd_state e1 = Writing" "session_inv False f e1" by blast
    with put_text_inv [of False f e1 "[CHR ''1'', newline]"] r(1,2) f show ?thesis
      by (auto simp: depdb_open_def write_char_def)
  qed
qed

text \<open>The text of the database in a session: what it will hold before the end marker.\<close>

definition dd_text :: "depdb \<Rightarrow> string" where
  "dd_text d =
     (case dd_state d of
        Writing \<Rightarrow> dd_file d @ dd_out d
      | Reading \<Rightarrow> take (dd_get d) (dd_file d)
      | At_eof \<Rightarrow> before_marker True (dd_file d))"

lemma at_eof_text:
  assumes "at_line d" "dd_state d = At_eof"
  shows "dd_text d = take (dd_get d) (dd_file d)" "\<not> marker_free True (dd_file d)"
    "take (dd_get d) (dd_file d) @ end_marker # drop (dd_get d + 1) (dd_file d) = dd_file d"
proof -
  have g: "good_text (take (dd_get d) (dd_file d))" "dd_get d < length (dd_file d)" "dd_file d ! dd_get d = end_marker"
    using assms by (simp_all add: at_line_def)
  have f: "dd_file d = take (dd_get d) (dd_file d) @ end_marker # drop (dd_get d + 1) (dd_file d)"
    using id_take_nth_drop [OF g(2)] g(3) by simp
  then show "take (dd_get d) (dd_file d) @ end_marker # drop (dd_get d + 1) (dd_file d) = dd_file d" by simp
  have "before_marker True (dd_file d) = take (dd_get d) (dd_file d)"
    by (subst f) (use g(1) in \<open>simp add: before_marker_append good_text_def\<close>)
  with assms(2) show "dd_text d = take (dd_get d) (dd_file d)" by (simp add: dd_text_def)
  have "\<not> marker_free True (take (dd_get d) (dd_file d) @ end_marker # drop (dd_get d + 1) (dd_file d))"
    using g(1) by (simp add: good_text_def)
  with f show "\<not> marker_free True (dd_file d)" by simp
qed

lemma marked_lines:
  assumes "\<not> marker_free True s" "before_marker True s \<noteq> []"
  shows "db_lines s = (lines_of (before_marker True s), True)"
proof -
  obtain u where u: "s = before_marker True s @ end_marker # u" using marker_split [OF assms(1)] by blast
  have "good_text (before_marker True s)" using before_marker_good [OF assms(1)] by (simp add: good_text_def)
  from db_lines_good [OF this assms(2), of u] u show ?thesis by metis
qed

lemma close_lines:
  assumes "session_inv True f d" "ends_line True (dd_text d)" "dd_text d \<noteq> []"
  shows "\<exists>e. close d = Some e \<and> db_lines (dd_file e) = (lines_of (dd_text d), True)"
proof (cases "dd_state d")
  case Writing
  with assms have "good_text (dd_file d @ dd_out d)" "dd_put d = length (dd_file d)"
    by (auto simp: good_text_def dd_text_def)
  with db_lines_good [of "dd_file d @ dd_out d" "[]"] assms(3) Writing show ?thesis
    by (simp add: close_def put_end_def put_text_def commit_def dd_text_def)
next
  case Reading
  with assms have "at_line d" by (simp add: session_inv_def)
  then have "good_text (take (dd_get d) (dd_file d))" "dd_get d < length (dd_file d)" by (simp_all add: at_line_def)
  with db_lines_good [of "take (dd_get d) (dd_file d)" "[]"] assms(3) Reading show ?thesis
    by (simp add: close_def put_end_def put_text_def commit_def dd_text_def change_def)
next
  case At_eof
  let ?t = "take (dd_get d) (dd_file d) @ end_marker # drop (dd_get d + 1) (dd_file d)"
  have i: "at_line d \<or> \<not> marker_free True (take (dd_get d) (dd_file d))" "dd_get d \<le> length (dd_file d)"
    using assms(1) At_eof by (auto simp: session_inv_def)
  have m: "\<not> marker_free True (dd_file d)"
  proof (cases "at_line d")
    case True
    with at_eof_text(2) At_eof show ?thesis by blast
  next
    case False
    with i(1) have "\<not> marker_free True (take (dd_get d) (dd_file d) @ drop (dd_get d) (dd_file d))"
      unfolding marker_free_append by blast
    then show ?thesis by simp
  qed
  have t: "\<not> marker_free True ?t \<and> before_marker True ?t = before_marker True (dd_file d)"
  proof (cases "at_line d")
    case True
    with at_eof_text(3) At_eof m show ?thesis by simp
  next
    case False
    with i(1) have n: "\<not> marker_free True (take (dd_get d) (dd_file d))" by blast
    have "before_marker True (take (dd_get d) (dd_file d) @ drop (dd_get d) (dd_file d)) =
        before_marker True (take (dd_get d) (dd_file d))"
      using n by (simp only: before_marker_append if_False)
    with n show ?thesis by (simp add: before_marker_append)
  qed
  have b: "before_marker True (dd_file d) \<noteq> []" using assms(3) At_eof by (simp add: dd_text_def)
  show ?thesis
  proof (cases "dd_touch d")
    case True
    with At_eof i(2) have "\<exists>e. close d = Some e \<and> dd_file e = ?t"
      by (simp add: close_def put_end_def put_text_def commit_def change_def)
    with marked_lines [of ?t] t b At_eof show ?thesis by (auto simp: dd_text_def)
  next
    case False
    with marked_lines [OF m b] At_eof show ?thesis by (simp add: close_def dd_text_def)
  qed
qed

section \<open>Properties\<close>

lemma lines_of_prefix: "prefix p t \<Longrightarrow> prefix (lines_of p) (lines_of t)"
  using lines_of_append by (auto simp: prefix_def)

text \<open>
  C5: Take a session in which the client does not read or expect lines after \<open>skip ()\<close> and writes no end markers,
  and let it crash at any point. If the database is still in the read mode then its file has not been touched, with
  its modification time. If the session has begun to write, then, however much of the buffer has got to the file, the
  next session reads lines of the new contents only, from the first one on and in order, and then switches to writing:
  it neither reads an old line nor finds the database valid. (A line expected after \<open>skip ()\<close> loses that, see
  \<open>crash_after_skip\<close>.)
\<close>

theorem depdb_crash_safe:
  assumes "depdb_open f = Some d0" "calls_ok False cs" "db_run cs d0 = Some d"
  shows "if writing d
    then \<exists>d1 ls e. depdb_open (Some (crash_image d n, mt)) = Some d1 \<and> read_all d1 = (ls, e) \<and> writing e \<and>
      prefix ls (tl (lines_of (dd_text d)))
    else f = Some (crash_image d n, the (dd_mtime d))"
proof (cases "writing d")
  case False
  have "session_inv True f d" using open_inv [of f] assms db_run_inv by fastforce
  with False show ?thesis by (simp add: session_inv_def writing_def crash_image_def)
next
  case True
  let ?p = "crash_image d n"
  have i: "session_inv True f d" using open_inv [of f] assms db_run_inv by fastforce
  with True have p: "dd_text d = ?p @ drop n (dd_out d)"
    by (simp add: writing_def dd_text_def crash_image_def commit_def Let_def)
  have "marker_free True (dd_text d)" using i True by (simp add: writing_def dd_text_def)
  then have "marker_free True ?p" unfolding p by simp
  then have l: "\<not> snd (db_lines ?p)" "prefix (fst (db_lines ?p)) (lines_of ?p)" using db_lines_free by blast+
  have pr: "prefix (fst (db_lines ?p)) (lines_of (dd_text d))"
    using l(2) lines_of_append [of ?p "drop n (dd_out d)"] p by (metis prefix_order.trans)
  define ls where "ls = (case fst (db_lines ?p) of [] \<Rightarrow> [] | l # ls \<Rightarrow> if l = ''1'' then ls else [])"
  have "prefix ls (tl (lines_of (dd_text d)))"
    using pr by (cases "fst (db_lines ?p)"; cases "lines_of (dd_text d)") (auto simp: ls_def)
  moreover have "\<not> (\<exists>ls. db_lines ?p = (''1'' # ls, True))" using l(1) by auto
  ultimately show ?thesis using open_lines [OF ls_def] True unfolding writing_def by (metis (no_types, lifting))
qed

theorem depdb_crash_safe_witness:
  "case db_run [Expect_line ''cxx'', Expect_line ''b''] (the (depdb_open (Some (''1'' @ [newline] @ ''cxx'' @ [newline] @ ''a'' @ [newline, end_marker], 7)))) of
     Some d \<Rightarrow> writing d \<and> (\<exists>d1 ls e. depdb_open (Some (crash_image d 1, 8)) = Some d1 \<and> read_all d1 = (ls, e) \<and>
       writing e \<and> prefix ls (tl (lines_of (dd_text d))))
   | None \<Rightarrow> False"
proof -
  let ?f = "Some (''1'' @ [newline] @ ''cxx'' @ [newline] @ ''a'' @ [newline, end_marker], 7)"
    and ?cs = "[Expect_line ''cxx'', Expect_line ''b'']"
  have o: "depdb_open ?f = Some (the (depdb_open ?f))" by code_simp
  have r: "case db_run ?cs (the (depdb_open ?f)) of Some d \<Rightarrow> writing d | None \<Rightarrow> False" by code_simp
  then obtain d where d: "db_run ?cs (the (depdb_open ?f)) = Some d" "writing d"
    by (auto split: option.splits)
  have c: "calls_ok False ?cs" by code_simp
  from depdb_crash_safe [OF o c d(1), of 1 8] d show ?thesis by simp
qed

text \<open>
  C28: Take a session in which the client does not read or expect lines after \<open>skip ()\<close> and writes no end markers, and
  whose contents are complete lines that begin with the format line. When the database is closed, the rest of these
  lines is what the next session reads up to the end of the file, which is then valid and unchanged: lines that were not
  read are gone, and a line that was read and then written is replaced. (See \<open>expect_after_skip\<close> and
  \<open>write_after_open\<close> for sessions that do not keep to this.)
\<close>

theorem depdb_close_roundtrip:
  assumes "depdb_open f = Some d0" "calls_ok False cs" "db_run cs d0 = Some d"
    and "ends_line True (dd_text d)" "lines_of (dd_text d) = ''1'' # ls"
  shows "\<exists>e d1 e1. close d = Some e \<and> depdb_open (Some (dd_file e, mt)) = Some d1 \<and> read_all d1 = (ls, e1) \<and>
    \<not> writing e1 \<and> dd_file e1 = dd_file e \<and> dd_mtime e1 = Some mt"
proof -
  have i: "session_inv True f d" using open_inv [of f] assms db_run_inv by fastforce
  have "dd_text d \<noteq> []" using assms(5) lines_of_none [of "[]"] by auto
  with close_lines [OF i assms(4)] obtain e where e: "close d = Some e" "db_lines (dd_file e) = (''1'' # ls, True)"
    using assms(5) by auto
  have ls: "ls = (case fst (db_lines (dd_file e)) of [] \<Rightarrow> [] | l # ls \<Rightarrow> if l = ''1'' then ls else [])" using e(2) by simp
  show ?thesis using open_lines [OF ls, of mt] e by (auto simp: writing_def)
qed

theorem depdb_close_roundtrip_witness:
  "\<exists>e d1 e1. close (the (db_run [Expect_line ''cxx'', Expect_line ''b''] (the (depdb_open None)))) = Some e \<and>
    depdb_open (Some (dd_file e, 9)) = Some d1 \<and> read_all d1 = ([''cxx'', ''b''], e1) \<and>
    \<not> writing e1 \<and> dd_file e1 = dd_file e \<and> dd_mtime e1 = Some 9"
proof -
  let ?cs = "[Expect_line ''cxx'', Expect_line ''b'']"
  let ?d = "the (db_run ?cs (the (depdb_open None)))"
  have h: "depdb_open None = Some (the (depdb_open None))" "calls_ok False ?cs"
    "db_run ?cs (the (depdb_open None)) = Some ?d" "ends_line True (dd_text ?d)"
    by code_simp+
  have "dd_text ?d = ''1'' @ newline # ''cxx'' @ newline # ''b'' @ newline # []" by code_simp
  then have "lines_of (dd_text ?d) = [''1'', ''cxx'', ''b'']"
    by (simp only:) (subst lines_of_line, simp, subst lines_of_line, simp, subst lines_of_line, simp, simp add: lines_of_none)
  from depdb_close_roundtrip [OF h this] show ?thesis .
qed

section \<open>Expected lines\<close>

lemma read_db_lines:
  assumes "dd_state d = Reading" "read_line d = Some (r, e)"
  shows "fst (db_lines (drop (dd_get d) (dd_file d))) =
    (case r of None \<Rightarrow> []
     | Some l \<Rightarrow> l # (if dd_state e = Reading then fst (db_lines (drop (dd_get e) (dd_file e))) else []))"
proof -
  have "fst (read_all d) = fst (db_lines (drop (dd_get d) (dd_file d)))" using read_all_lines [OF assms(1)] by auto
  moreover have "fst (read_all e) = (if dd_state e = Reading then fst (db_lines (drop (dd_get e) (dd_file e))) else [])"
    using read_all_lines [of e] by (cases "dd_state e") (auto simp: read_all_writing read_all_eof)
  ultimately show ?thesis using assms(2)
    by (cases r; cases "dd_state e = Reading"; cases "read_all e") (auto simp: read_all.simps [of d])
qed

text \<open>The session has got to the lines \<open>acc\<close>, which were in the file as long as it is still reading.\<close>

definition follows :: "(string \<times> nat) option \<Rightarrow> string list \<Rightarrow> depdb \<Rightarrow> bool" where
  "follows f acc d \<longleftrightarrow>
     session_inv False f d \<and> lines_of (dd_text d) = acc \<and> ends_line True (dd_text d) \<and>
     (if writing d then \<nexists>s mt. f = Some (s, mt) \<and> prefix acc (fst (db_lines s))
      else fst (db_lines (dd_file d)) = acc @ (if dd_state d = Reading then fst (db_lines (drop (dd_get d) (dd_file d))) else []))"

lemma at_line_text:
  assumes "session_inv False f d" "\<not> writing d"
  shows "at_line d" "dd_text d = take (dd_get d) (dd_file d)" "ends_line True (dd_text d)"
proof -
  show a: "at_line d" using assms by (simp add: session_inv_def writing_def)
  then show t: "dd_text d = take (dd_get d) (dd_file d)"
    using assms(2) at_eof_text(1) by (cases "dd_state d") (simp_all add: dd_text_def writing_def)
  with a show "ends_line True (dd_text d)" by (simp add: at_line_def good_text_def)
qed

lemma write_line_follows:
  assumes "session_inv False f e" "dd_state e = Writing" "dd_text e = t" "ends_line True t" "lines_of t = acc"
    "newline \<notin> set v" "end_marker \<notin> set v" "\<nexists>s mt. f = Some (s, mt) \<and> prefix (acc @ [v]) (fst (db_lines s))"
  shows "\<exists>e'. write_text v True e = Some e' \<and> follows f (acc @ [v]) e' \<and> writing e'"
proof -
  obtain e' where e': "write_text v True e = Some e'" "dd_state e' = Writing" "session_inv False f e'"
    using write_text_inv [OF assms(1,7), of True] by blast
  then have "dd_text e' = t @ v @ [newline]"
    using assms(2,3) by (auto simp: write_text_def write_mode_def put_text_def dd_text_def)
  with e' assms lines_of_plain [of v t] show ?thesis by (simp add: follows_def writing_def)
qed

lemma expect_follows:
  assumes "follows f acc d" "newline \<notin> set v" "end_marker \<notin> set v"
  shows "\<exists>r e. expect_line v d = Some (r, e) \<and> follows f (acc @ [v]) e"
proof (cases "writing d")
  case True
  then have w: "dd_state d = Writing" by (simp add: writing_def)
  have "\<nexists>s mt. f = Some (s, mt) \<and> prefix (acc @ [v]) (fst (db_lines s))"
    using assms(1) True by (auto simp: follows_def dest: append_prefixD)
  with write_line_follows [of f d "dd_text d" acc v] assms True w show ?thesis
    by (auto simp: follows_def expect_line_def read_line_def)
next
  case False
  have i: "session_inv False f d" "lines_of (dd_text d) = acc" using assms(1) by (simp_all add: follows_def)
  note al = at_line_text [OF i(1) False]
  obtain mt where f: "f = Some (dd_file d, mt)" using i(1) False by (auto simp: session_inv_def writing_def)
  let ?rest = "if dd_state d = Reading then fst (db_lines (drop (dd_get d) (dd_file d))) else []"
  have fl: "fst (db_lines (dd_file d)) = acc @ ?rest" using assms(1) False by (simp add: follows_def)
  obtain r e where r: "read_line d = Some (r, e)" "session_inv False f e" using read_line_inv [OF i(1)] by blast
  have pos: "dd_text (the (write_mode e)) = dd_text d \<and> dd_state (the (write_mode e)) = Writing"
    "write_mode e \<noteq> None \<and> session_inv False f (the (write_mode e))"
  proof -
    show "write_mode e \<noteq> None \<and> session_inv False f (the (write_mode e))" using write_mode_inv [OF r(2)] by auto
    show "dd_text (the (write_mode e)) = dd_text d \<and> dd_state (the (write_mode e)) = Writing"
    proof (cases "dd_state d")
      case Reading
      show ?thesis
      proof (cases rule: read_step [OF Reading al(1)])
        case (1 e')
        with r(1) show ?thesis by (auto simp: change_def write_mode_def dd_text_def Reading split: if_splits)
      next
        case (2 l e')
        with r(1) show ?thesis by (auto simp: change_def write_mode_def dd_text_def Reading same_file_def split: if_splits)
      qed
    next
      case At_eof
      with r(1) al(2) show ?thesis
        by (auto simp: read_line_def read_next_def change_def write_mode_def) (simp add: dd_text_def)
    qed (use False in \<open>simp add: writing_def\<close>)
  qed
  have rest: "?rest = (case r of None \<Rightarrow> []
     | Some l \<Rightarrow> l # (if dd_state e = Reading then fst (db_lines (drop (dd_get e) (dd_file e))) else []))"
  proof (cases "dd_state d = Reading")
    case True
    with read_db_lines [OF True r(1)] show ?thesis by simp
  next
    case nr: False
    with False have "dd_state d = At_eof" by (cases "dd_state d") (simp_all add: writing_def)
    with r(1) show ?thesis by (auto simp: read_line_def read_next_def)
  qed
  show ?thesis
  proof (cases "r = Some v")
    case True
    then have rd: "dd_state d = Reading" using False r(1)
      by (cases "dd_state d") (auto simp: read_line_def read_next_def writing_def)
    have "follows f (acc @ [v]) e"
    proof (cases rule: read_step [OF rd al(1)])
      case (1 e')
      with r(1) True show ?thesis by simp
    next
      case (2 l e')
      then have e: "e' = e" "l = v" using r(1) True by simp_all
      have nw: "\<not> writing e" using 2 e by (simp add: writing_def)
      have "dd_text e = dd_text d @ v @ [newline]"
        using at_line_text(2) [OF r(2) nw] 2 e al(2) by (simp add: same_file_def)
      with lines_of_plain [of v "dd_text d"] assms(2) al(3) i(2) have "lines_of (dd_text e) = acc @ [v]" by simp
      moreover have "fst (db_lines (dd_file e)) = (acc @ [v]) @
          (if dd_state e = Reading then fst (db_lines (drop (dd_get e) (dd_file e))) else [])"
        using fl rest True 2 e by (simp add: same_file_def)
      ultimately show ?thesis using r(2) at_line_text(3) [OF r(2) nw] nw by (simp add: follows_def)
    qed
    with True r(1) show ?thesis by (simp add: expect_line_def)
  next
    case ne: False
    have "\<not> prefix (acc @ [v]) (acc @ ?rest)" using ne by (cases r) (auto simp: rest)
    then have np: "\<nexists>s mt. f = Some (s, mt) \<and> prefix (acc @ [v]) (fst (db_lines s))" using f fl by auto
    have m: "dd_state (the (write_mode e)) = Writing" "dd_text (the (write_mode e)) = dd_text d"
      "write_mode (the (write_mode e)) = write_mode e" using pos by (auto simp: write_mode_def)
    have wt: "write_text v True e = write_text v True (the (write_mode e))"
      by (simp add: write_text_def m(3))
    obtain e' where "write_text v True (the (write_mode e)) = Some e'" "follows f (acc @ [v]) e'"
      using write_line_follows [OF conjunct2 [OF pos(2)] m(1,2) al(3) i(2) assms(2,3) np] by blast
    with ne r(1) wt show ?thesis by (simp add: expect_line_def)
  qed
qed

lemma expects_follow:
  "follows f acc d \<Longrightarrow> \<forall>v \<in> set vs. newline \<notin> set v \<and> end_marker \<notin> set v \<Longrightarrow>
     \<exists>e. db_run (map Expect_line vs) d = Some e \<and> follows f (acc @ vs) e"
proof (induction vs arbitrary: acc d)
  case (Cons v vs)
  then obtain r e where "expect_line v d = Some (r, e)" "follows f (acc @ [v]) e"
    using expect_follows [of f acc d v] by auto
  with Cons.IH [of "acc @ [v]" e] Cons.prems(2) show ?case by simp
qed simp

lemma open_follows: "\<exists>d. depdb_open f = Some d \<and> follows f [''1''] d"
proof (cases f)
  case None
  have "lines_of (''1'' @ newline # []) = [''1'']" by (subst lines_of_line) (simp_all add: lines_of_none)
  with None show ?thesis
    by (simp add: depdb_open_def write_char_def write_mode_def put_text_def follows_def dd_text_def writing_def)
next
  case (Some p)
  obtain s mt where f: "f = Some (s, mt)" using Some by (cases p) simp
  let ?d = "\<lparr>dd_state = Reading, dd_file = s, dd_get = 0, dd_put = 0, dd_out = [], dd_pos = 0,
     dd_mtime = Some mt, dd_touch = False\<rparr>"
  obtain d where d: "depdb_open f = Some d" "session_inv False f d" using open_inv by blast
  show ?thesis
  proof (cases "s \<noteq> [] \<and> s ! 0 \<noteq> end_marker")
    case True
    then have "follows f [] ?d"
      by (auto simp: follows_def session_inv_def at_line_def good_text_def f dd_text_def writing_def lines_of_none)
    then obtain r e where "expect_line ''1'' ?d = Some (r, e)" "follows f ([] @ [''1'']) e"
      using expect_follows [of f "[]" ?d "''1''"] by auto
    then show ?thesis
      by (auto simp: depdb_open_def f expect_line_def write_char_text split: option.splits if_splits)
  next
    case False
    have np: "\<not> prefix [''1''] (fst (db_lines s))"
    proof (cases s rule: line_cases)
      case (line l t)
      then have "l \<noteq> ''1''" using False by auto
      with line show ?thesis by (cases t) (auto simp: db_lines_line split: prod.splits)
    qed (simp add: db_lines_none)
    have w: "dd_state d = Writing \<and> dd_text d = ''1'' @ [newline]"
    proof (cases s rule: line_cases)
      case none
      with d(1) f read_next_reading(1) [of ?d] show ?thesis
        by (auto simp: depdb_open_def change_def write_char_def write_mode_def put_text_def dd_text_def)
    next
      case (line l t)
      then have "l \<noteq> ''1''" using False by auto
      with line d(1) f read_next_reading(2) [of ?d l t] show ?thesis
        by (cases t) (auto simp: depdb_open_def change_def write_char_def write_mode_def put_text_def dd_text_def Let_def split: if_splits)
    qed
    have "lines_of (''1'' @ newline # []) = [''1'']" by (subst lines_of_line) (simp_all add: lines_of_none)
    with w np d f show ?thesis by (auto simp: follows_def writing_def)
  qed
qed

text \<open>
  C26: Expecting lines one after the other always leads to a database with exactly these lines, and the
  database is still in the read mode, with nothing changed, if and only if they were its first lines.
\<close>

theorem depdb_expect:
  assumes "\<forall>v \<in> set vs. newline \<notin> set v \<and> end_marker \<notin> set v"
  shows "\<exists>d0 d. depdb_open f = Some d0 \<and> db_run (map Expect_line vs) d0 = Some d \<and>
    lines_of (dd_text d) = ''1'' # vs \<and> ends_line True (dd_text d) \<and>
    (reading d \<longleftrightarrow> (\<exists>s mt. f = Some (s, mt) \<and> prefix (''1'' # vs) (fst (db_lines s)))) \<and>
    (reading d \<longrightarrow> f = Some (dd_file d, the (dd_mtime d)))"
proof -
  obtain d0 where d0: "depdb_open f = Some d0" "follows f [''1''] d0" using open_follows by blast
  obtain d where d: "db_run (map Expect_line vs) d0 = Some d" "follows f (''1'' # vs) d"
    using expects_follow [OF d0(2) assms] by auto
  have r: "reading d \<longleftrightarrow> \<not> writing d" by (simp add: reading_def writing_def)
  have "reading d \<longrightarrow> f = Some (dd_file d, the (dd_mtime d))"
    using d(2) by (auto simp: follows_def session_inv_def reading_def)
  moreover have "reading d \<longleftrightarrow> (\<exists>s mt. f = Some (s, mt) \<and> prefix (''1'' # vs) (fst (db_lines s)))"
    using d(2) calculation unfolding follows_def r by (metis prefixI)
  ultimately show ?thesis using d0(1) d by (auto simp: follows_def)
qed

theorem depdb_expect_witness:
  "\<exists>d0 d. depdb_open (Some (''1'' @ newline # ''cxx'' @ [newline, end_marker], 5)) = Some d0 \<and>
    db_run (map Expect_line [''cxx'']) d0 = Some d \<and> reading d"
proof -
  let ?s = "''1'' @ newline # ''cxx'' @ newline # [end_marker]"
  have "db_lines ?s = ([''1'', ''cxx''], True)"
    by (subst db_lines_line, simp, subst append.simps, simp del: append.simps, subst db_lines_line) simp_all
  then have p: "prefix (''1'' # [''cxx'']) (fst (db_lines ?s))" by simp
  have "\<forall>v \<in> set [''cxx'']. newline \<notin> set v \<and> end_marker \<notin> set v" by simp
  from depdb_expect [OF this, of "Some (?s, 5)"] p show ?thesis by (elim exE conjE) fastforce
qed

section \<open>Assertions\<close>

text \<open>Only \<open>skip ()\<close> in the write mode fails an assertion.\<close>

lemma db_step_asserts: "db_step c d = None \<longleftrightarrow> c = Skip \<and> dd_state d = Writing"
proof -
  have "read_line d \<noteq> None"
    by (auto simp: read_line_def read_next_def change_def Let_def split: list.splits if_splits)
  moreover have "write_mode e \<noteq> None" for e by (simp add: write_mode_def change_def)
  moreover have "skip d = None \<longleftrightarrow> dd_state d = Writing"
    by (cases "dd_state d") (auto simp: skip_def change_def Let_def split: option.splits)
  ultimately show ?thesis
    by (cases c) (auto simp: expect_line_def write_text_def write_char_def split: option.splits)
qed

section \<open>Where the code differs from its documentation\<close>

text \<open>A valid database whose last line is empty: \<open>read ()\<close> gets to the end, but \<open>skip ()\<close> does not.\<close>

lemma skip_last_line_empty:
  "let d = the (depdb_open (Some ([CHR ''1'', newline, CHR ''a'', newline, newline, end_marker], 1)))
   in map_option fst (skip d) = Some False \<and> db_run [Read_line, Read_line] d = Some (the (db_run [Read_line, Read_line] d)) \<and>
     dd_state (the (db_run [Read_line, Read_line] d)) = At_eof"
  by code_simp

text \<open>After \<open>skip ()\<close>, touching the database adds an end marker instead of overwriting it.\<close>

lemma touch_after_skip:
  "dd_file (the (close (the (db_run [Skip, Touch True] (the (depdb_open (Some ([CHR ''1'', newline, CHR ''a'', newline, end_marker], 1)))))))) =
    [CHR ''1'', newline, CHR ''a'', newline, end_marker, end_marker]"
  by code_simp

text \<open>After \<open>skip ()\<close>, an expected line goes behind the end marker, where no reader will find it.\<close>

lemma expect_after_skip:
  "dd_file (the (close (the (db_run [Skip, Expect_line ''b''] (the (depdb_open (Some ([CHR ''1'', newline, CHR ''a'', newline, end_marker], 1)))))))) =
    [CHR ''1'', newline, CHR ''a'', newline, end_marker, CHR ''b'', newline, end_marker]"
  by code_simp

text \<open>A crash while such a line is written may leave the old lines, and a database that is taken to be valid.\<close>

lemma crash_after_skip:
  "case db_run [Skip, Expect_line ''b''] (the (depdb_open (Some ([CHR ''1'', newline, CHR ''a'', newline, end_marker], 1)))) of
     None \<Rightarrow> False
   | Some d \<Rightarrow> writing d \<and> (case depdb_open (Some (crash_image d 2, 2)) of
       None \<Rightarrow> False
     | Some d1 \<Rightarrow> (case read_all d1 of (ls, e) \<Rightarrow> ls = [''a''] \<and> dd_state e = At_eof))"
  by code_simp

text \<open>Writing right after opening overwrites the format version.\<close>

lemma write_after_open:
  "dd_file (the (close (the (db_run [Write_text ''b'' True] (the (depdb_open (Some ([CHR ''1'', newline, CHR ''a'', newline, end_marker], 1)))))))) =
    [CHR ''b'', newline, end_marker]"
  by code_simp

end
