(* ===== verification/Task_Queue.thy ===== *)
theory Task_Queue
  imports Butl_Prelude
begin

text \<open>
  The task queues of the scheduler of \<open>libbuild2\<close> (\<open>scheduler.hxx\<close> and \<open>async ()\<close> in \<open>scheduler.txx\<close>): a
  circular buffer that the thread that owns it works from the back, down to a mark, while helpers take
  tasks from the front. Every operation up to the call of the task, and what is done after it, is a step
  under the mutex of the queue. The parameter \<open>depth\<close> is \<open>task_queue_depth_\<close>; a mark equal to it is disabled.
\<close>

section \<open>The circular buffer\<close>

record 'a task_queue =
  tq_head :: nat
  tq_mark :: nat
  tq_tail :: nat
  tq_size :: nat
  tq_data :: "'a list"
  tq_queued :: nat       \<comment> \<open>the part of \<open>queued_task_count_\<close> that this queue accounts for\<close>

definition new_task_queue :: "'a list \<Rightarrow> 'a task_queue" where
  "new_task_queue d = \<lparr>tq_head = 0, tq_mark = 0, tq_tail = 0, tq_size = 0, tq_data = d, tq_queued = 0\<rparr>"

text \<open>The task is packaged into the place that \<open>push ()\<close> returns; \<open>None\<close> when the queue is full.\<close>

definition push :: "nat \<Rightarrow> 'a \<Rightarrow> 'a task_queue \<Rightarrow> 'a task_queue option" where
  "push depth x q =
     (if tq_size q \<noteq> depth
      then
        let t = (if tq_size q \<noteq> 0 then (if tq_tail q \<noteq> depth - 1 then tq_tail q + 1 else 0) else tq_tail q) in
        Some (q\<lparr>tq_tail := t, tq_size := tq_size q + 1,
                tq_mark := (if tq_mark q = depth then t else tq_mark q),
                tq_queued := tq_queued q + 1, tq_data := (tq_data q)[t := x]\<rparr>)
      else None)"

definition empty_front :: "'a task_queue \<Rightarrow> bool" where
  "empty_front q \<longleftrightarrow> tq_size q = 0"

text \<open>The task, and the queue when the task releases its mutex.\<close>

definition pop_front :: "nat \<Rightarrow> 'a task_queue \<Rightarrow> 'a \<times> 'a task_queue" where
  "pop_front depth q =
     (let a = (tq_head q = tq_mark q);
          h = (if tq_size q \<noteq> 1 then (if tq_head q \<noteq> depth - 1 then tq_head q + 1 else 0) else tq_head q);
          s = tq_size q - 1
      in (tq_data q ! tq_head q,
          q\<lparr>tq_head := h, tq_size := s, tq_mark := (if s = 0 \<or> a then h else tq_mark q),
            tq_queued := tq_queued q - 1\<rparr>))"

definition empty_back :: "nat \<Rightarrow> 'a task_queue \<Rightarrow> bool" where
  "empty_back depth q \<longleftrightarrow> tq_size q = 0 \<or> tq_mark q = depth"

text \<open>Before the task is called: the old mark, and whether it has to be adjusted, are kept for afterwards.\<close>

definition pop_back :: "nat \<Rightarrow> 'a task_queue \<Rightarrow> 'a \<times> nat \<times> bool \<times> 'a task_queue" where
  "pop_back depth q =
     (tq_data q ! tq_tail q, tq_mark q, tq_tail q = tq_mark q,
      q\<lparr>tq_mark := depth,
        tq_tail := (if tq_size q \<noteq> 1 then (if tq_tail q \<noteq> 0 then tq_tail q - 1 else depth - 1) else tq_tail q),
        tq_size := tq_size q - 1, tq_queued := tq_queued q - 1\<rparr>)"

definition restore_mark :: "nat \<Rightarrow> nat \<Rightarrow> bool \<Rightarrow> 'a task_queue \<Rightarrow> 'a task_queue" where
  "restore_mark depth om a q =
     q\<lparr>tq_mark := (if tq_size q = 0 then tq_tail q else if a then depth else om)\<rparr>"

text \<open>\<open>async ()\<close> runs the task itself if the queue is full.\<close>

definition sync_begin :: "nat \<Rightarrow> 'a task_queue \<Rightarrow> nat \<times> 'a task_queue" where
  "sync_begin depth q = (tq_mark q, q\<lparr>tq_mark := depth\<rparr>)"

definition sync_end :: "nat \<Rightarrow> nat \<Rightarrow> 'a task_queue \<Rightarrow> 'a task_queue" where
  "sync_end depth om q =
     (if om \<noteq> depth then q\<lparr>tq_mark := (if tq_size q = 0 then tq_tail q else om)\<rparr> else q)"

section \<open>The owner and the helpers\<close>

text \<open>
  The owner works on a task at every level of nesting. A level has a number, which grows with time, and
  every task in the queue carries the number of the level that pushed it. A thread that works on tasks from the
  front of another queue has no level for them in its own queue: what they push there belongs to the level that the
  thread is at, which is 0 for a helper.
\<close>

datatype frame =
    Popped nat nat bool    \<comment> \<open>the level, the old mark and whether to adjust it\<close>
  | Synced nat nat         \<comment> \<open>the level and the old mark\<close>

fun frame_level :: "frame \<Rightarrow> nat" where
  "frame_level (Popped l om a) = l"
| "frame_level (Synced l om) = l"

record 'a workers =
  wk_queue :: "(nat \<times> 'a) task_queue"
  wk_frames :: "frame list"
  wk_next :: nat             \<comment> \<open>the number of the next level\<close>

definition current_level :: "frame list \<Rightarrow> nat" where
  "current_level fs = (case fs of [] \<Rightarrow> 0 | f # _ \<Rightarrow> frame_level f)"

definition new_workers :: "(nat \<times> 'a) list \<Rightarrow> 'a workers" where
  "new_workers d = \<lparr>wk_queue = new_task_queue d, wk_frames = [], wk_next = 1\<rparr>"

inductive work :: "nat \<Rightarrow> 'a workers \<Rightarrow> 'a workers \<Rightarrow> bool" for depth where
  async: "push depth (current_level (wk_frames w), x) (wk_queue w) = Some q \<Longrightarrow> work depth w (w\<lparr>wk_queue := q\<rparr>)"
| sync: "push depth (current_level (wk_frames w), x) (wk_queue w) = None \<Longrightarrow> sync_begin depth (wk_queue w) = (om, q) \<Longrightarrow>
    work depth w (w\<lparr>wk_queue := q, wk_frames := Synced (wk_next w) om # wk_frames w, wk_next := wk_next w + 1\<rparr>)"
| synced: "wk_frames w = Synced l om # fs \<Longrightarrow>
    work depth w (w\<lparr>wk_queue := sync_end depth om (wk_queue w), wk_frames := fs\<rparr>)"
| owner: "\<not> empty_back depth (wk_queue w) \<Longrightarrow> pop_back depth (wk_queue w) = (x, om, a, q) \<Longrightarrow>
    work depth w (w\<lparr>wk_queue := q, wk_frames := Popped (wk_next w) om a # wk_frames w, wk_next := wk_next w + 1\<rparr>)"
| popped: "wk_frames w = Popped l om a # fs \<Longrightarrow>
    work depth w (w\<lparr>wk_queue := restore_mark depth om a (wk_queue w), wk_frames := fs\<rparr>)"
| helper: "\<not> empty_front (wk_queue w) \<Longrightarrow> pop_front depth (wk_queue w) = (x, q) \<Longrightarrow> work depth w (w\<lparr>wk_queue := q\<rparr>)"

end
