(* ===== verification/Task_Queue_Properties.thy ===== *)
theory Task_Queue_Properties
  imports Task_Queue Step_System "HOL-Library.Multiset"
begin

text \<open>
  The circular buffer is a bounded double-ended queue, and the mark does what it is for: the owner only takes
  tasks that have been queued since the task that it is working on was started, whatever the helpers do.
\<close>

section \<open>A bounded double-ended queue\<close>

text \<open>What the scheduler relies on: the operations as operations on the list of queued tasks.\<close>

locale bounded_deque =
  fixes valid :: "'q \<Rightarrow> bool"
    and items :: "'q \<Rightarrow> 'a list"
    and capacity :: nat
    and put :: "'a \<Rightarrow> 'q \<Rightarrow> 'q option"
    and get_front get_back :: "'q \<Rightarrow> 'a \<times> 'q"
  assumes put_valid: "valid q \<Longrightarrow> put x q = Some q' \<Longrightarrow> valid q' \<and> items q' = items q @ [x]"
    and put_full: "valid q \<Longrightarrow> put x q = None \<longleftrightarrow> length (items q) = capacity"
    and front_valid: "valid q \<Longrightarrow> items q \<noteq> [] \<Longrightarrow> get_front q = (x, q') \<Longrightarrow> valid q' \<and> items q = x # items q'"
    and back_valid: "valid q \<Longrightarrow> items q \<noteq> [] \<Longrightarrow> get_back q = (x, q') \<Longrightarrow> valid q' \<and> items q = items q' @ [x]"
begin

text \<open>Every task that was put in is taken out once or is still there.\<close>

inductive session :: "'q \<Rightarrow> 'a multiset \<Rightarrow> 'a multiset \<Rightarrow> 'q \<Rightarrow> bool" where
  start: "session q {#} {#} q"
| put: "session q i out q1 \<Longrightarrow> put x q1 = Some q2 \<Longrightarrow> session q (add_mset x i) out q2"
| front: "session q i out q1 \<Longrightarrow> items q1 \<noteq> [] \<Longrightarrow> get_front q1 = (x, q2) \<Longrightarrow> session q i (add_mset x out) q2"
| rear: "session q i out q1 \<Longrightarrow> items q1 \<noteq> [] \<Longrightarrow> get_back q1 = (x, q2) \<Longrightarrow> session q i (add_mset x out) q2"

lemma session_items:
  "session q i out q' \<Longrightarrow> valid q \<Longrightarrow> valid q' \<and> mset (items q) + i = mset (items q') + out"
proof (induction rule: session.induct)
  case (put q i out q1 x q2)
  with put_valid [of q1 x q2] show ?case by simp
next
  case (front q i out q1 x q2)
  with front_valid [of q1 x q2] show ?case by simp
next
  case (rear q i out q1 x q2)
  with back_valid [of q1 x q2] show ?case by simp
qed simp

lemma put_bound:
  assumes "valid q" "put x q = Some q'" "length (items q) \<le> capacity"
  shows "length (items q') \<le> capacity"
  using assms put_valid [OF assms(1,2)] put_full [OF assms(1), of x] by (cases "length (items q) = capacity") auto

end

section \<open>The circular buffer\<close>

definition slot :: "nat \<Rightarrow> 'a task_queue \<Rightarrow> nat \<Rightarrow> nat" where
  "slot depth q i = (tq_head q + i) mod depth"

definition contents :: "nat \<Rightarrow> 'a task_queue \<Rightarrow> 'a list" where
  "contents depth q = map (\<lambda>i. tq_data q ! slot depth q i) [0..<tq_size q]"

definition ring_ok :: "nat \<Rightarrow> 'a task_queue \<Rightarrow> bool" where
  "ring_ok depth q \<longleftrightarrow>
     0 < depth \<and> tq_head q < depth \<and> tq_size q \<le> depth \<and> tq_mark q \<le> depth \<and>
     tq_tail q = slot depth q (tq_size q - 1) \<and> length (tq_data q) = depth \<and> tq_queued q = tq_size q"

lemma contents_simps [simp]: "length (contents depth q) = tq_size q"
  "i < tq_size q \<Longrightarrow> contents depth q ! i = tq_data q ! slot depth q i"
  by (simp_all add: contents_def)

lemma contents_empty: "contents depth q = [] \<longleftrightarrow> tq_size q = 0"
  by (simp add: contents_def)

lemma slot_inj:
  assumes "slot depth q i = slot depth q j" "i < depth" "j < depth"
  shows "i = j"
proof -
  have "\<lbrakk>a \<le> b; b < depth; (h + a) mod depth = (h + b) mod depth\<rbrakk> \<Longrightarrow> a = b" for a b h :: nat
  proof -
    assume a: "a \<le> b" "b < depth" "(h + a) mod depth = (h + b) mod depth"
    have "depth dvd b - a" using mod_eq_dvd_iff_nat [of "h + a" "h + b" depth] a by (simp add: eq_commute)
    show "a = b"
    proof (rule ccontr)
      assume "a \<noteq> b"
      with a have "0 < b - a" by simp
      from dvd_imp_le [OF \<open>depth dvd b - a\<close> this] a show False by simp
    qed
  qed
  with assms show ?thesis unfolding slot_def by (metis nat_le_linear)
qed

lemma step_mod: "(h :: nat) < depth \<Longrightarrow> (if h \<noteq> depth - 1 then h + 1 else 0) = (h + 1) mod depth"
  by (cases "Suc h = depth") auto

lemma slot_less [simp]: "0 < depth \<Longrightarrow> slot depth q i < depth"
  by (simp add: slot_def)

lemma ring_new: "0 < length d \<Longrightarrow> ring_ok (length d) (new_task_queue d)"
  by (simp add: ring_ok_def new_task_queue_def slot_def)

lemma push_fields:
  assumes "ring_ok depth q" "push depth x q = Some q'"
  shows "tq_head q' = tq_head q" "tq_size q' = Suc (tq_size q)" "tq_size q < depth"
    "tq_tail q' = slot depth q (tq_size q)" "tq_mark q' = (if tq_mark q = depth then tq_tail q' else tq_mark q)"
    "tq_data q' = (tq_data q)[slot depth q (tq_size q) := x]" "tq_queued q' = Suc (tq_queued q)"
proof -
  let ?t = "if tq_size q \<noteq> 0 then (if tq_tail q \<noteq> depth - 1 then tq_tail q + 1 else 0) else tq_tail q"
  have s: "tq_size q \<noteq> depth" using assms(2) by (auto simp: push_def)
  have t: "?t = slot depth q (tq_size q)"
  proof (cases "tq_size q = 0")
    case True
    with assms(1) show ?thesis by (simp add: ring_ok_def)
  next
    case False
    have "tq_tail q < depth" using assms(1) by (simp add: ring_ok_def slot_def)
    with False step_mod [of "tq_tail q" depth] assms(1) show ?thesis
      by (simp add: ring_ok_def slot_def mod_Suc_eq)
  qed
  show "tq_head q' = tq_head q" "tq_size q' = Suc (tq_size q)" "tq_size q < depth"
    "tq_tail q' = slot depth q (tq_size q)" "tq_mark q' = (if tq_mark q = depth then tq_tail q' else tq_mark q)"
    "tq_data q' = (tq_data q)[slot depth q (tq_size q) := x]" "tq_queued q' = Suc (tq_queued q)"
    using assms s unfolding push_def Let_def t by (auto simp: ring_ok_def)
qed

lemma push_ring:
  assumes "ring_ok depth q" "push depth x q = Some q'"
  shows "ring_ok depth q'" "contents depth q' = contents depth q @ [x]" "slot depth q' = slot depth q"
proof -
  note f = push_fields [OF assms]
  show s: "slot depth q' = slot depth q" by (rule ext) (simp add: slot_def f(1))
  show "ring_ok depth q'"
    using assms(1) f s less_imp_le [OF slot_less [of depth q "tq_size q"]] by (auto simp: ring_ok_def)
  have n: "slot depth q i \<noteq> slot depth q (tq_size q)" if "i < tq_size q" for i
    using slot_inj [of depth q i "tq_size q"] that f(3) by auto
  show "contents depth q' = contents depth q @ [x]"
  proof (rule nth_equalityI)
    fix i assume "i < length (contents depth q')"
    then have i: "i \<le> tq_size q" using f(2) by simp
    have "slot depth q (tq_size q) < length (tq_data q)" using assms(1) by (simp add: ring_ok_def slot_def)
    with i n [of i] f(2,6) s show "contents depth q' ! i = (contents depth q @ [x]) ! i"
      by (cases "i = tq_size q") (auto simp: nth_append)
  qed (simp add: f(2))
qed

lemma pop_front_ring:
  assumes "ring_ok depth q" "tq_size q \<noteq> 0" "pop_front depth q = (x, q')"
  shows "ring_ok depth q'" "contents depth q = x # contents depth q'"
    "tq_size q = Suc (tq_size q')" "tq_size q' \<noteq> 0 \<Longrightarrow> slot depth q' i = slot depth q (Suc i)"
    "tq_mark q' = (if tq_size q' = 0 \<or> tq_head q = tq_mark q then tq_head q' else tq_mark q)"
proof -
  have r: "0 < depth" "tq_head q < depth" using assms(1) by (simp_all add: ring_ok_def)
  have f: "x = tq_data q ! tq_head q" "tq_size q' = tq_size q - 1" "tq_data q' = tq_data q" "tq_tail q' = tq_tail q"
    "tq_head q' = (if tq_size q = 1 then tq_head q else (tq_head q + 1) mod depth)" "tq_queued q' = tq_queued q - 1"
    "tq_mark q' = (if tq_size q' = 0 \<or> tq_head q = tq_mark q then tq_head q' else tq_mark q)"
    using assms(3) step_mod [OF r(2)] by (auto simp: pop_front_def Let_def)
  show "tq_size q = Suc (tq_size q')" using f(2) assms(2) by simp
  show "tq_mark q' = (if tq_size q' = 0 \<or> tq_head q = tq_mark q then tq_head q' else tq_mark q)" using f(7) .
  have s: "slot depth q' j = slot depth q (Suc j)" if "tq_size q' \<noteq> 0" for j
    using that f(2,5) by (simp add: slot_def mod_Suc_eq) (simp add: mod_add_left_eq)
  then show "tq_size q' \<noteq> 0 \<Longrightarrow> slot depth q' i = slot depth q (Suc i)" by blast
  have "tq_tail q' = slot depth q' (tq_size q' - 1)"
  proof (cases "tq_size q' = 0")
    case True
    with assms f(2,4,5) show ?thesis by (simp add: ring_ok_def slot_def)
  next
    case False
    then obtain k where k: "tq_size q' = Suc k" by (cases "tq_size q'") auto
    have "tq_tail q = slot depth q (tq_size q - 1)" using assms(1) by (simp add: ring_ok_def)
    with k f(2,4) s [OF False, of k] show ?thesis by simp
  qed
  with assms(1) f r show "ring_ok depth q'" by (auto simp: ring_ok_def)
  show "contents depth q = x # contents depth q'"
  proof (rule nth_equalityI)
    fix i assume i: "i < length (contents depth q)"
    show "contents depth q ! i = (x # contents depth q') ! i"
    proof (cases i)
      case 0
      with i f(1) r show ?thesis by (simp add: slot_def)
    next
      case (Suc j)
      with i f(2,3) s [of j] show ?thesis by simp
    qed
  qed (use f(2) assms(2) in simp)
qed

lemma pop_back_ring:
  assumes "ring_ok depth q" "tq_size q \<noteq> 0" "pop_back depth q = (x, om, a, q')"
  shows "ring_ok depth q'" "contents depth q = contents depth q' @ [x]" "om = tq_mark q" "a \<longleftrightarrow> tq_tail q = tq_mark q"
    "tq_mark q' = depth" "slot depth q' = slot depth q" "tq_size q = Suc (tq_size q')"
proof -
  have r: "0 < depth" "tq_head q < depth" "tq_tail q = slot depth q (tq_size q - 1)" using assms(1) by (simp_all add: ring_ok_def)
  have f: "x = tq_data q ! tq_tail q" "tq_size q' = tq_size q - 1" "tq_data q' = tq_data q" "tq_head q' = tq_head q"
    "tq_tail q' = (if tq_size q \<noteq> 1 then (if tq_tail q \<noteq> 0 then tq_tail q - 1 else depth - 1) else tq_tail q)"
    "tq_queued q' = tq_queued q - 1" "tq_mark q' = depth" "om = tq_mark q" "a \<longleftrightarrow> tq_tail q = tq_mark q"
    using assms(3) by (auto simp: pop_back_def Let_def)
  then show "om = tq_mark q" "a \<longleftrightarrow> tq_tail q = tq_mark q" "tq_mark q' = depth" by simp_all
  show s: "slot depth q' = slot depth q" by (rule ext) (simp add: slot_def f(4))
  show sz: "tq_size q = Suc (tq_size q')" using f(2) assms(2) by simp
  have "tq_tail q' = slot depth q' (tq_size q' - 1)"
  proof (cases "tq_size q = 1")
    case True
    with f r show ?thesis by (simp add: slot_def)
  next
    case False
    then obtain k where k: "tq_size q = Suc (Suc k)" using assms(2) by (metis One_nat_def old.nat.exhaust)
    have t: "tq_tail q = ((tq_head q + k) mod depth + 1) mod depth" using r(3) k by (simp add: slot_def mod_Suc_eq)
    have "(tq_head q + k) mod depth < depth" using r(1) by simp
    then have "(if tq_tail q \<noteq> 0 then tq_tail q - 1 else depth - 1) = (tq_head q + k) mod depth"
      unfolding t by (cases "Suc ((tq_head q + k) mod depth) = depth") auto
    then have "tq_tail q' = (tq_head q + k) mod depth" using f(5) False by simp
    with f(2,4) k show ?thesis by (simp add: slot_def)
  qed
  with assms(1) f(2,3,4,6,7) show "ring_ok depth q'" by (auto simp: ring_ok_def)
  show "contents depth q = contents depth q' @ [x]"
  proof (rule nth_equalityI)
    fix i assume "i < length (contents depth q)"
    then show "contents depth q ! i = (contents depth q' @ [x]) ! i"
      using f(1,3) r(3) s sz by (cases "i = tq_size q'") (auto simp: nth_append)
  qed (use sz in simp)
qed

section \<open>The marks\<close>

text \<open>Tasks from position \<open>p\<close> on have been pushed at level \<open>l\<close> or above.\<close>

definition level_from :: "nat \<Rightarrow> nat \<Rightarrow> (nat \<times> 'a) list \<Rightarrow> bool" where
  "level_from l p c \<longleftrightarrow> (\<forall>x \<in> set (drop p c). l \<le> fst x)"

text \<open>The mark keeps the owner off the tasks below the level, or there are none.\<close>

definition guards :: "nat \<Rightarrow> nat \<Rightarrow> nat \<Rightarrow> (nat \<times> 'a) task_queue \<Rightarrow> bool" where
  "guards depth l m q \<longleftrightarrow>
     m = depth \<or> level_from l 0 (contents depth q) \<or>
     (\<exists>p < tq_size q. slot depth q p = m \<and> level_from l p (contents depth q))"

text \<open>The same for a saved mark: the task at the mark has been pushed before the level \<open>n\<close> was entered.\<close>

definition saved_guards :: "nat \<Rightarrow> nat \<Rightarrow> nat \<Rightarrow> nat \<Rightarrow> (nat \<times> 'a) task_queue \<Rightarrow> bool" where
  "saved_guards depth l n m q \<longleftrightarrow>
     m = depth \<or> level_from l 0 (contents depth q) \<or>
     (\<exists>p < tq_size q. slot depth q p = m \<and> level_from l p (contents depth q) \<and> fst (contents depth q ! p) < n)"

fun frame_ok :: "nat \<Rightarrow> frame \<Rightarrow> nat \<Rightarrow> (nat \<times> 'a) task_queue \<Rightarrow> bool" where
  "frame_ok depth (Popped n om a) l q \<longleftrightarrow> l < n \<and> om \<le> depth \<and> (a \<or> saved_guards depth l n om q)"
| "frame_ok depth (Synced n om) l q \<longleftrightarrow> l < n \<and> om \<le> depth \<and> saved_guards depth l n om q"

fun frames_ok :: "nat \<Rightarrow> frame list \<Rightarrow> (nat \<times> 'a) task_queue \<Rightarrow> bool" where
  "frames_ok depth [] q \<longleftrightarrow> True"
| "frames_ok depth (f # fs) q \<longleftrightarrow> frame_ok depth f (current_level fs) q \<and> frames_ok depth fs q"

definition workers_inv :: "nat \<Rightarrow> 'a workers \<Rightarrow> bool" where
  "workers_inv depth w \<longleftrightarrow>
     ring_ok depth (wk_queue w) \<and> current_level (wk_frames w) < wk_next w \<and>
     (\<forall>x \<in> set (contents depth (wk_queue w)). fst x < wk_next w) \<and>
     guards depth (current_level (wk_frames w)) (tq_mark (wk_queue w)) (wk_queue w) \<and>
     frames_ok depth (wk_frames w) (wk_queue w)"

lemma level_from_simps:
  "p \<le> length c \<Longrightarrow> level_from l p (c @ [x]) \<longleftrightarrow> level_from l p c \<and> l \<le> fst x"
  "level_from l (Suc p) (x # c) = level_from l p c" "level_from l 0 (x # c) \<longleftrightarrow> l \<le> fst x \<and> level_from l 0 c"
  "level_from l p []"
  by (auto simp: level_from_def)

lemma level_from_mono: "level_from l p c \<Longrightarrow> k \<le> l \<Longrightarrow> level_from k p c"
  by (auto simp: level_from_def)

lemma level_from_suffix: "level_from l 0 c \<Longrightarrow> level_from l p c"
  using set_drop_subset [of p c] by (auto simp: level_from_def)

lemma saved_guards_guards: "saved_guards depth l n m q \<Longrightarrow> guards depth l m q"
  by (auto simp: saved_guards_def guards_def)

lemma guards_mono: "guards depth l m q \<Longrightarrow> k \<le> l \<Longrightarrow> guards depth k m q"
  unfolding guards_def by (blast intro: level_from_mono)

lemma guards_depth [simp]: "guards depth l depth q"
  by (simp add: guards_def)

lemma guards_empty: "tq_size q = 0 \<Longrightarrow> guards depth l m q"
  by (simp add: guards_def level_from_def contents_def)

section \<open>The operations and the marks\<close>

lemma push_saved:
  assumes "ring_ok depth q" "push depth (c, x) q = Some q'" "saved_guards depth l n m q" "l \<le> c"
  shows "saved_guards depth l n m q'"
proof -
  note r = push_ring [OF assms(1,2)] and f = push_fields [OF assms(1,2)]
  consider "m = depth" | "level_from l 0 (contents depth q)"
    | p where "p < tq_size q" "slot depth q p = m" "level_from l p (contents depth q)" "fst (contents depth q ! p) < n"
    using assms(3) by (auto simp: saved_guards_def)
  then show ?thesis
  proof cases
    case (3 p)
    then have "slot depth q' p = m" "level_from l p (contents depth q')" "fst (contents depth q' ! p) < n"
      using r assms(4) by (simp_all add: level_from_simps nth_append)
    with 3(1) f(2) show ?thesis by (auto simp: saved_guards_def simp del: contents_simps)
  qed (use r assms(4) in \<open>simp_all add: saved_guards_def level_from_simps\<close>)
qed

lemma push_guards:
  assumes "ring_ok depth q" "push depth (c, x) q = Some q'" "guards depth c (tq_mark q) q"
  shows "guards depth c (tq_mark q') q'"
proof -
  note r = push_ring [OF assms(1,2)] and f = push_fields [OF assms(1,2)]
  consider "tq_mark q = depth" | "tq_mark q \<noteq> depth" "level_from c 0 (contents depth q)"
    | p where "tq_mark q \<noteq> depth" "p < tq_size q" "slot depth q p = tq_mark q" "level_from c p (contents depth q)"
    using assms(3) by (auto simp: guards_def)
  then show ?thesis
  proof cases
    case 1
    have "slot depth q' (tq_size q) = tq_mark q'" "level_from c (tq_size q) (contents depth q')"
      using 1 f r by (simp_all add: level_from_def)
    with f(2) show ?thesis by (auto simp: guards_def)
  next
    case 2
    with r show ?thesis by (simp add: guards_def level_from_simps)
  next
    case (3 p)
    then have "slot depth q' p = tq_mark q'" "level_from c p (contents depth q')"
      using r f(5) by (simp_all add: level_from_simps)
    with 3(2) f(2) show ?thesis by (auto simp: guards_def)
  qed
qed

lemma pop_front_saved:
  assumes "ring_ok depth q" "tq_size q \<noteq> 0" "pop_front depth q = (x, q')" "saved_guards depth l n m q"
  shows "saved_guards depth l n m q'"
proof -
  note r = pop_front_ring [OF assms(1-3)]
  consider "m = depth" | "level_from l 0 (contents depth q)"
    | p where "p < tq_size q" "slot depth q p = m" "level_from l p (contents depth q)" "fst (contents depth q ! p) < n"
    using assms(4) by (auto simp: saved_guards_def)
  then show ?thesis
  proof cases
    case (3 p)
    show ?thesis
    proof (cases p)
      case 0
      with 3(3) r(2) show ?thesis by (simp add: saved_guards_def level_from_simps)
    next
      case (Suc k)
      then have k: "k < tq_size q'" using 3(1) r(3) by simp
      then have "slot depth q' k = m" using r(4) [of k] 3(2) Suc by auto
      moreover have "level_from l k (contents depth q')" "fst (contents depth q' ! k) < n"
        using 3(3,4) Suc unfolding r(2) by (simp_all add: level_from_simps)
      ultimately show ?thesis using k by (auto simp: saved_guards_def simp del: contents_simps)
    qed
  qed (use r(2) in \<open>simp_all add: saved_guards_def level_from_simps\<close>)
qed

lemma pop_front_guards:
  assumes "ring_ok depth q" "tq_size q \<noteq> 0" "pop_front depth q = (x, q')" "guards depth l (tq_mark q) q"
  shows "guards depth l (tq_mark q') q'"
proof (cases "tq_size q' = 0")
  case False
  note r = pop_front_ring [OF assms(1-3)]
  have d: "tq_head q < depth" "tq_size q \<le> depth" using assms(1) by (simp_all add: ring_ok_def)
  show ?thesis
  proof (cases "tq_head q = tq_mark q")
    case True
    then have "slot depth q 0 = tq_mark q" using d(1) by (simp add: slot_def)
    then have "p = 0" if "slot depth q p = tq_mark q" "p < tq_size q" for p
      using slot_inj [of depth q p 0] that d by simp
    with assms(4) d True have "level_from l 0 (contents depth q)" by (auto simp: guards_def)
    then show ?thesis unfolding r(2) by (simp add: guards_def level_from_simps)
  next
    case n: False
    then have m: "tq_mark q' = tq_mark q" using r(5) False by simp
    consider "tq_mark q = depth" | "level_from l 0 (contents depth q)"
      | p where "p < tq_size q" "slot depth q p = tq_mark q" "level_from l p (contents depth q)"
      using assms(4) by (auto simp: guards_def)
    then show ?thesis
    proof cases
      case 1
      with m show ?thesis by (simp add: guards_def)
    next
      case 2
      then show ?thesis unfolding r(2) by (simp add: guards_def level_from_simps)
    next
      case (3 p)
      then obtain k where k: "p = Suc k" using n d(1) by (cases p) (simp_all add: slot_def)
      with 3 r(3) have "k < tq_size q'" "slot depth q' k = tq_mark q'" using r(4) [of k] m by auto
      moreover have "level_from l k (contents depth q')" using 3(3) k unfolding r(2) by (simp add: level_from_simps)
      ultimately show ?thesis by (auto simp: guards_def)
    qed
  qed
qed (rule guards_empty)

text \<open>The owner takes a task of its own level or above, so a mark saved below stays where it is.\<close>

lemma back_level:
  assumes "ring_ok depth q" "\<not> empty_back depth q" "guards depth l (tq_mark q) q"
  shows "tq_size q \<noteq> 0 \<and> l \<le> fst (last (contents depth q))"
proof -
  have s: "tq_size q \<noteq> 0" "tq_mark q \<noteq> depth" using assms(2) by (auto simp: empty_back_def)
  obtain p where p: "p < tq_size q" "level_from l p (contents depth q)"
    using assms(3) s by (auto simp: guards_def)
  have "drop p (contents depth q) \<noteq> []" using p(1) by simp
  then have "last (contents depth q) \<in> set (drop p (contents depth q))" by (metis last_drop last_in_set drop_eq_Nil not_le)
  with p(2) s(1) show ?thesis by (simp add: level_from_def)
qed

lemma pop_back_saved:
  assumes "ring_ok depth q" "tq_size q \<noteq> 0" "pop_back depth q = (x, om, a, q')"
    "saved_guards depth l n m q" "n \<le> fst x"
  shows "saved_guards depth l n m q'"
proof -
  note r = pop_back_ring [OF assms(1-3)]
  consider "m = depth" | "level_from l 0 (contents depth q)"
    | p where "p < tq_size q" "slot depth q p = m" "level_from l p (contents depth q)" "fst (contents depth q ! p) < n"
    using assms(4) by (auto simp: saved_guards_def)
  then show ?thesis
  proof cases
    case (3 p)
    have "p \<noteq> tq_size q'"
    proof
      assume "p = tq_size q'"
      then have "contents depth q ! p = x" unfolding r(2) by (simp add: nth_append)
      with 3(4) assms(5) show False by simp
    qed
    with 3(1) r(7) have p: "p < tq_size q'" by simp
    have "level_from l p (contents depth q')" "fst (contents depth q' ! p) < n"
      using 3(3,4) p unfolding r(2) by (simp_all add: level_from_simps nth_append)
    with p 3(2) r(6) show ?thesis by (auto simp: saved_guards_def simp del: contents_simps)
  qed (use r(2) in \<open>auto simp: saved_guards_def level_from_simps\<close>)
qed

section \<open>The steps keep the invariant\<close>

lemma mark_update [simp]:
  "contents depth (q\<lparr>tq_mark := m\<rparr>) = contents depth q" "slot depth (q\<lparr>tq_mark := m\<rparr>) = slot depth q"
  by (simp_all add: contents_def slot_def fun_eq_iff)

lemma guards_update [simp]:
  "guards depth l m (q\<lparr>tq_mark := k\<rparr>) = guards depth l m q"
  "saved_guards depth l n m (q\<lparr>tq_mark := k\<rparr>) = saved_guards depth l n m q"
  by (simp_all add: guards_def saved_guards_def del: contents_simps)

lemma frames_update [simp]: "frames_ok depth fs (q\<lparr>tq_mark := k\<rparr>) = frames_ok depth fs q"
proof (induction fs)
  case (Cons f fs)
  then show ?case by (cases f) simp_all
qed simp

lemma current_level_simps [simp]: "current_level [] = 0" "current_level (f # fs) = frame_level f"
  by (simp_all add: current_level_def)

lemma frames_push:
  "frames_ok depth fs q \<Longrightarrow> current_level fs \<le> c \<Longrightarrow> ring_ok depth q \<Longrightarrow> push depth (c, x) q = Some q' \<Longrightarrow> frames_ok depth fs q'"
proof (induction fs)
  case (Cons f fs)
  then show ?case by (cases f) (auto intro: push_saved)
qed simp

lemma frames_front:
  "frames_ok depth fs q \<Longrightarrow> ring_ok depth q \<Longrightarrow> tq_size q \<noteq> 0 \<Longrightarrow> pop_front depth q = (x, q') \<Longrightarrow> frames_ok depth fs q'"
proof (induction fs)
  case (Cons f fs)
  then show ?case by (cases f) (auto intro: pop_front_saved)
qed simp

lemma frames_back:
  "frames_ok depth fs q \<Longrightarrow> ring_ok depth q \<Longrightarrow> tq_size q \<noteq> 0 \<Longrightarrow> pop_back depth q = (x, om, a, q') \<Longrightarrow>
     current_level fs \<le> fst x \<Longrightarrow> frames_ok depth fs q'"
proof (induction fs)
  case (Cons f fs)
  then show ?case by (cases f) (auto intro: pop_back_saved)
qed simp

lemma guards_saved:
  assumes "guards depth l m q" "\<forall>x \<in> set (contents depth q). fst x < n"
  shows "saved_guards depth l n m q"
proof -
  have "fst (contents depth q ! p) < n" if "p < tq_size q" for p
    using assms(2) nth_mem [of p "contents depth q"] that by (simp del: contents_simps(2))
  with assms(1) show ?thesis by (auto simp: guards_def saved_guards_def simp del: contents_simps)
qed

lemma back_frame:
  assumes "ring_ok depth q" "tq_size q \<noteq> 0" "pop_back depth q = (x, om, a, q')" "guards depth l (tq_mark q) q"
    "\<forall>x \<in> set (contents depth q). fst x < n"
  shows "a \<or> saved_guards depth l n om q'"
proof (rule disjCI)
  assume a: "\<not> saved_guards depth l n om q'"
  note r = pop_back_ring [OF assms(1-3)]
  consider "om = depth" | "level_from l 0 (contents depth q)"
    | p where "p < tq_size q" "slot depth q p = om" "level_from l p (contents depth q)"
    using assms(4) r(3) by (auto simp: guards_def)
  then show a
  proof cases
    case (3 p)
    have "p = tq_size q'"
    proof (rule ccontr)
      assume "p \<noteq> tq_size q'"
      with 3(1) r(7) have p: "p < tq_size q'" by simp
      have "fst (contents depth q' ! p) < n"
        using assms(5) p nth_mem [of p "contents depth q'"] unfolding r(2) by (simp del: contents_simps(2))
      moreover have "level_from l p (contents depth q')" using 3(3) p unfolding r(2) by (simp add: level_from_simps)
      ultimately show False using a p 3(2) r(6) by (auto simp: saved_guards_def simp del: contents_simps)
    qed
    with 3(2) r(3,4,7) assms(1) show a by (simp add: ring_ok_def)
  qed (use a r(2) in \<open>auto simp: saved_guards_def level_from_simps\<close>)
qed

lemma workers_inv_new: "0 < length d \<Longrightarrow> workers_inv (length d) (new_workers d)"
  using ring_new [of d]
  by (simp add: workers_inv_def new_workers_def guards_empty) (simp add: new_task_queue_def contents_def guards_empty)

lemma work_inv:
  assumes "work depth w w'" "workers_inv depth w"
  shows "workers_inv depth w'"
  using assms
proof (induction rule: work.induct)
  case (async w x q)
  then have r: "ring_ok depth (wk_queue w)" by (simp add: workers_inv_def)
  from async frames_push [OF _ _ r async.hyps] push_guards [OF r async.hyps] push_ring(1,2) [OF r async.hyps] show ?case
    by (auto simp: workers_inv_def)
next
  case (sync w x om q)
  then have q: "q = (wk_queue w)\<lparr>tq_mark := depth\<rparr>" "om = tq_mark (wk_queue w)" by (auto simp: sync_begin_def)
  have s: "saved_guards depth (current_level (wk_frames w)) (wk_next w) om (wk_queue w)"
    using sync.prems guards_saved q(2) by (auto simp: workers_inv_def)
  have "guards depth (wk_next w) depth (wk_queue w)" by (simp add: guards_def)
  with s sync.prems show ?case by (auto simp: workers_inv_def q ring_ok_def slot_def less_Suc_eq)
next
  case (synced w l om fs)
  then have i: "guards depth l (tq_mark (wk_queue w)) (wk_queue w)" "current_level fs < l"
    "saved_guards depth (current_level fs) l om (wk_queue w)" by (simp_all add: workers_inv_def)
  have g: "guards depth (current_level fs) (tq_mark (wk_queue w)) (wk_queue w)"
    using guards_mono [OF i(1)] i(2) by simp
  have "ring_ok depth (sync_end depth om (wk_queue w))"
    using synced by (auto simp: workers_inv_def sync_end_def ring_ok_def slot_def)
  moreover have "guards depth (current_level fs) (tq_mark (sync_end depth om (wk_queue w))) (sync_end depth om (wk_queue w))"
    using g saved_guards_guards [OF i(3)] by (auto simp: sync_end_def guards_empty)
  ultimately show ?case using synced i(2) by (auto simp: workers_inv_def sync_end_def)
next
  case (owner w x om a q)
  then have r: "ring_ok depth (wk_queue w)" "guards depth (current_level (wk_frames w)) (tq_mark (wk_queue w)) (wk_queue w)"
    "\<forall>x \<in> set (contents depth (wk_queue w)). fst x < wk_next w" by (simp_all add: workers_inv_def)
  note b = back_level [OF r(1) owner.hyps(1) r(2)]
  note p = pop_back_ring [OF r(1) conjunct1 [OF b] owner.hyps(2)]
  have x: "current_level (wk_frames w) \<le> fst x" using b unfolding p(2) by simp
  have "om \<le> depth" using p(3) r(1) by (simp add: ring_ok_def)
  moreover have "frames_ok depth (wk_frames w) q"
    using frames_back [OF _ r(1) conjunct1 [OF b] owner.hyps(2) x] owner.prems by (simp add: workers_inv_def)
  moreover have "\<forall>x \<in> set (contents depth q). fst x < wk_next w" using r(3) unfolding p(2) by simp
  ultimately show ?case
    using owner.prems p(1,5) back_frame [OF r(1) conjunct1 [OF b] owner.hyps(2) r(2,3)]
    by (auto simp: workers_inv_def guards_def less_Suc_eq)
next
  case (popped w l om a fs)
  then have i: "om \<le> depth" "a \<or> saved_guards depth (current_level fs) l om (wk_queue w)" "current_level fs < l"
    by (simp_all add: workers_inv_def)
  let ?q = "restore_mark depth om a (wk_queue w)"
  have "ring_ok depth ?q" using popped i(1) by (auto simp: workers_inv_def restore_mark_def ring_ok_def slot_def)
  moreover have "guards depth (current_level fs) (tq_mark ?q) ?q"
    using i(2) saved_guards_guards [of depth "current_level fs" l om "wk_queue w"]
    by (auto simp: restore_mark_def guards_empty)
  ultimately show ?case using popped i(3) by (auto simp: workers_inv_def restore_mark_def)
next
  case (helper w x q)
  then have r: "ring_ok depth (wk_queue w)" "tq_size (wk_queue w) \<noteq> 0" by (simp_all add: workers_inv_def empty_front_def)
  note f = helper.hyps(2)
  from helper frames_front [OF _ r f] pop_front_guards [OF r f] pop_front_ring(1,2) [OF r f] show ?case
    by (auto simp: workers_inv_def)
qed

definition workers_start :: "nat \<Rightarrow> 'a workers \<Rightarrow> bool" where
  "workers_start depth w \<longleftrightarrow> (\<exists>d. length d = depth \<and> 0 < depth \<and> w = new_workers d)"

interpretation tasks: invariant_system "workers_start depth" "work depth" "workers_inv depth"
proof (unfold_locales, goal_cases)
  case (1 w)
  then show ?case using workers_inv_new by (auto simp: workers_start_def)
next
  case (2 w w')
  then show ?case using work_inv by blast
qed

interpretation ring: bounded_deque "ring_ok depth" "contents depth" depth "push depth" "pop_front depth"
  "\<lambda>q. (fst (pop_back depth q), snd (snd (snd (pop_back depth q))))"
proof (unfold_locales, goal_cases)
  case (1 q x q')
  from push_ring(1,2) [OF this] show ?case by simp
next
  case (2 q x)
  then show ?case by (auto simp: push_def Let_def)
next
  case (3 q x q')
  then have "tq_size q \<noteq> 0" by (simp add: contents_empty)
  from pop_front_ring(1,2) [OF 3(1) this 3(3)] show ?case by simp
next
  case (4 q x q')
  obtain y om a p where "pop_back depth q = (y, om, a, p)" by (cases "pop_back depth q") auto
  with 4 pop_back_ring(1,2) [of depth q y om a p] show ?case by (simp add: contents_empty)
qed

section \<open>Properties\<close>

text \<open>
  C34: The circular buffer is a bounded double-ended queue: pushing adds a task at the back and fails exactly
  when all places are taken, helpers take the oldest task, the owner the newest, nothing is lost or
  duplicated, and the count of queued tasks is the number of tasks in the buffer.
\<close>

theorem task_queue_deque:
  assumes "ring_ok depth q"
  shows "(case push depth x q of
      None \<Rightarrow> length (contents depth q) = depth
    | Some p \<Rightarrow> ring_ok depth p \<and> contents depth p = contents depth q @ [x] \<and> length (contents depth q) < depth) \<and>
    (\<forall>y p. \<not> empty_front q \<and> pop_front depth q = (y, p) \<longrightarrow> ring_ok depth p \<and> contents depth q = y # contents depth p) \<and>
    (\<forall>y om a p. \<not> empty_back depth q \<and> pop_back depth q = (y, om, a, p) \<longrightarrow>
      ring_ok depth p \<and> contents depth q = contents depth p @ [y]) \<and>
    tq_queued q = length (contents depth q)"
proof (intro conjI allI impI)
  show "case push depth x q of
      None \<Rightarrow> length (contents depth q) = depth
    | Some p \<Rightarrow> ring_ok depth p \<and> contents depth p = contents depth q @ [x] \<and> length (contents depth q) < depth"
    using ring.put_valid [OF assms, of x] ring.put_full [OF assms, of x] assms
    by (auto simp: ring_ok_def le_less split: option.split)
next
  fix y p assume "\<not> empty_front q \<and> pop_front depth q = (y, p)"
  with ring.front_valid [OF assms, of y p] show "ring_ok depth p" "contents depth q = y # contents depth p"
    by (simp_all add: empty_front_def contents_empty)
next
  fix y om a p assume "\<not> empty_back depth q \<and> pop_back depth q = (y, om, a, p)"
  with ring.back_valid [OF assms, of y p] show "ring_ok depth p" "contents depth q = contents depth p @ [y]"
    by (simp_all add: empty_back_def contents_empty)
qed (use assms in \<open>simp add: ring_ok_def\<close>)

theorem task_queue_deque_witness:
  "contents 2 (the (push 2 ''b'' (the (push 2 ''a'' (new_task_queue [[], []]))))) = [''a'', ''b'']"
proof -
  have r: "ring_ok 2 (the (push 2 ''a'' (new_task_queue [[], []])))" by code_simp
  have c: "contents 2 (the (push 2 ''a'' (new_task_queue [[], []]))) = [''a'']" by code_simp
  have p: "push 2 ''b'' (the (push 2 ''a'' (new_task_queue [[], []]))) \<noteq> None" by code_simp
  from conjunct1 [OF task_queue_deque [OF r, of "''b''"]] p show ?thesis
    unfolding c by (cases "push 2 ''b'' (the (push 2 ''a'' (new_task_queue [[], []])))") simp_all
qed

text \<open>
  C14: Whatever the owner and the helpers do, the task that the owner would take next has been pushed since
  the task it is working on was started: it never takes a task from an outer level, and a queue in
  which only such tasks are left is empty for it.
\<close>

theorem owner_own_level:
  assumes "0 < depth" "length d = depth" "(work depth)\<^sup>*\<^sup>* (new_workers d) w" "\<not> empty_back depth (wk_queue w)"
  shows "case pop_back depth (wk_queue w) of ((l, x), om, a, q) \<Rightarrow> current_level (wk_frames w) \<le> l"
proof -
  have "workers_inv depth w" using tasks.reach_inv [of depth "new_workers d" w] assms by (auto simp: workers_start_def)
  then have r: "ring_ok depth (wk_queue w)" "guards depth (current_level (wk_frames w)) (tq_mark (wk_queue w)) (wk_queue w)"
    by (simp_all add: workers_inv_def)
  note b = back_level [OF r(1) assms(4) r(2)]
  obtain x om a q where p: "pop_back depth (wk_queue w) = (x, om, a, q)" by (cases "pop_back depth (wk_queue w)") auto
  from b show ?thesis unfolding p pop_back_ring(2) [OF r(1) conjunct1 [OF b] p] by (cases x) simp
qed

theorem owner_own_level_witness:
  "let w = new_workers [(0, ''''), (0, '''')]; w1 = w\<lparr>wk_queue := the (push 2 (0, ''a'') (wk_queue w))\<rparr>
   in case pop_back 2 (wk_queue w1) of ((l, x), om, a, q) \<Rightarrow> current_level (wk_frames w1) \<le> l"
proof -
  let ?d = "[(0, ''''), (0, '''')]" and ?w = "new_workers [(0, ''''), (0, '''')]"
  let ?w1 = "?w\<lparr>wk_queue := the (push 2 (0, ''a'') (wk_queue ?w))\<rparr>"
  have "push 2 (current_level (wk_frames ?w), ''a'') (wk_queue ?w) = Some (the (push 2 (0, ''a'') (wk_queue ?w)))" by code_simp
  then have "work 2 ?w ?w1" by (rule work.async)
  then have r: "(work 2)\<^sup>*\<^sup>* ?w ?w1" by (rule r_into_rtranclp)
  have e: "\<not> empty_back 2 (wk_queue ?w1)" by code_simp
  have h: "0 < (2 :: nat)" "length ?d = 2" by simp_all
  from owner_own_level [OF h r e] show ?thesis unfolding Let_def .
qed

section \<open>Where the code differs from its documentation\<close>

text \<open>
  A mark that the head of the queue has passed is taken up again when the tail comes around to it: with a
  depth of 4, three tasks are queued and the mark is at the first; while the owner runs the newest, a helper
  takes the oldest, and the owner then queues three more. After it has run one of them, the mark
  is disabled, although three tasks of its own level are left.
\<close>

lemma stale_mark:
  "\<exists>q q1 q2 q3 q4.
     fold (\<lambda>x q. the (push 4 x q)) [1, 2, 3] (new_task_queue [0, 0, 0, 0]) = q \<and>
     pop_back 4 q = (3, 0, False, q1) \<and> pop_front 4 q1 = (1, q2) \<and>
     fold (\<lambda>x q. the (push 4 x q)) [4, 5, 6] (restore_mark 4 0 False q2) = q3 \<and>
     pop_back 4 q3 = (6, 0, True, q4) \<and>
     contents 4 (restore_mark 4 0 True q4) = [2, 4, 5 :: nat] \<and> empty_back 4 (restore_mark 4 0 True q4)"
proof (intro exI conjI)
  let ?q = "\<lparr>tq_head = 0, tq_mark = 0, tq_tail = 2, tq_size = 3, tq_data = [1, 2, 3, 0 :: nat], tq_queued = 3\<rparr>"
  show "fold (\<lambda>x q. the (push 4 x q)) [1, 2, 3] (new_task_queue [0, 0, 0, 0 :: nat]) = ?q" by code_simp
  show "pop_back 4 ?q = (3, 0, False, ?q\<lparr>tq_mark := 4, tq_tail := 1, tq_size := 2, tq_queued := 2\<rparr>)" by code_simp
  let ?q2 = "?q\<lparr>tq_head := 1, tq_mark := 4, tq_tail := 1, tq_size := 1, tq_queued := 1\<rparr>"
  show "pop_front 4 (?q\<lparr>tq_mark := 4, tq_tail := 1, tq_size := 2, tq_queued := 2\<rparr>) = (1, ?q2)" by code_simp
  let ?q3 = "\<lparr>tq_head = 1, tq_mark = 0, tq_tail = 0, tq_size = 4, tq_data = [6, 2, 4, 5 :: nat], tq_queued = 4\<rparr>"
  show "fold (\<lambda>x q. the (push 4 x q)) [4, 5, 6] (restore_mark 4 0 False ?q2) = ?q3" by code_simp
  show "pop_back 4 ?q3 = (6, 0, True, ?q3\<lparr>tq_mark := 4, tq_tail := 3, tq_size := 3, tq_queued := 3\<rparr>)" by code_simp
  show "contents 4 (restore_mark 4 0 True (?q3\<lparr>tq_mark := 4, tq_tail := 3, tq_size := 3, tq_queued := 3\<rparr>)) = [2, 4, 5]"
    by code_simp
  show "empty_back 4 (restore_mark 4 0 True (?q3\<lparr>tq_mark := 4, tq_tail := 3, tq_size := 3, tq_queued := 3\<rparr>))"
    by code_simp
qed

end
