(* ===== verification/Target_State.thy ===== *)
theory Target_State
  imports Phase_Mutex
begin

text \<open>
  Matching and executing a target in \<open>libbuild2\<close> (\<open>algorithm.cxx\<close>, \<open>algorithm.ixx\<close>, \<open>target.ixx\<close>): the target
  lock in its task count, \<open>lock_impl ()\<close>, \<open>match_impl ()\<close>, \<open>match ()\<close>, \<open>execute ()\<close> and \<open>execute_direct ()\<close>, for
  one target, one action and any number of threads. Every access to the task count is a step. Rules and recipes
  are callbacks: what they return is an input of the step, within their documented contract. Groups, the
  backlinks and the waiting itself (the scheduler) are left out. A failed assertion sets \<open>tg_bad\<close>.

  The sub-tasks that a rule or a recipe starts on the same task count (\<open>busy + 1\<close>, \<open>busy + 2\<close> and so on, see
  \<open>match_async ()\<close> and \<open>target.hxx\<close>) are not counted: here the count of a locked target is exactly \<open>busy\<close>, and the
  callback is taken to have waited for its sub-tasks before it returns, as \<open>execute_impl ()\<close> asserts. A rule that
  waits with the phase unlocked (\<open>wait_guard\<close>) has the phase again when it returns and is taken to be in it
  throughout. \<open>execute ()\<close> is only called by a counted dependent, as it asserts.
\<close>

section \<open>Target states\<close>

datatype target_state = Unknown | Unchanged | Postponed | Busy | Changed | Failed | Group

fun state_value :: "target_state \<Rightarrow> nat" where
  "state_value Unknown = 0"
| "state_value Unchanged = 1"
| "state_value Postponed = 2"
| "state_value Busy = 3"
| "state_value Changed = 4"
| "state_value Failed = 5"
| "state_value Group = 6"

instantiation target_state :: linorder
begin

definition less_eq_target_state :: "target_state \<Rightarrow> target_state \<Rightarrow> bool" where
  "less_eq_target_state l r \<longleftrightarrow> state_value l \<le> state_value r"

definition less_target_state :: "target_state \<Rightarrow> target_state \<Rightarrow> bool" where
  "less_target_state l r \<longleftrightarrow> state_value l < state_value r"

instance
proof (intro_classes, goal_cases)
  case (4 x y)
  then show ?case by (cases x; cases y; simp add: less_eq_target_state_def)
qed (auto simp: less_eq_target_state_def less_target_state_def)

end

text \<open>\<open>operator|=\<close>\<close>

definition merge_state :: "target_state \<Rightarrow> target_state \<Rightarrow> target_state" where
  "merge_state l r = (if state_value r > state_value l then r else l)"

section \<open>The state of a target and of the threads\<close>

datatype recipe = Noop | Group_recipe | Real_recipe

text \<open>What a thread does after it has unlocked the target.\<close>

datatype continuation = Return bool target_state | Read_state | Stop

datatype worker =
    Out                              \<comment> \<open>not working on the target\<close>
  | Locking bool bool bool nat       \<comment> \<open>in \<open>lock_impl ()\<close>: blocking, \<open>try_match\<close>, \<open>step\<close>, the expected count\<close>
  | Waiting bool bool                \<comment> \<open>in \<open>sched.wait (busy - 1)\<close>, the phase unlocked: \<open>try_match\<close>, \<open>step\<close>\<close>
  | Relocking bool bool nat          \<comment> \<open>the wait has returned the count, the phase is still unlocked\<close>
  | Holding bool bool bool nat       \<comment> \<open>with a \<open>target_lock\<close>: blocking, \<open>try_match\<close>, \<open>step\<close>, the offset\<close>
  | Task nat                         \<comment> \<open>the queued task that the lock has been released to\<close>
  | Lost nat                         \<comment> \<open>a task that could not lock the phase\<close>
  | Unlocking nat continuation       \<comment> \<open>before \<open>unlock_impl ()\<close> with the offset\<close>
  | Reading                          \<comment> \<open>before \<open>try_matched_state ()\<close>\<close>
  | Result bool target_state         \<comment> \<open>\<open>match ()\<close> has returned\<close>
  | Executing bool                   \<comment> \<open>before the exchange in \<open>execute ()\<close> or \<open>execute_direct ()\<close>\<close>
  | Running                          \<comment> \<open>in \<open>execute_impl ()\<close>\<close>
  | Running_noop                     \<comment> \<open>handling a noop recipe or a failed match\<close>
  | Awaiting                         \<comment> \<open>in \<open>sched.wait (exec)\<close>\<close>

record target_sys =
  tg_count :: nat                    \<comment> \<open>\<open>task_count\<close>\<close>
  tg_state :: target_state
  tg_recipe :: recipe
  tg_rule :: bool                    \<comment> \<open>\<open>rule\<close> is not null\<close>
  tg_dependents :: nat
  tg_targets :: int                  \<comment> \<open>the part of \<open>target_count\<close> that the target accounts for\<close>
  tg_phase :: run_phase
  tg_runs :: nat                     \<comment> \<open>how many times \<open>execute_impl ()\<close> has run\<close>
  tg_threads :: "worker list"
  tg_bad :: bool

definition set_worker :: "nat \<Rightarrow> worker \<Rightarrow> target_sys \<Rightarrow> target_sys" where
  "set_worker t th s = s\<lparr>tg_threads := (tg_threads s)[t := th]\<rparr>"

definition assert_fails :: "target_sys \<Rightarrow> target_sys" where
  "assert_fails s = s\<lparr>tg_bad := True\<rparr>"

text \<open>The offsets of the task count.\<close>

abbreviation "offset_touched \<equiv> 1 :: nat"
abbreviation "offset_tried \<equiv> 2 :: nat"
abbreviation "offset_matched \<equiv> 3 :: nat"
abbreviation "offset_applied \<equiv> 4 :: nat"
abbreviation "offset_executed \<equiv> 5 :: nat"
abbreviation "offset_busy \<equiv> 6 :: nat"

text \<open>\<open>count_base ()\<close> for the number of the operation in the batch, from 1.\<close>

definition count_base :: "nat \<Rightarrow> nat" where
  "count_base current_on = 5 * (current_on - 1)"

section \<open>Locking\<close>

text \<open>The analysis of the old value once the exchange has succeeded.\<close>

definition locked :: "nat \<Rightarrow> nat \<Rightarrow> bool \<Rightarrow> bool \<Rightarrow> bool \<Rightarrow> nat \<Rightarrow> target_sys \<Rightarrow> target_sys" where
  "locked b t w try stp e s =
     (if e \<le> b
      then set_worker t (Holding w try stp offset_touched) (s\<lparr>tg_rule := False, tg_dependents := 0\<rparr>)
      else if e - b = offset_touched \<or> e - b = offset_tried \<or> e - b = offset_matched
      then set_worker t (Holding w try stp (e - b)) s
      else assert_fails s)"

text \<open>The loop goes on with the count \<open>e\<close>, or returns without a lock.\<close>

definition not_locked :: "nat \<Rightarrow> nat \<Rightarrow> bool \<Rightarrow> bool \<Rightarrow> bool \<Rightarrow> nat \<Rightarrow> target_sys \<Rightarrow> target_sys" where
  "not_locked b t w try stp e s =
     (if e \<ge> b + offset_applied then set_worker t (if stp then Out else Reading) s
      else set_worker t (Locking w try stp e) s)"

text \<open>The exchange and the tests up to the next access; a \<open>match ()\<close> that does not block returns \<open>busy\<close>.\<close>

definition lock_exchange :: "nat \<Rightarrow> nat \<Rightarrow> bool \<Rightarrow> bool \<Rightarrow> bool \<Rightarrow> nat \<Rightarrow> target_sys \<Rightarrow> target_sys" where
  "lock_exchange b t w try stp e s =
     (if tg_count s = e then locked b t w try stp e (s\<lparr>tg_count := b + offset_busy\<rparr>)
      else if tg_count s \<ge> b + offset_busy
      then set_worker t (if w then Waiting try stp else Out) s
      else not_locked b t w try stp (tg_count s) s)"

definition unlock_target :: "nat \<Rightarrow> nat \<Rightarrow> nat \<Rightarrow> continuation \<Rightarrow> target_sys \<Rightarrow> target_sys" where
  "unlock_target b t k c s =
     (if tg_phase s \<noteq> Match then assert_fails s
      else set_worker t (case c of Return f st \<Rightarrow> Result f st | Read_state \<Rightarrow> Reading | Stop \<Rightarrow> Out)
             (s\<lparr>tg_count := k + b\<rparr>))"

section \<open>Matching\<close>

datatype match_outcome = Match_fails | No_rule | Match_ok
datatype apply_outcome = Apply_fails | Apply_ok recipe

definition set_recipe :: "bool \<Rightarrow> recipe \<Rightarrow> target_sys \<Rightarrow> target_sys" where
  "set_recipe inner r s =
     (let s = s\<lparr>tg_recipe := r\<rparr> in
      if r = Noop then s\<lparr>tg_state := Unchanged\<rparr>
      else s\<lparr>tg_state := Unknown,
             tg_targets := tg_targets s + (if inner \<and> r \<noteq> Group_recipe then 1 else 0)\<rparr>)"

definition apply_rule :: "bool \<Rightarrow> apply_outcome \<Rightarrow> target_sys \<Rightarrow> nat \<times> target_sys" where
  "apply_rule inner ao s =
     (case ao of Apply_fails \<Rightarrow> (offset_applied, s\<lparr>tg_state := Failed\<rparr>)
      | Apply_ok r \<Rightarrow> (offset_applied, set_recipe inner r s))"

text \<open>The result of \<open>match_impl ()\<close>, the new offset and the target; \<open>None\<close> if an assertion fails.\<close>

definition match_impl :: "bool \<Rightarrow> bool \<Rightarrow> bool \<Rightarrow> match_outcome \<Rightarrow> apply_outcome \<Rightarrow> nat \<Rightarrow> target_sys \<Rightarrow>
    ((bool \<times> target_state) \<times> nat \<times> target_sys) option" where
  "match_impl inner stp try mo ao k s =
     (if k = offset_tried \<and> try then Some ((False, Unknown), k, s)
      else if k = offset_tried \<or> k = offset_touched
      then (case mo of
              Match_fails \<Rightarrow> Some ((True, Failed), offset_applied, s\<lparr>tg_state := Failed\<rparr>)
            | No_rule \<Rightarrow> if k = offset_tried then None else Some ((False, Unknown), offset_tried, s)
            | Match_ok \<Rightarrow>
                if k = offset_tried then None
                else
                  let s = s\<lparr>tg_rule := True\<rparr> in
                  if stp then Some ((True, Unknown), offset_matched, s)
                  else (case apply_rule inner ao s of (p, s) \<Rightarrow> Some ((True, tg_state s), p, s)))
      else if k = offset_matched
      then (case apply_rule inner ao s of (p, s) \<Rightarrow> Some ((True, tg_state s), p, s))
      else None)"

text \<open>
  The contract of \<open>match_rule ()\<close>: without a match it fails unless \<open>try_match\<close> is true, and a target for which
  no rule has been found before does not get one.
\<close>

definition match_allowed :: "bool \<Rightarrow> nat \<Rightarrow> match_outcome \<Rightarrow> bool" where
  "match_allowed try k mo \<longleftrightarrow> (mo = No_rule \<longrightarrow> try) \<and> (k = offset_tried \<longrightarrow> mo = Match_fails)"

text \<open>\<open>match_impl ()\<close> of a thread that then unlocks the target and goes on with \<open>c\<close>.\<close>

definition run_match :: "bool \<Rightarrow> nat \<Rightarrow> bool \<Rightarrow> bool \<Rightarrow> match_outcome \<Rightarrow> apply_outcome \<Rightarrow> nat \<Rightarrow>
    (bool \<times> target_state \<Rightarrow> continuation) \<Rightarrow> target_sys \<Rightarrow> target_sys" where
  "run_match inner t stp try mo ao k c s =
     (case match_impl inner stp try mo ao k s of
        None \<Rightarrow> assert_fails s
      | Some (r, p, s1) \<Rightarrow> set_worker t (Unlocking p (c r)) s1)"

text \<open>What a holder of the lock does after \<open>match_impl ()\<close>: blocking callers return the result.\<close>

definition after_match :: "bool \<Rightarrow> bool \<Rightarrow> bool \<times> target_state \<Rightarrow> continuation" where
  "after_match w stp r = (if stp then Stop else if w then Return (fst r) (snd r) else Read_state)"

text \<open>\<open>match_recipe ()\<close>\<close>

definition match_recipe :: "bool \<Rightarrow> nat \<Rightarrow> recipe \<Rightarrow> target_sys \<Rightarrow> target_sys" where
  "match_recipe inner t r s =
     set_worker t (Unlocking offset_applied Stop) (set_recipe inner r (s\<lparr>tg_rule := False\<rparr>))"

text \<open>\<open>group_state ()\<close> and \<open>matched_state_impl ()\<close>, with the state of the group; \<open>None\<close> if the assertion fails.\<close>

definition group_state :: "bool \<Rightarrow> target_sys \<Rightarrow> bool" where
  "group_state member s \<longleftrightarrow> tg_state s = Group \<or> tg_state s = Unknown \<and> member \<and> tg_recipe s = Group_recipe"

definition matched_state_impl :: "nat \<Rightarrow> bool \<Rightarrow> target_state \<Rightarrow> target_sys \<Rightarrow> (bool \<times> target_state) option" where
  "matched_state_impl b member gst s =
     (if tg_count s = b + offset_tried then Some (False, Unknown)
      else if tg_count s = b + offset_applied \<or> tg_count s = b + offset_executed
      then Some (True, if group_state member s then gst else tg_state s)
      else None)"

definition read_state :: "nat \<Rightarrow> nat \<Rightarrow> bool \<Rightarrow> target_state \<Rightarrow> target_sys \<Rightarrow> target_sys" where
  "read_state b t member gst s =
     (if tg_phase s \<noteq> Match then assert_fails s
      else (case matched_state_impl b member gst s of
              None \<Rightarrow> assert_fails s | Some (f, st) \<Rightarrow> set_worker t (Result f st) s))"

text \<open>\<open>match_inc_dependens ()\<close> in the callers of \<open>match ()\<close>\<close>

definition count_dependent :: "nat \<Rightarrow> target_sys \<Rightarrow> target_sys" where
  "count_dependent t s = set_worker t Out (s\<lparr>tg_dependents := tg_dependents s + 1\<rparr>)"

section \<open>Executing\<close>

text \<open>
  \<open>execute_recipe ()\<close>: the states returned by the callbacks before and after the recipe and by the recipe itself,
  \<open>None\<close> if one of them fails. The second component is the outcome of the assertion on the merged state.
\<close>

definition execute_recipe :: "target_state list option \<Rightarrow> target_sys \<Rightarrow> target_sys" where
  "execute_recipe outs s =
     (case outs of
        None \<Rightarrow> s\<lparr>tg_state := Failed\<rparr>
      | Some rs \<Rightarrow>
          let ts = fold (\<lambda>r l. merge_state l r) rs Unknown in
          if ts = Changed \<or> ts = Unchanged \<or> ts = Group then s\<lparr>tg_state := ts\<rparr>
          else if ts = Postponed then s\<lparr>tg_state := Unchanged\<rparr>
          else assert_fails s)"

text \<open>The contract of recipes and callbacks.\<close>

definition outcomes_allowed :: "target_state list option \<Rightarrow> bool" where
  "outcomes_allowed outs \<longleftrightarrow>
     (case outs of None \<Rightarrow> True | Some rs \<Rightarrow> rs \<noteq> [] \<and> set rs \<subseteq> {Unchanged, Changed, Postponed, Group})"

text \<open>The beginning of \<open>execute ()\<close>: the dependents are counted down, and in the last mode only the last one goes on.\<close>

definition execute_begin :: "bool \<Rightarrow> nat \<Rightarrow> target_sys \<Rightarrow> target_sys" where
  "execute_begin mode_last t s =
     (if tg_dependents s = 0 then assert_fails s
      else
        let td = tg_dependents s - 1; s = s\<lparr>tg_dependents := td\<rparr> in
        if mode_last \<and> td \<noteq> 0 then s else set_worker t (Executing False) s)"

text \<open>The entry of \<open>execute_impl ()\<close> with its assertion.\<close>

definition enter_execute_impl :: "nat \<Rightarrow> nat \<Rightarrow> target_sys \<Rightarrow> target_sys" where
  "enter_execute_impl b t s =
     (if tg_count s = b + offset_busy \<and> tg_state s = Unknown then set_worker t Running s else assert_fails s)"

text \<open>
  The exchange and the tests after it, in \<open>execute ()\<close> and in \<open>execute_direct ()\<close>; a caller of \<open>execute ()\<close> that gets
  \<open>busy\<close> may wait or go on.
\<close>

definition execute_exchange :: "nat \<Rightarrow> nat \<Rightarrow> bool \<Rightarrow> bool \<Rightarrow> target_sys \<Rightarrow> target_sys" where
  "execute_exchange b t direct waits s =
     (if tg_count s = b + offset_applied
      then
        let s = s\<lparr>tg_count := b + offset_busy\<rparr> in
        if direct
        then if tg_state s = Unknown then enter_execute_impl b t s
             else if tg_state s = Unchanged \<or> tg_state s = Failed then set_worker t Running_noop s
             else assert_fails s
        else if tg_state s = Unchanged then set_worker t Running_noop s
             else enter_execute_impl b t s
      else if tg_count s \<ge> b + offset_busy then set_worker t (if direct \<or> waits then Awaiting else Out) s
      else if tg_count s = b + offset_executed then set_worker t Out s
      else assert_fails s)"

text \<open>The rest of \<open>execute_impl ()\<close>.\<close>

definition execute_end :: "bool \<Rightarrow> nat \<Rightarrow> nat \<Rightarrow> target_state list option \<Rightarrow> target_sys \<Rightarrow> target_sys" where
  "execute_end inner b t outs s =
     (let s1 = execute_recipe outs s;
          s2 = s1\<lparr>tg_targets := tg_targets s1 - (if inner \<and> tg_recipe s1 \<noteq> Group_recipe then 1 else 0),
                  tg_runs := tg_runs s1 + 1, tg_count := tg_count s1 - (offset_busy - offset_executed)\<rparr>
      in if tg_count s1 = b + offset_busy then set_worker t Out s2 else assert_fails s2)"

text \<open>The end of a noop recipe, with the callbacks of a directory target, or of a target that failed to match.\<close>

definition noop_end :: "nat \<Rightarrow> nat \<Rightarrow> target_state list option option \<Rightarrow> target_sys \<Rightarrow> target_sys" where
  "noop_end b t callbacks s =
     (let s1 = (case callbacks of Some outs \<Rightarrow> if tg_state s = Unchanged then execute_recipe outs s else s | None \<Rightarrow> s)
      in set_worker t Out (s1\<lparr>tg_count := b + offset_executed\<rparr>))"

section \<open>Steps\<close>

text \<open>The offset of the target that a thread has locked.\<close>

fun held :: "worker \<Rightarrow> nat option" where
  "held (Holding w try stp k) = Some k"
| "held (Task k) = Some k"
| "held (Lost k) = Some k"
| "held (Unlocking k c) = Some k"
| "held Running = Some offset_applied"
| "held Running_noop = Some offset_applied"
| "held _ = None"

text \<open>The phase that a thread is in: a queued task has not locked it yet, and a waiting thread has unlocked it.\<close>

fun in_phase :: "worker \<Rightarrow> run_phase option" where
  "in_phase Out = None"
| "in_phase (Waiting try stp) = None"
| "in_phase (Relocking try stp e) = None"
| "in_phase (Task k) = None"
| "in_phase (Lost k) = None"
| "in_phase (Executing d) = Some Execute"
| "in_phase Running = Some Execute"
| "in_phase Running_noop = Some Execute"
| "in_phase Awaiting = Some Execute"
| "in_phase _ = Some Match"

text \<open>How far the target has got in the operation: the offset that was or is the last one stored.\<close>

definition held_offset :: "worker \<Rightarrow> nat" where
  "held_offset th = (case held th of Some k \<Rightarrow> k | None \<Rightarrow> 0)"

definition level :: "nat \<Rightarrow> target_sys \<Rightarrow> nat" where
  "level b s =
     (if tg_count s \<ge> b + offset_busy then sum_list (map held_offset (tg_threads s)) else tg_count s - b)"

text \<open>
  The steps of a thread, and the switch of the phase by threads that do not work on the target, which the
  phase mutex allows when nobody is in the phase. \<open>match_async ()\<close> neither tries nor steps, and its caller looks at
  the target again when the task has been done; \<open>execute ()\<close> is called by dependents that have matched the target,
  and \<open>execute_direct ()\<close> after it has been applied.
\<close>

inductive target_step :: "nat \<Rightarrow> bool \<Rightarrow> bool \<Rightarrow> bool \<Rightarrow> target_sys \<Rightarrow> target_sys \<Rightarrow> bool"
  for b inner mode_last member where
  start_match: "t < length (tg_threads s) \<Longrightarrow> tg_threads s ! t = Out \<Longrightarrow> tg_phase s = Match \<Longrightarrow>
    (\<not> w \<longrightarrow> \<not> try \<and> \<not> stp) \<Longrightarrow>
    target_step b inner mode_last member s (set_worker t (Locking w try stp (b + offset_touched - 1)) s)"
| exchange: "t < length (tg_threads s) \<Longrightarrow> tg_threads s ! t = Locking w try stp e \<Longrightarrow>
    target_step b inner mode_last member s (lock_exchange b t w try stp e s)"
| cycle: "t < length (tg_threads s) \<Longrightarrow> tg_threads s ! t = Locking w try stp e \<Longrightarrow> tg_count s \<ge> b + offset_busy \<Longrightarrow>
    target_step b inner mode_last member s (set_worker t Out s)"
| wake: "t < length (tg_threads s) \<Longrightarrow> tg_threads s ! t = Waiting try stp \<Longrightarrow> tg_count s \<le> b + offset_busy - 1 \<Longrightarrow>
    target_step b inner mode_last member s (set_worker t (Relocking try stp (tg_count s)) s)"
| relock: "t < length (tg_threads s) \<Longrightarrow> tg_threads s ! t = Relocking try stp e \<Longrightarrow> tg_phase s = Match \<Longrightarrow>
    target_step b inner mode_last member s (not_locked b t True try stp e s)"
| relock_fails: "t < length (tg_threads s) \<Longrightarrow> tg_threads s ! t = Relocking try stp e \<Longrightarrow>
    target_step b inner mode_last member s (set_worker t Out s)"
| queue: "t < length (tg_threads s) \<Longrightarrow> tg_threads s ! t = Holding False try stp k \<Longrightarrow>
    target_step b inner mode_last member s (set_worker t (Task k) s)"
| run_task: "t < length (tg_threads s) \<Longrightarrow> tg_threads s ! t = Task k \<Longrightarrow> tg_phase s = Match \<Longrightarrow> match_allowed False k mo \<Longrightarrow>
    target_step b inner mode_last member s (run_match inner t False False mo ao k (\<lambda>_. Stop) s)"
| lose_task: "t < length (tg_threads s) \<Longrightarrow> tg_threads s ! t = Task k \<Longrightarrow>
    target_step b inner mode_last member s (set_worker t (Lost k) s)"
| match_it: "t < length (tg_threads s) \<Longrightarrow> tg_threads s ! t = Holding w try stp k \<Longrightarrow> match_allowed try k mo \<Longrightarrow>
    target_step b inner mode_last member s (run_match inner t stp try mo ao k (after_match w stp) s)"
| assign: "t < length (tg_threads s) \<Longrightarrow> tg_threads s ! t = Holding w try True k \<Longrightarrow> k \<noteq> offset_matched \<Longrightarrow>
    target_step b inner mode_last member s (match_recipe inner t r s)"
| release: "t < length (tg_threads s) \<Longrightarrow> tg_threads s ! t = Holding w try True k \<Longrightarrow>
    target_step b inner mode_last member s (set_worker t (Unlocking k Stop) s)"
| unlock: "t < length (tg_threads s) \<Longrightarrow> tg_threads s ! t = Unlocking k c \<Longrightarrow>
    target_step b inner mode_last member s (unlock_target b t k c s)"
| look: "t < length (tg_threads s) \<Longrightarrow> tg_threads s ! t = Reading \<Longrightarrow>
    target_step b inner mode_last member s (read_state b t member gst s)"
| depend: "t < length (tg_threads s) \<Longrightarrow> tg_threads s ! t = Result True st \<Longrightarrow> st \<noteq> Failed \<Longrightarrow>
    target_step b inner mode_last member s (count_dependent t s)"
| complete: "t < length (tg_threads s) \<Longrightarrow> tg_threads s ! t = Out \<Longrightarrow> tg_phase s = Match \<Longrightarrow>
    tg_count s < b + offset_busy \<Longrightarrow> level b s \<ge> offset_applied \<Longrightarrow>
    target_step b inner mode_last member s (set_worker t Reading s)"
| leave: "t < length (tg_threads s) \<Longrightarrow> tg_threads s ! t = Result f st \<Longrightarrow>
    target_step b inner mode_last member s (set_worker t Out s)"
| start_execute: "t < length (tg_threads s) \<Longrightarrow> tg_threads s ! t = Out \<Longrightarrow> tg_phase s = Execute \<Longrightarrow>
    level b s \<ge> offset_applied \<Longrightarrow> tg_dependents s \<noteq> 0 \<Longrightarrow>
    target_step b inner mode_last member s (execute_begin mode_last t s)"
| start_direct: "t < length (tg_threads s) \<Longrightarrow> tg_threads s ! t = Out \<Longrightarrow> tg_phase s = Execute \<Longrightarrow>
    level b s \<ge> offset_applied \<Longrightarrow>
    target_step b inner mode_last member s (set_worker t (Executing True) s)"
| execute_it: "t < length (tg_threads s) \<Longrightarrow> tg_threads s ! t = Executing d \<Longrightarrow>
    target_step b inner mode_last member s (execute_exchange b t d waits s)"
| finish: "t < length (tg_threads s) \<Longrightarrow> tg_threads s ! t = Running \<Longrightarrow> outcomes_allowed outs \<Longrightarrow>
    target_step b inner mode_last member s (execute_end inner b t outs s)"
| finish_noop: "t < length (tg_threads s) \<Longrightarrow> tg_threads s ! t = Running_noop \<Longrightarrow>
    (\<forall>outs. callbacks = Some outs \<longrightarrow> outcomes_allowed outs) \<Longrightarrow>
    target_step b inner mode_last member s (noop_end b t callbacks s)"
| executed: "t < length (tg_threads s) \<Longrightarrow> tg_threads s ! t = Awaiting \<Longrightarrow> tg_count s \<le> b + offset_executed \<Longrightarrow>
    target_step b inner mode_last member s (set_worker t Out s)"
| switch_phase: "\<forall>th \<in> set (tg_threads s). in_phase th = None \<Longrightarrow>
    target_step b inner mode_last member s (s\<lparr>tg_phase := p\<rparr>)"

text \<open>The beginning of an operation: nobody works on the target, which earlier operations may have dealt with.\<close>

definition target_start :: "nat \<Rightarrow> target_sys \<Rightarrow> bool" where
  "target_start b s \<longleftrightarrow>
     tg_count s \<le> b \<and> tg_targets s = 0 \<and> tg_runs s = 0 \<and> \<not> tg_bad s \<and> (\<forall>th \<in> set (tg_threads s). th = Out)"

end
