(* ===== verification/Target_State_Properties.thy ===== *)
theory Target_State_Properties
  imports Target_State Step_System
begin

text \<open>
  The task count of a target is a lock: at most one thread matches or executes the target at a time. The target
  only moves forward in an operation, its recipe is run at most once, and no assertion of the code fails.
\<close>

section \<open>Target states\<close>

lemma merge_state_max: "merge_state l r = max l r"
  by (cases l; cases r; simp add: merge_state_def max_def less_eq_target_state_def)

lemma merged_allowed:
  assumes "rs \<noteq> []" "set rs \<subseteq> {Unchanged, Changed, Postponed, Group}"
  shows "fold (\<lambda>r l. merge_state l r) rs Unknown \<in> {Unchanged, Changed, Postponed, Group}"
proof -
  have "fold (\<lambda>r l. merge_state l r) rs l \<in> {Unchanged, Changed, Postponed, Group}"
    if "l \<in> {Unchanged, Changed, Postponed, Group}" "set rs \<subseteq> {Unchanged, Changed, Postponed, Group}" for l rs
    using that by (induction rs arbitrary: l) (auto simp: merge_state_def)
  moreover obtain r rs' where "rs = r # rs'" using assms(1) by (cases rs) auto
  ultimately show ?thesis using assms(2) by (auto simp: merge_state_def)
qed

lemma execute_recipe_fields:
  assumes "outcomes_allowed outs"
  shows "tg_count (execute_recipe outs s) = tg_count s" "tg_recipe (execute_recipe outs s) = tg_recipe s"
    "tg_dependents (execute_recipe outs s) = tg_dependents s" "tg_targets (execute_recipe outs s) = tg_targets s"
    "tg_phase (execute_recipe outs s) = tg_phase s" "tg_runs (execute_recipe outs s) = tg_runs s"
    "tg_threads (execute_recipe outs s) = tg_threads s" "tg_bad (execute_recipe outs s) = tg_bad s"
proof -
  have m: "fold (\<lambda>r l. merge_state l r) rs Unknown \<in> {Unchanged, Changed, Postponed, Group}" if "outs = Some rs" for rs
    using assms merged_allowed [of rs] that by (simp add: outcomes_allowed_def)
  show "tg_count (execute_recipe outs s) = tg_count s" "tg_recipe (execute_recipe outs s) = tg_recipe s"
    "tg_dependents (execute_recipe outs s) = tg_dependents s" "tg_targets (execute_recipe outs s) = tg_targets s"
    "tg_phase (execute_recipe outs s) = tg_phase s" "tg_runs (execute_recipe outs s) = tg_runs s"
    "tg_threads (execute_recipe outs s) = tg_threads s" "tg_bad (execute_recipe outs s) = tg_bad s"
    using m by (auto simp: execute_recipe_def Let_def split: option.split)
qed

lemma set_recipe_fields [simp]:
  "tg_count (set_recipe i r s) = tg_count s" "tg_dependents (set_recipe i r s) = tg_dependents s"
  "tg_phase (set_recipe i r s) = tg_phase s" "tg_runs (set_recipe i r s) = tg_runs s"
  "tg_threads (set_recipe i r s) = tg_threads s" "tg_bad (set_recipe i r s) = tg_bad s"
  "tg_recipe (set_recipe i r s) = r" "tg_state (set_recipe i r s) = (if r = Noop then Unchanged else Unknown)"
  "tg_targets (set_recipe i r s) = tg_targets s + (if i \<and> r \<noteq> Noop \<and> r \<noteq> Group_recipe then 1 else 0)"
  by (auto simp: set_recipe_def Let_def)

lemma set_worker_fields [simp]:
  "tg_count (set_worker t th s) = tg_count s" "tg_state (set_worker t th s) = tg_state s"
  "tg_recipe (set_worker t th s) = tg_recipe s" "tg_dependents (set_worker t th s) = tg_dependents s"
  "tg_targets (set_worker t th s) = tg_targets s" "tg_phase (set_worker t th s) = tg_phase s"
  "tg_runs (set_worker t th s) = tg_runs s" "tg_bad (set_worker t th s) = tg_bad s"
  "tg_threads (set_worker t th s) = (tg_threads s)[t := th]"
  by (simp_all add: set_worker_def)

section \<open>Holders of the lock\<close>

definition holds :: "worker \<Rightarrow> nat" where
  "holds th = of_bool (held th \<noteq> None)"

definition holders :: "worker list \<Rightarrow> nat" where
  "holders ths = sum_list (map holds ths)"

definition offsets :: "worker list \<Rightarrow> nat" where
  "offsets ths = sum_list (map held_offset ths)"

lemma sum_update:
  assumes "t < length ths"
  shows "holders (ths[t := th]) + holds (ths ! t) = holders ths + holds th"
    "offsets (ths[t := th]) + held_offset (ths ! t) = offsets ths + held_offset th"
proof -
  have a: "sum_list (map f (xs[i := x])) + f (xs ! i) = sum_list (map f xs) + (f x :: nat)" if "i < length xs" for f i x and xs :: "worker list"
    using that
  proof (induction xs arbitrary: i)
    case (Cons y xs)
    then show ?case by (cases i) auto
  qed simp
  show "holders (ths[t := th]) + holds (ths ! t) = holders ths + holds th"
    "offsets (ths[t := th]) + held_offset (ths ! t) = offsets ths + held_offset th"
    using a [OF assms] by (simp_all add: holders_def offsets_def)
qed

lemma holders_zero: "holders ths = 0 \<longleftrightarrow> (\<forall>th \<in> set ths. held th = None)"
  by (simp add: holders_def holds_def)

lemma holders_nth: "holders ths = 0 \<longleftrightarrow> (\<forall>i < length ths. held (ths ! i) = None)"
  by (simp add: holders_zero all_set_conv_all_nth)

lemma offsets_zero: "holders ths = 0 \<Longrightarrow> offsets ths = 0"
  by (simp add: holders_zero offsets_def held_offset_def)

lemma only_holder:
  assumes "holders ths = 1" "t < length ths" "held (ths ! t) = Some k"
  shows "offsets ths = k" "i < length ths \<Longrightarrow> i \<noteq> t \<Longrightarrow> held (ths ! i) = None"
proof -
  have z: "holders (ths[t := Out]) = 0"
    using sum_update(1) [OF assms(2), of Out] assms by (simp add: holds_def)
  then show "offsets ths = k"
    using sum_update(2) [OF assms(2), of Out] offsets_zero [OF z] assms(3) by (simp add: held_offset_def)
  show "held (ths ! i) = None" if "i < length ths" "i \<noteq> t"
  proof -
    have "ths[t := Out] ! i \<in> set (ths[t := Out])" using that by (intro nth_mem) simp
    with z that show ?thesis by (simp add: holders_zero)
  qed
qed

lemma level_offsets: "level b s = (if tg_count s \<ge> b + offset_busy then offsets (tg_threads s) else tg_count s - b)"
  by (simp add: level_def offsets_def)

section \<open>The invariant\<close>

text \<open>What holds of a thread, given the task count, the level and the state of the target, and the phase.\<close>

fun worker_ok :: "nat \<Rightarrow> run_phase \<Rightarrow> nat \<Rightarrow> nat \<Rightarrow> target_state \<Rightarrow> worker \<Rightarrow> bool" where
  "worker_ok b ph c l st (Locking w try stp e) \<longleftrightarrow> e < b + offset_applied \<and> (\<not> w \<longrightarrow> \<not> try \<and> \<not> stp)"
| "worker_ok b ph c l st (Relocking try stp e) \<longleftrightarrow>
     e < b + offset_busy \<and> (e \<ge> b + offset_applied \<longrightarrow> l \<ge> offset_applied \<and> (ph = Match \<longrightarrow> c < b + offset_busy))"
| "worker_ok b ph c l st (Holding w try stp k) \<longleftrightarrow> 1 \<le> k \<and> k < offset_applied \<and> (\<not> w \<longrightarrow> \<not> try \<and> \<not> stp)"
| "worker_ok b ph c l st (Task k) \<longleftrightarrow> 1 \<le> k \<and> k < offset_applied"
| "worker_ok b ph c l st (Lost k) \<longleftrightarrow> 1 \<le> k \<and> k < offset_applied"
| "worker_ok b ph c l st (Unlocking k r) \<longleftrightarrow>
     1 \<le> k \<and> k \<le> offset_applied \<and> (r = Read_state \<longrightarrow> k = offset_applied) \<and>
     (\<forall>x. r = Return True x \<longrightarrow> k = offset_applied \<and> (x \<noteq> Failed \<longrightarrow> st \<noteq> Failed))"
| "worker_ok b ph c l st Reading \<longleftrightarrow> c < b + offset_busy \<and> l \<ge> offset_applied"
| "worker_ok b ph c l st (Result f x) \<longleftrightarrow>
     (f \<longrightarrow> c < b + offset_busy \<and> l \<ge> offset_applied \<and> (l = offset_applied \<and> x \<noteq> Failed \<longrightarrow> st \<noteq> Failed))"
| "worker_ok b ph c l st (Executing d) \<longleftrightarrow> l \<ge> offset_applied \<and> (\<not> d \<and> l = offset_applied \<longrightarrow> st \<noteq> Failed)"
| "worker_ok b ph c l st Running \<longleftrightarrow> st = Unknown"
| "worker_ok b ph c l st Running_noop \<longleftrightarrow> st = Unchanged \<or> st = Failed"
| "worker_ok b ph c l st _ \<longleftrightarrow> True"

definition phase_ok :: "run_phase \<Rightarrow> worker \<Rightarrow> bool" where
  "phase_ok ph th \<longleftrightarrow> (\<forall>p. in_phase th = Some p \<longrightarrow> ph = p)"

definition target_ok :: "bool \<Rightarrow> nat \<Rightarrow> target_sys \<Rightarrow> bool" where
  "target_ok inner l s \<longleftrightarrow>
     (l = offset_applied \<longrightarrow> tg_state s = Unknown \<or> tg_state s = Unchanged \<or> tg_state s = Failed) \<and>
     (1 \<le> l \<and> tg_dependents s \<noteq> 0 \<longrightarrow> l \<ge> offset_applied \<and> (l = offset_applied \<longrightarrow> tg_state s \<noteq> Failed)) \<and>
     tg_runs s \<le> (if l = offset_executed then 1 else 0) \<and>
     tg_targets s = (if inner \<and> l = offset_applied \<and> tg_state s = Unknown \<and> tg_recipe s \<noteq> Group_recipe then 1 else 0)"

definition target_inv :: "nat \<Rightarrow> bool \<Rightarrow> target_sys \<Rightarrow> bool" where
  "target_inv b inner s \<longleftrightarrow>
     \<not> tg_bad s \<and> tg_count s \<le> b + offset_busy \<and>
     holders (tg_threads s) = (if tg_count s = b + offset_busy then 1 else 0) \<and>
     target_ok inner (level b s) s \<and>
     (\<forall>i < length (tg_threads s).
        worker_ok b (tg_phase s) (tg_count s) (level b s) (tg_state s) (tg_threads s ! i) \<and> phase_ok (tg_phase s) (tg_threads s ! i))"

lemma target_invD:
  assumes "target_inv b inner s"
  shows "\<not> tg_bad s" "tg_count s \<le> b + offset_busy"
    "holders (tg_threads s) = (if tg_count s = b + offset_busy then 1 else 0)"
    "target_ok inner (level b s) s"
    "i < length (tg_threads s) \<Longrightarrow> worker_ok b (tg_phase s) (tg_count s) (level b s) (tg_state s) (tg_threads s ! i)"
    "i < length (tg_threads s) \<Longrightarrow> phase_ok (tg_phase s) (tg_threads s ! i)"
  using assms by (simp_all add: target_inv_def)

text \<open>The other threads do not notice a change: nobody reads the state while it changes.\<close>

definition unnoticed :: "nat \<Rightarrow> run_phase \<Rightarrow> nat \<Rightarrow> nat \<Rightarrow> target_state \<Rightarrow> nat \<Rightarrow> nat \<Rightarrow> target_state \<Rightarrow> bool" where
  "unnoticed b ph c l st c' l' st' \<longleftrightarrow> l \<le> l' \<and>
     (ph = Match \<longrightarrow> c' = c \<and> l' = l \<and> st' = st \<or> c \<ge> b + offset_busy \<or> l < offset_applied) \<and>
     (ph = Execute \<longrightarrow> (l' = offset_applied \<longrightarrow> st' = st))"

lemma unnoticed_ok:
  assumes "worker_ok b ph c l st th" "phase_ok ph th" "held th = None" "unnoticed b ph c l st c' l' st'"
  shows "worker_ok b ph c' l' st' th"
  using assms by (cases th) (auto simp: phase_ok_def unnoticed_def)

lemma level_free: "tg_count s < b + offset_busy \<Longrightarrow> level b s = tg_count s - b"
  by (simp add: level_offsets)

lemma level_holder:
  assumes "target_inv b inner s" "t < length (tg_threads s)" "held (tg_threads s ! t) = Some k"
  shows "tg_count s = b + offset_busy" "level b s = k" "i < length (tg_threads s) \<Longrightarrow> i \<noteq> t \<Longrightarrow> held (tg_threads s ! i) = None"
proof -
  have "holders (tg_threads s) \<noteq> 0" using assms(2,3) nth_mem [OF assms(2)] by (auto simp: holders_zero)
  then have h: "tg_count s = b + offset_busy" "holders (tg_threads s) = 1"
    using target_invD(3) [OF assms(1)] by (auto split: if_splits)
  note o = only_holder [OF h(2) assms(2,3)]
  show "tg_count s = b + offset_busy" by (rule h(1))
  show "level b s = k" using h(1) o(1) by (simp add: level_offsets)
  show "i < length (tg_threads s) \<Longrightarrow> i \<noteq> t \<Longrightarrow> held (tg_threads s ! i) = None" by (rule o(2))
qed

lemma target_inv_start: "target_start b s \<Longrightarrow> target_inv b inner s"
proof -
  assume a: "target_start b s"
  then have z: "holders (tg_threads s) = 0" by (auto simp: target_start_def holders_zero)
  with a have "level b s = 0" by (simp add: level_offsets target_start_def)
  moreover have "worker_ok b ph c l st (tg_threads s ! i) \<and> phase_ok ph (tg_threads s ! i)"
    if "i < length (tg_threads s)" for i c l st ph
  proof -
    have "tg_threads s ! i = Out" using a nth_mem [OF that] by (simp add: target_start_def)
    then show ?thesis by (simp add: phase_ok_def)
  qed
  ultimately show ?thesis using a z unfolding target_inv_def by (simp add: target_start_def target_ok_def)
qed

text \<open>A thread that goes from one state to another.\<close>

lemma target_inv_move:
  assumes inv: "target_inv b inner s" "t < length (tg_threads s)"
    and ths: "tg_threads s' = (tg_threads s)[t := th]" and ph: "tg_phase s' = tg_phase s" and bad: "\<not> tg_bad s'"
    and cnt: "tg_count s' \<le> b + offset_busy"
      "holds th + (if tg_count s = b + offset_busy then 1 else 0) =
        holds (tg_threads s ! t) + (if tg_count s' = b + offset_busy then 1 else 0)"
    and rel: "unnoticed b (tg_phase s) (tg_count s) (level b s) (tg_state s) (tg_count s') (level b s') (tg_state s')"
    and alone: "held (tg_threads s ! t) = None \<Longrightarrow> tg_count s = b + offset_busy \<Longrightarrow>
      tg_count s' = tg_count s \<and> level b s' = level b s \<and> tg_state s' = tg_state s"
    and ok: "worker_ok b (tg_phase s') (tg_count s') (level b s') (tg_state s') th" "phase_ok (tg_phase s) th"
      "target_ok inner (level b s') s'"
  shows "target_inv b inner s'"
proof -
  have "holders (tg_threads s') = (if tg_count s' = b + offset_busy then 1 else 0)"
    using sum_update(1) [OF inv(2), of th] cnt(2) target_invD(3) [OF inv(1)] unfolding ths by linarith
  moreover have "worker_ok b (tg_phase s') (tg_count s') (level b s') (tg_state s') (tg_threads s ! i)"
    if i: "i < length (tg_threads s)" "i \<noteq> t" for i
  proof (cases "held (tg_threads s ! i)")
    case None
    with unnoticed_ok rel target_invD(5,6) [OF inv(1) i(1)] show ?thesis unfolding ph by blast
  next
    case (Some k)
    note h = level_holder [OF inv(1) i(1) Some]
    have "held (tg_threads s ! t) = None" using h(3) inv(2) i(2) by blast
    with alone h(1) target_invD(5) [OF inv(1) i(1)] show ?thesis unfolding ph by simp
  qed
  ultimately show ?thesis
    using ok cnt(1) bad target_invD(6) [OF inv(1)] inv(2) unfolding target_inv_def ths ph
    by (auto simp: nth_list_update)
qed

text \<open>A thread that changes nothing but its own state.\<close>

lemma target_inv_thread:
  assumes inv: "target_inv b inner s" "t < length (tg_threads s)"
    and h: "held th = held (tg_threads s ! t)"
    and ok: "worker_ok b (tg_phase s) (tg_count s) (level b s) (tg_state s) th" "phase_ok (tg_phase s) th"
  shows "target_inv b inner (set_worker t th s)" "level b (set_worker t th s) = level b s"
proof -
  show l: "level b (set_worker t th s) = level b s"
    using sum_update(2) [OF inv(2), of th] h by (simp add: level_offsets held_offset_def)
  show "target_inv b inner (set_worker t th s)"
    using target_invD [OF inv(1)] h ok l
    by (intro target_inv_move [OF inv, where th = th]) (simp_all add: holds_def unnoticed_def target_ok_def)
qed


section \<open>The steps keep the invariant\<close>

lemma target_in_phaseD: "target_inv b inner s \<Longrightarrow> t < length (tg_threads s) \<Longrightarrow> in_phase (tg_threads s ! t) = Some p \<Longrightarrow> tg_phase s = p"
  using target_invD(6) by (auto simp: phase_ok_def)

lemma level_kept:
  assumes "t < length (tg_threads s)" "tg_threads s' = (tg_threads s)[t := th]" "tg_count s' = tg_count s"
    "held_offset th = held_offset (tg_threads s ! t)"
  shows "level b s' = level b s"
  using sum_update(2) [OF assms(1), of th] assms(2-4) by (simp add: level_offsets)

lemma level_held:
  assumes "target_inv b inner s" "t < length (tg_threads s)" "tg_threads s' = (tg_threads s)[t := th]"
    "tg_count s' = b + offset_busy" "held (tg_threads s ! t) \<noteq> None \<or> tg_count s < b + offset_busy"
  shows "level b s' = held_offset th"
proof -
  have "offsets (tg_threads s) = held_offset (tg_threads s ! t)"
  proof (cases "held (tg_threads s ! t)")
    case None
    with assms target_invD(3) [OF assms(1)] have "holders (tg_threads s) = 0" by simp
    with None show ?thesis by (simp add: offsets_zero held_offset_def)
  next
    case (Some k)
    with level_holder [OF assms(1,2) Some] show ?thesis by (simp add: level_offsets held_offset_def)
  qed
  with sum_update(2) [OF assms(2), of th] assms(3,4) show ?thesis by (simp add: level_offsets)
qed

lemma lock_exchange_inv:
  assumes inv: "target_inv b inner s" "t < length (tg_threads s)" and th: "tg_threads s ! t = Locking w try stp e"
  shows "target_inv b inner (lock_exchange b t w try stp e s) \<and> level b s \<le> level b (lock_exchange b t w try stp e s)"
proof -
  let ?s = "lock_exchange b t w try stp e s"
  have p: "tg_phase s = Match" using target_in_phaseD [OF inv] th by simp
  have w: "e < b + offset_applied" "\<not> w \<longrightarrow> \<not> try \<and> \<not> stp" using target_invD(5) [OF inv] th by simp_all
  note d = target_invD [OF inv(1)]
  consider (got) "tg_count s = e" | (busy) "tg_count s \<noteq> e" "tg_count s \<ge> b + offset_busy"
    | (free) "tg_count s \<noteq> e" "tg_count s < b + offset_busy" by linarith
  then show ?thesis
  proof cases
    case got
    define k where "k = (if e \<le> b then offset_touched else e - b)"
    let ?th = "Holding w try stp k"
    have s: "?s = set_worker t ?th (s\<lparr>tg_count := b + offset_busy,
        tg_rule := (if e \<le> b then False else tg_rule s), tg_dependents := (if e \<le> b then 0 else tg_dependents s)\<rparr>)"
      using got w(1) by (auto simp: lock_exchange_def locked_def k_def)
    have k: "1 \<le> k" "k < offset_applied" "e - b \<le> k" using w(1) by (auto simp: k_def)
    have f: "tg_count s < b + offset_busy" using got w(1) by simp
    have l: "level b s = e - b" using level_free [OF f] got by simp
    have l': "level b ?s = k"
      using level_held [OF inv, of ?s ?th] f by (simp add: s held_offset_def)
    have "target_inv b inner ?s"
    proof (rule target_inv_move [OF inv, where th = ?th])
      show "target_ok inner (level b ?s) ?s"
        using d(4) k l w(1) unfolding l' by (auto simp: s target_ok_def k_def split: if_splits)
    qed (use d f k l l' p w th in \<open>auto simp: s holds_def unnoticed_def phase_ok_def\<close>)
    with l l' k(3) show ?thesis by simp
  next
    case busy
    then have s: "?s = set_worker t (if w then Waiting try stp else Out) s" by (simp add: lock_exchange_def)
    show ?thesis unfolding s
      using target_inv_thread [OF inv, of "if w then Waiting try stp else Out"] th by (auto simp: phase_ok_def)
  next
    case free
    let ?th = "if tg_count s \<ge> b + offset_applied then (if stp then Out else Reading) else Locking w try stp (tg_count s)"
    have s: "?s = set_worker t ?th s" using free by (simp add: lock_exchange_def not_locked_def)
    show ?thesis unfolding s
      using target_inv_thread [OF inv, of ?th] th w(2) p free level_free [OF free(2)] by (auto simp: phase_ok_def)
  qed
qed

lemma not_locked_inv:
  assumes inv: "target_inv b inner s" "t < length (tg_threads s)" and th: "tg_threads s ! t = Relocking try stp e"
    and p: "tg_phase s = Match"
  shows "target_inv b inner (not_locked b t True try stp e s) \<and>
    level b s \<le> level b (not_locked b t True try stp e s)"
proof -
  let ?th = "if e \<ge> b + offset_applied then (if stp then Out else Reading) else Locking True try stp e"
  have s: "not_locked b t True try stp e s = set_worker t ?th s" by (simp add: not_locked_def)
  show ?thesis unfolding s
    using target_inv_thread [OF inv, of ?th] th p target_invD(5) [OF inv] by (auto simp: phase_ok_def)
qed

text \<open>What \<open>match_impl ()\<close> does to the target.\<close>

lemma match_impl_some:
  assumes "1 \<le> k" "k < offset_applied" "match_allowed try k mo"
  shows "match_impl inner stp try mo ao k s \<noteq> None"
proof -
  consider "k = 1" | "k = 2" | "k = 3" using assms(1,2) by linarith
  then show ?thesis
    using assms(3) by cases (auto simp: match_impl_def match_allowed_def apply_rule_def Let_def
        split: match_outcome.split apply_outcome.split)
qed

lemma match_impl_ok:
  assumes "1 \<le> k" "k < offset_applied" "match_allowed try k mo" "target_ok inner k s"
    and r: "match_impl inner stp try mo ao k s = Some (r, p, s1)"
  shows "k \<le> p" "p \<le> offset_applied" "target_ok inner p s1"
    "tg_count s1 = tg_count s \<and> tg_threads s1 = tg_threads s \<and> tg_phase s1 = tg_phase s \<and> tg_bad s1 = tg_bad s"
    "fst r \<and> \<not> stp \<longrightarrow> p = offset_applied \<and> snd r = tg_state s1" "\<not> try \<and> \<not> stp \<longrightarrow> p = offset_applied"
proof -
  have f: "tg_dependents s = 0" "tg_runs s = 0" "tg_targets s = 0" using assms(1,2,4) by (auto simp: target_ok_def)
  consider "k = 1" | "k = 2" | "k = 3" using assms(1,2) by linarith
  then have "k \<le> p \<and> p \<le> offset_applied \<and> target_ok inner p s1 \<and>
    (tg_count s1 = tg_count s \<and> tg_threads s1 = tg_threads s \<and> tg_phase s1 = tg_phase s \<and> tg_bad s1 = tg_bad s) \<and>
    (fst r \<and> \<not> stp \<longrightarrow> p = offset_applied \<and> snd r = tg_state s1) \<and> (\<not> try \<and> \<not> stp \<longrightarrow> p = offset_applied)"
    using assms(3) f r
    by cases (auto simp: match_impl_def match_allowed_def apply_rule_def target_ok_def Let_def
        split: match_outcome.splits apply_outcome.splits if_splits)
  then show "k \<le> p" "p \<le> offset_applied" "target_ok inner p s1"
    "tg_count s1 = tg_count s \<and> tg_threads s1 = tg_threads s \<and> tg_phase s1 = tg_phase s \<and> tg_bad s1 = tg_bad s"
    "fst r \<and> \<not> stp \<longrightarrow> p = offset_applied \<and> snd r = tg_state s1" "\<not> try \<and> \<not> stp \<longrightarrow> p = offset_applied"
    by blast+
qed

lemma run_match_inv:
  assumes inv: "target_inv b inner s" "t < length (tg_threads s)" and h: "held (tg_threads s ! t) = Some k"
    and k: "1 \<le> k" "k < offset_applied" and p: "tg_phase s = Match" and m: "match_allowed try k mo"
    and c: "\<And>r. c r = Read_state \<Longrightarrow> \<not> try \<and> \<not> stp" "\<And>r x. c r = Return True x \<Longrightarrow> \<not> stp \<and> r = (True, x)"
  shows "target_inv b inner (run_match inner t stp try mo ao k c s) \<and>
    level b s \<le> level b (run_match inner t stp try mo ao k c s)"
proof -
  let ?s = "run_match inner t stp try mo ao k c s"
  note h' = level_holder [OF inv h] and d = target_invD [OF inv(1)]
  obtain r q s1 where e: "match_impl inner stp try mo ao k s = Some (r, q, s1)"
    using match_impl_some [OF k m, of inner stp ao s] by auto
  have "target_ok inner k s" using d(4) h'(2) by simp
  note r = match_impl_ok [OF k m this e]
  let ?th = "Unlocking q (c r)"
  have s: "?s = set_worker t ?th s1" using e by (simp add: run_match_def)
  have l: "level b ?s = q"
    using level_held [OF inv, of ?s ?th] h h'(1) r(4) by (simp add: s held_offset_def)
  have w: "worker_ok b (tg_phase ?s) (tg_count ?s) (level b ?s) (tg_state ?s) ?th"
    using r(1,2,5,6) k(1) c(1) [of r] c(2) [of r] by (auto simp: s)
  have "target_inv b inner ?s"
  proof (rule target_inv_move [OF inv, where th = ?th])
    show "target_ok inner (level b ?s) ?s" using r(3) unfolding l by (simp add: s target_ok_def)
  qed (use w h h' d(1,2) r p l in \<open>auto simp: s holds_def unnoticed_def phase_ok_def\<close>)
  with h'(2) l r(1) show ?thesis by simp
qed

lemma match_recipe_inv:
  assumes inv: "target_inv b inner s" "t < length (tg_threads s)" and th: "tg_threads s ! t = Holding w try True k"
  shows "target_inv b inner (match_recipe inner t r s) \<and> level b s \<le> level b (match_recipe inner t r s)"
proof -
  let ?s = "match_recipe inner t r s" and ?th = "Unlocking offset_applied Stop"
  have h: "held (tg_threads s ! t) = Some k" using th by simp
  have p: "tg_phase s = Match" using target_in_phaseD [OF inv] th by simp
  note h' = level_holder [OF inv h] and d = target_invD [OF inv(1)]
  have k: "1 \<le> k" "k < offset_applied" using d(5) [OF inv(2)] th by simp_all
  have f: "tg_dependents s = 0" "tg_runs s = 0" "tg_targets s = 0"
    using d(4) k h'(2) by (auto simp: target_ok_def)
  have l: "level b ?s = offset_applied"
    using level_held [OF inv, of ?s ?th] h h'(1) by (simp add: match_recipe_def held_offset_def)
  have "target_inv b inner ?s"
  proof (rule target_inv_move [OF inv, where th = ?th])
    show "target_ok inner (level b ?s) ?s" using f unfolding l by (auto simp: match_recipe_def target_ok_def)
  qed (use h h' d(1,2) p l k in \<open>auto simp: match_recipe_def holds_def unnoticed_def phase_ok_def\<close>)
  with h'(2) l k show ?thesis by simp
qed

lemma unlock_inv:
  assumes inv: "target_inv b inner s" "t < length (tg_threads s)" and th: "tg_threads s ! t = Unlocking k c"
  shows "target_inv b inner (unlock_target b t k c s) \<and> level b s \<le> level b (unlock_target b t k c s)"
proof -
  let ?s = "unlock_target b t k c s"
  let ?th = "case c of Return f st \<Rightarrow> Result f st | Read_state \<Rightarrow> Reading | Stop \<Rightarrow> Out"
  have h: "held (tg_threads s ! t) = Some k" using th by simp
  have p: "tg_phase s = Match" using target_in_phaseD [OF inv] th by simp
  note h' = level_holder [OF inv h] and d = target_invD [OF inv(1)]
  have k: "1 \<le> k" "k \<le> offset_applied" "c = Read_state \<longrightarrow> k = offset_applied"
    "\<forall>x. c = Return True x \<longrightarrow> k = offset_applied \<and> (x \<noteq> Failed \<longrightarrow> tg_state s \<noteq> Failed)"
    using d(5) [OF inv(2)] th by simp_all
  have s: "?s = set_worker t ?th (s\<lparr>tg_count := k + b\<rparr>)" using p by (simp add: unlock_target_def)
  have l: "level b ?s = k" using k(2) level_free [of ?s b] by (simp add: s)
  have nh: "holds ?th = 0" by (cases c) (simp_all add: holds_def)
  have po: "phase_ok (tg_phase s) ?th" using p by (cases c) (simp_all add: phase_ok_def)
  have c: "tg_count ?s = k + b" "tg_state ?s = tg_state s" by (simp_all add: s)
  have w: "worker_ok b (tg_phase ?s) (tg_count ?s) (level b ?s) (tg_state ?s) ?th"
    unfolding l c using k by (cases c) auto
  have "target_inv b inner ?s"
  proof (rule target_inv_move [OF inv, where th = ?th])
    show "target_ok inner (level b ?s) ?s" using d(4) h'(2) unfolding l by (simp add: s target_ok_def)
    show "unnoticed b (tg_phase s) (tg_count s) (level b s) (tg_state s) (tg_count ?s) (level b ?s) (tg_state ?s)"
      using h' p unfolding l by (simp add: unnoticed_def)
  qed (use w nh po h h' d(1,2) p k(2) in \<open>auto simp: s holds_def unnoticed_def\<close>)
  with h'(2) l show ?thesis by simp
qed


lemma read_state_inv:
  assumes inv: "target_inv b inner s" "t < length (tg_threads s)" and th: "tg_threads s ! t = Reading"
  shows "target_inv b inner (read_state b t member gst s) \<and> level b s \<le> level b (read_state b t member gst s)"
proof -
  have p: "tg_phase s = Match" using target_in_phaseD [OF inv] th by simp
  note d = target_invD [OF inv(1)]
  have c: "tg_count s < b + offset_busy" "level b s \<ge> offset_applied" using d(5) [OF inv(2)] th by simp_all
  let ?x = "if group_state member s then gst else tg_state s"
  let ?th = "Result True ?x"
  have "tg_count s = b + offset_applied \<or> tg_count s = b + offset_executed"
    using c level_free [OF c(1)] by auto
  then have s: "read_state b t member gst s = set_worker t ?th s"
    using p by (auto simp: read_state_def matched_state_impl_def)
  have "level b s = offset_applied \<and> ?x \<noteq> Failed \<longrightarrow> tg_state s \<noteq> Failed"
    using d(4) by (auto simp: target_ok_def group_state_def)
  then show ?thesis unfolding s using target_inv_thread [OF inv, of ?th] th p c by (simp add: phase_ok_def)
qed

lemma count_dependent_inv:
  assumes inv: "target_inv b inner s" "t < length (tg_threads s)" and th: "tg_threads s ! t = Result True st" "st \<noteq> Failed"
  shows "target_inv b inner (count_dependent t s) \<and> level b s \<le> level b (count_dependent t s)"
proof -
  let ?s = "count_dependent t s"
  note d = target_invD [OF inv(1)]
  have c: "tg_count s < b + offset_busy" "level b s \<ge> offset_applied"
    "level b s = offset_applied \<longrightarrow> tg_state s \<noteq> Failed" using d(5) [OF inv(2)] th by simp_all
  have l: "level b ?s = level b s"
    using level_kept [OF inv(2), of ?s Out] th by (simp add: count_dependent_def held_offset_def)
  have "target_inv b inner ?s"
  proof (rule target_inv_move [OF inv, where th = Out])
    show "target_ok inner (level b ?s) ?s"
      using d(4) c unfolding l by (simp add: count_dependent_def target_ok_def)
  qed (use th d(1,2) c l in \<open>auto simp: count_dependent_def holds_def unnoticed_def phase_ok_def\<close>)
  with l show ?thesis by simp
qed

lemma execute_begin_inv:
  assumes inv: "target_inv b inner s" "t < length (tg_threads s)" and th: "tg_threads s ! t = Out"
    and p: "tg_phase s = Execute" and c: "level b s \<ge> offset_applied" "tg_dependents s \<noteq> 0"
  shows "target_inv b inner (execute_begin mode_last t s) \<and> level b s \<le> level b (execute_begin mode_last t s)"
proof -
  let ?s = "execute_begin mode_last t s"
  let ?th = "if mode_last \<and> tg_dependents s - 1 \<noteq> 0 then Out else Executing False"
  note d = target_invD [OF inv(1)]
  have "(tg_threads s)[t := Out] = tg_threads s" using th by (metis list_update_id)
  then have s: "?s = set_worker t ?th (s\<lparr>tg_dependents := tg_dependents s - 1\<rparr>)"
    using c(2) by (auto simp: execute_begin_def Let_def set_worker_def)
  have l: "level b ?s = level b s"
    using level_kept [OF inv(2), of ?s ?th] th by (simp add: s held_offset_def)
  have f: "level b s = offset_applied \<longrightarrow> tg_state s \<noteq> Failed" using d(4) c by (simp add: target_ok_def)
  have "target_inv b inner ?s"
  proof (rule target_inv_move [OF inv, where th = ?th])
    show "target_ok inner (level b ?s) ?s" using d(4) c unfolding l by (auto simp: s target_ok_def)
  qed (use th d(1,2) c f l p in \<open>auto simp: s holds_def unnoticed_def phase_ok_def\<close>)
  with l show ?thesis by simp
qed

lemma execute_exchange_inv:
  assumes inv: "target_inv b inner s" "t < length (tg_threads s)" and th: "tg_threads s ! t = Executing direct"
  shows "target_inv b inner (execute_exchange b t direct waits s) \<and>
    level b s \<le> level b (execute_exchange b t direct waits s)"
proof -
  let ?s = "execute_exchange b t direct waits s"
  have p: "tg_phase s = Execute" using target_in_phaseD [OF inv] th by simp
  note d = target_invD [OF inv(1)]
  have c: "level b s \<ge> offset_applied" "\<not> direct \<and> level b s = offset_applied \<longrightarrow> tg_state s \<noteq> Failed"
    using d(5) [OF inv(2)] th by simp_all
  show ?thesis
  proof (cases "tg_count s = b + offset_applied")
    case True
    have l: "level b s = offset_applied" using level_free [of s b] True by simp
    have st: "tg_state s = Unknown \<or> tg_state s = Unchanged \<or> tg_state s = Failed"
      using d(4) l by (simp add: target_ok_def)
    let ?th = "if tg_state s = Unknown then Running else Running_noop"
    have s: "?s = set_worker t ?th (s\<lparr>tg_count := b + offset_busy\<rparr>)"
      using True st c(2) l by (auto simp: execute_exchange_def enter_execute_impl_def Let_def)
    have l': "level b ?s = offset_applied"
      using level_held [OF inv, of ?s ?th] True by (simp add: s held_offset_def)
    have "target_inv b inner ?s"
    proof (rule target_inv_move [OF inv, where th = ?th])
      show "target_ok inner (level b ?s) ?s" using d(4) l unfolding l' by (simp add: s target_ok_def)
    qed (use th d(1,2) True st l l' p in \<open>auto simp: s holds_def unnoticed_def phase_ok_def\<close>)
    with l l' show ?thesis by simp
  next
    case False
    let ?th = "if tg_count s \<ge> b + offset_busy \<and> (direct \<or> waits) then Awaiting else Out"
    have "tg_count s < b + offset_busy \<longrightarrow> tg_count s = b + offset_executed"
      using False c(1) level_free [of s b] by auto
    then have s: "?s = set_worker t ?th s" using False by (auto simp: execute_exchange_def)
    show ?thesis unfolding s using target_inv_thread [OF inv, of ?th] th p by (auto simp: phase_ok_def)
  qed
qed

lemma execute_end_inv:
  assumes inv: "target_inv b inner s" "t < length (tg_threads s)" and th: "tg_threads s ! t = Running"
    and o': "outcomes_allowed outs"
  shows "target_inv b inner (execute_end inner b t outs s) \<and> level b s \<le> level b (execute_end inner b t outs s)"
proof -
  let ?s = "execute_end inner b t outs s" and ?s1 = "execute_recipe outs s"
  have h: "held (tg_threads s ! t) = Some offset_applied" using th by simp
  have p: "tg_phase s = Execute" using target_in_phaseD [OF inv] th by simp
  note h' = level_holder [OF inv h] and d = target_invD [OF inv(1)] and f = execute_recipe_fields [OF o', of s]
  have st: "tg_state s = Unknown" using d(5) [OF inv(2)] th by simp
  have s: "?s = set_worker t Out (?s1\<lparr>tg_targets := 0, tg_runs := tg_runs s + 1, tg_count := b + offset_executed\<rparr>)"
    using d(4) h' st f by (auto simp: execute_end_def Let_def target_ok_def add.commute)
  have l: "level b ?s = offset_executed" using level_free [of ?s b] by (simp add: s)
  have "target_inv b inner ?s"
  proof (rule target_inv_move [OF inv, where th = Out])
    show "target_ok inner (level b ?s) ?s" using d(4) h'(2) unfolding l by (simp add: s target_ok_def)
  qed (use h h' f d(1,2) p l in \<open>auto simp: s holds_def unnoticed_def phase_ok_def\<close>)
  with h'(2) l show ?thesis by simp
qed

lemma noop_end_inv:
  assumes inv: "target_inv b inner s" "t < length (tg_threads s)" and th: "tg_threads s ! t = Running_noop"
    and o': "\<forall>outs. callbacks = Some outs \<longrightarrow> outcomes_allowed outs"
  shows "target_inv b inner (noop_end b t callbacks s) \<and> level b s \<le> level b (noop_end b t callbacks s)"
proof -
  let ?s = "noop_end b t callbacks s"
  define s1 where "s1 = (case callbacks of Some outs \<Rightarrow> if tg_state s = Unchanged then execute_recipe outs s else s | None \<Rightarrow> s)"
  have h: "held (tg_threads s ! t) = Some offset_applied" using th by simp
  have p: "tg_phase s = Execute" using target_in_phaseD [OF inv] th by simp
  note h' = level_holder [OF inv h] and d = target_invD [OF inv(1)]
  have f: "tg_dependents s1 = tg_dependents s" "tg_targets s1 = tg_targets s" "tg_phase s1 = tg_phase s"
    "tg_runs s1 = tg_runs s" "tg_threads s1 = tg_threads s" "tg_bad s1 = tg_bad s"
    using o' by (auto simp: s1_def execute_recipe_fields split: option.split)
  have st: "tg_state s \<noteq> Unknown" using d(5) [OF inv(2)] th by auto
  have s: "?s = set_worker t Out (s1\<lparr>tg_count := b + offset_executed\<rparr>)" by (simp add: noop_end_def s1_def Let_def)
  have l: "level b ?s = offset_executed" using level_free [of ?s b] by (simp add: s)
  have "target_inv b inner ?s"
  proof (rule target_inv_move [OF inv, where th = Out])
    show "target_ok inner (level b ?s) ?s" using d(4) h'(2) st f unfolding l by (simp add: s target_ok_def)
  qed (use h h' f d(1,2) p l in \<open>auto simp: s holds_def unnoticed_def phase_ok_def\<close>)
  with h'(2) l show ?thesis by simp
qed

lemma switch_phase_inv:
  assumes inv: "target_inv b inner s" and none: "\<forall>th \<in> set (tg_threads s). in_phase th = None"
  shows "target_inv b inner (s\<lparr>tg_phase := p\<rparr>)" "level b (s\<lparr>tg_phase := p\<rparr>) = level b s"
proof -
  show l: "level b (s\<lparr>tg_phase := p\<rparr>) = level b s" by (simp add: level_offsets)
  have c: "tg_count s < b + offset_busy" if a: "level b s \<ge> offset_applied"
  proof (rule ccontr)
    assume "\<not> tg_count s < b + offset_busy"
    with target_invD(2,3) [OF inv] have "holders (tg_threads s) \<noteq> 0" by simp
    then obtain i k where i: "i < length (tg_threads s)" "held (tg_threads s ! i) = Some k"
      by (auto simp: holders_zero in_set_conv_nth)
    with none nth_mem [OF i(1)] target_invD(5) [OF inv i(1)] have "k < offset_applied"
      by (cases "tg_threads s ! i") auto
    with level_holder(2) [OF inv i] a show False by simp
  qed
  have "worker_ok b p (tg_count s) (level b s) (tg_state s) (tg_threads s ! i) \<and> phase_ok p (tg_threads s ! i)"
    if i: "i < length (tg_threads s)" for i
    using none nth_mem [OF i] target_invD(5) [OF inv i] c by (cases "tg_threads s ! i") (auto simp: phase_ok_def)
  with l show "target_inv b inner (s\<lparr>tg_phase := p\<rparr>)"
    using target_invD(1-4) [OF inv] unfolding target_inv_def by (simp add: target_ok_def)
qed

lemma target_step_inv:
  assumes "target_step b inner mode_last member s s'" "target_inv b inner s"
  shows "target_inv b inner s' \<and> level b s \<le> level b s'"
  using assms(1)
proof cases
  case (start_match t w tr stp)
  then show ?thesis using target_inv_thread [OF assms(2), of t "Locking w tr stp (b + offset_touched - 1)"]
    by (simp add: phase_ok_def)
next
  case (exchange t w tr stp e)
  then show ?thesis using lock_exchange_inv [OF assms(2)] by blast
next
  case (cycle t w tr stp e)
  then show ?thesis using target_inv_thread [OF assms(2), of t Out] by (simp add: phase_ok_def)
next
  case (wake t tr stp)
  then have "worker_ok b (tg_phase s) (tg_count s) (level b s) (tg_state s) (Relocking tr stp (tg_count s))"
    using level_free [of s b] by auto
  with wake show ?thesis using target_inv_thread [OF assms(2), of t "Relocking tr stp (tg_count s)"]
    by (simp add: phase_ok_def del: worker_ok.simps)
next
  case (relock t tr stp e)
  then show ?thesis using not_locked_inv [OF assms(2)] by blast
next
  case (relock_fails t tr stp e)
  then show ?thesis using target_inv_thread [OF assms(2), of t Out] by (simp add: phase_ok_def)
next
  case (queue t tr stp k)
  then show ?thesis using target_inv_thread [OF assms(2), of t "Task k"] target_invD(5) [OF assms(2), of t]
    by (simp add: phase_ok_def)
next
  case (run_task t k mo ao)
  then have "1 \<le> k" "k < offset_applied" using target_invD(5) [OF assms(2), of t] by simp_all
  with run_task run_match_inv [OF assms(2), of t k False mo "\<lambda>_. Stop" False ao] show ?thesis by simp
next
  case (lose_task t k)
  then show ?thesis using target_inv_thread [OF assms(2), of t "Lost k"] target_invD(5) [OF assms(2), of t]
    by (simp add: phase_ok_def)
next
  case (match_it t w tr stp k mo ao)
  then have k: "1 \<le> k" "k < offset_applied" "\<not> w \<longrightarrow> \<not> tr \<and> \<not> stp"
    using target_invD(5) [OF assms(2), of t] by simp_all
  have p: "tg_phase s = Match" using target_in_phaseD [OF assms(2) match_it(2)] match_it(3) by simp
  have "target_inv b inner (run_match inner t stp tr mo ao k (after_match w stp) s) \<and>
      level b s \<le> level b (run_match inner t stp tr mo ao k (after_match w stp) s)"
    using match_it k p by (intro run_match_inv [OF assms(2)]) (auto simp: after_match_def split: if_splits)
  with match_it(1) show ?thesis by simp
next
  case (assign t w tr k r)
  then show ?thesis using match_recipe_inv [OF assms(2)] by blast
next
  case (release t w tr k)
  then show ?thesis using target_inv_thread [OF assms(2), of t "Unlocking k Stop"] target_invD(5) [OF assms(2), of t]
      target_in_phaseD [OF assms(2), of t] by (simp add: phase_ok_def)
next
  case (unlock t k c)
  then show ?thesis using unlock_inv [OF assms(2)] by blast
next
  case (look t gst)
  then show ?thesis using read_state_inv [OF assms(2)] by blast
next
  case (depend t st)
  then show ?thesis using count_dependent_inv [OF assms(2)] by blast
next
  case (complete t)
  then show ?thesis using target_inv_thread [OF assms(2), of t Reading] by (simp add: phase_ok_def)
next
  case (leave t f st)
  then show ?thesis using target_inv_thread [OF assms(2), of t Out] by (simp add: phase_ok_def)
next
  case (start_execute t)
  then show ?thesis using execute_begin_inv [OF assms(2)] by blast
next
  case (start_direct t)
  then show ?thesis using target_inv_thread [OF assms(2), of t "Executing True"] by (simp add: phase_ok_def)
next
  case (execute_it t d waits)
  then show ?thesis using execute_exchange_inv [OF assms(2)] by blast
next
  case (finish t outs)
  then show ?thesis using execute_end_inv [OF assms(2)] by blast
next
  case (finish_noop t callbacks)
  then show ?thesis using noop_end_inv [OF assms(2)] by blast
next
  case (executed t)
  then show ?thesis using target_inv_thread [OF assms(2), of t Out] by (simp add: phase_ok_def)
next
  case (switch_phase p)
  then show ?thesis using switch_phase_inv [OF assms(2)] by simp
qed

interpretation targets: invariant_system "target_start b" "target_step b inner mode_last member" "target_inv b inner"
  by unfold_locales (auto simp: target_inv_start dest: target_step_inv)


section \<open>Reachable states\<close>

lemmas target_reach = targets.reach_inv

lemma level_steps: "(target_step b inner mode_last member)\<^sup>*\<^sup>* s s' \<Longrightarrow> target_inv b inner s \<Longrightarrow> level b s \<le> level b s'"
proof (induction rule: rtranclp_induct)
  case (step s1 s2)
  from targets.steps_inv [OF step.hyps(1) step.prems] target_step_inv [OF step.hyps(2)] have "level b s1 \<le> level b s2" by blast
  with step show ?case by simp
qed simp

lemma two_holders:
  assumes "holders ths \<le> 1" "i < length ths" "j < length ths" "held (ths ! i) \<noteq> None" "held (ths ! j) \<noteq> None"
  shows "i = j"
proof -
  have "holders ths \<noteq> 0" using assms(2,4) nth_mem [OF assms(2)] by (auto simp: holders_zero)
  with assms(1) have "holders ths = 1" by simp
  with only_holder(2) [OF this assms(2)] assms(3-5) show ?thesis by (metis option.exhaust)
qed

text \<open>C10: Whatever the interleaving of threads that lock, match, execute and wait for a target, at most one of them
  has locked it at a time, the count says that the target is busy exactly when one of them has (without the
  sub-tasks that the code adds to it), and no assertion
  of \<open>lock_impl ()\<close>, \<open>unlock_impl ()\<close>, \<open>match_impl ()\<close>, \<open>matched_state_impl ()\<close>, \<open>execute ()\<close>, \<open>execute_impl ()\<close>,
  \<open>execute_recipe ()\<close> or \<open>execute_direct ()\<close> fails.\<close>

theorem target_exclusion:
  assumes "target_start b s" "(target_step b inner mode_last member)\<^sup>*\<^sup>* s s'"
  shows "\<not> tg_bad s' \<and>
    (tg_count s' = b + offset_busy \<longleftrightarrow> (\<exists>i < length (tg_threads s'). held (tg_threads s' ! i) \<noteq> None)) \<and>
    (\<forall>i < length (tg_threads s'). \<forall>j < length (tg_threads s').
       held (tg_threads s' ! i) \<noteq> None \<and> held (tg_threads s' ! j) \<noteq> None \<longrightarrow> i = j)"
proof (intro conjI)
  note d = target_invD [OF target_reach [OF assms]]
  show "\<not> tg_bad s'" by (rule d(1))
  show "tg_count s' = b + offset_busy \<longleftrightarrow> (\<exists>i < length (tg_threads s'). held (tg_threads s' ! i) \<noteq> None)"
    using d(3) holders_nth [of "tg_threads s'"] by (cases "tg_count s' = b + offset_busy") simp_all
  have "holders (tg_threads s') \<le> 1" using d(3) by simp
  with two_holders show "\<forall>i < length (tg_threads s'). \<forall>j < length (tg_threads s').
       held (tg_threads s' ! i) \<noteq> None \<and> held (tg_threads s' ! j) \<noteq> None \<longrightarrow> i = j" by blast
qed

lemma level_bound:
  assumes "target_inv b inner s"
  shows "level b s \<le> offset_executed"
proof (cases "tg_count s = b + offset_busy")
  case True
  note d = target_invD [OF assms]
  from d(3) True have "holders (tg_threads s) \<noteq> 0" by simp
  then obtain i k where h: "i < length (tg_threads s)" "held (tg_threads s ! i) = Some k"
    by (auto simp: holders_nth)
  then have "k \<le> offset_applied" using d(5) [OF h(1)] by (cases "tg_threads s ! i") auto
  with level_holder(2) [OF assms h] show ?thesis by simp
next
  case False
  with target_invD(2) [OF assms] level_free [of s b] show ?thesis by simp
qed

text \<open>C20: In an operation a target only moves forward, from touched over tried, matched and applied to executed,
  also across the times when it is busy; its recipe runs at most once, and only if the target is executed; and the
  number of targets to be executed counts it exactly while a recipe of its own waits to be run.\<close>

theorem target_progress:
  assumes "target_start b s0" "(target_step b inner mode_last member)\<^sup>*\<^sup>* s0 s"
    "(target_step b inner mode_last member)\<^sup>*\<^sup>* s s'"
  shows "level b s \<le> level b s' \<and> level b s' \<le> offset_executed \<and>
    tg_runs s' \<le> (if level b s' = offset_executed then 1 else 0) \<and>
    tg_targets s' =
      (if inner \<and> level b s' = offset_applied \<and> tg_state s' = Unknown \<and> tg_recipe s' \<noteq> Group_recipe then 1 else 0)"
proof -
  have i: "target_inv b inner s" by (rule target_reach [OF assms(1,2)])
  note i' = targets.steps_inv [OF assms(3) i]
  show ?thesis
    using level_steps [OF assms(3) i] level_bound [OF i'] target_invD(4) [OF i'] by (simp add: target_ok_def)
qed

section \<open>Release of the target\<close>

text \<open>Where a thread can get to in one step; a thread that has not locked the target may get anywhere.\<close>

fun next_place :: "worker \<Rightarrow> worker \<Rightarrow> bool" where
  "next_place (Holding w tr stp k) th \<longleftrightarrow> th = Task k \<or> (\<exists>k' c. th = Unlocking k' c)"
| "next_place (Task k) th \<longleftrightarrow> th = Lost k \<or> (\<exists>k' c. th = Unlocking k' c)"
| "next_place (Lost k) th \<longleftrightarrow> False"
| "next_place (Unlocking k c) th \<longleftrightarrow> held th = None"
| "next_place Running th \<longleftrightarrow> th = Out"
| "next_place Running_noop th \<longleftrightarrow> th = Out"
| "next_place _ th \<longleftrightarrow> True"

text \<open>The steps of its own after which a thread has released the target.\<close>

fun to_release :: "worker \<Rightarrow> nat" where
  "to_release (Holding w tr stp k) = 3"
| "to_release (Task k) = 2"
| "to_release (Unlocking k c) = 1"
| "to_release Running = 1"
| "to_release Running_noop = 1"
| "to_release _ = 0"

definition moved :: "target_sys \<Rightarrow> target_sys \<Rightarrow> bool" where
  "moved s s' \<longleftrightarrow> tg_threads s' = tg_threads s \<or>
     (\<exists>t th. t < length (tg_threads s) \<and> tg_threads s' = (tg_threads s)[t := th] \<and> next_place (tg_threads s ! t) th)"

lemma movedI:
  "t < length (tg_threads s) \<Longrightarrow>
   tg_threads s' = tg_threads s \<or> (\<exists>th. tg_threads s' = (tg_threads s)[t := th] \<and> next_place (tg_threads s ! t) th) \<Longrightarrow>
   moved s s'"
  by (auto simp: moved_def)

lemma moved_set: "t < length (tg_threads s) \<Longrightarrow> next_place (tg_threads s ! t) th \<Longrightarrow> moved s (set_worker t th s)"
  by (auto simp: moved_def)

lemma moved_phase: "moved s (s\<lparr>tg_phase := p\<rparr>)"
  by (simp add: moved_def)

lemma run_match_threads:
  "tg_threads (run_match inner t stp tr mo ao k c s) = tg_threads s \<or>
   (\<exists>q d. tg_threads (run_match inner t stp tr mo ao k c s) = (tg_threads s)[t := Unlocking q d])"
proof (cases "match_impl inner stp tr mo ao k s")
  case (Some x)
  obtain r q s1 where x: "x = (r, q, s1)" by (cases x)
  with Some have "tg_threads s1 = tg_threads s"
    by (auto simp: match_impl_def apply_rule_def Let_def split: match_outcome.splits apply_outcome.splits if_splits)
  with Some x show ?thesis by (auto simp: run_match_def)
qed (simp add: run_match_def assert_fails_def)

lemma execute_recipe_threads [simp]: "tg_threads (execute_recipe outs s) = tg_threads s"
  by (simp add: execute_recipe_def assert_fails_def Let_def split: option.split)

lemma step_moves:
  assumes "target_step b inner mode_last member s s'"
  shows "moved s s'"
  using assms
proof cases
  case (run_task t k mo ao)
  then show ?thesis using run_match_threads [of inner t False False mo ao k "\<lambda>_. Stop" s] by (intro movedI [of t]) auto
next
  case (match_it t w tr stp k mo ao)
  then show ?thesis using run_match_threads [of inner t stp tr mo ao k "after_match w stp" s] by (intro movedI [of t]) auto
next
  case (unlock t k c)
  then show ?thesis by (intro movedI [of t]) (auto simp: unlock_target_def assert_fails_def split: continuation.split)
next
  case (look t gst)
  then show ?thesis
    by (intro movedI [of t], simp, cases "matched_state_impl b member gst s") (auto simp: read_state_def assert_fails_def)
next
  case (execute_it t d waits)
  then show ?thesis
    by (intro movedI [of t]) (auto simp: execute_exchange_def enter_execute_impl_def assert_fails_def Let_def)
next
  case (start_execute t)
  then show ?thesis by (intro movedI [of t]) (auto simp: execute_begin_def assert_fails_def Let_def)
next
  case (exchange t w tr stp e)
  then show ?thesis by (intro movedI [of t]) (auto simp: lock_exchange_def locked_def not_locked_def assert_fails_def)
next
  case (relock t tr stp e)
  then show ?thesis by (intro movedI [of t]) (auto simp: not_locked_def)
next
  case (finish t outs)
  then show ?thesis by (intro movedI [of t]) (auto simp: execute_end_def assert_fails_def Let_def)
next
  case (finish_noop t callbacks)
  then show ?thesis by (intro movedI [of t]) (auto simp: noop_end_def Let_def split: option.split)
next
  case (assign t w tr k r)
  then show ?thesis by (intro movedI [of t]) (auto simp: match_recipe_def)
next
  case (depend t st)
  then show ?thesis by (intro movedI [of t]) (auto simp: count_dependent_def)
qed (auto intro: moved_set moved_phase)

text \<open>What a step means to a thread that has locked the target.\<close>

lemma holder_step:
  assumes "target_inv b inner s" "target_step b inner mode_last member s s'"
    "i < length (tg_threads s)" "held (tg_threads s ! i) = Some k"
  shows "i < length (tg_threads s') \<and>
    (if held (tg_threads s' ! i) = None then next_place (tg_threads s ! i) (tg_threads s' ! i) \<and> tg_count s' < b + offset_busy
     else tg_count s' = b + offset_busy \<and>
       (tg_threads s' ! i = tg_threads s ! i \<or> next_place (tg_threads s ! i) (tg_threads s' ! i)))"
proof -
  have i': "target_inv b inner s'" using target_step_inv [OF assms(2,1)] by simp
  note d = target_invD(3) [OF assms(1)] and d' = target_invD(3) [OF i']
  have m: "moved s s'" by (rule step_moves [OF assms(2)])
  have len: "length (tg_threads s') = length (tg_threads s)" using m by (auto simp: moved_def)
  show ?thesis
  proof (cases "held (tg_threads s' ! i) = None")
    case False
    then have "holders (tg_threads s') \<noteq> 0" using assms(3) len by (auto simp: holders_nth)
    with d' have "tg_count s' = b + offset_busy" by (simp split: if_splits)
    moreover have "tg_threads s' ! i = tg_threads s ! i \<or> next_place (tg_threads s ! i) (tg_threads s' ! i)"
      using m assms(3) by (auto simp: moved_def nth_list_update)
    ultimately show ?thesis using False assms(3) len by simp
  next
    case True
    then obtain th where th: "tg_threads s' = (tg_threads s)[i := th]" "next_place (tg_threads s ! i) th"
      using m assms(3,4) by (auto simp: moved_def nth_list_update split: if_splits)
    have le: "holders (tg_threads s) \<le> 1" using d by (simp split: if_splits)
    have "held (tg_threads s' ! j) = None" if "j < length (tg_threads s)" for j
      using True th(1) that two_holders [OF le assms(3) that] assms(3,4)
      by (cases "j = i"; cases "held (tg_threads s ! j)") auto
    then have "holders (tg_threads s') = 0" using len by (simp add: holders_nth)
    with d' have "tg_count s' \<noteq> b + offset_busy" by (simp split: if_splits)
    with target_invD(2) [OF i'] True th assms(3) len show ?thesis by simp
  qed
qed

text \<open>The step that a holder can take itself.\<close>

lemma holder_moves:
  assumes "target_inv b inner s" "i < length (tg_threads s)" "held (tg_threads s ! i) = Some k"
    "tg_threads s ! i \<noteq> Lost k" "tg_threads s ! i = Task k \<longrightarrow> tg_phase s = Match"
  shows "\<exists>s'. target_step b inner mode_last member s s' \<and> tg_threads s' ! i \<noteq> tg_threads s ! i \<and> tg_threads s' ! i \<noteq> Lost k"
proof -
  note ok = target_invD(5) [OF assms(1,2)]
  show ?thesis
  proof (cases "tg_threads s ! i")
    case (Holding w tr stp k')
    then have k: "1 \<le> k" "k < offset_applied" "k' = k" using ok assms(3) by simp_all
    have m: "match_allowed tr k Match_fails" by (simp add: match_allowed_def)
    obtain r q s1 where e: "match_impl inner stp tr Match_fails Apply_fails k s = Some (r, q, s1)"
      using match_impl_some [OF k(1,2) m, of inner stp Apply_fails s] by auto
    have "tg_threads s1 = tg_threads s"
      using match_impl_ok(4) [OF k(1,2) m _ e] target_invD(4) [OF assms(1)] level_holder(2) [OF assms(1-3)] by simp
    then have "tg_threads (run_match inner i stp tr Match_fails Apply_fails k (after_match w stp) s) ! i =
        Unlocking q (after_match w stp r)" using e assms(2) by (simp add: run_match_def)
    with target_step.match_it [OF assms(2) Holding, of Match_fails b inner mode_last member Apply_fails] m k Holding
    show ?thesis by (metis worker.distinct worker.simps)
  next
    case (Task k')
    then have k: "1 \<le> k" "k < offset_applied" "k' = k" "tg_phase s = Match" using ok assms(3,5) by simp_all
    have m: "match_allowed False k Match_fails" by (simp add: match_allowed_def)
    obtain r q s1 where e: "match_impl inner False False Match_fails Apply_fails k s = Some (r, q, s1)"
      using match_impl_some [OF k(1,2) m, of inner False Apply_fails s] by auto
    have "tg_threads s1 = tg_threads s"
      using match_impl_ok(4) [OF k(1,2) m _ e] target_invD(4) [OF assms(1)] level_holder(2) [OF assms(1-3)] by simp
    then have "tg_threads (run_match inner i False False Match_fails Apply_fails k (\<lambda>_. Stop) s) ! i = Unlocking q Stop"
      using e assms(2) by (simp add: run_match_def)
    with target_step.run_task [OF assms(2) Task k(4), of Match_fails b inner mode_last member Apply_fails] m k Task
    show ?thesis by (metis worker.distinct worker.simps)
  next
    case (Unlocking k' c)
    have "tg_phase s = Match" using target_in_phaseD [OF assms(1,2)] Unlocking by simp
    then have "tg_threads (unlock_target b i k' c s) ! i \<noteq> Unlocking k' c \<and> tg_threads (unlock_target b i k' c s) ! i \<noteq> Lost k"
      using assms(2) by (simp add: unlock_target_def split: continuation.split)
    with target_step.unlock [OF assms(2) Unlocking] Unlocking show ?thesis by metis
  next
    case Running
    have "tg_threads (execute_end inner b i None s) ! i = Out"
      using level_holder(1) [OF assms(1-3)] assms(2) by (simp add: execute_end_def execute_recipe_def Let_def)
    moreover have "outcomes_allowed None" by (simp add: outcomes_allowed_def)
    ultimately show ?thesis using target_step.finish [OF assms(2) Running] Running by (metis worker.distinct)
  next
    case Running_noop
    have "tg_threads (noop_end b i None s) ! i = Out" using assms(2) by (simp add: noop_end_def)
    with target_step.finish_noop [OF assms(2) Running_noop, of None] Running_noop show ?thesis by (metis option.distinct(1) worker.distinct)
  qed (use assms(3,4) in auto)
qed

text \<open>C30: A thread that has locked the target releases it in at most three steps of its own, whatever the other
  threads, the rules and the recipes do: every step of the system leaves the thread where it is, brings it closer to
  the release while the target stays busy, or takes the lock from the thread together with the busy count; and the
  thread always has a next step. The only exceptions are a queued task that has to wait for the match phase before
  its next step, and one that cannot lock the phase, which is lost.\<close>

theorem target_released:
  assumes "target_start b s0" "(target_step b inner mode_last member)\<^sup>*\<^sup>* s0 s"
    "i < length (tg_threads s)" "held (tg_threads s ! i) = Some k" "tg_threads s ! i \<noteq> Lost k"
  shows "to_release (tg_threads s ! i) \<le> 3 \<and>
    (\<forall>s'. target_step b inner mode_last member s s' \<longrightarrow>
      tg_threads s' ! i = tg_threads s ! i \<and> tg_count s' = b + offset_busy \<or>
      held (tg_threads s' ! i) \<noteq> None \<and> tg_count s' = b + offset_busy \<and>
        to_release (tg_threads s' ! i) < to_release (tg_threads s ! i) \<and>
        (tg_threads s' ! i = Lost k \<longrightarrow> tg_threads s ! i = Task k) \<or>
      held (tg_threads s' ! i) = None \<and> tg_count s' < b + offset_busy) \<and>
    ((tg_threads s ! i = Task k \<longrightarrow> tg_phase s = Match) \<longrightarrow>
      (\<exists>s'. target_step b inner mode_last member s s' \<and> tg_threads s' ! i \<noteq> tg_threads s ! i \<and> tg_threads s' ! i \<noteq> Lost k))"
proof (intro conjI allI impI)
  have inv: "target_inv b inner s" by (rule target_reach [OF assms(1,2)])
  show "to_release (tg_threads s ! i) \<le> 3" by (cases "tg_threads s ! i") simp_all
  show "\<exists>s'. target_step b inner mode_last member s s' \<and> tg_threads s' ! i \<noteq> tg_threads s ! i \<and> tg_threads s' ! i \<noteq> Lost k"
    if "tg_threads s ! i = Task k \<longrightarrow> tg_phase s = Match" using holder_moves [OF inv assms(3-5) that] .
  fix s' assume "target_step b inner mode_last member s s'"
  from holder_step [OF inv this assms(3,4)] assms(4,5)
  show "tg_threads s' ! i = tg_threads s ! i \<and> tg_count s' = b + offset_busy \<or>
      held (tg_threads s' ! i) \<noteq> None \<and> tg_count s' = b + offset_busy \<and>
        to_release (tg_threads s' ! i) < to_release (tg_threads s ! i) \<and>
        (tg_threads s' ! i = Lost k \<longrightarrow> tg_threads s ! i = Task k) \<or>
      held (tg_threads s' ! i) = None \<and> tg_count s' < b + offset_busy"
    by (cases "tg_threads s ! i") (auto split: if_splits)
qed

text \<open>A task that could not lock the phase never releases the target: the threads that wait for it wait for ever.\<close>

lemma lost_step:
  assumes "target_step b inner mode_last member s s'" "i < length (tg_threads s)" "tg_threads s ! i = Lost k"
  shows "i < length (tg_threads s') \<and> tg_threads s' ! i = Lost k"
  using step_moves [OF assms(1)] assms(2,3) by (auto simp: moved_def nth_list_update)

lemma lost_steps:
  "(target_step b inner mode_last member)\<^sup>*\<^sup>* s s' \<Longrightarrow> i < length (tg_threads s) \<Longrightarrow> tg_threads s ! i = Lost k \<Longrightarrow>
    i < length (tg_threads s') \<and> tg_threads s' ! i = Lost k"
  by (induction rule: rtranclp_induct) (auto dest: lost_step)

lemma lost_task_blocks:
  assumes "target_start b s0" "(target_step b inner mode_last member)\<^sup>*\<^sup>* s0 s" "i < length (tg_threads s)"
    "tg_threads s ! i = Lost k" "(target_step b inner mode_last member)\<^sup>*\<^sup>* s s'"
  shows "tg_count s' = b + offset_busy"
proof -
  have inv: "target_inv b inner s'" using targets.steps_inv [OF assms(5) target_reach [OF assms(1,2)]] .
  from lost_steps [OF assms(5,3,4)] level_holder(1) [OF inv, of i k] show ?thesis by simp
qed

section \<open>A run with two threads\<close>

definition run_start :: target_sys where
  "run_start = \<lparr>tg_count = 0, tg_state = Unknown, tg_recipe = Noop, tg_rule = False, tg_dependents = 0, tg_targets = 0,
     tg_phase = Match, tg_runs = 0, tg_threads = [Out, Out], tg_bad = False\<rparr>"

definition run_locked :: target_sys where
  "run_locked = run_start\<lparr>tg_count := 6, tg_threads := [Holding True False False 1, Locking True False False 0]\<rparr>"

definition run_applied :: target_sys where
  "run_applied = run_start\<lparr>tg_count := 4, tg_recipe := Real_recipe, tg_rule := True, tg_targets := 1,
     tg_threads := [Result True Unknown, Waiting False False]\<rparr>"

definition run_depend :: target_sys where
  "run_depend = run_applied\<lparr>tg_dependents := 1, tg_threads := [Out, Out]\<rparr>"

definition run_busy :: target_sys where
  "run_busy = run_depend\<lparr>tg_count := 6, tg_dependents := 0, tg_phase := Execute, tg_threads := [Running, Awaiting]\<rparr>"

definition run_done :: target_sys where
  "run_done = run_busy\<lparr>tg_count := 5, tg_state := Changed, tg_targets := 0, tg_runs := 1, tg_threads := [Out, Out]\<rparr>"

lemmas run_defs = run_start_def run_locked_def run_applied_def run_depend_def run_busy_def run_done_def
lemmas step_defs = set_worker_def lock_exchange_def locked_def not_locked_def run_match_def match_impl_def
  apply_rule_def set_recipe_def after_match_def unlock_target_def count_dependent_def execute_begin_def
  execute_exchange_def enter_execute_impl_def execute_end_def execute_recipe_def merge_state_def Let_def

abbreviation "run_step \<equiv> target_step 0 True False False"

lemma run_to_locked: "run_step\<^sup>*\<^sup>* run_start run_locked"
proof -
  let ?a = "set_worker 0 (Locking True False False 0) run_start"
  let ?b = "set_worker 1 (Locking True False False 0) ?a"
  have "run_step run_start ?a"
    using target_step.start_match [of 0 run_start True False False 0] by (simp add: run_defs)
  moreover have "run_step ?a ?b"
    using target_step.start_match [of 1 ?a True False False 0] by (simp add: run_defs step_defs)
  moreover have "run_step ?b run_locked"
    using target_step.exchange [of 0 ?b True False False 0 0 True False False] by (simp add: run_defs step_defs)
  ultimately show ?thesis by (meson rtranclp.rtrancl_refl rtranclp.rtrancl_into_rtrancl)
qed

lemma run_to_applied: "run_step\<^sup>*\<^sup>* run_locked run_applied"
proof -
  let ?a = "set_worker 1 (Waiting False False) run_locked"
  let ?b = "set_worker 0 (Unlocking 4 (Return True Unknown)) (?a\<lparr>tg_recipe := Real_recipe, tg_rule := True, tg_targets := 1\<rparr>)"
  have "run_step run_locked ?a"
    using target_step.exchange [of 1 run_locked True False False 0 0 True False False] by (simp add: run_defs step_defs)
  moreover have "run_step ?a ?b"
    using target_step.match_it [of 0 ?a True False False 1 Match_ok 0 True False False "Apply_ok Real_recipe"]
    by (simp add: run_defs step_defs match_allowed_def)
  moreover have "run_step ?b run_applied"
    using target_step.unlock [of 0 ?b 4 "Return True Unknown" 0 True False False] by (simp add: run_defs step_defs)
  ultimately show ?thesis by (meson rtranclp.rtrancl_refl rtranclp.rtrancl_into_rtrancl)
qed

lemma run_to_running: "run_step\<^sup>*\<^sup>* run_applied run_busy"
proof -
  let ?a = "set_worker 1 (Relocking False False 4) run_applied"
  let ?b = "set_worker 1 Reading ?a"
  let ?c = "set_worker 1 (Result True Unknown) ?b"
  let ?d = "set_worker 1 Out ?c"
  let ?e = "run_depend\<lparr>tg_phase := Execute\<rparr>"
  let ?f = "set_worker 1 (Executing True) ?e"
  let ?g = "set_worker 0 (Executing False) (?f\<lparr>tg_dependents := 0\<rparr>)"
  let ?h = "set_worker 0 Running (?g\<lparr>tg_count := 6\<rparr>)"
  have "run_step run_applied ?a"
    using target_step.wake [of 1 run_applied False False 0 True False False] by (simp add: run_defs step_defs)
  moreover have "run_step ?a ?b"
    using target_step.relock [of 1 ?a False False 4 0 True False False] by (simp add: run_defs step_defs)
  moreover have "run_step ?b ?c"
    using target_step.look [of 1 ?b 0 True False False Unknown]
    by (simp add: run_defs step_defs read_state_def matched_state_impl_def group_state_def)
  moreover have "run_step ?c ?d"
    using target_step.leave [of 1 ?c True Unknown 0 True False False] by (simp add: run_defs step_defs)
  moreover have "run_step ?d run_depend"
    using target_step.depend [of 0 ?d Unknown 0 True False False] by (simp add: run_defs step_defs)
  moreover have "run_step run_depend ?e"
    using target_step.switch_phase [of run_depend 0 True False False Execute] by (simp add: run_defs)
  moreover have "run_step ?e ?f"
    using target_step.start_direct [of 1 ?e 0 True False False] by (simp add: run_defs level_free)
  moreover have "run_step ?f ?g"
    using target_step.start_execute [of 0 ?f 0 True False False] by (simp add: run_defs step_defs level_free)
  moreover have "run_step ?g ?h"
    using target_step.execute_it [of 0 ?g False 0 True False False False] by (simp add: run_defs step_defs)
  moreover have "run_step ?h run_busy"
    using target_step.execute_it [of 1 ?h True 0 True False False False] by (simp add: run_defs step_defs)
  ultimately show ?thesis by (meson rtranclp.rtrancl_refl rtranclp.rtrancl_into_rtrancl)
qed

lemma run_to_done: "run_step\<^sup>*\<^sup>* run_applied run_done"
proof -
  let ?i = "set_worker 0 Out (run_busy\<lparr>tg_count := 5, tg_state := Changed, tg_targets := 0, tg_runs := 1\<rparr>)"
  note run_to_running
  moreover have "run_step run_busy ?i"
    using target_step.finish [of 0 run_busy "Some [Changed]" 0 True False False]
    by (simp add: run_defs step_defs outcomes_allowed_def)
  moreover have "run_step ?i run_done"
    using target_step.executed [of 1 ?i 0 True False False] by (simp add: run_defs step_defs)
  ultimately show ?thesis by (meson rtranclp.rtrancl_refl rtranclp.rtrancl_into_rtrancl)
qed

lemma run_start_ok: "target_start 0 run_start"
  by (simp add: target_start_def run_start_def)

lemmas run_to_busy = rtranclp_trans [OF run_to_locked run_to_applied]

text \<open>The running thread whose recipe fails.\<close>

lemma target_released_witness:
  "run_step run_busy (execute_end True 0 0 None run_busy) \<and> tg_count (execute_end True 0 0 None run_busy) < 6 \<and>
   held (tg_threads (execute_end True 0 0 None run_busy) ! 0) = None"
proof -
  have r: "run_step\<^sup>*\<^sup>* run_start run_busy" by (rule rtranclp_trans [OF run_to_busy run_to_running])
  have st: "run_step run_busy (execute_end True 0 0 None run_busy)"
    using target_step.finish [of 0 run_busy None 0 True False False] by (simp add: run_defs outcomes_allowed_def)
  have b: "tg_threads run_busy ! 0 = Running" "0 < length (tg_threads run_busy)" by (simp_all add: run_defs)
  then have h: "held (tg_threads run_busy ! 0) = Some 4" "tg_threads run_busy ! 0 \<noteq> Lost 4" by simp_all
  have "tg_threads (execute_end True 0 0 None run_busy) ! 0 = Out" by (simp add: run_defs step_defs)
  with target_released [OF run_start_ok r b(2) h] st b(1) show ?thesis by (metis add_0 held.simps(7) worker.distinct)
qed

lemma target_exclusion_witness:
  "run_step\<^sup>*\<^sup>* run_start run_locked \<and> \<not> tg_bad run_locked \<and>
   (\<exists>i < length (tg_threads run_locked). held (tg_threads run_locked ! i) \<noteq> None)"
  using target_exclusion [OF run_start_ok run_to_locked] run_to_locked by (simp add: run_defs)

lemma target_progress_witness:
  "run_step\<^sup>*\<^sup>* run_start run_done \<and> level 0 run_applied \<le> level 0 run_done \<and> level 0 run_done \<le> offset_executed \<and>
   tg_runs run_done = 1"
  using target_progress [OF run_start_ok run_to_busy run_to_done] rtranclp_trans [OF run_to_busy run_to_done]
  by (simp add: run_defs)

end
