(* ===== verification/Buildfile_Lexer.thy ===== *)
theory Buildfile_Lexer
  imports Manifest_Parser
begin

text \<open>
  The lexer of buildfiles in \<open>libbuild2\<close> (\<open>token.hxx\<close>, \<open>lexer.hxx\<close>, \<open>lexer.ixx\<close>, \<open>lexer.cxx\<close>), with all its modes.
  Its input is the list of extended characters that the scanner delivers, as for the manifest parser;
  never more than one character is put back. An error is issued for a character, which gives its location;
  the name of the file is left out, and so is the printer function of a token.
\<close>

datatype lex_error =
    Lex_fail nat nat string      \<comment> \<open>line, column, description\<close>
  | Lex_assertion                \<comment> \<open>a failed assertion, or the top of an empty stack\<close>

type_synonym 'a lex_result = "lex_error + 'a"

abbreviation SQ :: char where "SQ \<equiv> CHR 0x27"
abbreviation DQ :: char where "DQ \<equiv> CHR 0x22"
abbreviation BSL :: char where "BSL \<equiv> CHR 0x5C"
abbreviation SP :: char where "SP \<equiv> CHR 0x20"

section \<open>Tokens\<close>

datatype token_type =
    Tk_eos | Tk_newline | Tk_word | Tk_pair_separator
  | Tk_colon | Tk_dollar | Tk_question | Tk_percent | Tk_comma | Tk_backtick
  | Tk_lparen | Tk_rparen | Tk_lcbrace | Tk_rcbrace | Tk_multi_lcbrace | Tk_multi_rcbrace
  | Tk_lsbrace | Tk_rsbrace | Tk_labrace | Tk_rabrace
  | Tk_assign | Tk_prepend | Tk_append | Tk_default_assign
  | Tk_equal | Tk_not_equal | Tk_less | Tk_greater | Tk_less_equal | Tk_greater_equal
  | Tk_bit_or | Tk_log_or | Tk_log_and | Tk_log_not

datatype quote_type = Unquoted | Single | Double | Mixed

record token =
  tk_type :: token_type
  tk_separated :: bool
  tk_qtype :: quote_type
  tk_qcomp :: bool
  tk_value :: string
  tk_line :: nat
  tk_column :: nat

text \<open>The lambdas \<open>make_token\<close>: a token that is not a word, at the position of its first character.\<close>

definition make_token :: "bool \<Rightarrow> xchar \<Rightarrow> token_type \<Rightarrow> string \<Rightarrow> token" where
  "make_token sep c t v =
     \<lparr>tk_type = t, tk_separated = sep, tk_qtype = Unquoted, tk_qcomp = False, tk_value = v,
      tk_line = xline c, tk_column = xcolumn c\<rparr>"

section \<open>Modes\<close>

datatype lexer_mode =
    Normal | Cmdvar | Variable | Value | Values | Case_patterns | Switch_expressions | Attributes
  | Attribute_value | Subscript | Eval | Single_quoted | Double_quoted | Foreign | Buildspec

text \<open>The mode data: a number, or in the variable mode a string of special one-character names.\<close>

datatype mode_data = Number nat | Specials string

record lexer_state =
  st_mode :: lexer_mode
  st_data :: mode_data
  st_hold :: "token option"
  st_lsbrace :: bool
  st_lsbrace_unsep :: bool
  st_pair :: char
  st_space :: bool
  st_newline :: bool
  st_quotes :: bool
  st_escapes :: "string option"  \<comment> \<open>\<open>None\<close> for the null pointer: all escape sequences are effective\<close>
  st_first :: string
  st_second :: string

record lexer =
  lx_in :: input
  lx_sep :: bool
  lx_stack :: "lexer_state list"   \<comment> \<open>the top first\<close>

definition separators :: "lexer_mode \<Rightarrow> string \<times> string" where
  "separators m =
     (case m of
        Normal \<Rightarrow> ('':<>=+? $(){}#'' @ [TAB, LF], ''    ==         '')
      | Cmdvar \<Rightarrow> ('':<>=+? $(){}#'' @ [TAB, LF], ''    ==         '')
      | Value \<Rightarrow> ('' $(){}#'' @ [TAB, LF], ''         '')
      | Values \<Rightarrow> ('' $(){},#'' @ [TAB, LF], ''          '')
      | Switch_expressions \<Rightarrow> ('' $(){},:#'' @ [TAB, LF], ''           '')
      | Case_patterns \<Rightarrow> ('' $(){},|:#'' @ [TAB, LF], ''            '')
      | Attributes \<Rightarrow> ('' $()=,]#'' @ [TAB, LF], ''          '')
      | Attribute_value \<Rightarrow> ('' $(),]#'' @ [TAB, LF], ''         '')
      | Subscript \<Rightarrow> ('' $()]#'' @ [TAB, LF], ''        '')
      | Eval \<Rightarrow> ('':<>=!&|?,'' @ [CHR 0x60] @ '' $(){}#'' @ [TAB, LF], ''   = &             '')
      | Buildspec \<Rightarrow> ('' $(){},'' @ [TAB, LF], ''         '')
      | _ \<Rightarrow> ([], []))"

text \<open>
  \<open>mode ()\<close>: the new top of the stack. The escapes are given (\<open>Some e\<close>, where \<open>e\<close> may be the null pointer) or
  inherited from the current top. In the quoted, foreign and variable modes the separators are null pointers.
\<close>

definition set_mode :: "lexer_mode \<Rightarrow> char \<Rightarrow> string option option \<Rightarrow> mode_data \<Rightarrow> lexer \<Rightarrow> lexer lex_result" where
  "set_mode m ps esc data lx =
     (if esc = None \<and> lx_stack lx = [] then Inl Lex_assertion
      else if m = Foreign \<and> \<not> (case data of Number n \<Rightarrow> n > 1 | Specials _ \<Rightarrow> True) then Inl Lex_assertion
      else if m \<in> {Foreign, Single_quoted, Double_quoted, Variable} \<and> ps \<noteq> NUL then Inl Lex_assertion
      else
        Inr (lx\<lparr>lx_stack :=
          \<lparr>st_mode = m, st_data = data, st_hold = None,
           st_lsbrace = (m = Normal \<or> m = Cmdvar), st_lsbrace_unsep = False, st_pair = ps,
           st_space = (m \<notin> {Foreign, Single_quoted, Double_quoted}),
           st_newline = (m = Buildspec \<longrightarrow> data \<noteq> Number 0),
           st_quotes = True,
           st_escapes = (case esc of Some e \<Rightarrow> e | None \<Rightarrow> st_escapes (hd (lx_stack lx))),
           st_first = fst (separators m), st_second = snd (separators m)\<rparr> # lx_stack lx\<rparr>))"

definition new_lexer :: "input \<Rightarrow> string option \<Rightarrow> lexer lex_result" where
  "new_lexer i escapes =
     set_mode Normal (CHR ''@'') (Some escapes) (Number 0) \<lparr>lx_in = i, lx_sep = False, lx_stack = []\<rparr>"

definition enable_lsbrace :: "bool \<Rightarrow> lexer \<Rightarrow> lexer" where
  "enable_lsbrace unsep lx =
     (case lx_stack lx of
        [] \<Rightarrow> lx
      | st # sts \<Rightarrow> lx\<lparr>lx_stack := st\<lparr>st_lsbrace := True, st_lsbrace_unsep := unsep\<rparr> # sts\<rparr>)"

definition pop_mode :: "lexer \<Rightarrow> lexer" where
  "pop_mode lx = lx\<lparr>lx_stack := tl (lx_stack lx)\<rparr>"

section \<open>Characters\<close>

definition fail_at :: "xchar \<Rightarrow> string \<Rightarrow> 'a lex_result" where
  "fail_at c what = Inl (Lex_fail (xline c) (xcolumn c) what)"

text \<open>\<open>peek ()\<close>; after it \<open>get ()\<close> drops the character.\<close>

definition lx_peek :: "input \<Rightarrow> xchar lex_result" where
  "lx_peek i = (let c = head i in case xvalue c of Invalid what \<Rightarrow> fail_at c what | _ \<Rightarrow> Inr c)"

lemma lx_peek_get: "lx_peek i = Inr c \<Longrightarrow> \<not> eos c \<Longrightarrow> length (mp_get i) < length i"
  using mp_get_shorter [of i] by (auto simp: lx_peek_def Let_def fail_at_def split: xvalue.splits)

section \<open>Spaces and comments\<close>

text \<open>The lambda \<open>ml\<close>: a backslash and a newline, which is not consumed. Afterwards \<open>c\<close> is the next character.\<close>

definition comment_mark :: "input \<Rightarrow> (bool \<times> input) lex_result" where
  "comment_mark i =
     (case lx_peek i of
        Inl e \<Rightarrow> Inl e
      | Inr c \<Rightarrow>
          if xch c = BSL
          then (case lx_peek (mp_get i) of Inl e \<Rightarrow> Inl e | Inr d \<Rightarrow> Inr (xch d = LF, mp_get i))
          else Inr (False, i))"

lemma comment_mark_length: "comment_mark i = Inr (m, i1) \<Longrightarrow> length i1 \<le> length i"
  using mp_get_length [of i] by (auto simp: comment_mark_def split: sum.splits if_splits)

function multi_comment :: "input \<Rightarrow> input lex_result" where
  "multi_comment i =
     (case lx_peek i of
        Inl e \<Rightarrow> Inl e
      | Inr c \<Rightarrow>
          if eos c then fail_at c ''unterminated multi-line comment''
          else if xch c = CHR ''#''
          then (case comment_mark (mp_get i) of
                  Inl e \<Rightarrow> Inl e | Inr (m, i1) \<Rightarrow> if m then Inr i1 else multi_comment i1)
          else multi_comment (mp_get i))"
  by pat_completeness auto
termination
proof (relation "measure length", goal_cases)
  case (2 i c p m i1)
  then have "length i1 \<le> length (mp_get i)" "length (mp_get i) < length i"
    using comment_mark_length lx_peek_get by auto
  then show ?case by simp
qed (auto dest: lx_peek_get)

function line_comment :: "input \<Rightarrow> input lex_result" where
  "line_comment i =
     (case lx_peek i of
        Inl e \<Rightarrow> Inl e
      | Inr c \<Rightarrow> if eos c \<or> xch c = LF then Inr i else line_comment (mp_get i))"
  by pat_completeness auto
termination
  by (relation "measure length") (auto dest: lx_peek_get)

declare multi_comment.simps [simp del] line_comment.simps [simp del]

definition comment :: "input \<Rightarrow> input lex_result" where
  "comment i =
     (case comment_mark i of
        Inl e \<Rightarrow> Inl e | Inr (m, i1) \<Rightarrow> if m then multi_comment i1 else line_comment i1)"

lemma multi_comment_length: "multi_comment i = Inr i1 \<Longrightarrow> length i1 \<le> length i"
proof (induction i arbitrary: i1 rule: multi_comment.induct)
  case (1 i)
  obtain c where c: "lx_peek i = Inr c" "\<not> eos c"
    using 1(3) by (subst (asm) multi_comment.simps) (auto simp: fail_at_def split: sum.splits if_splits)
  have g: "length (mp_get i) < length i" by (rule lx_peek_get [OF c])
  show ?case
  proof (cases "xch c = CHR ''#''")
    case False
    with 1(2) [OF c False] 1(3) c g show ?thesis by (subst (asm) multi_comment.simps) auto
  next
    case True
    with 1(3) c obtain m i2 where m: "comment_mark (mp_get i) = Inr (m, i2)" "if m then i1 = i2 else multi_comment i2 = Inr i1"
      by (subst (asm) multi_comment.simps) (auto split: sum.splits if_splits)
    show ?thesis
      using 1(1) [OF c True m(1) refl, of i1] m(2) comment_mark_length [OF m(1)] g by (cases m) simp_all
  qed
qed

lemma line_comment_length: "line_comment i = Inr i1 \<Longrightarrow> length i1 \<le> length i"
proof (induction i arbitrary: i1 rule: line_comment.induct)
  case (1 i)
  show ?case
  proof (cases "lx_peek i")
    case (Inl e)
    with 1(2) show ?thesis by (subst (asm) line_comment.simps) simp
  next
    case (Inr c)
    show ?thesis
    proof (cases "eos c \<or> xch c = LF")
      case True
      with 1(2) Inr show ?thesis by (subst (asm) line_comment.simps) auto
    next
      case False
      then have "length (mp_get i) < length i" using lx_peek_get [OF Inr] by blast
      moreover have "line_comment (mp_get i) = Inr i1"
        using 1(2) Inr False by (subst (asm) line_comment.simps) simp
      ultimately show ?thesis using 1(1) [OF Inr False] by simp
    qed
  qed
qed

lemma comment_length: "comment i = Inr i1 \<Longrightarrow> length i1 \<le> length i"
  using comment_mark_length multi_comment_length line_comment_length
  by (fastforce simp: comment_def split: sum.splits if_splits)

text \<open>The loop of \<open>skip_spaces ()\<close>, with \<open>sep_newline\<close>, the results so far and the character at the head of the input.\<close>

function spaces_loop :: "bool \<Rightarrow> bool \<Rightarrow> bool \<Rightarrow> input \<Rightarrow> ((bool \<times> bool) \<times> input) lex_result" where
  "spaces_loop nl r start i =
     (case lx_peek i of
        Inl e \<Rightarrow> Inl e
      | Inr c \<Rightarrow>
          if eos c then Inr ((r, start), i)
          else if xch c = SP \<or> xch c = TAB then spaces_loop nl True start (mp_get i)
          else if xch c = LF
          then (if \<not> nl then spaces_loop nl True start (mp_get i)
                else if start then spaces_loop nl False start (mp_get i)
                else Inr ((r, start), i))
          else if xch c = CHR ''#''
          then (case comment (mp_get i) of Inl e \<Rightarrow> Inl e | Inr i1 \<Rightarrow> spaces_loop nl True start i1)
          else if xch c = BSL
          then (case lx_peek (mp_get i) of
                  Inl e \<Rightarrow> Inl e
                | Inr d \<Rightarrow> if xch d = LF then spaces_loop nl r start (mp_get (mp_get i)) else Inr ((r, start), i))
          else Inr ((r, start), i))"
  by pat_completeness auto
termination
proof (relation "measure (\<lambda>(nl, r, start, i). length i)", goal_cases)
  case (5 nl r start i c i1)
  then have "length i1 \<le> length (mp_get i)" "length (mp_get i) < length i"
    using comment_length lx_peek_get by auto
  then show ?case by simp
next
  case (6 nl r start i c d)
  then have "length (mp_get i) < length i" using lx_peek_get by auto
  with mp_get_length [of "mp_get i"] show ?case by simp
qed (auto dest: lx_peek_get)

declare spaces_loop.simps [simp del]

definition lx_skip_spaces :: "lexer \<Rightarrow> ((bool \<times> bool) \<times> lexer) lex_result" where
  "lx_skip_spaces lx =
     (let r = lx_sep lx; lx1 = lx\<lparr>lx_sep := False\<rparr>; st = hd (lx_stack lx) in
      if \<not> st_space st then Inr ((r, False), lx1)
      else case lx_peek (lx_in lx) of
        Inl e \<Rightarrow> Inl e
      | Inr c \<Rightarrow>
          (case spaces_loop (st_newline st) r (xcolumn c = 1) (lx_in lx) of
             Inl e \<Rightarrow> Inl e | Inr (p, i) \<Rightarrow> Inr (p, lx1\<lparr>lx_in := i\<rparr>)))"


section \<open>Words\<close>

text \<open>The word that is being read, with the current state, which may already have been popped from the stack.\<close>

record word_state =
  ws_st :: lexer_state
  ws_lexeme :: string
  ws_qtype :: quote_type
  ws_qcomp :: bool

text \<open>The lambda \<open>append\<close>\<close>

definition append_char :: "char \<Rightarrow> word_state \<Rightarrow> word_state" where
  "append_char c w =
     w\<lparr>ws_lexeme := ws_lexeme w @ [c],
       ws_qcomp := (ws_qcomp w \<and> st_mode (ws_st w) = Double_quoted)\<rparr>"

text \<open>Whether an escape sequence with the character \<open>p\<close> is effective.\<close>

definition effective_escape :: "string option \<Rightarrow> xchar \<Rightarrow> bool" where
  "effective_escape esc p \<longleftrightarrow>
     (case esc of None \<Rightarrow> True | Some e \<Rightarrow> e \<noteq> [] \<and> \<not> eos p \<and> xch p \<in> set e)"

text \<open>
  Whether \<open>c\<close>, or \<open>c\<close> and the next character, separate words; the input is the one after \<open>c\<close>. The first argument
  pairs the characters of \<open>sep_first\<close> and \<open>sep_second\<close>.
\<close>

fun separator_seq :: "(char \<times> char) list \<Rightarrow> char \<Rightarrow> input \<Rightarrow> bool lex_result" where
  "separator_seq [] c i = Inr False"
| "separator_seq ((f, s) # ps) c i =
     (if f \<noteq> c then separator_seq ps c i
      else if s \<noteq> SP
      then (case lx_peek i of
              Inl e \<Rightarrow> Inl e
            | Inr p \<Rightarrow> if xch p = s then Inr True else separator_seq ps c i)
      else Inr True)"

definition separates :: "lexer_state \<Rightarrow> char \<Rightarrow> input \<Rightarrow> bool lex_result" where
  "separates st c i =
     (if c = st_pair st then Inr True else separator_seq (zip (st_first st) (st_second st)) c i)"

text \<open>The end of a name in the variable mode, for a character that is not a special name.\<close>

definition variable_end :: "bool \<Rightarrow> char \<Rightarrow> input \<Rightarrow> bool lex_result" where
  "variable_end first c i =
     (if c \<noteq> CHR ''_'' \<and> \<not> (if first then alpha c else alnum c)
      then (if c \<noteq> CHR ''.'' then Inr True
            else (case lx_peek i of
                    Inl e \<Rightarrow> Inl e | Inr p \<Rightarrow> Inr (eos p \<or> \<not> (alpha (xch p) \<or> xch p = CHR ''_''))))
      else Inr False)"

text \<open>\<open>quote_type\<close> and \<open>qcomp\<close> at an opening quote.\<close>

definition open_single :: "word_state \<Rightarrow> word_state" where
  "open_single w =
     (case ws_qtype w of
        Unquoted \<Rightarrow> w\<lparr>ws_qtype := Single, ws_qcomp := (ws_lexeme w = [])\<rparr>
      | Single \<Rightarrow> w\<lparr>ws_qcomp := False\<rparr>
      | Double \<Rightarrow> w\<lparr>ws_qtype := Mixed, ws_qcomp := False\<rparr>
      | Mixed \<Rightarrow> w\<lparr>ws_qcomp := False\<rparr>)"

definition open_double :: "word_state \<Rightarrow> word_state" where
  "open_double w =
     (case ws_qtype w of
        Unquoted \<Rightarrow> w\<lparr>ws_qtype := Double, ws_qcomp := (ws_lexeme w = [])\<rparr>
      | Double \<Rightarrow> w\<lparr>ws_qcomp := False\<rparr>
      | Single \<Rightarrow> w\<lparr>ws_qtype := Mixed, ws_qcomp := False\<rparr>
      | Mixed \<Rightarrow> w\<lparr>ws_qcomp := False\<rparr>)"

text \<open>The characters of a single-quoted sequence, after the opening quote.\<close>

function single_quoted :: "string \<Rightarrow> input \<Rightarrow> (string \<times> input) lex_result" where
  "single_quoted v i =
     (case lx_peek i of
        Inl e \<Rightarrow> Inl e
      | Inr c \<Rightarrow>
          if eos c then fail_at c ''unterminated single-quoted sequence''
          else if xch c = SQ then Inr (v, mp_get i)
          else single_quoted (v @ [xch c]) (mp_get i))"
  by pat_completeness auto
termination
  by (relation "measure (\<lambda>(v, i). length i)") (auto dest: lx_peek_get)

declare single_quoted.simps [simp del]

lemma single_quoted_length: "single_quoted v i = Inr (v', i1) \<Longrightarrow> length i1 < length i"
proof (induction v i arbitrary: v' i1 rule: single_quoted.induct)
  case (1 v i)
  obtain c where c: "lx_peek i = Inr c" "\<not> eos c"
    using 1(2) by (subst (asm) single_quoted.simps) (auto simp: fail_at_def split: sum.splits if_splits)
  have g: "length (mp_get i) < length i" by (rule lx_peek_get [OF c])
  show ?case
  proof (cases "xch c = SQ")
    case True
    with 1(2) c g show ?thesis by (subst (asm) single_quoted.simps) auto
  next
    case False
    have "single_quoted (v @ [xch c]) (mp_get i) = Inr (v', i1)"
      using 1(2) c False by (subst (asm) single_quoted.simps) simp
    from 1(1) [OF c False this] g show ?thesis by simp
  qed
qed

text \<open>A step of the loop of \<open>word ()\<close>, with the flag that the loop goes on.\<close>

type_synonym word_step = "(bool \<times> word_state \<times> lexer) lex_result"

definition take_char :: "xchar \<Rightarrow> word_state \<Rightarrow> lexer \<Rightarrow> word_step" where
  "take_char c w lx = Inr (True, append_char (xch c) w, lx\<lparr>lx_in := mp_get (lx_in lx)\<rparr>)"

definition quoted_char :: "xchar \<Rightarrow> word_state \<Rightarrow> lexer \<Rightarrow> word_step" where
  "quoted_char c w lx =
     (if xch c = CHR ''$'' \<or> xch c = CHR ''('' then Inr (False, w, lx)
      else if xch c = DQ
      then
        let lx1 = pop_mode (lx\<lparr>lx_in := mp_get (lx_in lx)\<rparr>) in
        if lx_stack lx1 = [] then Inl Lex_assertion else Inr (True, w\<lparr>ws_st := hd (lx_stack lx1)\<rparr>, lx1)
      else take_char c w lx)"

definition variable_char :: "xchar \<Rightarrow> word_state \<Rightarrow> lexer \<Rightarrow> word_step" where
  "variable_char c w lx =
     (if ws_lexeme w = [] \<and> (case st_data (ws_st w) of Specials s \<Rightarrow> xch c \<in> set s | Number _ \<Rightarrow> False)
      then Inr (False, w\<lparr>ws_lexeme := [xch c]\<rparr>, lx\<lparr>lx_in := mp_get (lx_in lx)\<rparr>)
      else case variable_end (ws_lexeme w = []) (xch c) (mp_get (lx_in lx)) of
        Inl e \<Rightarrow> Inl e
      | Inr done \<Rightarrow> if done then Inr (False, w, lx) else take_char c w lx)"

definition plain_char :: "xchar \<Rightarrow> word_state \<Rightarrow> lexer \<Rightarrow> word_step" where
  "plain_char c w lx =
     (let st = ws_st w; lx1 = lx\<lparr>lx_in := mp_get (lx_in lx)\<rparr> in
      case separates st (xch c) (lx_in lx1) of
        Inl e \<Rightarrow> Inl e
      | Inr done \<Rightarrow>
          if done then Inr (False, w, lx)
          else if st_quotes st \<and> xch c = SQ
          then (case set_mode Single_quoted NUL None (Number 0) lx1 of
                  Inl e \<Rightarrow> Inl e
                | Inr lx2 \<Rightarrow>
                    (case single_quoted (ws_lexeme w) (lx_in lx2) of
                       Inl e \<Rightarrow> Inl e
                     | Inr (v, i) \<Rightarrow> Inr (True, (open_single w)\<lparr>ws_lexeme := v\<rparr>, pop_mode (lx2\<lparr>lx_in := i\<rparr>))))
          else if st_quotes st \<and> xch c = DQ
          then (case set_mode Double_quoted NUL None (Number 0) lx1 of
                  Inl e \<Rightarrow> Inl e
                | Inr lx2 \<Rightarrow> Inr (True, (open_double w)\<lparr>ws_st := hd (lx_stack lx2)\<rparr>, lx2))
          else take_char c w lx)"

definition word_char :: "xchar \<Rightarrow> word_state \<Rightarrow> lexer \<Rightarrow> word_step" where
  "word_char c w lx =
     (if st_mode (ws_st w) = Double_quoted then quoted_char c w lx
      else if st_mode (ws_st w) = Variable then variable_char c w lx
      else plain_char c w lx)"

definition word_step :: "word_state \<Rightarrow> lexer \<Rightarrow> word_step" where
  "word_step w lx =
     (case lx_peek (lx_in lx) of
        Inl e \<Rightarrow> Inl e
      | Inr c \<Rightarrow>
          if eos c then Inr (False, w, lx)
          else if xch c = BSL \<and> st_mode (ws_st w) = Variable then Inr (False, w, lx)
          else if xch c = BSL
          then (case lx_peek (mp_get (lx_in lx)) of
                  Inl e \<Rightarrow> Inl e
                | Inr p \<Rightarrow>
                    if effective_escape (st_escapes (ws_st w)) p
                    then if eos p then fail_at p ''unterminated escape sequence''
                         else Inr (True, if xch p = LF then w else append_char (xch p) w,
                                   lx\<lparr>lx_in := mp_get (mp_get (lx_in lx))\<rparr>)
                    else word_char c w lx)
          else word_char c w lx)"

lemma take_char_shorter: "length (mp_get i) < length i \<Longrightarrow> lx_in lx = i \<Longrightarrow>
    take_char c w lx = Inr (True, w1, lx1) \<Longrightarrow> length (lx_in lx1) < length i"
  by (auto simp: take_char_def)

lemma set_mode_in: "set_mode m ps esc d lx = Inr lx1 \<Longrightarrow> lx_in lx1 = lx_in lx"
  by (auto simp: set_mode_def split: if_splits)

lemma word_char_shorter:
  assumes "word_char c w lx = Inr (True, w1, lx1)" "length (mp_get (lx_in lx)) < length (lx_in lx)"
  shows "length (lx_in lx1) < length (lx_in lx)"
proof -
  have p: "length (lx_in lx1) < length (lx_in lx)" if "plain_char c w lx = Inr (True, w1, lx1)"
    using that assms(2) by (auto simp: plain_char_def take_char_def pop_mode_def Let_def
        dest!: set_mode_in single_quoted_length split: sum.splits if_splits prod.splits)
  show ?thesis
    using assms p by (auto simp: word_char_def quoted_char_def variable_char_def take_char_def pop_mode_def Let_def
        split: if_splits sum.splits mode_data.splits)
qed

lemma word_step_shorter: "word_step w lx = Inr (True, w1, lx1) \<Longrightarrow> length (lx_in lx1) < length (lx_in lx)"
proof -
  assume a: "word_step w lx = Inr (True, w1, lx1)"
  then obtain c where c: "lx_peek (lx_in lx) = Inr c" "\<not> eos c"
    by (auto simp: word_step_def split: sum.splits if_splits)
  note g = lx_peek_get [OF c]
  have "word_char c w lx = Inr (True, w1, lx1) \<or> lx_in lx1 = mp_get (mp_get (lx_in lx))"
    using a c by (auto simp: word_step_def fail_at_def split: sum.splits if_splits)
  then show ?thesis
  proof
    assume "lx_in lx1 = mp_get (mp_get (lx_in lx))"
    with g mp_get_length [of "mp_get (lx_in lx)"] show ?thesis by simp
  qed (rule word_char_shorter [OF _ g])
qed

function word_loop :: "word_state \<Rightarrow> lexer \<Rightarrow> (word_state \<times> lexer) lex_result" where
  "word_loop w lx =
     (case word_step w lx of
        Inl e \<Rightarrow> Inl e
      | Inr (go, w1, lx1) \<Rightarrow> if go then word_loop w1 lx1 else Inr (w1, lx1))"
  by pat_completeness auto
termination
  by (relation "measure (\<lambda>(w, lx). length (lx_in lx))") (auto dest: word_step_shorter)

declare word_loop.simps [simp del]

definition lex_word :: "lexer_state \<Rightarrow> bool \<Rightarrow> lexer \<Rightarrow> (token \<times> lexer) lex_result" where
  "lex_word st sep lx =
     (case lx_peek (lx_in lx) of
        Inl e \<Rightarrow> Inl e
      | Inr c \<Rightarrow>
          if eos c then Inl Lex_assertion
          else
            (case word_loop
                    \<lparr>ws_st = st, ws_lexeme = [],
                     ws_qtype = (if st_mode st = Double_quoted then Double else Unquoted), ws_qcomp = False\<rparr> lx of
               Inl e \<Rightarrow> Inl e
             | Inr (w, lx1) \<Rightarrow>
                 if st_mode (ws_st w) = Double_quoted \<and> eos (head (lx_in lx1))
                 then fail_at (head (lx_in lx1)) ''unterminated double-quoted sequence''
                 else
                   Inr (\<lparr>tk_type = Tk_word, tk_separated = sep, tk_qtype = ws_qtype w,
                         tk_qcomp = (ws_qcomp w \<and> st_mode (ws_st w) \<noteq> Double_quoted), tk_value = ws_lexeme w,
                         tk_line = xline c, tk_column = xcolumn c\<rparr>,
                        if st_mode (ws_st w) = Variable then pop_mode lx1 else lx1)))"


section \<open>Tokens of the modes\<close>

type_synonym lex_call = "(token \<times> lexer) lex_result"

definition set_top :: "(lexer_state \<Rightarrow> lexer_state) \<Rightarrow> lexer \<Rightarrow> lexer" where
  "set_top f lx = (case lx_stack lx of [] \<Rightarrow> lx | st # sts \<Rightarrow> lx\<lparr>lx_stack := f st # sts\<rparr>)"

text \<open>The recognition of \<open>[\<close>, after which the flag is cleared.\<close>

definition opens_lsbrace :: "lexer_state \<Rightarrow> bool \<Rightarrow> char \<Rightarrow> bool" where
  "opens_lsbrace st sep c \<longleftrightarrow> st_lsbrace st \<and> c = CHR ''['' \<and> (\<not> st_lsbrace_unsep st \<or> \<not> sep)"

definition clear_lsbrace :: "lexer \<Rightarrow> lexer" where
  "clear_lsbrace = set_top (\<lambda>st. st\<lparr>st_lsbrace := False\<rparr>)"

text \<open>A newline expires the value modes and enables \<open>[\<close> in the normal mode.\<close>

definition newline_mode :: "lexer_mode \<Rightarrow> lexer \<Rightarrow> lexer" where
  "newline_mode m lx =
     (let lx1 = (if m \<in> {Value, Values, Switch_expressions, Case_patterns} then pop_mode lx else lx) in
      set_top (\<lambda>st. if st_mode st = Normal then st\<lparr>st_lsbrace := True, st_lsbrace_unsep := False\<rparr> else st) lx1)"

text \<open>The characters of a run of \<open>{\<close>\<close>

function brace_run :: "input \<Rightarrow> (string \<times> input) lex_result" where
  "brace_run i =
     (case lx_peek i of
        Inl e \<Rightarrow> Inl e
      | Inr c \<Rightarrow>
          if xch c = CHR ''{'' \<and> \<not> eos c
          then (case brace_run (mp_get i) of Inl e \<Rightarrow> Inl e | Inr (v, i1) \<Rightarrow> Inr (xch c # v, i1))
          else Inr ([], i))"
  by pat_completeness auto
termination
  by (relation "measure length") (auto dest: lx_peek_get)

declare brace_run.simps [simp del]

text \<open>The tokens of one character that depend on the mode only.\<close>

definition mode_token :: "lexer_mode \<Rightarrow> char \<Rightarrow> token_type option" where
  "mode_token m c =
     (if c = CHR ''{'' \<and> m \<notin> {Attributes, Attribute_value, Subscript} then Some Tk_lcbrace
      else if c = CHR ''}'' \<and> m \<notin> {Attributes, Attribute_value, Subscript} then Some Tk_rcbrace
      else if c = CHR ''='' \<and> m = Attributes then Some Tk_assign
      else if c = CHR '']'' \<and> m \<in> {Attributes, Attribute_value, Subscript} then Some Tk_rsbrace
      else if c = CHR '':'' \<and> m \<in> {Normal, Cmdvar, Switch_expressions, Case_patterns} then Some Tk_colon
      else if c = CHR ''<'' \<and> m \<in> {Normal, Cmdvar} then Some Tk_labrace
      else if c = CHR ''>'' \<and> m \<in> {Normal, Cmdvar} then Some Tk_rabrace
      else if c = CHR '','' \<and> m \<in> {Buildspec, Values, Switch_expressions, Case_patterns, Attributes, Attribute_value}
      then Some Tk_comma
      else if c = CHR ''|'' \<and> m = Case_patterns then Some Tk_bit_or
      else None)"

text \<open>The assignments of the normal mode, with the flag that the next character \<open>p\<close> belongs to the token.\<close>

definition assign_token :: "char \<Rightarrow> char \<Rightarrow> (token_type \<times> bool) option" where
  "assign_token c p =
     (if c = CHR ''='' then Some (if p = CHR ''+'' then (Tk_prepend, True) else (Tk_assign, False))
      else if c = CHR ''+'' \<and> p = CHR ''='' then Some (Tk_append, True)
      else if c = CHR ''?'' \<and> p = CHR ''='' then Some (Tk_default_assign, True)
      else None)"

text \<open>The operators of the evaluation context\<close>

definition eval_token :: "char \<Rightarrow> char \<Rightarrow> (token_type \<times> bool) option" where
  "eval_token c p =
     (if c = CHR ''|'' then Some (if p = CHR ''|'' then (Tk_log_or, True) else (Tk_bit_or, False))
      else if c = CHR ''&'' then (if p = CHR ''&'' then Some (Tk_log_and, True) else None)
      else if c = CHR ''<'' then Some (if p = CHR ''='' then (Tk_less_equal, True) else (Tk_less, False))
      else if c = CHR ''>'' then Some (if p = CHR ''='' then (Tk_greater_equal, True) else (Tk_greater, False))
      else if c = CHR ''='' then (if p = CHR ''='' then Some (Tk_equal, True) else None)
      else if c = CHR ''!'' then Some (if p = CHR ''='' then (Tk_not_equal, True) else (Tk_log_not, False))
      else None)"

text \<open>A token with one more character of lookahead, or a word. The input still starts with the character.\<close>

definition lookahead_token :: "(char \<Rightarrow> char \<Rightarrow> (token_type \<times> bool) option) \<Rightarrow> bool \<Rightarrow> xchar \<Rightarrow> lexer \<Rightarrow> lex_call" where
  "lookahead_token f sep c lx =
     (case lx_peek (mp_get (lx_in lx)) of
        Inl e \<Rightarrow> Inl e
      | Inr p \<Rightarrow>
          (case f (xch c) (xch p) of
             Some (t, two) \<Rightarrow>
               Inr (make_token sep c t [],
                    lx\<lparr>lx_in := (if two then mp_get (mp_get (lx_in lx)) else mp_get (lx_in lx))\<rparr>)
           | None \<Rightarrow> lex_word (hd (lx_stack lx)) sep lx))"

definition next_plain :: "lexer \<Rightarrow> lex_call" where
  "next_plain lx =
     (case lx_skip_spaces lx of
        Inl e \<Rightarrow> Inl e
      | Inr ((sep, first), lx1) \<Rightarrow>
     (case lx_peek (lx_in lx1) of
        Inl e \<Rightarrow> Inl e
      | Inr c \<Rightarrow>
          let st = hd (lx_stack lx1); m = st_mode st; d = xch c;
              lx2 = clear_lsbrace lx1; lx3 = lx2\<lparr>lx_in := mp_get (lx_in lx2)\<rparr>
          in
          if opens_lsbrace st sep d then Inr (make_token sep c Tk_lsbrace [], lx3)
          else if eos c then Inr (make_token sep c Tk_eos [], lx3)
          else if d = st_pair st then Inr (make_token sep c Tk_pair_separator [d], lx3)
          else if d = LF then Inr (make_token True c Tk_newline [], newline_mode m lx3)
          else if d = CHR ''$'' then Inr (make_token sep c Tk_dollar [], lx3)
          else if d = CHR '')'' then Inr (make_token sep c Tk_rparen [], lx3)
          else if d = CHR ''(''
          then Inr (make_token (sep \<or> m = Buildspec \<and> length (lx_stack lx3) \<le> 3) c Tk_lparen [], lx3)
          else if m = Normal \<and> first \<and> d = CHR ''%'' then Inr (make_token sep c Tk_percent [], lx3)
          else if m = Normal \<and> first \<and> d = CHR ''{''
          then (case brace_run (lx_in lx3) of
                  Inl e \<Rightarrow> Inl e
                | Inr (v, i) \<Rightarrow>
                    if v \<noteq> [] then Inr (make_token sep c Tk_multi_lcbrace (v @ ''{''), lx3\<lparr>lx_in := i\<rparr>)
                    else Inr (make_token sep c Tk_lcbrace [], lx3))
          else case mode_token m d of
            Some t \<Rightarrow> Inr (make_token sep c t [], if t = Tk_rsbrace then pop_mode lx3 else lx3)
          | None \<Rightarrow>
              if m \<in> {Normal, Cmdvar} \<and> d \<in> {CHR ''='', CHR ''+'', CHR ''?''}
              then lookahead_token assign_token sep c lx2
              else lex_word (hd (lx_stack lx2)) sep lx2))"

text \<open>\<open>next_eval ()\<close>\<close>

definition eval_char :: "char \<Rightarrow> token_type option" where
  "eval_char c =
     (if c = CHR '':'' then Some Tk_colon
      else if c = CHR ''{'' then Some Tk_lcbrace
      else if c = CHR ''}'' then Some Tk_rcbrace
      else if c = CHR ''$'' then Some Tk_dollar
      else if c = CHR ''?'' then Some Tk_question
      else if c = CHR '','' then Some Tk_comma
      else if c = CHR 0x60 then Some Tk_backtick
      else if c = CHR ''('' then Some Tk_lparen
      else if c = CHR '')'' then Some Tk_rparen
      else None)"

definition next_eval :: "lexer \<Rightarrow> lex_call" where
  "next_eval lx =
     (case lx_skip_spaces lx of
        Inl e \<Rightarrow> Inl e
      | Inr ((sep, first), lx1) \<Rightarrow>
     (case lx_peek (lx_in lx1) of
        Inl e \<Rightarrow> Inl e
      | Inr c \<Rightarrow>
          let st = hd (lx_stack lx1); d = xch c;
              lx2 = clear_lsbrace lx1; lx3 = lx2\<lparr>lx_in := mp_get (lx_in lx2)\<rparr>
          in
          if eos c then fail_at c ''unterminated evaluation context''
          else if opens_lsbrace st sep d then Inr (make_token sep c Tk_lsbrace [], lx3)
          else if d = st_pair st then Inr (make_token sep c Tk_pair_separator [d], lx3)
          else if d = LF then fail_at c ''newline in evaluation context''
          else case eval_char d of
            Some t \<Rightarrow> Inr (make_token sep c t [], if t = Tk_rparen then pop_mode lx3 else lx3)
          | None \<Rightarrow>
              if d \<in> {CHR ''='', CHR ''!'', CHR ''<'', CHR ''>'', CHR ''|'', CHR ''&''}
              then lookahead_token eval_token sep c lx2
              else lex_word (hd (lx_stack lx2)) sep lx2))"

text \<open>\<open>next_quoted ()\<close>\<close>

definition quoted_token :: "xchar \<Rightarrow> token_type \<Rightarrow> token" where
  "quoted_token c t = (make_token False c t [])\<lparr>tk_qtype := Double, tk_qcomp := True\<rparr>"

definition next_quoted :: "lexer \<Rightarrow> lex_call" where
  "next_quoted lx =
     (case lx_peek (lx_in lx) of
        Inl e \<Rightarrow> Inl e
      | Inr c \<Rightarrow>
          if eos c then fail_at c ''unterminated double-quoted sequence''
          else if xch c = CHR ''$'' then Inr (quoted_token c Tk_dollar, lx\<lparr>lx_in := mp_get (lx_in lx)\<rparr>)
          else if xch c = CHR ''('' then Inr (quoted_token c Tk_lparen, lx\<lparr>lx_in := mp_get (lx_in lx)\<rparr>)
          else lex_word (hd (lx_stack lx)) False lx)"

section \<open>The foreign mode\<close>

text \<open>Blanks and closing braces: the characters, and the input from the first other one on. A get of an invalid character fails.\<close>

function blanks :: "input \<Rightarrow> (string \<times> input) lex_result" where
  "blanks i =
     (case lx_peek i of
        Inl e \<Rightarrow> Inl e
      | Inr c \<Rightarrow>
          if \<not> eos c \<and> (xch c = SP \<or> xch c = TAB)
          then (case blanks (mp_get i) of Inl e \<Rightarrow> Inl e | Inr (v, i1) \<Rightarrow> Inr (xch c # v, i1))
          else Inr ([], i))"
  by pat_completeness auto
termination
  by (relation "measure length") (auto dest: lx_peek_get)

declare blanks.simps [simp del]

text \<open>At most \<open>n\<close> closing braces, with how many are still missing.\<close>

fun closing_braces :: "nat \<Rightarrow> input \<Rightarrow> (nat \<times> input) lex_result" where
  "closing_braces 0 i = Inr (0, i)"
| "closing_braces (Suc n) i =
     (case lx_peek i of
        Inl e \<Rightarrow> Inl e
      | Inr c \<Rightarrow> if \<not> eos c \<and> xch c = CHR ''}'' then closing_braces n (mp_get i) else Inr (Suc n, i))"

lemma blanks_length: "blanks i = Inr (v, i1) \<Longrightarrow> length i1 \<le> length i"
proof (induction i arbitrary: v i1 rule: blanks.induct)
  case (1 i)
  show ?case
  proof (cases "lx_peek i")
    case (Inl e)
    with 1(2) show ?thesis by (subst (asm) blanks.simps) simp
  next
    case (Inr c)
    show ?thesis
    proof (cases "\<not> eos c \<and> (xch c = SP \<or> xch c = TAB)")
      case False
      with 1(2) Inr show ?thesis by (subst (asm) blanks.simps) (auto split: if_splits)
    next
      case True
      then obtain w where "blanks (mp_get i) = Inr (w, i1)"
        using 1(2) Inr by (subst (asm) blanks.simps) (auto split: sum.splits)
      with 1(1) [OF Inr True] lx_peek_get [OF Inr] True show ?thesis by fastforce
    qed
  qed
qed

lemma closing_braces_length: "closing_braces n i = Inr (k, i1) \<Longrightarrow> length i1 \<le> length i"
proof (induction n i rule: closing_braces.induct)
  case (2 n i)
  then show ?case using mp_get_length [of i] by (fastforce split: sum.splits if_splits)
qed simp

text \<open>The loop of \<open>next_foreign ()\<close>, before the character is got; \<open>c0\<close> is the first character of the first line.\<close>

definition hold_brace :: "xchar \<Rightarrow> nat \<Rightarrow> token" where
  "hold_brace c n = make_token False c Tk_multi_rcbrace (replicate n (CHR ''}''))"

definition foreign_word :: "xchar \<Rightarrow> string \<Rightarrow> token" where
  "foreign_word c0 v = make_token False c0 Tk_word v"

function foreign_loop :: "nat \<Rightarrow> xchar \<Rightarrow> bool \<Rightarrow> string \<Rightarrow> lexer \<Rightarrow> lex_call" where
  "foreign_loop n c0 first v lx =
     (case lx_peek (lx_in lx) of
        Inl e \<Rightarrow> Inl e
      | Inr c \<Rightarrow>
          if eos c then Inr (make_token False c Tk_eos [], lx)
          else if \<not> first then foreign_loop n c0 (xch c = LF) (v @ [xch c]) (lx\<lparr>lx_in := mp_get (lx_in lx)\<rparr>)
          else
     (case blanks (lx_in lx) of
        Inl e \<Rightarrow> Inl e
      | Inr (b, i1) \<Rightarrow>
     (case closing_braces n i1 of
        Inl e \<Rightarrow> Inl e
      | Inr (0, i2) \<Rightarrow>
          (case blanks i2 of
             Inl e \<Rightarrow> Inl e
           | Inr (b2, i3) \<Rightarrow>
               (case lx_peek i3 of
                  Inl e \<Rightarrow> Inl e
                | Inr d \<Rightarrow>
                    if eos d \<or> xch d = LF \<or> xch d = CHR ''#''
                    then Inr (foreign_word c0 v,
                              (set_top (\<lambda>st. st\<lparr>st_hold := Some (hold_brace (head i1) n)\<rparr>) lx)\<lparr>lx_in := i3\<rparr>)
                    else foreign_loop n c0 False (v @ b @ replicate n (CHR ''}'') @ b2 @ [xch d])
                           (lx\<lparr>lx_in := mp_get i3\<rparr>)))
      | Inr (Suc k, i2) \<Rightarrow>
          (case lx_peek i2 of
             Inl e \<Rightarrow> Inl e
           | Inr d \<Rightarrow>
               if eos d then Inr (make_token False d Tk_eos [], lx\<lparr>lx_in := i2\<rparr>)
               else foreign_loop n c0 (xch d = LF) (v @ b @ replicate (n - Suc k) (CHR ''}'') @ [xch d])
                      (lx\<lparr>lx_in := mp_get i2\<rparr>)))))"
  by pat_completeness auto
termination
proof (relation "measure (\<lambda>(n, c0, first, v, lx). length (lx_in lx))", goal_cases)
  case (3 n c0 first v lx c p b i1 q k i2 r b2 i3 d)
  then have "length i1 \<le> length (lx_in lx)" "length i2 \<le> length i1" "length i3 \<le> length i2"
    using blanks_length closing_braces_length by fastforce+
  moreover have "length (mp_get i3) < length i3" using 3 lx_peek_get by auto
  ultimately show ?case by simp
next
  case (4 n c0 first v lx c p b i1 q k i2 k' d)
  then have "length i1 \<le> length (lx_in lx)" "length i2 \<le> length i1"
    using blanks_length closing_braces_length by fastforce+
  moreover have "length (mp_get i2) < length i2" using 4 lx_peek_get by auto
  ultimately show ?case by simp
qed (auto dest: lx_peek_get)

declare foreign_loop.simps [simp del]

definition next_foreign :: "lexer \<Rightarrow> lex_call" where
  "next_foreign lx =
     (let st = hd (lx_stack lx) in
      case st_hold st of
        Some t \<Rightarrow> Inr (t, pop_mode lx)
      | None \<Rightarrow>
          (case lx_peek (lx_in lx) of
             Inl e \<Rightarrow> Inl e
           | Inr c \<Rightarrow> foreign_loop (case st_data st of Number n \<Rightarrow> n | Specials _ \<Rightarrow> 0) c True [] lx))"

section \<open>Calls\<close>

definition lx_next :: "lexer \<Rightarrow> lex_call" where
  "lx_next lx =
     (case lx_stack lx of
        [] \<Rightarrow> Inl Lex_assertion
      | st # _ \<Rightarrow>
          (case st_mode st of
             Single_quoted \<Rightarrow> Inl Lex_assertion
           | Eval \<Rightarrow> next_eval lx
           | Double_quoted \<Rightarrow> next_quoted lx
           | Foreign \<Rightarrow> next_foreign lx
           | _ \<Rightarrow> next_plain lx))"

text \<open>\<open>peek_chars ()\<close>\<close>

definition peek_chars :: "lexer \<Rightarrow> (((char \<times> char) \<times> bool) \<times> lexer) lex_result" where
  "peek_chars lx =
     (case lx_skip_spaces lx of
        Inl e \<Rightarrow> Inl e
      | Inr ((sep, start), lx1) \<Rightarrow>
          if start then Inl Lex_assertion
          else
            let lx2 = lx1\<lparr>lx_sep := sep\<rparr> in
            (case lx_peek (lx_in lx2) of
               Inl e \<Rightarrow> Inl e
             | Inr c0 \<Rightarrow>
                 if eos c0 then Inr (((NUL, NUL), sep), lx2)
                 else (case lx_peek (mp_get (lx_in lx2)) of
                         Inl e \<Rightarrow> Inl e | Inr c1 \<Rightarrow> Inr (((xch c0, xch c1), sep), lx2))))"


text \<open>A parser calls \<open>next ()\<close> again and again.\<close>

fun lex_calls :: "nat \<Rightarrow> lexer \<Rightarrow> (token list \<times> lexer) lex_result" where
  "lex_calls 0 lx = Inr ([], lx)"
| "lex_calls (Suc n) lx =
     (case lx_next lx of
        Inl e \<Rightarrow> Inl e
      | Inr (t, lx1) \<Rightarrow>
          (case lex_calls n lx1 of Inl e \<Rightarrow> Inl e | Inr (ts, lx2) \<Rightarrow> Inr (t # ts, lx2)))"

text \<open>
  What a parser may do with its lexer: it sets the modes that are not internal, with the data that they need, and
  expires a mode only if there is another one. The assertions of \<open>mode ()\<close> on its arguments are preconditions here.
\<close>

inductive lexer_step :: "lexer \<Rightarrow> lexer \<Rightarrow> bool" where
  call: "lx_next lx = Inr (t, lx1) \<Longrightarrow> lexer_step lx lx1"
| peeked: "peek_chars lx = Inr (r, lx1) \<Longrightarrow> lexer_step lx lx1"
| moded: "set_mode m ps esc d lx = Inr lx1 \<Longrightarrow> m \<notin> {Single_quoted, Double_quoted} \<Longrightarrow>
    (m = Foreign \<longrightarrow> (\<exists>n. d = Number n)) \<Longrightarrow> lexer_step lx lx1"
| lsbrace: "lexer_step lx (enable_lsbrace unsep lx)"
| expired: "length (lx_stack lx) > 1 \<Longrightarrow> lexer_step lx (pop_mode lx)"

definition lexer_start :: "lexer \<Rightarrow> bool" where
  "lexer_start lx \<longleftrightarrow> (\<exists>i escapes. new_lexer i escapes = Inr lx)"

end
