(* ===== verification/Buildfile_Lexer_Properties.thy ===== *)
theory Buildfile_Lexer_Properties
  imports Buildfile_Lexer Manifest_Properties Step_System
begin

text \<open>
  The lexer of buildfiles: no assertion fails whatever the buildfile and the modes that the parser chooses, and
  every call of \<open>next ()\<close> brings the lexer nearer to the end of the buildfile.
\<close>

section \<open>Well-formed lexers\<close>

definition state_ok :: "lexer_state \<Rightarrow> bool" where
  "state_ok st \<longleftrightarrow>
     (st_first st, st_second st) = separators (st_mode st) \<and>
     st_space st = (st_mode st \<notin> {Foreign, Single_quoted, Double_quoted}) \<and>
     (st_newline st \<or> st_mode st = Buildspec) \<and> st_mode st \<noteq> Single_quoted \<and>
     (st_mode st = Foreign \<longrightarrow> (\<exists>n > 1. st_data st = Number n))"

definition lexer_ok :: "lexer \<Rightarrow> bool" where
  "lexer_ok lx \<longleftrightarrow>
     lx_stack lx \<noteq> [] \<and> (\<forall>st \<in> set (lx_stack lx). state_ok st) \<and>
     st_mode (last (lx_stack lx)) \<in> {Normal, Cmdvar, Buildspec}"

definition lexer_weight :: "lexer \<Rightarrow> nat" where
  "lexer_weight lx = 2 * length (lx_in lx) + length (lx_stack lx)"

lemma lexer_ok_in [simp]: "lexer_ok (lx\<lparr>lx_in := i\<rparr>) = lexer_ok lx" "lexer_ok (lx\<lparr>lx_sep := b\<rparr>) = lexer_ok lx"
  by (simp_all add: lexer_ok_def)

lemma lexer_okD: "lexer_ok lx \<Longrightarrow> lx_stack lx \<noteq> []" "lexer_ok lx \<Longrightarrow> state_ok (hd (lx_stack lx))"
  by (simp_all add: lexer_ok_def)

text \<open>The bottom state is never popped.\<close>

lemma pop_mode_ok:
  assumes "lexer_ok lx" "st_mode (hd (lx_stack lx)) \<notin> {Normal, Cmdvar, Buildspec}"
  shows "lexer_ok (pop_mode lx)" "length (lx_stack (pop_mode lx)) < length (lx_stack lx)" "lx_stack (pop_mode lx) \<noteq> []"
proof -
  obtain st sts where s: "lx_stack lx = st # sts" using lexer_okD(1) [OF assms(1)] by (cases "lx_stack lx") auto
  have "sts \<noteq> []"
  proof
    assume "sts = []"
    with s assms show False by (simp add: lexer_ok_def)
  qed
  with s assms show "lexer_ok (pop_mode lx)" "length (lx_stack (pop_mode lx)) < length (lx_stack lx)"
    "lx_stack (pop_mode lx) \<noteq> []"
    by (auto simp: lexer_ok_def pop_mode_def)
qed

lemma pop_mode_in [simp]: "lx_in (pop_mode lx) = lx_in lx" "lx_sep (pop_mode lx) = lx_sep lx"
  by (simp_all add: pop_mode_def)

lemma set_mode_shape:
  assumes "set_mode m ps esc d lx = Inr lx1"
  shows "\<exists>st. lx_stack lx1 = st # lx_stack lx \<and> st_mode st = m \<and> st_data st = d \<and>
    (st_first st, st_second st) = separators m \<and> st_space st = (m \<notin> {Foreign, Single_quoted, Double_quoted}) \<and>
    (st_newline st \<or> m = Buildspec)"
    and "lx_sep lx1 = lx_sep lx" and "m = Foreign \<Longrightarrow> d = Number n \<Longrightarrow> n > 1"
  using assms by (simp_all add: set_mode_def split: if_splits) (auto split: if_splits)

lemma set_mode_ok:
  assumes "set_mode m ps esc d lx = Inr lx1" "lexer_ok lx \<or> lx_stack lx = [] \<and> m \<in> {Normal, Cmdvar, Buildspec}"
    "m \<noteq> Single_quoted" "m = Foreign \<longrightarrow> (\<exists>n. d = Number n)"
  shows "lexer_ok lx1"
proof -
  obtain st where st: "lx_stack lx1 = st # lx_stack lx" "st_mode st = m" "st_data st = d"
    "(st_first st, st_second st) = separators m" "st_space st = (m \<notin> {Foreign, Single_quoted, Double_quoted})"
    "st_newline st \<or> m = Buildspec"
    using set_mode_shape(1) [OF assms(1)] by blast
  have "state_ok st" using st assms(3,4) set_mode_shape(3) [OF assms(1)] by (fastforce simp: state_ok_def)
  with st(1,2) assms(2) show ?thesis by (auto simp: lexer_ok_def)
qed

lemma set_mode_quoted: "lx_stack lx \<noteq> [] \<Longrightarrow> m \<in> {Single_quoted, Double_quoted} \<Longrightarrow> \<exists>lx1. set_mode m NUL None d lx = Inr lx1"
  by (auto simp: set_mode_def)

section \<open>No assertion fails\<close>

lemma fail_at_no_assert [simp]: "fail_at c w \<noteq> Inl Lex_assertion" "fail_at c w \<noteq> Inr x"
  by (simp_all add: fail_at_def)

lemma lx_peek_no_assert [simp]: "lx_peek i \<noteq> Inl Lex_assertion"
  by (simp add: lx_peek_def Let_def split: xvalue.split)

lemma comment_mark_no_assert [simp]: "comment_mark i \<noteq> Inl Lex_assertion"
proof -
  have "lx_peek i \<noteq> Inl Lex_assertion" "lx_peek (mp_get i) \<noteq> Inl Lex_assertion" by simp_all
  then show ?thesis by (auto simp: comment_mark_def split: sum.split)
qed

lemma multi_comment_no_assert [simp]: "multi_comment i \<noteq> Inl Lex_assertion"
proof (induction i rule: multi_comment.induct)
  case (1 i)
  have "lx_peek i \<noteq> Inl Lex_assertion" "comment_mark (mp_get i) \<noteq> Inl Lex_assertion" by simp_all
  with 1 show ?case by (subst multi_comment.simps) (auto split: sum.split)
qed

lemma line_comment_no_assert [simp]: "line_comment i \<noteq> Inl Lex_assertion"
proof (induction i rule: line_comment.induct)
  case (1 i)
  have "lx_peek i \<noteq> Inl Lex_assertion" by simp
  with 1 show ?case by (subst line_comment.simps) (auto split: sum.split)
qed

lemma comment_no_assert [simp]: "comment i \<noteq> Inl Lex_assertion"
proof -
  have "comment_mark i \<noteq> Inl Lex_assertion" by simp
  then show ?thesis by (auto simp: comment_def split: sum.split)
qed

lemma spaces_loop_no_assert [simp]: "spaces_loop nl r start i \<noteq> Inl Lex_assertion"
proof (induction nl r start i rule: spaces_loop.induct)
  case (1 nl r start i)
  have n: "lx_peek i \<noteq> Inl Lex_assertion" "lx_peek (mp_get i) \<noteq> Inl Lex_assertion" "comment (mp_get i) \<noteq> Inl Lex_assertion"
    by simp_all
  show ?case
  proof (cases "lx_peek i")
    case (Inl e)
    with n(1) show ?thesis by (subst spaces_loop.simps) simp
  next
    case (Inr c)
    note IH = 1 [OF Inr]
    consider (gap) "eos c \<or> xch c = SP \<or> xch c = TAB \<or> xch c = LF" | (hash) "\<not> eos c" "xch c = CHR ''#''"
      | (esc) "\<not> eos c" "xch c = BSL"
      | (other) "xch c \<notin> {SP, TAB, LF, CHR ''#'', BSL}" by blast
    then show ?thesis
    proof cases
      case gap
      with IH(1-3) Inr show ?thesis by (subst spaces_loop.simps) auto
    next
      case hash
      with IH(4) n(3) Inr show ?thesis by (subst spaces_loop.simps) (auto split: sum.split)
    next
      case esc
      with IH(5) n(2) Inr show ?thesis by (subst spaces_loop.simps) (auto split: sum.split)
    next
      case other
      with Inr show ?thesis by (subst spaces_loop.simps) simp
    qed
  qed
qed

lemma separator_seq_no_assert [simp]: "separator_seq ps c i \<noteq> Inl Lex_assertion"
proof (induction ps c i rule: separator_seq.induct)
  case (2 f s ps c i)
  have "lx_peek i \<noteq> Inl Lex_assertion" by simp
  with 2 show ?case by (auto split: sum.split)
qed simp

lemma variable_end_no_assert [simp]: "variable_end b c i \<noteq> Inl Lex_assertion"
proof -
  have "lx_peek i \<noteq> Inl Lex_assertion" by simp
  then show ?thesis by (auto simp: variable_end_def split: sum.split)
qed

lemma single_quoted_no_assert [simp]: "single_quoted v i \<noteq> Inl Lex_assertion"
proof (induction v i rule: single_quoted.induct)
  case (1 v i)
  have "lx_peek i \<noteq> Inl Lex_assertion" by simp
  with 1 show ?case by (subst single_quoted.simps) (auto split: sum.split)
qed

lemma blanks_no_assert [simp]: "blanks i \<noteq> Inl Lex_assertion"
proof (induction i rule: blanks.induct)
  case (1 i)
  have "lx_peek i \<noteq> Inl Lex_assertion" by simp
  with 1 show ?case by (subst blanks.simps) (auto split: sum.split)
qed

lemma brace_run_no_assert [simp]: "brace_run i \<noteq> Inl Lex_assertion"
proof (induction i rule: brace_run.induct)
  case (1 i)
  have "lx_peek i \<noteq> Inl Lex_assertion" by simp
  with 1 show ?case by (subst brace_run.simps) (auto split: sum.split)
qed

lemma closing_braces_no_assert [simp]: "closing_braces n i \<noteq> Inl Lex_assertion"
proof (induction n i rule: closing_braces.induct)
  case (2 n i)
  have "lx_peek i \<noteq> Inl Lex_assertion" by simp
  with 2 show ?case by (auto split: sum.split)
qed simp

section \<open>Steps of a word\<close>

definition word_ok :: "word_state \<Rightarrow> lexer \<Rightarrow> bool" where
  "word_ok w lx \<longleftrightarrow> lexer_ok lx \<and> ws_st w = hd (lx_stack lx)"

lemma append_char_st [simp]: "ws_st (append_char c w) = ws_st w"
  by (simp add: append_char_def)

lemma open_st [simp]: "ws_st (open_single w) = ws_st w" "ws_st (open_double w) = ws_st w"
  by (auto simp: open_single_def open_double_def split: quote_type.split)

text \<open>What a step of the loop promises: no assertion fails, and it goes on with less to do.\<close>

definition step_ok :: "lexer \<Rightarrow> word_step \<Rightarrow> bool" where
  "step_ok lx r \<longleftrightarrow>
     r \<noteq> Inl Lex_assertion \<and>
     (\<forall>go w1 lx1. r = Inr (go, w1, lx1) \<longrightarrow>
        word_ok w1 lx1 \<and> lexer_weight lx1 \<le> lexer_weight lx \<and> (go \<longrightarrow> lexer_weight lx1 < lexer_weight lx))"

lemma step_okI: "r \<noteq> Inl Lex_assertion \<Longrightarrow> (\<And>go w1 lx1. r = Inr (go, w1, lx1) \<Longrightarrow>
    word_ok w1 lx1 \<and> (lexer_weight lx1 < lexer_weight lx \<or> \<not> go \<and> lexer_weight lx1 \<le> lexer_weight lx)) \<Longrightarrow> step_ok lx r"
  by (fastforce simp: step_ok_def)

lemma take_char_ok:
  assumes "word_ok w lx" "length (mp_get (lx_in lx)) < length (lx_in lx)"
  shows "step_ok lx (take_char c w lx)"
  using assms by (intro step_okI) (auto simp: take_char_def word_ok_def lexer_weight_def)

lemma stop_ok: "word_ok w lx \<Longrightarrow> step_ok lx (Inr (False, w, lx))"
  by (simp add: step_ok_def)

lemma quoted_char_ok:
  assumes "word_ok w lx" "length (mp_get (lx_in lx)) < length (lx_in lx)" "st_mode (ws_st w) = Double_quoted"
  shows "step_ok lx (quoted_char c w lx)"
proof -
  let ?lx = "lx\<lparr>lx_in := mp_get (lx_in lx)\<rparr>"
  have "lexer_ok ?lx" "st_mode (hd (lx_stack ?lx)) \<notin> {Normal, Cmdvar, Buildspec}"
    using assms(1,3) by (auto simp: word_ok_def)
  note p = pop_mode_ok [OF this]
  have "step_ok lx (Inr (True, w\<lparr>ws_st := hd (lx_stack (pop_mode ?lx))\<rparr>, pop_mode ?lx))"
    using p assms(2) by (simp add: step_ok_def word_ok_def lexer_weight_def)
  with p(3) show ?thesis
    using stop_ok [OF assms(1)] take_char_ok [OF assms(1,2)] by (simp add: quoted_char_def Let_def)
qed

lemma variable_char_ok:
  assumes "word_ok w lx" "length (mp_get (lx_in lx)) < length (lx_in lx)"
  shows "step_ok lx (variable_char c w lx)"
proof -
  have v: "variable_end (ws_lexeme w = []) (xch c) (mp_get (lx_in lx)) \<noteq> Inl Lex_assertion" by simp
  have "step_ok lx (Inr (False, w\<lparr>ws_lexeme := [xch c]\<rparr>, lx\<lparr>lx_in := mp_get (lx_in lx)\<rparr>))"
    using assms by (simp add: step_ok_def word_ok_def lexer_weight_def)
  moreover have "step_ok lx (Inl e)" if "variable_end (ws_lexeme w = []) (xch c) (mp_get (lx_in lx)) = Inl e" for e
    using v that by (auto simp: step_ok_def)
  ultimately show ?thesis
    using stop_ok [OF assms(1)] take_char_ok [OF assms] by (auto simp: variable_char_def split: sum.split)
qed

lemma plain_char_ok:
  assumes "word_ok w lx" "length (mp_get (lx_in lx)) < length (lx_in lx)"
  shows "step_ok lx (plain_char c w lx)"
proof -
  define sep where "sep = separates (ws_st w) (xch c) (mp_get (lx_in lx))"
  let ?lx = "lx\<lparr>lx_in := mp_get (lx_in lx)\<rparr>"
  have ok: "lexer_ok lx" "lx_stack ?lx \<noteq> []" "ws_st w = hd (lx_stack lx)"
    using assms(1) lexer_okD by (auto simp: word_ok_def)
  show ?thesis
  proof (cases sep)
    case (Inl e)
    then have "e \<noteq> Lex_assertion" by (auto simp: sep_def separates_def split: if_splits)
    moreover have "plain_char c w lx = Inl e" using Inl by (simp add: plain_char_def Let_def sep_def)
    ultimately show ?thesis by (simp add: step_ok_def)
  next
    case (Inr fin)
    consider (fin) "fin" | (single) "\<not> fin" "st_quotes (ws_st w)" "xch c = SQ"
      | (double) "\<not> fin" "st_quotes (ws_st w)" "xch c = DQ"
      | (plain) "\<not> fin" "\<not> (st_quotes (ws_st w) \<and> (xch c = SQ \<or> xch c = DQ))" by blast
    then show ?thesis
    proof cases
      case fin
      with Inr stop_ok [OF assms(1)] show ?thesis by (simp add: plain_char_def Let_def sep_def)
    next
      case plain
      with Inr take_char_ok [OF assms] show ?thesis by (auto simp: plain_char_def Let_def sep_def)
    next
      case double
      obtain lx2 where m: "set_mode Double_quoted NUL None (Number 0) ?lx = Inr lx2"
        using set_mode_quoted [OF ok(2)] by blast
      have e: "plain_char c w lx = Inr (True, (open_double w)\<lparr>ws_st := hd (lx_stack lx2)\<rparr>, lx2)"
        using Inr double m by (simp add: plain_char_def Let_def sep_def)
      have "lexer_ok lx2" using set_mode_ok [OF m] ok(1) by simp
      moreover have "lexer_weight lx2 < lexer_weight lx"
        using set_mode_in [OF m] set_mode_shape [OF m] assms(2) by (auto simp: lexer_weight_def)
      ultimately show ?thesis unfolding e by (simp add: step_ok_def word_ok_def)
    next
      case single
      obtain lx2 where m: "set_mode Single_quoted NUL None (Number 0) ?lx = Inr lx2"
        using set_mode_quoted [OF ok(2)] by blast
      obtain st where st: "lx_stack lx2 = st # lx_stack lx" "lx_in lx2 = mp_get (lx_in lx)" "lx_sep lx2 = lx_sep lx"
        using set_mode_in [OF m] set_mode_shape [OF m] by auto
      have e: "plain_char c w lx = (case single_quoted (ws_lexeme w) (lx_in lx2) of Inl e \<Rightarrow> Inl e
          | Inr (v, i) \<Rightarrow> Inr (True, (open_single w)\<lparr>ws_lexeme := v\<rparr>, pop_mode (lx2\<lparr>lx_in := i\<rparr>)))"
        using Inr single m by (simp add: plain_char_def Let_def sep_def)
      have n: "single_quoted (ws_lexeme w) (lx_in lx2) \<noteq> Inl Lex_assertion" by simp
      have "word_ok ((open_single w)\<lparr>ws_lexeme := v\<rparr>) (pop_mode (lx2\<lparr>lx_in := i\<rparr>)) \<and>
          lexer_weight (pop_mode (lx2\<lparr>lx_in := i\<rparr>)) < lexer_weight lx"
        if "single_quoted (ws_lexeme w) (lx_in lx2) = Inr (v, i)" for v i
      proof -
        have "length i < length (lx_in lx)" using single_quoted_length [OF that] st(2) assms(2) by simp
        with st ok show ?thesis
          by (cases lx) (simp add: word_ok_def pop_mode_def lexer_weight_def lexer_ok_def)
      qed
      with n show ?thesis unfolding e by (auto simp: step_ok_def split: sum.splits)
    qed
  qed
qed

lemma word_char_ok:
  assumes "word_ok w lx" "length (mp_get (lx_in lx)) < length (lx_in lx)"
  shows "step_ok lx (word_char c w lx)"
  using quoted_char_ok [OF assms] variable_char_ok [OF assms] plain_char_ok [OF assms] by (simp add: word_char_def)

lemma word_step_ok:
  assumes "word_ok w lx"
  shows "step_ok lx (word_step w lx)"
proof (cases "lx_peek (lx_in lx)")
  case (Inl e)
  moreover from this have "e \<noteq> Lex_assertion" by auto
  ultimately show ?thesis by (simp add: word_step_def step_ok_def)
next
  case (Inr c)
  show ?thesis
  proof (cases "eos c")
    case True
    with Inr stop_ok [OF assms] show ?thesis by (simp add: word_step_def)
  next
    case False
    note g = lx_peek_get [OF Inr False]
    note wc = word_char_ok [OF assms g, of c]
    have "step_ok lx (Inr (True, if xch p = LF then w else append_char (xch p) w, lx\<lparr>lx_in := mp_get (mp_get (lx_in lx))\<rparr>))" for p
      using assms g mp_get_length [of "mp_get (lx_in lx)"] by (simp add: step_ok_def word_ok_def lexer_weight_def)
    moreover have "step_ok lx (Inl e)" if "lx_peek (mp_get (lx_in lx)) = Inl e" for e
      using that lx_peek_no_assert by (fastforce simp: step_ok_def)
    moreover have "step_ok lx (fail_at p t)" for p t by (simp add: step_ok_def)
    ultimately show ?thesis
      using Inr False wc stop_ok [OF assms] by (simp add: word_step_def split: sum.split)
  qed
qed

lemma word_loop_ok:
  assumes "word_ok w lx"
  shows "word_loop w lx \<noteq> Inl Lex_assertion"
    "word_loop w lx = Inr (w1, lx1) \<Longrightarrow> word_ok w1 lx1 \<and> lexer_weight lx1 \<le> lexer_weight lx"
proof -
  have "word_loop w lx \<noteq> Inl Lex_assertion \<and>
      (\<forall>w1 lx1. word_loop w lx = Inr (w1, lx1) \<longrightarrow> word_ok w1 lx1 \<and> lexer_weight lx1 \<le> lexer_weight lx)"
    using assms
  proof (induction w lx rule: word_loop.induct)
    case (1 w lx)
    note s = word_step_ok [OF 1(2)]
    show ?case
    proof (cases "word_step w lx")
      case (Inl e)
      with s show ?thesis by (subst (1 2) word_loop.simps) (simp add: step_ok_def)
    next
      case (Inr r)
      obtain go w1 lx1 where r: "r = (go, w1, lx1)" by (cases r)
      with s Inr have o: "word_ok w1 lx1" "lexer_weight lx1 \<le> lexer_weight lx" by (auto simp: step_ok_def)
      show ?thesis
      proof (cases go)
        case False
        with Inr r o show ?thesis by (subst (1 2) word_loop.simps) simp
      next
        case True
        have l: "word_loop w lx = word_loop w1 lx1" using Inr r True by (subst word_loop.simps) simp
        have "word_loop w1 lx1 \<noteq> Inl Lex_assertion \<and>
            (\<forall>w2 lx2. word_loop w1 lx1 = Inr (w2, lx2) \<longrightarrow> word_ok w2 lx2 \<and> lexer_weight lx2 \<le> lexer_weight lx1)"
          using 1(1) [OF Inr [unfolded r] refl refl] True o(1) by simp
        with l o(2) show ?thesis by (metis order_trans)
      qed
    qed
  qed
  then show "word_loop w lx \<noteq> Inl Lex_assertion"
    "word_loop w lx = Inr (w1, lx1) \<Longrightarrow> word_ok w1 lx1 \<and> lexer_weight lx1 \<le> lexer_weight lx" by simp_all
qed


section \<open>Words make progress\<close>

text \<open>What a call of \<open>next ()\<close> promises.\<close>

definition call_ok :: "lexer \<Rightarrow> lex_call \<Rightarrow> bool" where
  "call_ok lx r \<longleftrightarrow>
     r \<noteq> Inl Lex_assertion \<and>
     (\<forall>t lx1. r = Inr (t, lx1) \<longrightarrow>
        lexer_ok lx1 \<and> lexer_weight lx1 \<le> lexer_weight lx \<and> (tk_type t \<noteq> Tk_eos \<longrightarrow> lexer_weight lx1 < lexer_weight lx))"

lemma call_ok_fail [simp]: "call_ok lx (fail_at c w)" "call_ok lx (Inl e) \<longleftrightarrow> e \<noteq> Lex_assertion"
  by (simp_all add: call_ok_def)

lemma call_ok_token:
  "lexer_ok lx1 \<Longrightarrow> lexer_weight lx1 < lexer_weight lx \<Longrightarrow> call_ok lx (Inr (t, lx1))"
  by (simp add: call_ok_def)

lemma call_ok_if: "(b \<Longrightarrow> call_ok lx r) \<Longrightarrow> (\<not> b \<Longrightarrow> call_ok lx r') \<Longrightarrow> call_ok lx (if b then r else r')"
  by simp

lemma call_ok_mono: "call_ok lx r \<Longrightarrow> lexer_weight lx \<le> lexer_weight lx0 \<Longrightarrow> call_ok lx0 r"
  by (fastforce simp: call_ok_def)

text \<open>A character at which a word starts in the state.\<close>

definition starts_word :: "lexer_state \<Rightarrow> char \<Rightarrow> input \<Rightarrow> bool" where
  "starts_word st c i \<longleftrightarrow>
     (if st_mode st = Variable then True
      else if st_mode st = Double_quoted then c \<noteq> CHR ''$'' \<and> c \<noteq> CHR ''(''
      else separates st c i \<noteq> Inr True)"

lemma first_step:
  assumes "lx_peek (lx_in lx) = Inr c" "\<not> eos c" "starts_word (ws_st w) (xch c) (mp_get (lx_in lx))"
    "word_step w lx = Inr (False, w1, lx1)"
  shows "st_mode (ws_st w1) = Variable"
proof -
  have "word_char c w lx = Inr (False, w1, lx1) \<or> ws_st w1 = ws_st w \<and> st_mode (ws_st w) = Variable"
    using assms(1,2,4) by (auto simp: word_step_def fail_at_def split: sum.splits if_splits)
  then show ?thesis
  proof
    assume "word_char c w lx = Inr (False, w1, lx1)"
    with assms(3) show ?thesis
      by (auto simp: word_char_def quoted_char_def variable_char_def plain_char_def take_char_def starts_word_def
          Let_def split: if_splits sum.splits mode_data.splits prod.splits)
  qed simp
qed

lemma lex_word_ok:
  assumes "lexer_ok lx" "lx_peek (lx_in lx) = Inr c" "\<not> eos c"
    "starts_word (hd (lx_stack lx)) (xch c) (mp_get (lx_in lx))"
  shows "call_ok lx (lex_word (hd (lx_stack lx)) sep lx)"
proof -
  define w where "w = \<lparr>ws_st = hd (lx_stack lx), ws_lexeme = [],
    ws_qtype = (if st_mode (hd (lx_stack lx)) = Double_quoted then Double else Unquoted), ws_qcomp = False\<rparr>"
  have w: "word_ok w lx" using assms(1) by (simp add: word_ok_def w_def)
  show ?thesis
  proof (cases "word_loop w lx")
    case (Inl e)
    with word_loop_ok(1) [OF w] have "e \<noteq> Lex_assertion" by auto
    with Inl assms(2,3) show ?thesis by (simp add: lex_word_def w_def [symmetric])
  next
    case (Inr r)
    obtain w1 lx1 where r: "r = (w1, lx1)" by (cases r)
    note l = word_loop_ok(2) [OF w Inr [unfolded r]]
    have v: "lexer_weight lx1 < lexer_weight lx" if nv: "st_mode (ws_st w1) \<noteq> Variable"
    proof -
      obtain go w2 lx2 where s: "word_step w lx = Inr (go, w2, lx2)"
        using Inr by (subst (asm) word_loop.simps) (auto split: sum.splits)
      have "go"
      proof (rule ccontr)
        assume "\<not> go"
        with Inr r s have "w1 = w2" by (subst (asm) word_loop.simps) simp
        with nv first_step [OF assms(2,3), of w w2 lx2] assms(4) s \<open>\<not> go\<close> show False by (simp add: w_def)
      qed
      with s word_step_ok [OF w] have "word_ok w2 lx2" "lexer_weight lx2 < lexer_weight lx" by (auto simp: step_ok_def)
      moreover have "word_loop w2 lx2 = Inr (w1, lx1)" using Inr r s \<open>go\<close> by (subst (asm) word_loop.simps) simp
      ultimately show ?thesis using word_loop_ok(2) [of w2 lx2 w1 lx1] by simp
    qed
    define lx3 where "lx3 = (if st_mode (ws_st w1) = Variable then pop_mode lx1 else lx1)"
    have "lexer_ok lx3 \<and> lexer_weight lx3 < lexer_weight lx"
    proof (cases "st_mode (ws_st w1) = Variable")
      case True
      then have "st_mode (hd (lx_stack lx1)) \<notin> {Normal, Cmdvar, Buildspec}" using l by (simp add: word_ok_def)
      with pop_mode_ok [of lx1] l True show ?thesis by (simp add: lx3_def word_ok_def lexer_weight_def)
    next
      case False
      with v l show ?thesis by (simp add: lx3_def word_ok_def)
    qed
    with Inr r assms(2,3) show ?thesis
      by (simp add: lex_word_def w_def [symmetric] lx3_def [symmetric] call_ok_token)
  qed
qed

section \<open>Tokens make progress\<close>

lemma set_top_ok:
  assumes "lexer_ok lx" "\<And>st. state_ok st \<Longrightarrow> state_ok (f st) \<and> st_mode (f st) = st_mode st"
  shows "lexer_ok (set_top f lx)" "lx_in (set_top f lx) = lx_in lx" "lexer_weight (set_top f lx) = lexer_weight lx"
    "length (lx_stack (set_top f lx)) = length (lx_stack lx)"
    "hd (lx_stack (set_top f lx)) = f (hd (lx_stack lx))"
  using assms by (auto simp: set_top_def lexer_ok_def lexer_weight_def split: list.splits)

lemma clear_lsbrace_ok:
  assumes "lexer_ok lx"
  shows "lexer_ok (clear_lsbrace lx)" "lx_in (clear_lsbrace lx) = lx_in lx"
    "lexer_weight (clear_lsbrace lx) = lexer_weight lx" "length (lx_stack (clear_lsbrace lx)) = length (lx_stack lx)"
    "hd (lx_stack (clear_lsbrace lx)) = (hd (lx_stack lx))\<lparr>st_lsbrace := False\<rparr>"
proof -
  have p: "state_ok (st\<lparr>st_lsbrace := False\<rparr>) \<and> st_mode (st\<lparr>st_lsbrace := False\<rparr>) = st_mode st" if "state_ok st" for st
    using that by (simp add: state_ok_def)
  note t = set_top_ok [OF assms, of "\<lambda>st. st\<lparr>st_lsbrace := False\<rparr>", OF p]
  show "lexer_ok (clear_lsbrace lx)" "lx_in (clear_lsbrace lx) = lx_in lx"
    "lexer_weight (clear_lsbrace lx) = lexer_weight lx" "length (lx_stack (clear_lsbrace lx)) = length (lx_stack lx)"
    "hd (lx_stack (clear_lsbrace lx)) = (hd (lx_stack lx))\<lparr>st_lsbrace := False\<rparr>"
    using t by (simp_all add: clear_lsbrace_def)
qed

lemma newline_mode_ok:
  assumes "lexer_ok lx" "m = st_mode (hd (lx_stack lx))"
  shows "lexer_ok (newline_mode m lx)" "lexer_weight (newline_mode m lx) \<le> lexer_weight lx"
proof -
  let ?lx = "if m \<in> {Value, Values, Switch_expressions, Case_patterns} then pop_mode lx else lx"
  have ok: "lexer_ok ?lx \<and> lexer_weight ?lx \<le> lexer_weight lx"
    using pop_mode_ok(1,2) [OF assms(1)] assms by (auto simp: lexer_weight_def)
  have "state_ok st \<Longrightarrow> state_ok (if st_mode st = Normal then st\<lparr>st_lsbrace := True, st_lsbrace_unsep := False\<rparr> else st) \<and>
      st_mode (if st_mode st = Normal then st\<lparr>st_lsbrace := True, st_lsbrace_unsep := False\<rparr> else st) = st_mode st" for st
    by (auto simp: state_ok_def)
  note t = set_top_ok [OF conjunct1 [OF ok], of "\<lambda>st. if st_mode st = Normal then st\<lparr>st_lsbrace := True, st_lsbrace_unsep := False\<rparr> else st", OF this]
  show "lexer_ok (newline_mode m lx)" "lexer_weight (newline_mode m lx) \<le> lexer_weight lx"
    using t(1,3) ok by (simp_all add: newline_mode_def Let_def)
qed

text \<open>Where \<open>skip_spaces ()\<close> stops\<close>

definition stop_char :: "bool \<Rightarrow> input \<Rightarrow> bool" where
  "stop_char nl i \<longleftrightarrow>
     eos (head i) \<or> xch (head i) \<noteq> SP \<and> xch (head i) \<noteq> TAB \<and> xch (head i) \<noteq> CHR ''#'' \<and> (xch (head i) = LF \<longrightarrow> nl)"

lemma lx_peek_head: "lx_peek i = Inr c \<Longrightarrow> c = head i"
  by (auto simp: lx_peek_def Let_def fail_at_def split: xvalue.splits)

lemma spaces_loop_stop: "spaces_loop nl r start i = Inr (p, i1) \<Longrightarrow> length i1 \<le> length i \<and> stop_char nl i1"
proof (induction nl r start i rule: spaces_loop.induct)
  case (1 nl r start i)
  then obtain c where c: "lx_peek i = Inr c" by (subst (asm) (6) spaces_loop.simps) (auto split: sum.splits)
  note IH = 1(1-5) [OF c] and a = 1(6)
  have h: "head i = c" using lx_peek_head [OF c] by simp
  have g: "length (mp_get i) < length i" if "\<not> eos c" by (rule lx_peek_get [OF c that])
  consider (eos) "eos c" | (blank) "\<not> eos c" "xch c = SP \<or> xch c = TAB" | (lf) "\<not> eos c" "xch c = LF"
    | (hash) "\<not> eos c" "xch c = CHR ''#''" | (esc) "\<not> eos c" "xch c = BSL"
    | (other) "\<not> eos c" "xch c \<notin> {SP, TAB, LF, CHR ''#'', BSL}" by blast
  then show ?case
  proof cases
    case eos
    with a c h show ?thesis by (subst (asm) spaces_loop.simps) (auto simp: stop_char_def)
  next
    case blank
    then have "spaces_loop nl True start (mp_get i) = Inr (p, i1)" using a c by (subst (asm) spaces_loop.simps) auto
    with IH(1) blank g show ?thesis by fastforce
  next
    case lf
    with a c have "if nl \<and> \<not> start then i1 = i else spaces_loop nl (\<not> nl) start (mp_get i) = Inr (p, i1)"
      by (subst (asm) spaces_loop.simps) (auto split: if_splits)
    moreover have "length i1 \<le> length (mp_get i) \<and> stop_char nl i1"
      if "spaces_loop nl (\<not> nl) start (mp_get i) = Inr (p, i1)" "\<not> (nl \<and> \<not> start)"
      using IH(2,3) lf that by (cases nl) auto
    ultimately show ?thesis using g lf h by (auto simp: stop_char_def split: if_splits)
  next
    case hash
    then obtain i2 where i2: "comment (mp_get i) = Inr i2" "spaces_loop nl True start i2 = Inr (p, i1)"
      using a c by (subst (asm) spaces_loop.simps) (auto split: sum.splits)
    with IH(4) hash g comment_length [OF i2(1)] show ?thesis by fastforce
  next
    case esc
    then obtain d where d: "lx_peek (mp_get i) = Inr d"
      "if xch d = LF then spaces_loop nl r start (mp_get (mp_get i)) = Inr (p, i1) else i1 = i"
      using a c by (subst (asm) spaces_loop.simps) (auto split: sum.splits if_splits)
    show ?thesis
    proof (cases "xch d = LF")
      case True
      with IH(5) esc d g mp_get_length [of "mp_get i"] show ?thesis by fastforce
    next
      case False
      with d(2) esc h show ?thesis by (simp add: stop_char_def)
    qed
  next
    case other
    with a c h show ?thesis by (subst (asm) spaces_loop.simps) (auto simp: stop_char_def)
  qed
qed

lemma lx_skip_spaces_ok:
  assumes "lexer_ok lx"
  shows "lx_skip_spaces lx \<noteq> Inl Lex_assertion"
    "lx_skip_spaces lx = Inr (p, lx1) \<Longrightarrow> lexer_ok lx1 \<and> lx_stack lx1 = lx_stack lx \<and> lexer_weight lx1 \<le> lexer_weight lx \<and>
      (st_space (hd (lx_stack lx)) \<longrightarrow> stop_char (st_newline (hd (lx_stack lx))) (lx_in lx1))"
proof -
  have n: "lx_peek (lx_in lx) \<noteq> Inl Lex_assertion"
    "spaces_loop (st_newline (hd (lx_stack lx))) (lx_sep lx) b (lx_in lx) \<noteq> Inl Lex_assertion" for b by simp_all
  then show "lx_skip_spaces lx \<noteq> Inl Lex_assertion"
    by (auto simp: lx_skip_spaces_def Let_def split: sum.split)
  show "lx_skip_spaces lx = Inr (p, lx1) \<Longrightarrow> lexer_ok lx1 \<and> lx_stack lx1 = lx_stack lx \<and> lexer_weight lx1 \<le> lexer_weight lx \<and>
      (st_space (hd (lx_stack lx)) \<longrightarrow> stop_char (st_newline (hd (lx_stack lx))) (lx_in lx1))"
    using assms by (auto simp: lx_skip_spaces_def Let_def lexer_weight_def dest!: spaces_loop_stop split: sum.splits if_splits)
qed


text \<open>A character that is no token of its own starts a word.\<close>

lemma separator_seq_true:
  "separator_seq ps c i = Inr True \<Longrightarrow> \<exists>s. (c, s) \<in> set ps \<and> (s = SP \<or> (\<exists>p. lx_peek i = Inr p \<and> xch p = s))"
proof (induction ps c i rule: separator_seq.induct)
  case (2 f s ps c i)
  show ?case
  proof (cases "f = c")
    case False
    with 2 show ?thesis by auto
  next
    case True
    with 2 show ?thesis by (fastforce split: sum.splits if_splits)
  qed
qed simp

text \<open>The separators are the tokens and the characters that \<open>skip_spaces ()\<close> does not stop at.\<close>

lemma separator_pairs:
  assumes "(c, s) \<in> set (zip (fst (separators m)) (snd (separators m)))" "c \<notin> {SP, TAB, LF, CHR ''#''}"
  shows "if m = Eval then (if s = SP then eval_char c \<noteq> None \<or> c \<in> {CHR ''<'', CHR ''>'', CHR ''!'', CHR ''|''}
      else s = c \<and> c \<in> {CHR ''='', CHR ''&''})
    else c \<in> {CHR ''$'', CHR ''('', CHR '')''} \<or> (if s = SP then mode_token m c \<noteq> None \<or> c = CHR ''='' \<and> m \<in> {Normal, Cmdvar}
      else s = CHR ''='' \<and> c \<in> {CHR ''+'', CHR ''?''} \<and> m \<in> {Normal, Cmdvar})"
proof -
  have c: "c \<noteq> SP" "c \<noteq> TAB" "c \<noteq> LF" "c \<noteq> CHR ''#''" using assms(2) by simp_all
  show ?thesis
    by (cases m; insert assms(1) c; simp add: separators_def; elim disjE conjE; simp add: mode_token_def eval_char_def)
qed

lemma plain_starts_word:
  assumes "state_ok st" "st_mode st \<notin> {Eval, Double_quoted, Foreign}"
    "d \<noteq> st_pair st" "d \<notin> {SP, TAB, LF, CHR ''#'', CHR ''$'', CHR ''('', CHR '')''}" "mode_token (st_mode st) d = None"
    "st_mode st \<in> {Normal, Cmdvar} \<and> d \<in> {CHR ''='', CHR ''+'', CHR ''?''} \<longrightarrow>
       (\<exists>p. lx_peek i = Inr p \<and> assign_token d (xch p) = None)"
  shows "starts_word st d i"
proof (rule ccontr)
  let ?m = "st_mode st"
  assume a: "\<not> starts_word st d i"
  have f: "st_first st = fst (separators ?m)" "st_second st = snd (separators ?m)"
    using assms(1) by (simp_all add: state_ok_def) (metis fst_conv snd_conv)+
  from a assms(2,3) have "separator_seq (zip (fst (separators ?m)) (snd (separators ?m))) d i = Inr True"
    by (simp add: starts_word_def separates_def f split: if_splits)
  then obtain s where s: "(d, s) \<in> set (zip (fst (separators ?m)) (snd (separators ?m)))"
    "s = SP \<or> (\<exists>p. lx_peek i = Inr p \<and> xch p = s)" using separator_seq_true by blast
  have "d \<notin> {SP, TAB, LF, CHR ''#''}" "?m \<noteq> Eval" "d \<notin> {CHR ''$'', CHR ''('', CHR '')''}" using assms(2,4) by auto
  with separator_pairs [OF s(1)] assms(5) have
    "if s = SP then d = CHR ''='' \<and> ?m \<in> {Normal, Cmdvar} else s = CHR ''='' \<and> d \<in> {CHR ''+'', CHR ''?''} \<and> ?m \<in> {Normal, Cmdvar}"
    by (simp split: if_splits)
  with s(2) assms(6) show False by (auto simp: assign_token_def split: if_splits)
qed

lemma eval_starts_word:
  assumes "state_ok st" "st_mode st = Eval" "d \<noteq> st_pair st" "d \<notin> {SP, TAB, LF, CHR ''#''}" "eval_char d = None"
    "d \<in> {CHR ''='', CHR ''!'', CHR ''<'', CHR ''>'', CHR ''|'', CHR ''&''} \<longrightarrow>
       (\<exists>p. lx_peek i = Inr p \<and> eval_token d (xch p) = None)"
  shows "starts_word st d i"
proof (rule ccontr)
  assume a: "\<not> starts_word st d i"
  have f: "st_first st = fst (separators Eval)" "st_second st = snd (separators Eval)"
    using assms(1,2) by (simp_all add: state_ok_def) (metis fst_conv snd_conv)+
  from a assms(2,3) have "separator_seq (zip (fst (separators Eval)) (snd (separators Eval))) d i = Inr True"
    by (simp add: starts_word_def separates_def f split: if_splits)
  then obtain s where s: "(d, s) \<in> set (zip (fst (separators Eval)) (snd (separators Eval)))"
    "s = SP \<or> (\<exists>p. lx_peek i = Inr p \<and> xch p = s)" using separator_seq_true by blast
  from separator_pairs [OF s(1) assms(4)] assms(5) have
    "if s = SP then d \<in> {CHR ''<'', CHR ''>'', CHR ''!'', CHR ''|''} else s = d \<and> d \<in> {CHR ''='', CHR ''&''}"
    by (simp split: if_splits)
  with s(2) assms(6) show False by (auto simp: eval_token_def split: if_splits)
qed

lemma starts_word_lsbrace: "starts_word (st\<lparr>st_lsbrace := b\<rparr>) d i = starts_word st d i"
  by (simp add: starts_word_def separates_def)

lemma lookahead_token_ok:
  assumes "lexer_ok lx" "lx_peek (lx_in lx) = Inr c" "\<not> eos c"
    "\<And>p. lx_peek (mp_get (lx_in lx)) = Inr p \<Longrightarrow> f (xch c) (xch p) = None \<Longrightarrow>
       starts_word (hd (lx_stack lx)) (xch c) (mp_get (lx_in lx))"
  shows "call_ok lx (lookahead_token f sep c lx)"
proof (cases "lx_peek (mp_get (lx_in lx))")
  case (Inl e)
  then have "e \<noteq> Lex_assertion" by auto
  with Inl show ?thesis by (simp add: lookahead_token_def)
next
  case (Inr p)
  have g: "length (mp_get (lx_in lx)) < length (lx_in lx)" "length (mp_get (mp_get (lx_in lx))) < length (lx_in lx)"
    using lx_peek_get [OF assms(2,3)] mp_get_length [of "mp_get (lx_in lx)"] by simp_all
  show ?thesis
  proof (cases "f (xch c) (xch p)")
    case None
    with Inr lex_word_ok [OF assms(1-3) assms(4) [OF Inr None], of sep] show ?thesis by (simp add: lookahead_token_def)
  next
    case (Some x)
    with Inr g assms(1) show ?thesis
      by (auto simp: lookahead_token_def lexer_weight_def intro!: call_ok_token split: prod.split)
  qed
qed

lemma brace_run_length: "brace_run i = Inr (v, i1) \<Longrightarrow> length i1 \<le> length i"
proof (induction i arbitrary: v i1 rule: brace_run.induct)
  case (1 i)
  obtain c where c: "lx_peek i = Inr c" using 1(2) by (subst (asm) brace_run.simps) (auto split: sum.splits)
  show ?case
  proof (cases "xch c = CHR ''{'' \<and> \<not> eos c")
    case True
    then obtain w where "brace_run (mp_get i) = Inr (w, i1)"
      using 1(2) c by (subst (asm) brace_run.simps) (auto split: sum.splits)
    with 1(1) [OF c True] lx_peek_get [OF c] True show ?thesis by fastforce
  next
    case False
    with 1(2) c show ?thesis by (subst (asm) brace_run.simps) auto
  qed
qed

lemma next_plain_ok:
  assumes "lexer_ok lx" "st_mode (hd (lx_stack lx)) \<notin> {Eval, Double_quoted, Foreign}"
  shows "call_ok lx (next_plain lx)"
proof (cases "lx_skip_spaces lx")
  case (Inl e)
  with lx_skip_spaces_ok(1) [OF assms(1)] show ?thesis by (auto simp: next_plain_def)
next
  case (Inr r)
  obtain sep first lx1 where r: "r = ((sep, first), lx1)" by (cases r) auto
  note sk = lx_skip_spaces_ok(2) [OF assms(1) Inr [unfolded r]]
  define st where "st = hd (lx_stack lx)"
  have st: "state_ok st" "st_space st" "hd (lx_stack lx1) = st" "lx_stack lx1 \<noteq> []"
    using assms lexer_okD [OF assms(1)] sk by (auto simp: st_def state_ok_def)
  show ?thesis
  proof (cases "lx_peek (lx_in lx1)")
    case inl: (Inl e)
    then have "e \<noteq> Lex_assertion" by auto
    with Inr r inl show ?thesis by (simp add: next_plain_def)
  next
    case inr: (Inr c)
    let ?lx2 = "clear_lsbrace lx1"
    let ?lx3 = "?lx2\<lparr>lx_in := mp_get (lx_in ?lx2)\<rparr>"
    have ok1: "lexer_ok lx1" using sk by simp
    note c2 = clear_lsbrace_ok [OF ok1]
    have w2: "lexer_weight ?lx2 \<le> lexer_weight lx" "lexer_ok ?lx2" using c2 sk by simp_all
    have mg: "length (mp_get (lx_in lx1)) \<le> length (lx_in lx1)" by (rule mp_get_length)
    show ?thesis
    proof (cases "eos c")
      case True
      then have "xch c = NUL" by (simp add: eos_def xch_def)
      with True Inr r inr have "next_plain lx = Inr (make_token sep c Tk_eos [], ?lx3)"
        by (simp add: next_plain_def Let_def opens_lsbrace_def)
      with w2 c2 mg show ?thesis by (simp add: call_ok_def make_token_def lexer_weight_def)
    next
      case False
      have h: "c = head (lx_in lx1)" by (rule lx_peek_head [OF inr])
      note g = lx_peek_get [OF inr False]
      have tok: "call_ok lx (Inr (t, ?lx3))" for t
        using w2 c2 g by (intro call_ok_token) (auto simp: lexer_weight_def)
      have braces: "call_ok lx (case brace_run (lx_in ?lx3) of Inl e \<Rightarrow> Inl e
          | Inr (v, i) \<Rightarrow> if v \<noteq> [] then Inr (make_token sep c Tk_multi_lcbrace (v @ ''{''), ?lx3\<lparr>lx_in := i\<rparr>)
              else Inr (make_token sep c Tk_lcbrace [], ?lx3))"
      proof (cases "brace_run (lx_in ?lx3)")
        case (Inl e)
        moreover from this brace_run_no_assert [of "lx_in ?lx3"] have "e \<noteq> Lex_assertion" by auto
        ultimately show ?thesis by simp
      next
        case (Inr x)
        obtain v i where x: "x = (v, i)" by (cases x)
        have "length i < length (lx_in lx1)" using brace_run_length [of "lx_in ?lx3" v i] Inr x g c2(2) by simp
        with Inr x tok w2 c2 show ?thesis by (auto simp: lexer_weight_def intro!: call_ok_token)
      qed
      have newl: "call_ok lx (Inr (t, newline_mode (st_mode st) ?lx3))" for t
      proof (rule call_ok_token)
        have "lexer_ok ?lx3" "st_mode st = st_mode (hd (lx_stack ?lx3))" using w2 c2 st by simp_all
        note newline_mode_ok [OF this]
        with tok show "lexer_ok (newline_mode (st_mode st) ?lx3)"
          "lexer_weight (newline_mode (st_mode st) ?lx3) < lexer_weight lx"
          using w2 c2 g by (auto simp: lexer_weight_def)
      qed
      have popped: "call_ok lx (Inr (t, pop_mode ?lx3))" if "st_mode st \<in> {Attributes, Attribute_value, Subscript}" for t
      proof (rule call_ok_token)
        have "lexer_ok ?lx3" "st_mode (hd (lx_stack ?lx3)) \<notin> {Normal, Cmdvar, Buildspec}" using w2 c2 st that by auto
        note pop_mode_ok [OF this]
        then show "lexer_ok (pop_mode ?lx3)" "lexer_weight (pop_mode ?lx3) < lexer_weight lx"
          using w2 c2 g by (auto simp: lexer_weight_def)
      qed
      have "stop_char (st_newline st) (lx_in lx1)" using sk st by (simp add: st_def)
      then have d: "xch c \<notin> {SP, TAB, CHR ''#''}" using False h by (auto simp: stop_char_def)
      have in2: "lx_peek (lx_in ?lx2) = Inr c" "hd (lx_stack ?lx2) = st\<lparr>st_lsbrace := False\<rparr>" "st_mode st \<notin> {Eval, Double_quoted, Foreign}"
        using c2 inr st assms(2) by (simp_all add: st_def)
      have la: "call_ok lx (lookahead_token assign_token sep c ?lx2)"
        if "xch c \<noteq> st_pair st" "xch c \<notin> {LF, CHR ''$'', CHR ''('', CHR '')''}" "mode_token (st_mode st) (xch c) = None"
      proof (rule call_ok_mono [OF lookahead_token_ok [OF w2(2) in2(1) False] w2(1)])
        fix p assume "lx_peek (mp_get (lx_in ?lx2)) = Inr p" "assign_token (xch c) (xch p) = None"
        with plain_starts_word [OF st(1) in2(3)] that d
        show "starts_word (hd (lx_stack ?lx2)) (xch c) (mp_get (lx_in ?lx2))"
          unfolding in2(2) starts_word_lsbrace by auto
      qed
      have wd: "call_ok lx (lex_word (hd (lx_stack ?lx2)) sep ?lx2)"
        if "xch c \<noteq> st_pair st" "xch c \<notin> {LF, CHR ''$'', CHR ''('', CHR '')''}" "mode_token (st_mode st) (xch c) = None"
          "\<not> (st_mode st \<in> {Normal, Cmdvar} \<and> xch c \<in> {CHR ''='', CHR ''+'', CHR ''?''})"
      proof (rule call_ok_mono [OF lex_word_ok [OF w2(2) in2(1) False] w2(1)])
        show "starts_word (hd (lx_stack ?lx2)) (xch c) (mp_get (lx_in ?lx2))"
          unfolding in2(2) starts_word_lsbrace using plain_starts_word [OF st(1) in2(3)] that d by auto
      qed
      have rs: "mode_token (st_mode st) (xch c) = Some Tk_rsbrace \<Longrightarrow> st_mode st \<in> {Attributes, Attribute_value, Subscript}"
        by (auto simp: mode_token_def split: if_splits)
      have rest: "call_ok lx (case mode_token (st_mode st) (xch c) of
            Some t \<Rightarrow> Inr (make_token sep c t [], if t = Tk_rsbrace then pop_mode ?lx3 else ?lx3)
          | None \<Rightarrow>
              if st_mode st \<in> {Normal, Cmdvar} \<and> xch c \<in> {CHR ''='', CHR ''+'', CHR ''?''}
              then lookahead_token assign_token sep c ?lx2
              else lex_word (hd (lx_stack ?lx2)) sep ?lx2)"
        if n: "xch c \<noteq> st_pair st" "xch c \<noteq> LF" "xch c \<noteq> CHR ''$''" "xch c \<noteq> CHR '')''" "xch c \<noteq> CHR ''(''"
      proof (cases "mode_token (st_mode st) (xch c)")
        case None
        have n': "xch c \<notin> {LF, CHR ''$'', CHR ''('', CHR '')''}" using n by simp
        show ?thesis using la [OF n(1) n' None] wd [OF n(1) n' None] None by (simp del: insert_iff)
      next
        case (Some t)
        then show ?thesis using tok popped [OF rs] by simp
      qed
      have e: "next_plain lx =
         (if opens_lsbrace st sep (xch c) then Inr (make_token sep c Tk_lsbrace [], ?lx3)
          else if xch c = st_pair st then Inr (make_token sep c Tk_pair_separator [xch c], ?lx3)
          else if xch c = LF then Inr (make_token True c Tk_newline [], newline_mode (st_mode st) ?lx3)
          else if xch c = CHR ''$'' then Inr (make_token sep c Tk_dollar [], ?lx3)
          else if xch c = CHR '')'' then Inr (make_token sep c Tk_rparen [], ?lx3)
          else if xch c = CHR ''(''
          then Inr (make_token (sep \<or> st_mode st = Buildspec \<and> length (lx_stack ?lx3) \<le> 3) c Tk_lparen [], ?lx3)
          else if st_mode st = Normal \<and> first \<and> xch c = CHR ''%'' then Inr (make_token sep c Tk_percent [], ?lx3)
          else if st_mode st = Normal \<and> first \<and> xch c = CHR ''{''
          then (case brace_run (lx_in ?lx3) of Inl e \<Rightarrow> Inl e
             | Inr (v, i) \<Rightarrow> if v \<noteq> [] then Inr (make_token sep c Tk_multi_lcbrace (v @ ''{''), ?lx3\<lparr>lx_in := i\<rparr>)
                 else Inr (make_token sep c Tk_lcbrace [], ?lx3))
          else case mode_token (st_mode st) (xch c) of
            Some t \<Rightarrow> Inr (make_token sep c t [], if t = Tk_rsbrace then pop_mode ?lx3 else ?lx3)
          | None \<Rightarrow>
              if st_mode st \<in> {Normal, Cmdvar} \<and> xch c \<in> {CHR ''='', CHR ''+'', CHR ''?''}
              then lookahead_token assign_token sep c ?lx2
              else lex_word (hd (lx_stack ?lx2)) sep ?lx2)"
        using Inr r inr False by (simp only: next_plain_def Let_def sum.case prod.case if_False st(3))
      show ?thesis unfolding e by (intro call_ok_if tok braces newl rest)
    qed
  qed
qed


lemma next_eval_ok:
  assumes "lexer_ok lx" "st_mode (hd (lx_stack lx)) = Eval"
  shows "call_ok lx (next_eval lx)"
proof (cases "lx_skip_spaces lx")
  case (Inl e)
  with lx_skip_spaces_ok(1) [OF assms(1)] show ?thesis by (auto simp: next_eval_def)
next
  case (Inr r)
  obtain sep first lx1 where r: "r = ((sep, first), lx1)" by (cases r) auto
  note sk = lx_skip_spaces_ok(2) [OF assms(1) Inr [unfolded r]]
  define st where "st = hd (lx_stack lx)"
  have st: "state_ok st" "st_space st" "hd (lx_stack lx1) = st" "st_mode st = Eval"
    using assms lexer_okD [OF assms(1)] sk by (auto simp: st_def state_ok_def)
  show ?thesis
  proof (cases "lx_peek (lx_in lx1)")
    case inl: (Inl e)
    then have "e \<noteq> Lex_assertion" by auto
    with Inr r inl show ?thesis by (simp add: next_eval_def)
  next
    case inr: (Inr c)
    let ?lx2 = "clear_lsbrace lx1"
    let ?lx3 = "?lx2\<lparr>lx_in := mp_get (lx_in ?lx2)\<rparr>"
    have ok1: "lexer_ok lx1" using sk by simp
    note c2 = clear_lsbrace_ok [OF ok1]
    have w2: "lexer_weight ?lx2 \<le> lexer_weight lx" "lexer_ok ?lx2" using c2 sk by simp_all
    show ?thesis
    proof (cases "eos c")
      case True
      with Inr r inr show ?thesis by (simp add: next_eval_def Let_def)
    next
      case False
      have h: "c = head (lx_in lx1)" by (rule lx_peek_head [OF inr])
      note g = lx_peek_get [OF inr False]
      have tok: "call_ok lx (Inr (t, ?lx3))" for t
        using w2 c2 g by (intro call_ok_token) (auto simp: lexer_weight_def)
      have popped: "call_ok lx (Inr (t, pop_mode ?lx3))" for t
      proof (rule call_ok_token)
        have "lexer_ok ?lx3" "st_mode (hd (lx_stack ?lx3)) \<notin> {Normal, Cmdvar, Buildspec}" using w2 c2 st by auto
        note pop_mode_ok [OF this]
        then show "lexer_ok (pop_mode ?lx3)" "lexer_weight (pop_mode ?lx3) < lexer_weight lx"
          using w2 c2 g by (auto simp: lexer_weight_def)
      qed
      have "stop_char (st_newline st) (lx_in lx1)" using sk st by (simp add: st_def)
      then have d: "xch c \<notin> {SP, TAB, CHR ''#''}" using False h by (auto simp: stop_char_def)
      have in2: "lx_peek (lx_in ?lx2) = Inr c" "hd (lx_stack ?lx2) = st\<lparr>st_lsbrace := False\<rparr>"
        using c2 inr st by simp_all
      let ?ops = "{CHR ''='', CHR ''!'', CHR ''<'', CHR ''>'', CHR ''|'', CHR ''&''}"
      have rest: "call_ok lx (case eval_char (xch c) of
            Some t \<Rightarrow> Inr (make_token sep c t [], if t = Tk_rparen then pop_mode ?lx3 else ?lx3)
          | None \<Rightarrow> if xch c \<in> ?ops then lookahead_token eval_token sep c ?lx2
              else lex_word (hd (lx_stack ?lx2)) sep ?lx2)"
        if n: "xch c \<noteq> st_pair st" "xch c \<noteq> LF"
      proof (cases "eval_char (xch c)")
        case (Some t)
        then show ?thesis using tok popped by simp
      next
        case None
        have d': "xch c \<notin> {SP, TAB, LF, CHR ''#''}" using d n by simp
        note ew = eval_starts_word [OF st(1,4) n(1) d' None]
        show ?thesis
        proof (cases "xch c \<in> ?ops")
          case True
          have "call_ok lx (lookahead_token eval_token sep c ?lx2)"
          proof (rule call_ok_mono [OF lookahead_token_ok [OF w2(2) in2(1) False] w2(1)])
            fix p assume "lx_peek (mp_get (lx_in ?lx2)) = Inr p" "eval_token (xch c) (xch p) = None"
            with ew show "starts_word (hd (lx_stack ?lx2)) (xch c) (mp_get (lx_in ?lx2))"
              unfolding in2(2) starts_word_lsbrace by blast
          qed
          with True None show ?thesis by (simp del: insert_iff)
        next
          case no: False
          have "call_ok lx (lex_word (hd (lx_stack ?lx2)) sep ?lx2)"
          proof (rule call_ok_mono [OF lex_word_ok [OF w2(2) in2(1) False] w2(1)])
            show "starts_word (hd (lx_stack ?lx2)) (xch c) (mp_get (lx_in ?lx2))"
              unfolding in2(2) starts_word_lsbrace using ew no by blast
          qed
          with no None show ?thesis by (simp del: insert_iff)
        qed
      qed
      have e: "next_eval lx =
         (if opens_lsbrace st sep (xch c) then Inr (make_token sep c Tk_lsbrace [], ?lx3)
          else if xch c = st_pair st then Inr (make_token sep c Tk_pair_separator [xch c], ?lx3)
          else if xch c = LF then fail_at c ''newline in evaluation context''
          else case eval_char (xch c) of
            Some t \<Rightarrow> Inr (make_token sep c t [], if t = Tk_rparen then pop_mode ?lx3 else ?lx3)
          | None \<Rightarrow> if xch c \<in> ?ops then lookahead_token eval_token sep c ?lx2
              else lex_word (hd (lx_stack ?lx2)) sep ?lx2)"
        using Inr r inr False by (simp only: next_eval_def Let_def sum.case prod.case if_False st(3))
      show ?thesis unfolding e by (intro call_ok_if tok rest call_ok_fail(1))
    qed
  qed
qed

lemma next_quoted_ok:
  assumes "lexer_ok lx" "st_mode (hd (lx_stack lx)) = Double_quoted"
  shows "call_ok lx (next_quoted lx)"
proof (cases "lx_peek (lx_in lx)")
  case (Inl e)
  then have "e \<noteq> Lex_assertion" by auto
  with Inl show ?thesis by (simp add: next_quoted_def)
next
  case (Inr c)
  show ?thesis
  proof (cases "eos c")
    case True
    with Inr show ?thesis by (simp add: next_quoted_def)
  next
    case False
    have tok: "call_ok lx (Inr (t, lx\<lparr>lx_in := mp_get (lx_in lx)\<rparr>))" for t
      using assms(1) lx_peek_get [OF Inr False] by (intro call_ok_token) (simp_all add: lexer_weight_def)
    have "call_ok lx (lex_word (hd (lx_stack lx)) False lx)" if "xch c \<noteq> CHR ''$''" "xch c \<noteq> CHR ''(''"
      using lex_word_ok [OF assms(1) Inr False] that assms(2) by (simp add: starts_word_def)
    with tok Inr False show ?thesis by (simp add: next_quoted_def)
  qed
qed

lemma foreign_loop_ok:
  assumes "lexer_ok lx" "n > 0"
  shows "call_ok lx (foreign_loop n c0 first v lx)"
  using assms
proof (induction n c0 first v lx rule: foreign_loop.induct)
  case (1 n c0 first v lx)
  note ok = 1(4) and n = 1(5)
  show ?case
  proof (cases "lx_peek (lx_in lx)")
    case (Inl e)
    then have "e \<noteq> Lex_assertion" by auto
    with Inl show ?thesis by (subst foreign_loop.simps) simp
  next
    case (Inr c)
    show ?thesis
    proof (cases "eos c")
      case True
      with Inr ok show ?thesis by (subst foreign_loop.simps) (simp add: call_ok_def make_token_def)
    next
      case False
      note g = lx_peek_get [OF Inr False]
      have smaller: "call_ok lx r" if "call_ok (lx\<lparr>lx_in := i\<rparr>) r" "length i \<le> length (lx_in lx)" for r i
        using that by (intro call_ok_mono [OF that(1)]) (simp add: lexer_weight_def)
      show ?thesis
      proof (cases first)
        case no: False
        have "call_ok (lx\<lparr>lx_in := mp_get (lx_in lx)\<rparr>) (foreign_loop n c0 (xch c = LF) (v @ [xch c]) (lx\<lparr>lx_in := mp_get (lx_in lx)\<rparr>))"
          using 1(1) [OF Inr False] no ok n by simp
        from smaller [OF this] g Inr False no show ?thesis by (subst foreign_loop.simps) simp
      next
        case first: True
        show ?thesis
        proof (cases "blanks (lx_in lx)")
          case (Inl e)
          moreover from this blanks_no_assert [of "lx_in lx"] have "e \<noteq> Lex_assertion" by auto
          ultimately show ?thesis using Inr False first by (subst foreign_loop.simps) simp
        next
          case b: (Inr x)
          obtain bl i1 where x: "x = (bl, i1)" by (cases x)
          note bx = b [unfolded x] and bl = blanks_length [OF b [unfolded x]]
          show ?thesis
          proof (cases "closing_braces n i1")
            case (Inl e)
            moreover from this closing_braces_no_assert [of n i1] have "e \<noteq> Lex_assertion" by auto
            ultimately show ?thesis using Inr False first bx by (subst foreign_loop.simps) simp
          next
            case cb: (Inr y)
            obtain k i2 where y: "y = (k, i2)" by (cases y)
            note cbx = cb [unfolded y] and cbl = closing_braces_length [OF cb [unfolded y]]
            show ?thesis
            proof (cases k)
              case k: (Suc k')
              show ?thesis
              proof (cases "lx_peek i2")
                case (Inl e)
                moreover from this have "e \<noteq> Lex_assertion" by auto
                ultimately show ?thesis using Inr False first bx cbx k by (subst foreign_loop.simps) simp
              next
                case p: (Inr d)
                show ?thesis
                proof (cases "eos d")
                  case True
                  with Inr False first bx cbx k p ok bl cbl show ?thesis
                    by (subst foreign_loop.simps) (simp add: call_ok_def make_token_def lexer_weight_def)
                next
                  case nd: False
                  let ?lx = "lx\<lparr>lx_in := mp_get i2\<rparr>"
                  have "call_ok ?lx (foreign_loop n c0 (xch d = LF) (v @ bl @ replicate (n - Suc k') (CHR ''}'') @ [xch d]) ?lx)"
                    using 1(3) [OF Inr False _ bx refl cbx refl k p nd] first ok n by simp
                  from smaller [OF this] bl cbl mp_get_length [of i2] Inr False first bx cbx k p nd show ?thesis
                    by (subst foreign_loop.simps) simp
                qed
              qed
            next
              case k: 0
              have sh: "length i2 < length i1" using cbx n k
                by (cases n) (auto dest!: closing_braces_length lx_peek_get split: sum.splits if_splits)
              show ?thesis
              proof (cases "blanks i2")
                case (Inl e)
                moreover from this blanks_no_assert [of i2] have "e \<noteq> Lex_assertion" by auto
                ultimately show ?thesis using Inr False first bx cbx k by (subst foreign_loop.simps) simp
              next
                case b2: (Inr z)
                obtain bl2 i3 where z: "z = (bl2, i3)" by (cases z)
                note b2x = b2 [unfolded z] and b2l = blanks_length [OF b2 [unfolded z]]
                show ?thesis
                proof (cases "lx_peek i3")
                  case (Inl e)
                  moreover from this have "e \<noteq> Lex_assertion" by auto
                  ultimately show ?thesis using Inr False first bx cbx k b2x by (subst foreign_loop.simps) simp
                next
                  case p: (Inr d)
                  show ?thesis
                  proof (cases "eos d \<or> xch d = LF \<or> xch d = CHR ''#''")
                    case True
                    let ?f = "\<lambda>st. st\<lparr>st_hold := Some (hold_brace (head i1) n)\<rparr>"
                    have f: "state_ok (?f st) \<and> st_mode (?f st) = st_mode st" if "state_ok st" for st
                      using that by (simp add: state_ok_def)
                    note t = set_top_ok [OF ok, of ?f, OF f]
                    have "call_ok lx (Inr (foreign_word c0 v, (set_top ?f lx)\<lparr>lx_in := i3\<rparr>))"
                      using t bl cbl b2l sh by (intro call_ok_token) (auto simp: lexer_weight_def)
                    with True Inr False first bx cbx k b2x p show ?thesis by (subst foreign_loop.simps) simp
                  next
                    case nd: False
                    let ?lx = "lx\<lparr>lx_in := mp_get i3\<rparr>"
                    have "call_ok ?lx (foreign_loop n c0 False (v @ bl @ replicate n (CHR ''}'') @ bl2 @ [xch d]) ?lx)"
                      using 1(2) [OF Inr False _ bx refl cbx refl k b2x refl p nd] first ok n by simp
                    from smaller [OF this] bl cbl b2l mp_get_length [of i3] Inr False first bx cbx k b2x p nd show ?thesis
                      by (subst foreign_loop.simps) simp
                  qed
                qed
              qed
            qed
          qed
        qed
      qed
    qed
  qed
qed

lemma next_foreign_ok:
  assumes "lexer_ok lx" "st_mode (hd (lx_stack lx)) = Foreign"
  shows "call_ok lx (next_foreign lx)"
proof -
  have "st_mode (hd (lx_stack lx)) \<notin> {Normal, Cmdvar, Buildspec}" using assms(2) by simp
  note p = pop_mode_ok [OF assms(1) this]
  have t: "call_ok lx (Inr (t, pop_mode lx))" for t using p by (intro call_ok_token) (auto simp: lexer_weight_def)
  obtain n where n: "st_data (hd (lx_stack lx)) = Number n" "n > 0"
    using lexer_okD(2) [OF assms(1)] assms(2) by (auto simp: state_ok_def)
  have "call_ok lx (Inl e)" if "lx_peek (lx_in lx) = Inl e" for e using that by auto
  with t n foreign_loop_ok [OF assms(1) n(2)] show ?thesis
    by (simp add: next_foreign_def Let_def split: option.split sum.split)
qed

lemma lx_next_ok:
  assumes "lexer_ok lx"
  shows "call_ok lx (lx_next lx)"
proof -
  obtain st sts where s: "lx_stack lx = st # sts" using lexer_okD(1) [OF assms] by (cases "lx_stack lx") auto
  have "st_mode st \<noteq> Single_quoted" using lexer_okD(2) [OF assms] s by (simp add: state_ok_def)
  then show ?thesis
    using next_plain_ok [OF assms] next_eval_ok [OF assms] next_quoted_ok [OF assms] next_foreign_ok [OF assms] s
    by (cases "st_mode st") (simp_all add: lx_next_def)
qed


section \<open>Reachable lexers\<close>

lemma lexer_start_ok: "lexer_start lx \<Longrightarrow> lexer_ok lx"
  unfolding lexer_start_def new_lexer_def using set_mode_ok by fastforce

lemma peek_chars_shape:
  assumes "peek_chars lx = Inr (r, lx1)"
  obtains sep lx0 where "lx_skip_spaces lx = Inr ((sep, False), lx0)" "lx1 = lx0\<lparr>lx_sep := sep\<rparr>" "snd r = sep"
  using assms that by (auto simp: peek_chars_def Let_def split: sum.splits prod.splits if_splits)

lemma lexer_step_ok:
  assumes "lexer_ok lx" "lexer_step lx lx1"
  shows "lexer_ok lx1"
  using assms(2)
proof cases
  case (call t)
  with lx_next_ok [OF assms(1)] show ?thesis by (simp add: call_ok_def)
next
  case (peeked r)
  then obtain sep lx0 where p: "lx_skip_spaces lx = Inr ((sep, False), lx0)" "lx1 = lx0\<lparr>lx_sep := sep\<rparr>"
    by (rule peek_chars_shape)
  with lx_skip_spaces_ok(2) [OF assms(1) p(1)] show ?thesis by simp
next
  case (moded m ps esc d)
  with assms(1) show ?thesis by (intro set_mode_ok [OF moded(1)]) auto
next
  case (lsbrace unsep)
  with assms(1) show ?thesis by (auto simp: lexer_ok_def enable_lsbrace_def state_ok_def split: list.split)
next
  case expired
  then show ?thesis using assms(1) by (cases "lx_stack lx"; cases "tl (lx_stack lx)") (auto simp: lexer_ok_def pop_mode_def)
qed

interpretation lexing: invariant_system lexer_start lexer_step lexer_ok
  by unfold_locales (auto intro: lexer_start_ok lexer_step_ok)

text \<open>C15: Whatever the buildfile, and whatever modes the parser chooses, no assertion of the lexer fails and no state is
  taken from an empty stack; and every call of \<open>next ()\<close> that does not return the end of the buildfile brings the
  lexer nearer to it, in the characters that are left and the modes that are still to be closed.\<close>

theorem lexer_total:
  assumes "lexer_start lx0" "lexer_step\<^sup>*\<^sup>* lx0 lx"
  shows "lx_next lx \<noteq> Inl Lex_assertion \<and>
    (\<forall>t lx1. lx_next lx = Inr (t, lx1) \<longrightarrow> tk_type t = Tk_eos \<or> lexer_weight lx1 < lexer_weight lx)"
proof -
  have "call_ok lx (lx_next lx)" by (rule lx_next_ok [OF lexing.reach_inv [OF assms]])
  then show ?thesis by (auto simp: call_ok_def)
qed

lemma calls_end:
  assumes "lexer_ok lx"
  shows "\<exists>n \<le> Suc (lexer_weight lx).
    (\<exists>l c w. lex_calls n lx = Inl (Lex_fail l c w)) \<or>
    (\<exists>ts t lx1. lex_calls n lx = Inr (ts @ [t], lx1) \<and> tk_type t = Tk_eos)"
  using assms
proof (induction "lexer_weight lx" arbitrary: lx rule: less_induct)
  case less
  note ok = lx_next_ok [OF less.prems]
  show ?case
  proof (cases "lx_next lx")
    case (Inl e)
    with ok obtain l c w where "e = Lex_fail l c w" by (cases e) (auto simp: call_ok_def)
    with Inl show ?thesis by (intro exI [of _ 1]) simp
  next
    case (Inr r)
    obtain t lx1 where r: "r = (t, lx1)" by (cases r)
    show ?thesis
    proof (cases "tk_type t = Tk_eos")
      case True
      with Inr r show ?thesis by (intro exI [of _ 1]) simp
    next
      case False
      with ok Inr r have w: "lexer_weight lx1 < lexer_weight lx" "lexer_ok lx1" by (auto simp: call_ok_def)
      from less.hyps [OF this] obtain n where n: "n \<le> Suc (lexer_weight lx1)"
        "(\<exists>l c w. lex_calls n lx1 = Inl (Lex_fail l c w)) \<or>
         (\<exists>ts t lx2. lex_calls n lx1 = Inr (ts @ [t], lx2) \<and> tk_type t = Tk_eos)" by blast
      from n(2) have "(\<exists>l c w. lex_calls (Suc n) lx = Inl (Lex_fail l c w)) \<or>
          (\<exists>ts t' lx2. lex_calls (Suc n) lx = Inr (ts @ [t'], lx2) \<and> tk_type t' = Tk_eos)"
      proof (elim disjE exE conjE)
        fix ts t' lx2 assume "lex_calls n lx1 = Inr (ts @ [t'], lx2)" "tk_type t' = Tk_eos"
        then have "lex_calls (Suc n) lx = Inr ((t # ts) @ [t'], lx2)" using Inr r by simp
        with \<open>tk_type t' = Tk_eos\<close> show ?thesis by blast
      qed (use Inr r in simp)
      with n(1) w(1) show ?thesis by (intro exI [of _ "Suc n"]) simp
    qed
  qed
qed

text \<open>C21: A parser that goes on calling \<open>next ()\<close> comes to an error or to the end of the buildfile, after at most one call
  more than two for each character that is left and one for each mode on the stack.\<close>

theorem lexer_ends:
  assumes "lexer_start lx0" "lexer_step\<^sup>*\<^sup>* lx0 lx"
  shows "\<exists>n \<le> Suc (lexer_weight lx).
    (\<exists>l c w. lex_calls n lx = Inl (Lex_fail l c w)) \<or>
    (\<exists>ts t lx1. lex_calls n lx = Inr (ts @ [t], lx1) \<and> tk_type t = Tk_eos)"
  by (rule calls_end [OF lexing.reach_inv [OF assms]])

section \<open>Peeking at characters\<close>

lemma spaces_loop_again:
  "spaces_loop nl r start i = Inr ((r1, start1), i1) \<Longrightarrow>
    start1 = start \<and> (\<not> start \<longrightarrow> spaces_loop nl r' False i1 = Inr ((r', False), i1)) \<and> (\<exists>c. lx_peek i1 = Inr c)"
proof (induction nl r start i rule: spaces_loop.induct)
  case (1 nl r start i)
  then obtain c where c: "lx_peek i = Inr c" by (subst (asm) (6) spaces_loop.simps) (auto split: sum.splits)
  note IH = 1(1-5) [OF c] and a = 1(6)
  let ?goal = "start1 = start \<and> (\<not> start \<longrightarrow> spaces_loop nl r' False i1 = Inr ((r', False), i1)) \<and> (\<exists>c. lx_peek i1 = Inr c)"
  have stop: ?goal if "i1 = i" "start1 = start" "spaces_loop nl r' start i = Inr ((r', start), i)"
    using that c by auto
  consider (eos) "eos c" | (blank) "\<not> eos c" "xch c = SP \<or> xch c = TAB" | (lf) "\<not> eos c" "xch c = LF"
    | (hash) "\<not> eos c" "xch c = CHR ''#''" | (esc) "\<not> eos c" "xch c = BSL"
    | (other) "\<not> eos c" "xch c \<notin> {SP, TAB, LF, CHR ''#'', BSL}" by blast
  then show ?case
  proof cases
    case eos
    then have s: "spaces_loop nl x start i = Inr ((x, start), i)" for x using c by (subst spaces_loop.simps) simp
    from a [unfolded s] s show ?thesis by (intro stop) auto
  next
    case blank
    then have "spaces_loop nl True start (mp_get i) = Inr ((r1, start1), i1)" using a c by (subst (asm) spaces_loop.simps) auto
    with IH(1) blank show ?thesis by simp
  next
    case lf
    show ?thesis
    proof (cases "nl \<and> \<not> start")
      case True
      then have s: "spaces_loop nl x start i = Inr ((x, start), i)" for x using c lf by (subst spaces_loop.simps) simp
      from a [unfolded s] s show ?thesis by (intro stop) auto
    next
      case False
      then have "spaces_loop nl (\<not> nl) start (mp_get i) = Inr ((r1, start1), i1)"
        using a c lf by (subst (asm) spaces_loop.simps) (auto split: if_splits)
      with IH(2,3) lf False show ?thesis by (cases nl) simp_all
    qed
  next
    case hash
    then obtain i2 where "comment (mp_get i) = Inr i2" "spaces_loop nl True start i2 = Inr ((r1, start1), i1)"
      using a c by (subst (asm) spaces_loop.simps) (auto split: sum.splits)
    with IH(4) hash show ?thesis by simp
  next
    case esc
    then obtain d where d: "lx_peek (mp_get i) = Inr d" using a c by (subst (asm) spaces_loop.simps) (auto split: sum.splits)
    show ?thesis
    proof (cases "xch d = LF")
      case True
      then have "spaces_loop nl r start (mp_get (mp_get i)) = Inr ((r1, start1), i1)"
        using a c d esc by (subst (asm) spaces_loop.simps) simp
      with IH(5) esc d True show ?thesis by simp
    next
      case False
      then have s: "spaces_loop nl x start i = Inr ((x, start), i)" for x using c d esc by (subst spaces_loop.simps) simp
      from a [unfolded s] s show ?thesis by (intro stop) auto
    qed
  next
    case other
    then have s: "spaces_loop nl x start i = Inr ((x, start), i)" for x using c by (subst spaces_loop.simps) simp
    from a [unfolded s] s show ?thesis by (intro stop) auto
  qed
qed

lemma skip_spaces_again:
  assumes "lx_skip_spaces lx = Inr ((sep, False), lx0)" "lexer_ok lx"
    "st_space (hd (lx_stack lx)) \<Longrightarrow> xcolumn (head (lx_in lx0)) \<noteq> 1"
  shows "lx_skip_spaces (lx0\<lparr>lx_sep := sep\<rparr>) = Inr ((sep, False), lx0)"
proof (cases "st_space (hd (lx_stack lx))")
  case False
  with assms(1) show ?thesis by (cases lx) (auto simp: lx_skip_spaces_def Let_def)
next
  case True
  obtain b where b: "lx_peek (lx_in lx) = Inr b"
    using True assms(1) by (auto simp: lx_skip_spaces_def Let_def split: sum.splits)
  obtain i where c: "spaces_loop (st_newline (hd (lx_stack lx))) (lx_sep lx) (xcolumn b = 1) (lx_in lx) =
      Inr ((sep, False), i)" "lx0 = lx\<lparr>lx_sep := False, lx_in := i\<rparr>"
    using True b assms(1) by (auto simp: lx_skip_spaces_def Let_def split: sum.splits)
  from spaces_loop_again [OF c(1), of sep] obtain d where d: "lx_peek i = Inr d"
    "spaces_loop (st_newline (hd (lx_stack lx))) sep False i = Inr ((sep, False), i)" by auto
  have "xcolumn d \<noteq> 1" using assms(3) [OF True] c(2) lx_peek_head [OF d(1)] by simp
  with True c(2) d show ?thesis by (cases lx) (simp add: lx_skip_spaces_def Let_def)
qed

text \<open>C36: To peek at the next two characters does not change the next token, nor whether it is separated, as long as the
  characters are not at the beginning of a line.\<close>

theorem peek_chars_transparent:
  assumes "lexer_start lx0" "lexer_step\<^sup>*\<^sup>* lx0 lx" "peek_chars lx = Inr (((c0, c1), sep), lx1)"
    "xcolumn (head (lx_in lx1)) \<noteq> 1"
  shows "lx_next lx1 = lx_next lx"
proof -
  have ok: "lexer_ok lx" by (rule lexing.reach_inv [OF assms(1,2)])
  obtain lx2 where p: "lx_skip_spaces lx = Inr ((sep, False), lx2)" "lx1 = lx2\<lparr>lx_sep := sep\<rparr>"
    using assms(3) by (elim peek_chars_shape) auto
  have "lx_skip_spaces lx1 = Inr ((sep, False), lx2)"
    unfolding p(2) using assms(4) p(2) by (intro skip_spaces_again [OF p(1) ok]) simp
  then have n: "next_plain lx1 = next_plain lx" "next_eval lx1 = next_eval lx"
    using p(1) by (simp_all add: next_plain_def next_eval_def)
  have st: "lx_stack lx1 = lx_stack lx" using lx_skip_spaces_ok(2) [OF ok p(1)] p(2) by simp
  have q: "lx1 = lx" if "\<not> st_space (hd (lx_stack lx))"
    using p that by (cases lx; cases lx2) (simp add: lx_skip_spaces_def Let_def)
  obtain s sts where s: "lx_stack lx = s # sts" using lexer_okD(1) [OF ok] by (cases "lx_stack lx") auto
  have "\<not> st_space s" if "st_mode s \<in> {Foreign, Double_quoted}" using lexer_okD(2) [OF ok] s that by (auto simp: state_ok_def)
  with n st q s show ?thesis by (cases "st_mode s") (simp_all add: lx_next_def)
qed

end
