(* ===== verification/Name_Quoting.thy ===== *)
theory Name_Quoting
  imports Buildfile_Lexer_Properties
begin

text \<open>
  How \<open>libbuild2\<close> prints names (\<open>name.cxx\<close>), for names without a project, a directory and a type, which can
  represent any text; and that the lexer reads such names back as they were when they have been quoted.
\<close>

section \<open>Printing\<close>

definition quote_chars :: "char \<Rightarrow> string" where
  "quote_chars pair =
     ''{}[]$()'' @ [SP, TAB, LF] @ ''#'' @ [BSL, DQ] @ ''%*?'' @ (if pair = NUL then [] else [pair])"

definition special_in_double :: "char \<Rightarrow> bool" where
  "special_in_double c \<longleftrightarrow> c \<in> {BSL, CHR ''$'', CHR ''('', DQ, NUL}"

definition escape_double :: "string \<Rightarrow> string" where
  "escape_double v = concat (map (\<lambda>c. if special_in_double c then [BSL, c] else [c]) v)"

text \<open>The lambda \<open>write_string\<close>\<close>

definition write_string :: "bool \<Rightarrow> char \<Rightarrow> bool \<Rightarrow> string \<Rightarrow> string" where
  "write_string quote pair escape v =
     (let e = (if escape then [BSL] else []) in
      if quote \<and> SQ \<in> set v then e @ [DQ] @ escape_double v @ e @ [DQ]
      else if quote \<and> (\<exists>c \<in> set v. c \<in> set (quote_chars pair)) then e @ [SQ] @ v @ e @ [SQ]
      else v)"

definition write_simple_name :: "bool \<Rightarrow> char \<Rightarrow> bool \<Rightarrow> string \<Rightarrow> string" where
  "write_simple_name quote pair escape v =
     (if quote \<and> v = [] then (if escape then [BSL, SQ, BSL, SQ] else [SQ, SQ])
      else if v = [] then ''{}''
      else write_string quote pair escape v)"

text \<open>A list of names, each with the character of its pair or NUL.\<close>

fun write_names :: "bool \<Rightarrow> char \<Rightarrow> bool \<Rightarrow> (string \<times> char) list \<Rightarrow> string" where
  "write_names quote pair escape [] = []"
| "write_names quote pair escape ((v, p) # ns) =
     write_simple_name quote pair escape v @
     (if p \<noteq> NUL then [p] else if ns \<noteq> [] then [SP] else []) @ write_names quote pair escape ns"

section \<open>Reading\<close>

text \<open>The value mode as the parser sets it for a variable value.\<close>

definition value_state :: "char \<Rightarrow> lexer_state \<Rightarrow> bool" where
  "value_state ps st \<longleftrightarrow>
     st_mode st = Value \<and> st_pair st = ps \<and> st_space st \<and> st_newline st \<and> st_quotes st \<and> st_escapes st = None \<and>
     (st_first st, st_second st) = separators Value"

definition value_separators :: "string" where
  "value_separators = '' $(){}#'' @ [TAB, LF]"

lemma reads_peek:
  assumes "reads i (c # s)"
  shows "lx_peek i = Inr (head i)" "\<not> eos (head i)" "xch (head i) = c" "reads (mp_get i) s"
  using reads_hd [OF assms] by (auto simp: lx_peek_def Let_def)

lemma reads_end: "reads i [] \<Longrightarrow> lx_peek i = Inr (head i) \<and> eos (head i)"
  using reads_Nil [of i] by (auto simp: lx_peek_def Let_def eos_def)

lemma word_loop_go: "word_step w lx = Inr (True, w1, lx1) \<Longrightarrow> word_loop w lx = word_loop w1 lx1"
  by (subst word_loop.simps) simp

lemma word_loop_stop: "word_step w lx = Inr (False, w1, lx1) \<Longrightarrow> word_loop w lx = Inr (w1, lx1)"
  by (subst word_loop.simps) simp

lemma separator_seq_single:
  "length ss = length cs \<Longrightarrow> set ss \<subseteq> {SP} \<Longrightarrow> separator_seq (zip cs ss) c i = Inr (c \<in> set cs)"
  by (induction cs ss rule: list_induct2') auto

lemma value_separates:
  assumes "value_state ps st"
  shows "separates st c i = Inr (c = ps \<or> c \<in> set value_separators)"
proof -
  have f: "st_first st = value_separators" "st_second st = ''         ''" "st_pair st = ps"
    using assms by (simp_all add: value_state_def separators_def value_separators_def)
  have "separator_seq (zip (st_first st) (st_second st)) c i = Inr (c \<in> set value_separators)"
    unfolding f by (rule separator_seq_single) (simp_all add: value_separators_def)
  then show ?thesis by (simp add: separates_def f(3))
qed

text \<open>What follows a name: a pair separator, a space, a newline or nothing.\<close>

definition ends_name :: "char \<Rightarrow> string \<Rightarrow> bool" where
  "ends_name ps s \<longleftrightarrow> s = [] \<or> hd s = ps \<or> hd s = SP \<or> hd s = LF"

lemma stop_step:
  assumes "value_state ps (ws_st w)" "reads (lx_in lx) s" "ends_name ps s" "ps \<noteq> BSL"
  shows "word_step w lx = Inr (False, w, lx)"
proof (cases s)
  case Nil
  with reads_end assms(2) show ?thesis by (simp add: word_step_def)
next
  case (Cons c t)
  note r = reads_peek [OF assms(2) [unfolded Cons]]
  have "c = ps \<or> c = SP \<or> c = LF" using assms(3) Cons by (simp add: ends_name_def)
  then have "c \<noteq> BSL" "separates (ws_st w) c (mp_get (lx_in lx)) = Inr True"
    using assms(4) value_separates [OF assms(1)] by (auto simp: value_separators_def)
  with r assms(1) show ?thesis
    by (simp add: word_step_def word_char_def plain_char_def value_state_def)
qed

definition plain_in_value :: "char \<Rightarrow> char \<Rightarrow> bool" where
  "plain_in_value ps c \<longleftrightarrow> c \<noteq> ps \<and> c \<notin> set value_separators \<and> c \<noteq> BSL \<and> c \<noteq> SQ \<and> c \<noteq> DQ"

lemma plain_step:
  assumes "value_state ps (ws_st w)" "reads (lx_in lx) (c # s)" "plain_in_value ps c"
  shows "word_step w lx = Inr (True, append_char c w, lx\<lparr>lx_in := mp_get (lx_in lx)\<rparr>)"
proof -
  note r = reads_peek [OF assms(2)]
  have "separates (ws_st w) c (mp_get (lx_in lx)) = Inr False"
    using assms(3) value_separates [OF assms(1)] by (simp add: plain_in_value_def)
  with r assms(1,3) show ?thesis
    by (simp add: word_step_def word_char_def plain_char_def take_char_def value_state_def plain_in_value_def)
qed

text \<open>The word is read up to the rest of the text.\<close>

definition reads_word :: "word_state \<Rightarrow> lexer \<Rightarrow> string \<Rightarrow> string \<Rightarrow> bool" where
  "reads_word w lx v s \<longleftrightarrow>
     (\<exists>w1 lx1. word_loop w lx = Inr (w1, lx1) \<and> ws_lexeme w1 = v \<and> ws_st w1 = ws_st w \<and>
        lx_stack lx1 = lx_stack lx \<and> lx_sep lx1 = lx_sep lx \<and> reads (lx_in lx1) s)"

lemma read_stop:
  assumes "value_state ps (ws_st w)" "reads (lx_in lx) s" "ends_name ps s" "ps \<noteq> BSL"
  shows "reads_word w lx (ws_lexeme w) s"
  using word_loop_stop [OF stop_step [OF assms]] assms(2) by (auto simp: reads_word_def)

lemma read_plain:
  assumes "value_state ps (ws_st w)" "reads (lx_in lx) (v @ s)" "ends_name ps s" "ps \<noteq> BSL" "list_all (plain_in_value ps) v"
  shows "reads_word w lx (ws_lexeme w @ v) s"
  using assms
proof (induction v arbitrary: w lx)
  case Nil
  with read_stop show ?case by simp
next
  case (Cons c v)
  let ?lx = "lx\<lparr>lx_in := mp_get (lx_in lx)\<rparr>"
  have s: "word_loop w lx = word_loop (append_char c w) ?lx"
    using Cons.prems by (intro word_loop_go plain_step [of ps w lx c "v @ s"]) simp_all
  have "reads_word (append_char c w) ?lx (ws_lexeme (append_char c w) @ v) s"
    using Cons.prems reads_peek(4) [of "lx_in lx" c "v @ s"] by (intro Cons.IH) simp_all
  with s show ?case by (simp add: reads_word_def append_char_def)
qed

lemma single_quoted_reads:
  assumes "reads i (v @ SQ # s)" "SQ \<notin> set v"
  shows "\<exists>i1. single_quoted u i = Inr (u @ v, i1) \<and> reads i1 s"
  using assms
proof (induction v arbitrary: u i)
  case Nil
  with reads_peek [of i SQ s] show ?case by (subst single_quoted.simps) simp
next
  case (Cons c v)
  note r = reads_peek [of i c "v @ SQ # s"]
  obtain i1 where "single_quoted (u @ [c]) (mp_get i) = Inr (u @ c # v, i1)" "reads i1 s"
    using Cons.IH [of "mp_get i" "u @ [c]"] Cons.prems r by auto
  moreover have "c \<noteq> SQ" using Cons.prems by auto
  ultimately show ?case using Cons.prems r by (subst single_quoted.simps) simp
qed

lemma read_single:
  assumes "value_state ps (ws_st w)" "reads (lx_in lx) (SQ # v @ SQ # s)" "SQ \<notin> set v" "ends_name ps s" "ps \<noteq> BSL" "ps \<noteq> SQ"
    "lx_stack lx \<noteq> []"
  shows "reads_word w lx (ws_lexeme w @ v) s"
proof -
  note r = reads_peek [OF assms(2)]
  let ?lx = "lx\<lparr>lx_in := mp_get (lx_in lx)\<rparr>"
  obtain lx2 where m: "set_mode Single_quoted NUL None (Number 0) ?lx = Inr lx2"
    using set_mode_quoted [of ?lx Single_quoted] assms(7) by auto
  obtain st where st: "lx_stack lx2 = st # lx_stack lx" "lx_in lx2 = mp_get (lx_in lx)" "lx_sep lx2 = lx_sep lx"
    using set_mode_in [OF m] set_mode_shape [OF m] by auto
  obtain i1 where i1: "single_quoted (ws_lexeme w) (lx_in lx2) = Inr (ws_lexeme w @ v, i1)" "reads i1 s"
    using single_quoted_reads [of "lx_in lx2" v s] r(4) st(2) assms(3) by auto
  let ?w = "(open_single w)\<lparr>ws_lexeme := ws_lexeme w @ v\<rparr>" and ?lx1 = "pop_mode (lx2\<lparr>lx_in := i1\<rparr>)"
  have sep: "separates (ws_st w) SQ (mp_get (lx_in lx)) = Inr False"
    using assms(6) value_separates [OF assms(1)] by (simp add: value_separators_def)
  have q: "st_quotes (ws_st w)" "st_mode (ws_st w) = Value" using assms(1) by (simp_all add: value_state_def)
  have "word_step w lx = Inr (True, ?w, ?lx1)"
    using r q sep m i1(1) by (simp add: word_step_def word_char_def plain_char_def Let_def)
  moreover have "reads_word ?w ?lx1 (ws_lexeme ?w) s"
    using assms(1,4,5) i1(2) by (intro read_stop) (simp_all add: pop_mode_def)
  ultimately show ?thesis using word_loop_go [of w lx ?w ?lx1] st by (simp add: reads_word_def pop_mode_def)
qed

lemma read_escaped:
  assumes "st_mode (ws_st w) = Double_quoted" "st_escapes (ws_st w) = None" "lx_stack lx = ws_st w # st # sts"
    "reads (lx_in lx) (escape_double v @ DQ # s)" "value_state ps st" "ends_name ps s" "ps \<noteq> BSL"
  shows "\<exists>w1 lx1. word_loop w lx = Inr (w1, lx1) \<and> ws_lexeme w1 = ws_lexeme w @ v \<and> ws_st w1 = st \<and>
    lx_stack lx1 = st # sts \<and> lx_sep lx1 = lx_sep lx \<and> reads (lx_in lx1) s"
  using assms
proof (induction v arbitrary: w lx)
  case Nil
  have rd: "reads (lx_in lx) (DQ # s)" using Nil.prems(4) by (simp add: escape_double_def)
  note r = reads_peek [OF rd]
  let ?w = "w\<lparr>ws_st := st\<rparr>" and ?lx = "lx\<lparr>lx_in := mp_get (lx_in lx), lx_stack := st # sts\<rparr>"
  have "word_step w lx = Inr (True, ?w, ?lx)"
    using r Nil.prems(1,3) by (simp add: word_step_def word_char_def quoted_char_def pop_mode_def Let_def)
  moreover have "reads_word ?w ?lx (ws_lexeme ?w) s"
    using Nil.prems(5-7) r(4) by (intro read_stop) simp_all
  ultimately show ?case using word_loop_go [of w lx ?w ?lx] by (auto simp: reads_word_def)
next
  case (Cons c v)
  have go: ?case if "word_step w lx = Inr (True, append_char c w, lx\<lparr>lx_in := i\<rparr>)" "reads i (escape_double v @ DQ # s)" for i
  proof -
    have "\<exists>w1 lx1. word_loop (append_char c w) (lx\<lparr>lx_in := i\<rparr>) = Inr (w1, lx1) \<and>
        ws_lexeme w1 = ws_lexeme (append_char c w) @ v \<and> ws_st w1 = st \<and>
        lx_stack lx1 = st # sts \<and> lx_sep lx1 = lx_sep (lx\<lparr>lx_in := i\<rparr>) \<and> reads (lx_in lx1) s"
      using Cons.prems that(2) by (intro Cons.IH) simp_all
    with word_loop_go [OF that(1)] show ?thesis by (simp add: append_char_def)
  qed
  show ?case
  proof (cases "special_in_double c")
    case True
    then have rd: "reads (lx_in lx) (BSL # c # escape_double v @ DQ # s)" using Cons.prems(4) by (simp add: escape_double_def)
    note r = reads_peek [OF rd]
    note r2 = reads_peek [OF r(4)]
    have "c \<noteq> LF" using True by (auto simp: special_in_double_def)
    then have "word_step w lx = Inr (True, append_char c w, lx\<lparr>lx_in := mp_get (mp_get (lx_in lx))\<rparr>)"
      using r r2 Cons.prems(1,2) by (simp add: word_step_def effective_escape_def)
    from go [OF this r2(4)] show ?thesis .
  next
    case False
    then have rd: "reads (lx_in lx) (c # escape_double v @ DQ # s)" using Cons.prems(4) by (simp add: escape_double_def)
    note r = reads_peek [OF rd]
    have "word_step w lx = Inr (True, append_char c w, lx\<lparr>lx_in := mp_get (lx_in lx)\<rparr>)"
      using r False Cons.prems(1)
      by (simp add: word_step_def word_char_def quoted_char_def take_char_def special_in_double_def)
    from go [OF this r(4)] show ?thesis .
  qed
qed


lemma read_double:
  assumes "value_state ps (ws_st w)" "reads (lx_in lx) (DQ # escape_double v @ DQ # s)" "ends_name ps s" "ps \<notin> {BSL, DQ}"
    "lx_stack lx = ws_st w # sts"
  shows "reads_word w lx (ws_lexeme w @ v) s"
proof -
  note r = reads_peek [OF assms(2)]
  let ?lx = "lx\<lparr>lx_in := mp_get (lx_in lx)\<rparr>"
  obtain lx2 where m: "set_mode Double_quoted NUL None (Number 0) ?lx = Inr lx2"
    using set_mode_quoted [of ?lx Double_quoted] assms(5) by auto
  have esc: "st_escapes (ws_st w) = None" using assms(1) by (simp add: value_state_def)
  then obtain st where st: "lx_stack lx2 = st # lx_stack lx" "st_mode st = Double_quoted" "st_escapes st = None"
    "lx_in lx2 = mp_get (lx_in lx)" "lx_sep lx2 = lx_sep lx"
    using m assms(5) by (auto simp: set_mode_def)
  let ?w = "(open_double w)\<lparr>ws_st := st\<rparr>"
  have sep: "separates (ws_st w) DQ (mp_get (lx_in lx)) = Inr False"
    using assms(4) value_separates [OF assms(1)] by (auto simp: value_separators_def)
  have q: "st_quotes (ws_st w)" "st_mode (ws_st w) = Value" using assms(1) by (simp_all add: value_state_def)
  have "word_step w lx = Inr (True, ?w, lx2)"
    using r q sep m st(1) by (simp add: word_step_def word_char_def plain_char_def Let_def)
  moreover have "\<exists>w1 lx1. word_loop ?w lx2 = Inr (w1, lx1) \<and> ws_lexeme w1 = ws_lexeme ?w @ v \<and> ws_st w1 = ws_st w \<and>
      lx_stack lx1 = ws_st w # sts \<and> lx_sep lx1 = lx_sep lx2 \<and> reads (lx_in lx1) s"
    using st r(4) assms by (intro read_escaped [of ?w lx2 "ws_st w" sts v s ps]) simp_all
  moreover have "ws_lexeme (open_double w) = ws_lexeme w" by (simp add: open_double_def split: quote_type.split)
  ultimately show ?thesis
    using word_loop_go [of w lx ?w lx2] assms(5) st(5) by (auto simp: reads_word_def)
qed

definition pair_ok :: "char \<Rightarrow> bool" where
  "pair_ok ps \<longleftrightarrow> ps \<notin> {SP, TAB, LF, CHR ''#'', BSL, SQ, DQ, CHR ''[''}"

lemma read_name:
  assumes "value_state ps (ws_st w)" "ws_lexeme w = []" "reads (lx_in lx) (write_simple_name True ps False v @ s)"
    "ends_name ps s" "pair_ok ps" "lx_stack lx = ws_st w # sts" "NUL \<notin> set v"
  shows "reads_word w lx v s"
proof -
  have ps: "ps \<notin> {BSL, DQ}" "ps \<noteq> BSL" "ps \<noteq> SQ" using assms(5) by (simp_all add: pair_ok_def)
  consider (empty) "v = []" | (double) "v \<noteq> []" "SQ \<in> set v"
    | (single) "v \<noteq> []" "SQ \<notin> set v" "\<exists>c \<in> set v. c \<in> set (quote_chars ps)"
    | (plain) "v \<noteq> []" "SQ \<notin> set v" "\<forall>c \<in> set v. c \<notin> set (quote_chars ps)" by blast
  then show ?thesis
  proof cases
    case empty
    with assms(3) have "reads (lx_in lx) (SQ # [] @ SQ # s)" by (simp add: write_simple_name_def)
    from read_single [OF assms(1) this _ assms(4) ps(2,3)] assms(2,6) empty show ?thesis by simp
  next
    case double
    with assms(3) have "reads (lx_in lx) (DQ # escape_double v @ DQ # s)" by (simp add: write_simple_name_def write_string_def)
    from read_double [OF assms(1) this assms(4) ps(1) assms(6)] assms(2) show ?thesis by simp
  next
    case single
    with assms(3) have "reads (lx_in lx) (SQ # v @ SQ # s)" by (simp add: write_simple_name_def write_string_def)
    from read_single [OF assms(1) this single(2) assms(4) ps(2,3)] assms(2,6) show ?thesis by simp
  next
    case plain
    have "write_simple_name True ps False v = v" using plain by (auto simp: write_simple_name_def write_string_def)
    moreover have "plain_in_value ps c" if "c \<in> set v" for c
    proof -
      have "c \<noteq> SQ" "c \<noteq> NUL" "c \<notin> set (quote_chars ps)" using that plain assms(7) by auto
      then show ?thesis by (auto simp: plain_in_value_def quote_chars_def value_separators_def split: if_splits)
    qed
    ultimately show ?thesis
      using read_plain [OF assms(1) _ assms(4) ps(2), of lx v] assms(2,3) by (simp add: list_all_iff)
  qed
qed

section \<open>Tokens\<close>

definition at_value :: "char \<Rightarrow> string \<Rightarrow> lexer \<Rightarrow> bool" where
  "at_value ps s lx \<longleftrightarrow> (\<exists>st sts. lx_stack lx = st # sts \<and> value_state ps st) \<and> reads (lx_in lx) s"

definition token_of :: "token \<Rightarrow> token_type \<times> bool \<times> string" where
  "token_of t = (tk_type t, tk_separated t, tk_value t)"

text \<open>The tokens of a list of names: the second component says whether a space has been seen.\<close>

fun name_tokens :: "bool \<Rightarrow> (string \<times> char) list \<Rightarrow> (token_type \<times> bool \<times> string) list" where
  "name_tokens sep [] = []"
| "name_tokens sep ((v, p) # ns) =
     (Tk_word, sep, v) # (if p \<noteq> NUL then (Tk_pair_separator, False, [p]) # name_tokens False ns else name_tokens True ns)"

definition name_head :: "char \<Rightarrow> char \<Rightarrow> bool" where
  "name_head ps c \<longleftrightarrow> c \<notin> {SP, TAB, LF, CHR ''#'', BSL, CHR ''$'', CHR ''('', CHR '')'', CHR ''{'', CHR ''}'', CHR ''['', ps}"

lemma write_simple_name_head:
  assumes "pair_ok ps" "NUL \<notin> set v"
  shows "\<exists>c u. write_simple_name True ps False v = c # u \<and> name_head ps c"
proof (cases "v \<noteq> [] \<and> SQ \<notin> set v \<and> (\<forall>c \<in> set v. c \<notin> set (quote_chars ps))")
  case False
  have h: "name_head ps SQ" "name_head ps DQ" using assms(1) by (auto simp: name_head_def pair_ok_def)
  consider "v = []" | "v \<noteq> []" "SQ \<in> set v" | "v \<noteq> []" "SQ \<notin> set v" "\<exists>c \<in> set v. c \<in> set (quote_chars ps)"
    using False by blast
  then show ?thesis using h by cases (simp_all add: write_simple_name_def write_string_def)
next
  case True
  then obtain c u where v: "v = c # u" "c \<notin> set (quote_chars ps)" "c \<noteq> NUL" using assms(2) by (cases v) auto
  then have "name_head ps c" by (auto simp: name_head_def quote_chars_def split: if_splits)
  moreover have "write_simple_name True ps False v = v" using True by (auto simp: write_simple_name_def write_string_def)
  ultimately show ?thesis using v by auto
qed

lemma skip_none:
  assumes "reads i (c # s)" "c \<notin> {SP, TAB, LF, CHR ''#'', BSL}"
  shows "spaces_loop nl r start i = Inr ((r, start), i)"
  using reads_peek [OF assms(1)] assms(2) by (subst spaces_loop.simps) simp

lemma skip_space:
  assumes "reads i (SP # c # s)" "c \<notin> {SP, TAB, LF, CHR ''#'', BSL}"
  shows "\<exists>i1. spaces_loop nl r start i = Inr ((True, start), i1) \<and> reads i1 (c # s)"
  using reads_peek [OF assms(1)] skip_none [of "mp_get i" c s nl True start] assms(2)
  by (subst spaces_loop.simps) simp

text \<open>The space before a token, if there is one, and the token itself.\<close>

lemma skip_value:
  assumes "at_value ps ((if b then [SP] else []) @ c # s) lx" "\<not> lx_sep lx" "c \<notin> {SP, TAB, LF, CHR ''#'', BSL}"
  shows "\<exists>start lx1. lx_skip_spaces lx = Inr ((b, start), lx1) \<and> lx_stack lx1 = lx_stack lx \<and> reads (lx_in lx1) (c # s) \<and>
    \<not> lx_sep lx1"
proof -
  obtain st sts where st: "lx_stack lx = st # sts" "st_space st" "st_newline st"
    using assms(1) by (auto simp: at_value_def value_state_def)
  define start where "start = (xcolumn (head (lx_in lx)) = 1)"
  have rd: "reads (lx_in lx) ((if b then [SP] else []) @ c # s)" using assms(1) by (simp add: at_value_def)
  then have pk: "lx_peek (lx_in lx) = Inr (head (lx_in lx))" using reads_peek(1) by (cases b) fastforce+
  have "\<exists>i1. spaces_loop True False start (lx_in lx) = Inr ((b, start), i1) \<and> reads i1 (c # s)"
    using rd skip_none [OF _ assms(3)] skip_space [OF _ assms(3)] by (cases b) auto
  then obtain i1 where "spaces_loop True False start (lx_in lx) = Inr ((b, start), i1)" "reads i1 (c # s)" by blast
  with st pk assms(2) show ?thesis
    by (intro exI [of _ start] exI [of _ "lx\<lparr>lx_sep := False, lx_in := i1\<rparr>"])
      (simp add: lx_skip_spaces_def Let_def start_def)
qed

lemma value_state_lsbrace: "value_state ps st \<Longrightarrow> value_state ps (st\<lparr>st_lsbrace := b\<rparr>)"
  by (simp add: value_state_def)

lemma next_name:
  assumes "at_value ps ((if b then [SP] else []) @ write_simple_name True ps False v @ s) lx" "\<not> lx_sep lx" "pair_ok ps"
    "NUL \<notin> set v" "ends_name ps s"
  shows "\<exists>t lx1. lx_next lx = Inr (t, lx1) \<and> token_of t = (Tk_word, b, v) \<and> at_value ps s lx1 \<and> \<not> lx_sep lx1"
proof -
  obtain c u where c: "write_simple_name True ps False v = c # u" "name_head ps c" using write_simple_name_head [OF assms(3,4)] by blast
  have at: "at_value ps ((if b then [SP] else []) @ c # u @ s) lx" using assms(1) c(1) by simp
  have nc: "c \<notin> {SP, TAB, LF, CHR ''#'', BSL}" using c(2) by (simp add: name_head_def)
  obtain start lx0 where sk: "lx_skip_spaces lx = Inr ((b, start), lx0)" "lx_stack lx0 = lx_stack lx"
    "reads (lx_in lx0) (c # u @ s)" "\<not> lx_sep lx0"
    using skip_value [OF at assms(2) nc] by blast
  obtain st sts where st: "lx_stack lx = st # sts" "value_state ps st" using at by (auto simp: at_value_def)
  have st0: "lx_stack lx0 = st # sts" using st(1) sk(2) by simp
  note r = reads_peek [OF sk(3)]
  let ?st = "st\<lparr>st_lsbrace := False\<rparr>" and ?lx = "lx0\<lparr>lx_stack := st\<lparr>st_lsbrace := False\<rparr> # sts\<rparr>"
  have cl: "clear_lsbrace lx0 = ?lx" using st0 by (simp add: clear_lsbrace_def set_top_def)
  have m: "st_mode st = Value" "st_pair st = ps" "mode_token Value c = None"
    using st(2) c(2) by (simp_all add: value_state_def mode_token_def name_head_def)
  have nx: "lx_next lx = lex_word ?st b ?lx"
    using sk(1) st(1) st0 r m c(2) by (simp add: lx_next_def next_plain_def cl Let_def opens_lsbrace_def name_head_def)
  let ?w = "\<lparr>ws_st = ?st, ws_lexeme = [], ws_qtype = (if st_mode ?st = Double_quoted then Double else Unquoted), ws_qcomp = False\<rparr>"
  have "reads_word ?w ?lx v s"
    using value_state_lsbrace [OF st(2)] sk(3) c(1) assms(3-5) by (intro read_name [of ps ?w ?lx v s sts]) simp_all
  then obtain w1 lx1 where w: "word_loop ?w ?lx = Inr (w1, lx1)" "ws_lexeme w1 = v" "ws_st w1 = ?st"
    "lx_stack lx1 = ?st # sts" "lx_sep lx1 = lx_sep lx0" "reads (lx_in lx1) s"
    by (auto simp: reads_word_def)
  have "\<exists>t. lx_next lx = Inr (t, lx1) \<and> token_of t = (Tk_word, b, v)"
    unfolding nx using r w m(1) by (simp add: lex_word_def token_of_def)
  moreover have "at_value ps s lx1" using w value_state_lsbrace [OF st(2)] by (auto simp: at_value_def)
  ultimately show ?thesis using w(5) sk(4) by auto
qed

lemma next_pair:
  assumes "at_value ps (ps # s) lx" "\<not> lx_sep lx" "pair_ok ps" "ps \<noteq> NUL"
  shows "\<exists>t lx1. lx_next lx = Inr (t, lx1) \<and> token_of t = (Tk_pair_separator, False, [ps]) \<and> at_value ps s lx1 \<and> \<not> lx_sep lx1"
proof -
  have nc: "ps \<notin> {SP, TAB, LF, CHR ''#'', BSL}" using assms(3) by (simp add: pair_ok_def)
  have at: "at_value ps ((if False then [SP] else []) @ ps # s) lx" using assms(1) by simp
  obtain start lx0 where sk: "lx_skip_spaces lx = Inr ((False, start), lx0)" "lx_stack lx0 = lx_stack lx"
    "reads (lx_in lx0) (ps # s)" "\<not> lx_sep lx0"
    using skip_value [OF at assms(2) nc] by blast
  obtain st sts where st: "lx_stack lx = st # sts" "value_state ps st" using assms(1) by (auto simp: at_value_def)
  have st0: "lx_stack lx0 = st # sts" using st(1) sk(2) by simp
  note r = reads_peek [OF sk(3)]
  let ?lx = "lx0\<lparr>lx_stack := st\<lparr>st_lsbrace := False\<rparr> # sts, lx_in := mp_get (lx_in lx0)\<rparr>"
  have cl: "clear_lsbrace lx0 = lx0\<lparr>lx_stack := st\<lparr>st_lsbrace := False\<rparr> # sts\<rparr>"
    using st0 by (simp add: clear_lsbrace_def set_top_def)
  have m: "st_mode st = Value" "st_pair st = ps" using st(2) by (simp_all add: value_state_def)
  have "\<exists>t. lx_next lx = Inr (t, ?lx) \<and> token_of t = (Tk_pair_separator, False, [ps])"
    using sk(1) st(1) st0 r m assms(3) by (simp add: lx_next_def next_plain_def cl Let_def opens_lsbrace_def pair_ok_def
        token_of_def make_token_def)
  moreover have "at_value ps s ?lx" using r(4) value_state_lsbrace [OF st(2)] by (simp add: at_value_def)
  ultimately show ?thesis using sk(4) by fastforce
qed


lemma names_end: "s = [] \<or> hd s = LF \<Longrightarrow> ends_name ps s"
  by (auto simp: ends_name_def)

text \<open>C8: Quoted names survive: a list of names, with or without pairs, that is printed with quotes is read back by the
  lexer in the value mode as the same names, separated as they were, up to the end of the line, whatever
  characters the names consist of.\<close>

theorem quoted_names_roundtrip:
  assumes "at_value ps ((if b then [SP] else []) @ write_names True ps False ns @ s) lx" "\<not> lx_sep lx" "pair_ok ps"
    "\<forall>(v, p) \<in> set ns. NUL \<notin> set v \<and> (p = NUL \<or> p = ps)" "s = [] \<or> hd s = LF" "b \<longrightarrow> ns \<noteq> []"
  shows "\<exists>ts lx1. lex_calls (length (name_tokens b ns)) lx = Inr (ts, lx1) \<and> map token_of ts = name_tokens b ns \<and>
    at_value ps s lx1"
  using assms
proof (induction ns arbitrary: lx b)
  case Nil
  then show ?case by simp
next
  case (Cons n ns)
  obtain v p where n: "n = (v, p)" by (cases n)
  have v: "NUL \<notin> set v" "p = NUL \<or> p = ps" "\<forall>(v, p) \<in> set ns. NUL \<notin> set v \<and> (p = NUL \<or> p = ps)"
    using Cons.prems(4) n by auto
  let ?b = "p = NUL \<and> ns \<noteq> []"
  let ?rest = "(if ?b then [SP] else []) @ write_names True ps False ns @ s"
  let ?s = "(if p \<noteq> NUL then [p] else []) @ ?rest"
  have at: "at_value ps ((if b then [SP] else []) @ write_simple_name True ps False v @ ?s) lx"
    using Cons.prems(1) n by (auto split: if_splits)
  have "ends_name ps ?s"
    using v(2) names_end [OF Cons.prems(5)] by (cases "p = NUL"; cases "ns = []") (auto simp: ends_name_def)
  from next_name [OF at Cons.prems(2,3) v(1) this] obtain t lx1 where t: "lx_next lx = Inr (t, lx1)"
    "token_of t = (Tk_word, b, v)" "at_value ps ?s lx1" "\<not> lx_sep lx1" by blast
  show ?case
  proof (cases "p = NUL")
    case True
    have "\<exists>ts lx2. lex_calls (length (name_tokens ?b ns)) lx1 = Inr (ts, lx2) \<and> map token_of ts = name_tokens ?b ns \<and> at_value ps s lx2"
      using t(3,4) Cons.prems(3,5) v(3) True by (intro Cons.IH) simp_all
    moreover have "name_tokens ?b ns = name_tokens True ns" using True by (cases ns) auto
    ultimately show ?thesis using t(1,2) n True by auto
  next
    case False
    with v(2) t(3) have at1: "at_value ps (ps # ?rest) lx1" "ps \<noteq> NUL" "p = ps" by auto
    from next_pair [OF at1(1) t(4) Cons.prems(3) at1(2)] obtain t' lx2 where t': "lx_next lx1 = Inr (t', lx2)"
      "token_of t' = (Tk_pair_separator, False, [ps])" "at_value ps ?rest lx2" "\<not> lx_sep lx2" by blast
    have "\<exists>ts lx3. lex_calls (length (name_tokens False ns)) lx2 = Inr (ts, lx3) \<and> map token_of ts = name_tokens False ns \<and>
        at_value ps s lx3"
      using t'(3,4) Cons.prems(3,5) v(3) False by (intro Cons.IH) simp_all
    then show ?thesis using t(1,2) t'(1,2) n False at1(3) by auto
  qed
qed


section \<open>Concrete buildfiles\<close>

text \<open>The extended characters of a text in ASCII.\<close>

fun place :: "nat \<Rightarrow> nat \<Rightarrow> string \<Rightarrow> input" where
  "place l k [] = [\<lparr>xvalue = Eof, xline = l, xcolumn = k\<rparr>]"
| "place l k (c # s) =
     \<lparr>xvalue = Ch c, xline = l, xcolumn = k\<rparr> # (if c = LF then place (l + 1) 1 s else place l (k + 1) s)"

definition normal_lexer :: "string \<Rightarrow> lexer" where
  "normal_lexer s =
     \<lparr>lx_in = place 1 1 s, lx_sep = False,
      lx_stack = [\<lparr>st_mode = Normal, st_data = Number 0, st_hold = None, st_lsbrace = True, st_lsbrace_unsep = False,
        st_pair = CHR ''@'', st_space = True, st_newline = True, st_quotes = True, st_escapes = None,
        st_first = fst (separators Normal), st_second = snd (separators Normal)\<rparr>]\<rparr>"

lemma normal_lexer_start: "lexer_start (normal_lexer s)"
  by (auto simp: lexer_start_def new_lexer_def set_mode_def normal_lexer_def)

definition after_next :: "lexer \<Rightarrow> lexer" where
  "after_next lx = (case lx_next lx of Inr (t, lx1) \<Rightarrow> lx1 | Inl e \<Rightarrow> lx)"

definition next_type :: "lexer \<Rightarrow> token_type" where
  "next_type lx = (case lx_next lx of Inr (t, lx1) \<Rightarrow> tk_type t | Inl e \<Rightarrow> Tk_eos)"

definition after_peek :: "lexer \<Rightarrow> lexer" where
  "after_peek lx = (case peek_chars lx of Inr (r, lx1) \<Rightarrow> lx1 | Inl e \<Rightarrow> lx)"

lemma after_next_step: "next_type lx \<noteq> Tk_eos \<Longrightarrow> lexer_step lx (after_next lx)"
  by (auto simp: next_type_def after_next_def intro: lexer_step.call split: sum.splits)

lemma else_word: "next_type (normal_lexer ''else (x)'') = Tk_word"
  by code_simp

lemma lexer_total_witness:
  "lexer_start (normal_lexer ''else (x)'') \<and> lx_next (normal_lexer ''else (x)'') \<noteq> Inl Lex_assertion \<and>
   lexer_weight (after_next (normal_lexer ''else (x)'')) < lexer_weight (normal_lexer ''else (x)'')"
  using lexer_total [OF normal_lexer_start rtranclp.rtrancl_refl, of "''else (x)''"] normal_lexer_start else_word
  by (auto simp: next_type_def after_next_def split: sum.splits prod.splits)

lemma lexer_ends_witness:
  "\<exists>n \<le> 20. (\<exists>l c w. lex_calls n (normal_lexer ''else (x)'') = Inl (Lex_fail l c w)) \<or>
    (\<exists>ts t lx1. lex_calls n (normal_lexer ''else (x)'') = Inr (ts @ [t], lx1) \<and> tk_type t = Tk_eos)"
  using lexer_ends [OF normal_lexer_start rtranclp.rtrancl_refl, of "''else (x)''"]
  by (simp add: lexer_weight_def normal_lexer_def)

lemma peek_chars_transparent_witness:
  "lx_next (after_peek (after_next (normal_lexer ''else (x)''))) = lx_next (after_next (normal_lexer ''else (x)''))"
proof -
  let ?lx = "after_next (normal_lexer ''else (x)'')"
  have s: "lexer_step\<^sup>*\<^sup>* (normal_lexer ''else (x)'') ?lx" using after_next_step [of "normal_lexer ''else (x)''"] else_word by (intro r_into_rtranclp) simp
  have p: "peek_chars ?lx = Inr (((CHR ''('', CHR ''x''), True), after_peek ?lx)" by code_simp
  have c: "xcolumn (head (lx_in (after_peek ?lx))) \<noteq> 1" by code_simp
  show ?thesis by (rule peek_chars_transparent [OF normal_lexer_start s p c])
qed

text \<open>
  If the characters are at the beginning of a line, which happens after a continued line, then the newline of an
  empty line is lost.
\<close>

lemma peek_chars_loses_newline:
  "next_type (after_next (normal_lexer (''else '' @ [BSL, LF, LF] @ ''x''))) = Tk_newline"
  "next_type (after_peek (after_next (normal_lexer (''else '' @ [BSL, LF, LF] @ ''x'')))) = Tk_word"
  by code_simp+

definition value_lexer :: "string \<Rightarrow> lexer" where
  "value_lexer s =
     (normal_lexer s)\<lparr>lx_stack :=
       \<lparr>st_mode = Value, st_data = Number 0, st_hold = None, st_lsbrace = False, st_lsbrace_unsep = False,
        st_pair = CHR ''@'', st_space = True, st_newline = True, st_quotes = True, st_escapes = None,
        st_first = fst (separators Value), st_second = snd (separators Value)\<rparr> # lx_stack (normal_lexer s)\<rparr>"

lemma value_lexer_mode: "set_mode Value (CHR ''@'') None (Number 0) (normal_lexer s) = Inr (value_lexer s)"
  by (simp add: set_mode_def value_lexer_def normal_lexer_def)

lemma quoted_names_roundtrip_witness:
  "\<exists>ts lx1. lex_calls 4 (value_lexer ([CHR ''a'', SP] @ [DQ] @ [CHR ''b'', SQ, BSL, CHR ''$''] @ [DQ] @ ''@'' @ [SQ, SP, SQ])) = Inr (ts, lx1) \<and>
    map token_of ts = [(Tk_word, False, ''a''), (Tk_word, True, [CHR ''b'', SQ, CHR ''$'']),
      (Tk_pair_separator, False, ''@''), (Tk_word, False, '' '')]"
proof -
  let ?ns = "[(''a'', NUL), ([CHR ''b'', SQ, CHR ''$''], CHR ''@''), ('' '', NUL)]"
  let ?s = "[CHR ''a'', SP] @ [DQ] @ [CHR ''b'', SQ, BSL, CHR ''$''] @ [DQ] @ ''@'' @ [SQ, SP, SQ]"
  have w: "write_names True (CHR ''@'') False ?ns = ?s" by code_simp
  have "reads (place 1 1 ?s) ?s" by (simp add: reads_def)
  then have "at_value (CHR ''@'') ?s (value_lexer ?s)"
    by (simp add: at_value_def value_lexer_def normal_lexer_def value_state_def)
  with w have "at_value (CHR ''@'') ((if False then [SP] else []) @ write_names True (CHR ''@'') False ?ns @ []) (value_lexer ?s)"
    by simp
  moreover have "\<not> lx_sep (value_lexer ?s)" "pair_ok (CHR ''@'')" by (simp_all add: value_lexer_def normal_lexer_def pair_ok_def)
  moreover have "\<forall>(v, p) \<in> set ?ns. NUL \<notin> set v \<and> (p = NUL \<or> p = CHR ''@'')" by simp
  ultimately have r: "\<exists>ts lx1. lex_calls (length (name_tokens False ?ns)) (value_lexer ?s) = Inr (ts, lx1) \<and>
      map token_of ts = name_tokens False ?ns \<and> at_value (CHR ''@'') [] lx1"
    by (rule quoted_names_roundtrip) simp_all
  have len: "length (name_tokens False ?ns) = 4" by simp
  have toks: "name_tokens False ?ns = [(Tk_word, False, ''a''), (Tk_word, True, [CHR ''b'', SQ, CHR ''$'']),
      (Tk_pair_separator, False, ''@''), (Tk_word, False, '' '')]" by simp
  from r [unfolded len, unfolded toks] show ?thesis
    by (elim exE conjE) (intro exI conjI; assumption)
qed

end
