(* ===== verification/Spec2Isabelle.thy ===== *)
theory Spec2Isabelle
  imports Bpkg_Constraint_Properties Bpkg_Satisfaction Build_Class_Properties Char_Scanner_Properties
    Manifest_Safety Phase_Mutex_Properties Path_Pattern_Properties Path_Properties
    Depdb_Properties Task_Queue_Properties Target_State_Properties Name_Quoting
begin

text \<open>
  A verification development of the build2 toolchain: the build system \<open>build2\<close>, the package manager
  \<open>bpkg\<close> with its library \<open>libbpkg\<close>, the project manager \<open>bdep\<close>, and the utility library \<open>libbutl\<close> that
  they all use. The development models the parts of the toolchain that decide by computing: which version
  is newer, which constraint a version satisfies, for which configurations a package is built, what the
  bytes of a manifest mean, what the tokens of a buildfile are, which names a pattern matches, where a path leads, when a target is out of date, and
  which thread may work in which phase of a build, on which task and on which target. Every definition is a translation of code under \<open>src\<close>; input and output, the
  operating system and the database are left out.

  How the parts use each other. \<open>bpkg\<close> and \<open>bdep\<close> read manifests with the manifest parser, which
  reads characters through the scanner, which validates UTF-8. The values of a manifest are package
  versions, version constraints and build class expressions of \<open>libbpkg\<close>. The packages of the toolchain
  have standard versions (\<open>libbutl\<close>), which are also package versions, and their constraints are
  completed and turned into package constraints; \<open>bpkg\<close> then decides which constraint implies which.
  \<open>build2\<close> splits buildfiles into tokens, also over the scanner, matches names against path
  patterns, keeps the paths of targets and scopes normalized, and runs its threads in phases under the phase mutex;
  the threads match and execute targets, which they lock with their task count, through queues of tasks, and recipes
  keep what they depend on in dependency databases.

  Conventions. A C++ exception is the left value of a sum, with the message where the code builds
  one, and a failed assertion is a value of its own, so that the absence of failed assertions is a
  property and not a convention. Unsigned integers that may wrap are words (\<open>64 word\<close>) or natural
  numbers with the reduction written out; the properties state the bounds under which no reduction takes
  place. Strings are lists of characters with codes below 256; pointers into a string are the
  remaining list, and the byte at the end of the string is 0. Loops are recursive functions, with a measure
  where the recursion is not structural; the one loop that may not end, the walk through the
  inheritance map of build classes, is a partial function, and the property about it gives the condition
  under which it ends. There is no fuel. Notation beyond the library's is not used.

  The theories, in the order of the code's layers:

  \<^item> \<open>Butl_Prelude\<close>: the failures of C++ functions, character classes, decimal numbers
    (\<open>strtoull ()\<close>, printing) and the generic lemmas on lists and digits that the others share.

  \<^item> \<open>Standard_Version\<close>: \<open>libbutl/standard-version.cxx\<close>, the class \<open>standard_version\<close>: its record, parsing
    with snapshots, the constructors with \<open>check_version ()\<close>, observers, comparison and printing. Its
    lemmas show that what is parsed is well formed and that printing and parsing are inverse.
    \<open>Standard_Constraint\<close> and \<open>Constraint_Properties\<close>: \<open>standard_version_constraint\<close>, with ranges, comparisons,
    the operators \<open>~\<close> and \<open>^\<close> and the dependent version \<open>$\<close>; the set of versions that the two operators stand
    for; printing and parsing; the assertions of the parser.

  \<^item> \<open>Bpkg_Version\<close>, \<open>Bpkg_Version_Parser\<close> and \<open>Bpkg_Version_Properties\<close>: the class \<open>version\<close> of
    \<open>libbpkg/manifest.cxx\<close>: the parser, which builds the canonical forms for comparison while it walks
    over the string, comparison and printing; they are inverse to each other, the canonical order is the
    documented one, and one assertion can fail.
    \<open>Standard_Package\<close>: a standard version that is not a stub and whose snapshot number has at most sixteen digits
    is a package version, and the two orders agree.
    \<open>Bpkg_Constraint\<close> and \<open>Bpkg_Constraint_Properties\<close>: \<open>version_constraint\<close>, with completion by the
    dependent version (\<open>effective ()\<close>). \<open>Bpkg_Satisfaction\<close>: \<open>bpkg/satisfaction.cxx\<close>; when one
    constraint is found to satisfy another, every version that satisfies the first satisfies the second, for
    versions and endpoints without a release part of zeros; with one it may be false.

  \<^item> \<open>Build_Class\<close> and \<open>Build_Class_Properties\<close>: \<open>build_class_term\<close> and \<open>build_class_expr\<close> of
    \<open>libbpkg/manifest.cxx\<close>: the parser, printing and matching through the inheritance map; matching is the
    evaluation of the expression as a set expression.

  \<^item> \<open>Utf8\<close> and \<open>Utf8_Properties\<close>: \<open>libbutl/utf8.ixx\<close> and \<open>unicode.cxx\<close>: the validator accepts exactly
    the encodings of allowed codepoints. \<open>Char_Scanner\<close> and \<open>Char_Scanner_Properties\<close>:
    \<open>libbutl/char-scanner.txx\<close>: the characters delivered, their lines and columns.

  \<^item> \<open>Manifest_Parser\<close>, \<open>Manifest_Serializer\<close>, \<open>Manifest_Properties\<close> and \<open>Manifest_Safety\<close>:
    \<open>libbutl/manifest-parser.cxx\<close> and \<open>manifest-serializer.cxx\<close>, as state machines with one step for each call
    of \<open>next ()\<close>. What the serializer writes, the parser reads back as the same pairs, over the scanner and
    the validator; for arbitrary bytes no assertion fails and a client that goes on calling comes to
    an error or the end of the stream; a comment merged into a value is split off again.

  \<^item> \<open>Path_Pattern\<close> and \<open>Path_Pattern_Properties\<close>: \<open>libbutl/path-pattern.cxx\<close>: the terms of a pattern, and the
    two matching algorithms against the language of the terms. \<open>Path\<close> and \<open>Path_Properties\<close>:
    \<open>libbutl/path.mxx\<close>, \<open>path.ixx\<close> and \<open>path.txx\<close>: paths with their trailing separator, their parts,
    combination, normalization and relative paths, against lists of components and the place that such a
    list leads to.

  \<^item> \<open>Step_System\<close>, \<open>Phase_Mutex\<close> and \<open>Phase_Mutex_Properties\<close>: the contracts of step relations (an invariant;
    a weight that brings a part of the system to rest) as locales, and \<open>run_phase_mutex\<close> of
    \<open>libbuild2/context.cxx\<close> with any number of threads as a step relation: exclusion of phases, counters,
    no lost wakeup (every run of the calls in progress is bounded and ends well), and the failure of the load phase.

  \<^item> \<open>Buildfile_Lexer\<close> and \<open>Buildfile_Lexer_Properties\<close>: \<open>libbuild2/lexer.cxx\<close>, the lexer of buildfiles with all its
    modes and their stack, over the scanner: no assertion fails whatever modes the parser chooses, every call of
    \<open>next ()\<close> makes progress, and \<open>peek_chars ()\<close> does not change the next token. \<open>Name_Quoting\<close>: the printing of
    simple names in \<open>libbuild2/name.cxx\<close>; the lexer reads quoted names back.

  \<^item> \<open>Task_Queue\<close> and \<open>Task_Queue_Properties\<close>: the task queue of \<open>libbuild2/scheduler.hxx\<close>, a circular buffer with a
    mark, for any depth: it is a bounded double-ended queue, and with nested execution and helpers its owner only
    takes tasks of its own level.

  \<^item> \<open>Target_State\<close> and \<open>Target_State_Properties\<close>: \<open>lock_impl ()\<close>, \<open>match_impl ()\<close>, \<open>match ()\<close>, \<open>execute ()\<close>,
    \<open>execute_impl ()\<close> and \<open>execute_direct ()\<close> of \<open>libbuild2/algorithm.cxx\<close> for one target and any number of threads, every
    access to the task count a step of its own: exclusion, no failed assertion, progress of the target, a recipe
    that runs at most once, and release of the lock in every run, with the one exception of a task that cannot lock
    the phase. Rules and recipes are inputs of the steps, within their contract; their sub-tasks are not counted.

  \<^item> \<open>Depdb\<close> and \<open>Depdb_Properties\<close>: \<open>libbuild2/depdb.cxx\<close>, the file of lines that a recipe compares and rewrites,
    with the buffer of the stream and a modification time; a crash at any moment leaves no file that the next
    run takes for an up to date one, if lines are not expected after \<open>skip ()\<close>.

  Not modelled, with the reasons in the manifest of the development: the buildfile parser, variables and
  scopes, the rules themselves, the threads of the scheduler and the C and C++ support of \<open>build2\<close>; the
  commands of \<open>bpkg\<close> and \<open>bdep\<close>, which are transactions on a database and processes; generated code (option parsers, database support); and the
  vendored libraries.
\<close>

end
